(* ===== verification/RN_Prelude.thy ===== *)
theory RN_Prelude
  imports Complex_Main
begin

text \<open>
  Shared vocabulary of the development: faults as values and the sequencing of
  operations that may fault, assertions of the debug build, C++ integer division,
  block copies on lists (\<open>std::copy\<close>, \<open>memcpy\<close>), and the named collections that
  the component theories feed.
\<close>

named_theorems bounds_simps "unfolding rules for size and index arithmetic"
named_theorems inv_intros "introduction rules: operations preserve their invariants"

subsection \<open>Faults\<close>

text \<open>
  How a C++ operation of the library can fail to return normally: a failed
  \<open>assert\<close>, an \<open>abort()\<close> (reached through \<open>LOG_FATAL\<close> and \<open>LOG_SYSFATAL\<close>), an
  access outside an object, the call of an empty \<open>std::function\<close>, or a recursion deeper than the
  stack.
\<close>

datatype fault = AssertFailed | Aborted | OutOfRange | BadCall | StackOverflow

type_synonym 'a result = "fault + 'a"

definition rbind :: "'a result \<Rightarrow> ('a \<Rightarrow> 'b result) \<Rightarrow> 'b result" where
  "rbind r f = (case r of Inl e \<Rightarrow> Inl e | Inr x \<Rightarrow> f x)"

lemma rbind_simps [simp]:
  "rbind (Inl e) f = Inl e"
  "rbind (Inr x) f = f x"
  by (simp_all add: rbind_def)

lemma rbind_eq_Inr_iff: "rbind r f = Inr y \<longleftrightarrow> (\<exists>x. r = Inr x \<and> f x = Inr y)"
  by (cases r) auto

lemma rbind_eq_Inl_iff:
  "rbind r f = Inl e \<longleftrightarrow> r = Inl e \<or> (\<exists>x. r = Inr x \<and> f x = Inl e)"
  by (cases r) auto

lemma rbind_assoc: "rbind (rbind r f) g = rbind r (\<lambda>x. rbind (f x) g)"
  by (cases r) auto

lemma rbind_cong [fundef_cong]:
  "r = r' \<Longrightarrow> (\<And>x. r' = Inr x \<Longrightarrow> f x = f' x) \<Longrightarrow> rbind r f = rbind r' f'"
  by (cases r') auto

text \<open>
  The Debug build (the default of the root CMakeLists.txt) keeps assertions; the
  Release build defines NDEBUG and drops them, together with any effect their
  argument has. Operations whose assertions are pure take the Debug reading.
\<close>

datatype build = Debug | Release

definition rassert :: "bool \<Rightarrow> 'a result \<Rightarrow> 'a result" where
  "rassert c k = (if c then k else Inl AssertFailed)"

lemma rassert_True [simp]: "rassert True k = k"
  by (simp add: rassert_def)

lemma rassert_eq_Inr_iff: "rassert c k = Inr y \<longleftrightarrow> c \<and> k = Inr y"
  by (simp add: rassert_def)

lemmas result_iffs = rbind_eq_Inr_iff rassert_eq_Inr_iff

text \<open>Running an operation over a list, stopping at the first fault.\<close>

fun rfold :: "('a \<Rightarrow> 's \<Rightarrow> 's result) \<Rightarrow> 'a list \<Rightarrow> 's \<Rightarrow> 's result" where
  "rfold f [] s = Inr s"
| "rfold f (x # xs) s = rbind (f x s) (rfold f xs)"

lemma rfold_append: "rfold f (xs @ ys) s = rbind (rfold f xs s) (rfold f ys)"
proof (induction xs arbitrary: s)
  case (Cons x xs)
  then have "rfold f (xs @ ys) = (\<lambda>s. rbind (rfold f xs s) (rfold f ys))" by (rule ext)
  then show ?case by (simp add: rbind_assoc)
qed simp

lemma rfold_invariant:
  assumes "\<And>x s s'. P s \<Longrightarrow> f x s = Inr s' \<Longrightarrow> P s'"
    and "P s" and "rfold f xs s = Inr s'"
  shows "P s'"
  using assms(2,3)
proof (induction xs arbitrary: s)
  case Nil
  then show ?case by simp
next
  case (Cons x xs)
  then show ?case using assms(1) by (auto simp: rbind_eq_Inr_iff)
qed

subsection \<open>C++ integer division\<close>

text \<open>
  \<open>/\<close> and \<open>%\<close> of C++ truncate towards zero; the remainder has the sign of the
  dividend.
\<close>

definition cdiv :: "int \<Rightarrow> int \<Rightarrow> int" where
  "cdiv a b = sgn a * sgn b * (\<bar>a\<bar> div \<bar>b\<bar>)"

definition cmod :: "int \<Rightarrow> int \<Rightarrow> int" where
  "cmod a b = a - cdiv a b * b"

lemma cdiv_nonneg [simp]: "0 \<le> a \<Longrightarrow> 0 < b \<Longrightarrow> cdiv a b = a div b"
  by (cases "a = 0") (auto simp: cdiv_def sgn_if)

lemma cmod_nonneg [simp]: "0 \<le> a \<Longrightarrow> 0 < b \<Longrightarrow> cmod a b = a mod b"
  by (simp add: cmod_def minus_div_mult_eq_mod)

lemma cdiv_neg: "a < 0 \<Longrightarrow> 0 < b \<Longrightarrow> cdiv a b = - ((- a) div b)"
  by (simp add: cdiv_def sgn_if)

lemma cmod_neg: "a < 0 \<Longrightarrow> 0 < b \<Longrightarrow> cmod a b = - ((- a) mod b)"
  by (simp add: cmod_def cdiv_neg minus_div_mult_eq_mod [symmetric])

lemma cdiv_uminus: "0 < b \<Longrightarrow> cdiv (- a) b = - cdiv a b"
  by (simp add: cdiv_def sgn_minus)

lemma cmod_uminus: "0 < b \<Longrightarrow> cmod (- a) b = - cmod a b"
  by (simp add: cmod_def cdiv_uminus)

lemma abs_cdiv_less: "a \<noteq> 0 \<Longrightarrow> 1 < b \<Longrightarrow> \<bar>cdiv a b\<bar> < \<bar>a\<bar>"
proof -
  assume a: "a \<noteq> 0" and b: "1 < b"
  then have "\<bar>a\<bar> div b < \<bar>a\<bar>" by (intro int_div_less_self) auto
  moreover have "\<bar>cdiv a b\<bar> = \<bar>a\<bar> div b"
    using a b by (auto simp: cdiv_def sgn_if pos_imp_zdiv_nonneg_iff)
  ultimately show ?thesis by simp
qed

subsection \<open>Block copies\<close>

text \<open>
  \<open>blit dst i src\<close> is \<open>dst\<close> with \<open>src\<close> written at offset \<open>i\<close>: the effect of
  \<open>std::copy\<close> and of \<open>memcpy\<close> when the target range lies inside \<open>dst\<close>.
\<close>

definition blit :: "'a list \<Rightarrow> nat \<Rightarrow> 'a list \<Rightarrow> 'a list" where
  "blit dst i src = take i dst @ src @ drop (i + length src) dst"

lemma length_blit [simp]: "i + length src \<le> length dst \<Longrightarrow> length (blit dst i src) = length dst"
  by (simp add: blit_def)

lemma drop_blit: "i + length src \<le> length dst \<Longrightarrow> drop i (blit dst i src) = src @ drop (i + length src) dst"
  by (simp add: blit_def)

lemma take_blit: "i + length src \<le> length dst \<Longrightarrow> j \<le> i \<Longrightarrow> take j (blit dst i src) = take j dst"
  by (simp add: blit_def min_def)

lemma drop_blit_before:
  assumes "j \<le> i" and "i + length src \<le> length dst"
  shows "drop j (blit dst i src) = take (i - j) (drop j dst) @ src @ drop (i + length src) dst"
proof -
  have "j - length (take i dst) = 0" using assms by simp
  then show ?thesis by (simp add: blit_def drop_take)
qed

lemma take_drop_blit_before:
  assumes "i + length src \<le> length dst" and "j + n \<le> i"
  shows "take n (drop j (blit dst i src)) = take n (drop j dst)"
proof -
  have "n \<le> length (take (i - j) (drop j dst))" using assms by simp
  moreover have "take n (take (i - j) (drop j dst)) = take n (drop j dst)"
    using assms by (simp add: min_def)
  ultimately show ?thesis using assms by (simp add: drop_blit_before)
qed

lemma take_drop_blit_at:
  "i + length src \<le> length dst \<Longrightarrow> take (length src) (drop i (blit dst i src)) = src"
  by (simp add: drop_blit)

lemma take_drop_blit_extend:
  assumes "j \<le> i" and "i + length src \<le> length dst"
  shows "take (i + length src - j) (drop j (blit dst i src)) = take (i - j) (drop j dst) @ src"
proof -
  have "length (take (i - j) (drop j dst) @ src) = i + length src - j" using assms by simp
  then show ?thesis
    using assms by (metis append_eq_conv_conj append.assoc drop_blit_before)
qed

subsection \<open>Counting in lists\<close>

lemma count_list_update:
  "i < length xs \<Longrightarrow> count_list (xs[i := x]) y + (if xs ! i = y then 1 else 0) = count_list xs y + (if x = y then 1 else 0)"
proof (induction xs arbitrary: i)
  case (Cons a xs)
  show ?case
  proof (cases i)
    case (Suc j)
    then show ?thesis using Cons.IH [of j] Cons.prems by (auto split: if_splits)
  qed simp
qed simp

lemma count_list_pos: "y \<in> set xs \<Longrightarrow> 0 < count_list xs y"
  by (metis count_list_0_iff not_gr_zero)

end
