(* ===== verification/RN_Channel.thy ===== *)
theory RN_Channel
  imports RN_Prelude "HOL-Library.Word"
begin

text \<open>
  The selectable channel of RN/net/Channel.h and Channel.cpp: the interest set of a
  descriptor as a 32-bit flag word, the events the poller stored, and the dispatch of those events
  to the callbacks. A callback is a value of a type \<open>'c\<close> (the closure that \<open>std::bind\<close> built);
  what invoking it does is a parameter of \<open>handleEvent\<close>. The flag values are those of
  Linux's \<open>poll.h\<close>.
\<close>

unbundle bit_operations_syntax

type_synonym int32 = "32 word"

subsection \<open>Event flags\<close>

definition POLLIN :: int32 where "POLLIN = 0x001"
definition POLLPRI :: int32 where "POLLPRI = 0x002"
definition POLLOUT :: int32 where "POLLOUT = 0x004"
definition POLLERR :: int32 where "POLLERR = 0x008"
definition POLLHUP :: int32 where "POLLHUP = 0x010"
definition POLLNVAL :: int32 where "POLLNVAL = 0x020"
definition POLLRDHUP :: int32 where "POLLRDHUP = 0x2000"

lemmas poll_flags =
  POLLIN_def POLLPRI_def POLLOUT_def POLLERR_def POLLHUP_def POLLNVAL_def POLLRDHUP_def

definition kNoneEvent :: int32 where
  "kNoneEvent = 0"

definition kReadEvent :: int32 where
  "kReadEvent = POLLIN OR POLLPRI"

definition kWriteEvent :: int32 where
  "kWriteEvent = POLLOUT"

lemmas event_flags = kNoneEvent_def kReadEvent_def kWriteEvent_def poll_flags

subsection \<open>State\<close>

record 'c channel =
  ownerLoop :: nat
  chfd :: int
  events :: int32
  revents :: int32
  index :: int
  eventHandling :: bool
  readCallback :: "'c option"
  writeCallback :: "'c option"
  errorCallback :: "'c option"
  closeCallback :: "'c option"

text \<open>The constructor leaves \<open>eventHandling_\<close> uninitialised: its value is an argument.\<close>

definition Channel_new :: "nat \<Rightarrow> int \<Rightarrow> bool \<Rightarrow> 'c channel" where
  "Channel_new loop fd garbage =
     \<lparr>ownerLoop = loop, chfd = fd, events = 0, revents = 0, index = -1, eventHandling = garbage,
      readCallback = None, writeCallback = None, errorCallback = None, closeCallback = None\<rparr>"

definition setReadCallback :: "'c \<Rightarrow> 'c channel \<Rightarrow> 'c channel" where
  "setReadCallback cb ch = ch\<lparr>readCallback := Some cb\<rparr>"

definition setWriteCallback :: "'c \<Rightarrow> 'c channel \<Rightarrow> 'c channel" where
  "setWriteCallback cb ch = ch\<lparr>writeCallback := Some cb\<rparr>"

definition setErrorCallback :: "'c \<Rightarrow> 'c channel \<Rightarrow> 'c channel" where
  "setErrorCallback cb ch = ch\<lparr>errorCallback := Some cb\<rparr>"

definition setCloseCallback :: "'c \<Rightarrow> 'c channel \<Rightarrow> 'c channel" where
  "setCloseCallback cb ch = ch\<lparr>closeCallback := Some cb\<rparr>"

definition set_revents :: "int32 \<Rightarrow> 'c channel \<Rightarrow> 'c channel" where
  "set_revents revt ch = ch\<lparr>revents := revt\<rparr>"

definition set_index :: "int \<Rightarrow> 'c channel \<Rightarrow> 'c channel" where
  "set_index idx ch = ch\<lparr>index := idx\<rparr>"

definition isNoneEvent :: "'c channel \<Rightarrow> bool" where
  "isNoneEvent ch \<longleftrightarrow> events ch = kNoneEvent"

definition isWriting :: "'c channel \<Rightarrow> bool" where
  "isWriting ch \<longleftrightarrow> events ch AND kWriteEvent \<noteq> 0"

text \<open>
  The interest changes. Each is followed in the source by \<open>update()\<close>, which hands the
  channel to the loop's poller; the composition is \<open>channel_update\<close> of RN_Poller.
\<close>

definition enableReading :: "'c channel \<Rightarrow> 'c channel" where
  "enableReading ch = ch\<lparr>events := events ch OR kReadEvent\<rparr>"

definition enableWriting :: "'c channel \<Rightarrow> 'c channel" where
  "enableWriting ch = ch\<lparr>events := events ch OR kWriteEvent\<rparr>"

definition disableWriting :: "'c channel \<Rightarrow> 'c channel" where
  "disableWriting ch = ch\<lparr>events := events ch AND NOT kWriteEvent\<rparr>"

definition disableAll :: "'c channel \<Rightarrow> 'c channel" where
  "disableAll ch = ch\<lparr>events := kNoneEvent\<rparr>"

lemmas interest_defs = enableReading_def enableWriting_def disableWriting_def disableAll_def

subsection \<open>Dispatch\<close>

text \<open>Invocations: the read callback receives the time at which \<open>poll\<close> returned.\<close>

datatype 'c invocation = Call_read 'c int | Call_write 'c | Call_error 'c | Call_close 'c

definition has_flag :: "int32 \<Rightarrow> int32 \<Rightarrow> bool" where
  "has_flag x f \<longleftrightarrow> x AND f \<noteq> 0"

definition call_if_set ::
  "('c invocation \<Rightarrow> 's \<Rightarrow> 's result) \<Rightarrow> ('c \<Rightarrow> 'c invocation) \<Rightarrow> 'c option \<Rightarrow> 's \<Rightarrow> 's result" where
  "call_if_set invoke mk cb s = (case cb of None \<Rightarrow> Inr s | Some c \<Rightarrow> invoke (mk c) s)"

text \<open>
  The state is the channel and the rest of the program's state; each test reads the channel
  as the callbacks before it left it. (The POLLNVAL warning is logging only.)
\<close>

definition handleEvent ::
  "('c invocation \<Rightarrow> 'c channel \<times> 'w \<Rightarrow> ('c channel \<times> 'w) result) \<Rightarrow> int \<Rightarrow>
     'c channel \<times> 'w \<Rightarrow> ('c channel \<times> 'w) result" where
  "handleEvent invoke receiveTime s =
     rbind (Inr ((fst s)\<lparr>eventHandling := True\<rparr>, snd s)) (\<lambda>s.
     rbind (if has_flag (revents (fst s)) (POLLERR OR POLLNVAL)
            then call_if_set invoke Call_error (errorCallback (fst s)) s else Inr s) (\<lambda>s.
     rbind (if has_flag (revents (fst s)) POLLHUP \<and> \<not> has_flag (revents (fst s)) POLLIN
            then call_if_set invoke Call_close (closeCallback (fst s)) s else Inr s) (\<lambda>s.
     rbind (if has_flag (revents (fst s)) (POLLIN OR POLLPRI OR POLLRDHUP)
            then call_if_set invoke (\<lambda>c. Call_read c receiveTime) (readCallback (fst s)) s else Inr s) (\<lambda>s.
     rbind (if has_flag (revents (fst s)) POLLOUT
            then call_if_set invoke Call_write (writeCallback (fst s)) s else Inr s) (\<lambda>s.
     Inr ((fst s)\<lparr>eventHandling := False\<rparr>, snd s))))))"

text \<open>The destructor asserts that no event is being handled.\<close>

definition Channel_destroy :: "'c channel \<Rightarrow> unit result" where
  "Channel_destroy ch = rassert (\<not> eventHandling ch) (Inr ())"

subsection \<open>The dispatch as a list\<close>

text \<open>The specification of the dispatch: which callbacks run, in which order.\<close>

definition when_set :: "bool \<Rightarrow> ('c \<Rightarrow> 'c invocation) \<Rightarrow> 'c option \<Rightarrow> 'c invocation list" where
  "when_set b mk cb = (if b then (case cb of None \<Rightarrow> [] | Some c \<Rightarrow> [mk c]) else [])"

definition error_calls :: "'c channel \<Rightarrow> 'c invocation list" where
  "error_calls ch = when_set (has_flag (revents ch) (POLLERR OR POLLNVAL)) Call_error (errorCallback ch)"

definition close_calls :: "'c channel \<Rightarrow> 'c invocation list" where
  "close_calls ch =
     when_set (has_flag (revents ch) POLLHUP \<and> \<not> has_flag (revents ch) POLLIN) Call_close (closeCallback ch)"

definition read_calls :: "int \<Rightarrow> 'c channel \<Rightarrow> 'c invocation list" where
  "read_calls t ch =
     when_set (has_flag (revents ch) (POLLIN OR POLLPRI OR POLLRDHUP)) (\<lambda>c. Call_read c t) (readCallback ch)"

definition write_calls :: "'c channel \<Rightarrow> 'c invocation list" where
  "write_calls ch = when_set (has_flag (revents ch) POLLOUT) Call_write (writeCallback ch)"

definition dispatch :: "int \<Rightarrow> 'c channel \<Rightarrow> 'c invocation list" where
  "dispatch t ch = error_calls ch @ close_calls ch @ read_calls t ch @ write_calls ch"

lemmas dispatch_defs = dispatch_def error_calls_def close_calls_def read_calls_def write_calls_def

text \<open>What \<open>dispatch\<close> reads of a channel; callbacks do not change it.\<close>

definition same_routing :: "'c channel \<Rightarrow> 'c channel \<Rightarrow> bool" where
  "same_routing a b \<longleftrightarrow> revents a = revents b \<and> readCallback a = readCallback b \<and>
     writeCallback a = writeCallback b \<and> errorCallback a = errorCallback b \<and> closeCallback a = closeCallback b"

lemma call_if_set_when_set:
  "(if b then call_if_set invoke mk cb s else Inr s) = rfold invoke (when_set b mk cb) s"
  by (cases cb) (auto simp: call_if_set_def when_set_def rbind_def split: sum.split)

lemma rfold_same_routing:
  assumes "\<And>c s s'. invoke c s = Inr s' \<Longrightarrow> same_routing (fst s') (fst s)"
    and "rfold invoke cs s = Inr s'"
  shows "same_routing (fst s') (fst s)"
  using assms(2)
proof (induction cs arbitrary: s)
  case Nil
  then show ?case by (simp add: same_routing_def)
next
  case (Cons c cs)
  then obtain s1 where "invoke c s = Inr s1" "rfold invoke cs s1 = Inr s'"
    by (auto simp: rbind_eq_Inr_iff)
  then show ?case using Cons.IH assms(1) by (fastforce simp: same_routing_def)
qed

lemma handleEvent_stages:
  "handleEvent invoke t (ch, w) =
     rbind (rfold invoke (error_calls ch) (ch\<lparr>eventHandling := True\<rparr>, w)) (\<lambda>s.
     rbind (rfold invoke (close_calls (fst s)) s) (\<lambda>s.
     rbind (rfold invoke (read_calls t (fst s)) s) (\<lambda>s.
     rbind (rfold invoke (write_calls (fst s)) s) (\<lambda>s.
     Inr ((fst s)\<lparr>eventHandling := False\<rparr>, snd s)))))"
  by (simp add: handleEvent_def call_if_set_when_set dispatch_defs)

lemma has_flag_or: "has_flag x (a OR b) \<longleftrightarrow> has_flag x a \<or> has_flag x b"
  by (simp add: has_flag_def bit.conj_disj_distrib or_eq_0_iff)

subsection \<open>Interest flags\<close>

lemma isWriting_simps [simp]:
  "isWriting (enableWriting ch)"
  "\<not> isWriting (disableWriting ch)"
  "isWriting (enableReading ch) = isWriting ch"
  "\<not> isWriting (disableAll ch)"
  "isWriting (Channel_new l fd g) = False"
proof -
  have "kWriteEvent \<noteq> 0" and disjoint: "kReadEvent AND kWriteEvent = 0"
    by (simp_all add: event_flags)
  moreover have "(events ch OR kWriteEvent) AND kWriteEvent = kWriteEvent"
    by (simp add: bit_eq_iff bit_simps)
  ultimately show "isWriting (enableWriting ch)" by (simp add: isWriting_def enableWriting_def)
  have "(events ch AND NOT kWriteEvent) AND kWriteEvent = 0"
    by (simp add: bit_eq_iff bit_simps)
  then show "\<not> isWriting (disableWriting ch)" by (simp add: isWriting_def disableWriting_def)
  show "isWriting (enableReading ch) = isWriting ch"
    using disjoint by (simp add: isWriting_def enableReading_def bit.conj_disj_distrib2)
  show "\<not> isWriting (disableAll ch)" by (simp add: isWriting_def disableAll_def kNoneEvent_def)
  show "isWriting (Channel_new l fd g) = False" by (simp add: isWriting_def Channel_new_def)
qed

lemma isNoneEvent_simps [simp]:
  "isNoneEvent (disableAll ch)"
  "\<not> isNoneEvent (enableReading ch)"
  "\<not> isNoneEvent (enableWriting ch)"
  "isNoneEvent (Channel_new l fd g)"
  by (simp_all add: isNoneEvent_def interest_defs event_flags Channel_new_def or_eq_0_iff)

lemma interest_frame [simp]:
  "chfd (enableReading ch) = chfd ch" "chfd (enableWriting ch) = chfd ch"
  "chfd (disableWriting ch) = chfd ch" "chfd (disableAll ch) = chfd ch"
  "index (enableReading ch) = index ch" "index (enableWriting ch) = index ch"
  "index (disableWriting ch) = index ch" "index (disableAll ch) = index ch"
  by (simp_all add: interest_defs)

lemma disable_after_enable: "\<not> isWriting ch \<Longrightarrow> disableWriting (enableWriting ch) = ch"
proof -
  assume "\<not> isWriting ch"
  then have "events ch AND kWriteEvent = 0" by (simp add: isWriting_def)
  then have "(events ch OR kWriteEvent) AND NOT kWriteEvent = events ch"
    by (simp add: bit_eq_iff bit_simps) blast
  then show ?thesis by (simp add: interest_defs)
qed

subsection \<open>Properties\<close>

text \<open>C26: event dispatch runs exactly the callbacks that the stored events select, in the
  order error, close, read, write, each at most once, and clears the handling flag, provided that
  no callback rewires the channel.\<close>

theorem handleEvent_is_dispatch:
  assumes frame: "\<And>c s s'. invoke c s = Inr s' \<Longrightarrow> same_routing (fst s') (fst s)"
  shows "handleEvent invoke t (ch, w) =
    rbind (rfold invoke (dispatch t ch) (ch\<lparr>eventHandling := True\<rparr>, w))
      (\<lambda>s. Inr ((fst s)\<lparr>eventHandling := False\<rparr>, snd s))"
proof -
  have step: "rbind (rfold invoke (f (fst s)) s) k = rbind (rfold invoke (f ch) s) k'"
    if "same_routing (fst s) ch" "f (fst s) = f ch" "\<And>s'. same_routing (fst s') ch \<Longrightarrow> k s' = k' s'"
    for f s k k'
    unfolding that(2)
  proof (rule rbind_cong [OF refl])
    fix s' assume "rfold invoke (f ch) s = Inr s'"
    from rfold_same_routing [OF frame this] that(1) show "k s' = k' s'"
      by (intro that(3)) (simp add: same_routing_def)
  qed
  have respects: "same_routing a ch \<Longrightarrow> error_calls a = error_calls ch"
    "same_routing a ch \<Longrightarrow> close_calls a = close_calls ch"
    "same_routing a ch \<Longrightarrow> read_calls t a = read_calls t ch"
    "same_routing a ch \<Longrightarrow> write_calls a = write_calls ch" for a
    by (simp_all add: same_routing_def dispatch_defs)
  let ?s = "(ch\<lparr>eventHandling := True\<rparr>, w)"
  have start: "same_routing (fst ?s) ch" by (simp add: same_routing_def)
  then have "error_calls ch = error_calls (fst ?s)" using respects(1) by metis
  then show ?thesis
    unfolding handleEvent_stages dispatch_def rfold_append rbind_assoc
    by (simp only:) (intro step start respects, simp_all)
qed

definition demo_channel :: "nat channel" where
  "demo_channel = (Channel_new 0 5 False)\<lparr>revents := POLLHUP OR POLLOUT,
     readCallback := Some 1, writeCallback := Some 2, closeCallback := Some 3\<rparr>"

theorem handleEvent_is_dispatch_witness:
  "handleEvent (\<lambda>c s. Inr (fst s, snd s @ [c])) 77 (demo_channel, []) =
     Inr (demo_channel, [Call_close 3, Call_write 2])"
proof -
  let ?log = "\<lambda>c s. Inr (fst s, snd s @ [c]) :: (nat channel \<times> nat invocation list) result"
  have frame: "\<And>c s s'. ?log c s = Inr s' \<Longrightarrow> same_routing (fst s') (fst s)"
    by (auto simp: same_routing_def)
  show ?thesis
    using handleEvent_is_dispatch [where invoke = ?log and t = 77 and ch = demo_channel and w = "[]", OF frame]
    by (simp add: dispatch_defs when_set_def has_flag_def demo_channel_def Channel_new_def poll_flags)
qed

text \<open>The interest operations act on independent bits: write interest is exactly what
  \<open>enableWriting\<close> and \<open>disableWriting\<close> set and clear, they undo each other, read interest does
  not touch it, and a channel is without events only when both are off.\<close>

theorem interest_operations:
  assumes "\<not> isWriting ch"
  shows "isWriting (enableWriting ch) \<and> disableWriting (enableWriting ch) = ch \<and>
    \<not> isWriting (enableReading ch) \<and> isWriting (enableReading (enableWriting ch)) \<and>
    \<not> isNoneEvent (enableReading ch) \<and> isNoneEvent (disableAll (enableWriting ch))"
  using assms by (simp add: disable_after_enable)

theorem interest_operations_witness:
  "\<not> isWriting (enableReading demo_channel) \<and>
    disableWriting (enableWriting (enableReading demo_channel)) = enableReading demo_channel"
proof -
  have "\<not> isWriting (enableReading demo_channel)"
    by (simp add: demo_channel_def isWriting_def Channel_new_def enableReading_def event_flags)
  from interest_operations [OF this] this show ?thesis by blast
qed

end
