(* ===== verification/RN_Poller.thy ===== *)
theory RN_Poller
  imports RN_Channel "HOL-Library.AList"
begin

text \<open>
  The \<open>poll(2)\<close> back end of RN/net/Poller.h and Poller.cpp. The array \<open>pollfds_\<close> and the map
  \<open>channels_\<close> (an association list with distinct keys) are kept as in the class; channels are
  objects on a heap indexed by address, because the poller writes their \<open>index_\<close> and
  \<open>revents_\<close> through pointers. A slot whose channel wants no events stores the descriptor
  \<open>fd\<close> as \<open>-fd - 1\<close>, which \<open>poll\<close> ignores.
\<close>

subsection \<open>State\<close>

record pollfd =
  pfd_fd :: int
  pfd_events :: "16 word"
  pfd_revents :: "16 word"

record 'c poller =
  threadId :: int
  pollfds :: "pollfd list"
  channels :: "(int \<times> nat) list"
  heap :: "nat \<Rightarrow> 'c channel"

definition Poller_new :: "int \<Rightarrow> (nat \<Rightarrow> 'c channel) \<Rightarrow> 'c poller" where
  "Poller_new tid h = \<lparr>threadId = tid, pollfds = [], channels = [], heap = h\<rparr>"

text \<open>\<open>assertInLoopThread\<close> aborts (through LOG_FATAL) on any other thread.\<close>

definition assertInLoopThread :: "'c poller \<Rightarrow> int \<Rightarrow> 'a result \<Rightarrow> 'a result" where
  "assertInLoopThread s tid k = (if threadId s = tid then k else Inl Aborted)"

subsection \<open>Updating and removing\<close>

definition updateChannel :: "'c poller \<Rightarrow> int \<Rightarrow> nat \<Rightarrow> 'c poller result" where
  "updateChannel s tid c =
     assertInLoopThread s tid
     (let ch = heap s c in
      if index ch < 0 then
        rassert (map_of (channels s) (chfd ch) = None)
        (let pfd = \<lparr>pfd_fd = chfd ch, pfd_events = ucast (events ch), pfd_revents = 0\<rparr>;
             ps = pollfds s @ [pfd];
             idx = int (length ps) - 1
         in Inr (s\<lparr>pollfds := ps, heap := (heap s)(c := set_index idx ch),
                   channels := AList.update (pfd_fd pfd) c (channels s)\<rparr>))
      else
        rassert (map_of (channels s) (chfd ch) \<noteq> None)
       (rassert (map_of (channels s) (chfd ch) = Some c)
        (let idx = index ch in
         rassert (0 \<le> idx \<and> idx < int (length (pollfds s)))
         (let pfd = pollfds s ! nat idx in
          rassert (pfd_fd pfd = chfd ch \<or> pfd_fd pfd = - chfd ch - 1)
          (let pfd = pfd\<lparr>pfd_events := ucast (events ch), pfd_revents := 0\<rparr>;
               pfd = (if isNoneEvent ch then pfd\<lparr>pfd_fd := - chfd ch - 1\<rparr> else pfd)
           in Inr (s\<lparr>pollfds := (pollfds s)[nat idx := pfd]\<rparr>))))))"

text \<open>\<open>Channel::update()\<close> after a change of the interest set.\<close>

definition channel_update ::
  "('c channel \<Rightarrow> 'c channel) \<Rightarrow> 'c poller \<Rightarrow> int \<Rightarrow> nat \<Rightarrow> 'c poller result" where
  "channel_update change s tid c =
     updateChannel (s\<lparr>heap := (heap s)(c := change (heap s c))\<rparr>) tid c"

text \<open>
  \<open>std::iter_swap\<close> with the last slot and \<open>pop_back\<close>: the last slot moves into the hole and
  the channel it belongs to learns its new index. Dereferencing a missing channel is the fault
  \<open>OutOfRange\<close>.
\<close>

definition channel_of_slot :: "int \<Rightarrow> int" where
  "channel_of_slot fd = (if fd < 0 then - fd - 1 else fd)"

definition removeChannel :: "'c poller \<Rightarrow> int \<Rightarrow> nat \<Rightarrow> 'c poller result" where
  "removeChannel s tid c =
     assertInLoopThread s tid
     (let ch = heap s c in
      rassert (map_of (channels s) (chfd ch) = Some c)
     (rassert (isNoneEvent ch)
      (let idx = index ch in
       rassert (0 \<le> idx \<and> idx < int (length (channels s)))
       (let s1 = s\<lparr>channels := AList.delete (chfd ch) (channels s)\<rparr> in
        if pollfds s1 = [] then Inl OutOfRange
        else if nat idx = length (pollfds s1) - 1
        then Inr (s1\<lparr>pollfds := butlast (pollfds s1)\<rparr>)
        else
          let channelAtEnd = channel_of_slot (pfd_fd (last (pollfds s1)));
              swapped = ((pollfds s1)[nat idx := last (pollfds s1)])
          in case map_of (channels s1) channelAtEnd of
               None \<Rightarrow> Inl OutOfRange
             | Some e \<Rightarrow> Inr (s1\<lparr>pollfds := butlast swapped,
                                heap := (heap s1)(e := set_index idx (heap s1 e))\<rparr>)))))"

subsection \<open>Polling\<close>

text \<open>\<open>fillActiveChannels\<close>: the first \<open>numEvents\<close> slots with (signed) positive \<open>revents\<close>.\<close>

fun fillActiveChannels ::
  "pollfd list \<Rightarrow> int \<Rightarrow> 'c poller \<Rightarrow> nat list \<Rightarrow> ('c poller \<times> nat list) result" where
  "fillActiveChannels [] numEvents s active = Inr (s, active)"
| "fillActiveChannels (pfd # ps) numEvents s active =
     (if 0 < numEvents then
        (if 0 < sint (pfd_revents pfd) then
           (case map_of (channels s) (pfd_fd pfd) of
              None \<Rightarrow> Inl AssertFailed
            | Some c \<Rightarrow>
                rassert (chfd (heap s c) = pfd_fd pfd)
                (fillActiveChannels ps (numEvents - 1)
                   (s\<lparr>heap := (heap s)(c := set_revents (scast (pfd_revents pfd)) (heap s c))\<rparr>)
                   (active @ [c])))
         else fillActiveChannels ps numEvents s active)
      else Inr (s, active))"

text \<open>
  The kernel's part of \<open>poll\<close>: an error, or the number of slots with events and the
  \<open>revents\<close> it stored in every slot.
\<close>

datatype poll_result = Poll_error | Poll_ok int "16 word list"

fun store_revents :: "pollfd list \<Rightarrow> 16 word list \<Rightarrow> pollfd list" where
  "store_revents (p # ps) (r # rs) = p\<lparr>pfd_revents := r\<rparr> # store_revents ps rs"
| "store_revents ps rs = ps"

definition Poller_poll :: "'c poller \<Rightarrow> poll_result \<Rightarrow> nat list \<Rightarrow> ('c poller \<times> nat list) result" where
  "Poller_poll s r active =
     (case r of
        Poll_error \<Rightarrow> Inr (s, active)
      | Poll_ok n rs \<Rightarrow>
          let s1 = s\<lparr>pollfds := store_revents (pollfds s) rs\<rparr>
          in if 0 < n then fillActiveChannels (pollfds s1) n s1 active else Inr (s1, active))"

subsection \<open>Invariant\<close>

text \<open>
  Slots and map entries correspond: every slot belongs to the channel registered under its
  descriptor, whose index is the slot's position; no two slots share a descriptor.
\<close>

definition slot_fd :: "pollfd \<Rightarrow> int" where
  "slot_fd p = channel_of_slot (pfd_fd p)"

definition slot_owned :: "'c poller \<Rightarrow> nat \<Rightarrow> bool" where
  "slot_owned s i \<longleftrightarrow> (case map_of (channels s) (slot_fd (pollfds s ! i)) of
     None \<Rightarrow> False
   | Some c \<Rightarrow> chfd (heap s c) = slot_fd (pollfds s ! i) \<and> index (heap s c) = int i)"

definition poller_inv :: "'c poller \<Rightarrow> bool" where
  "poller_inv s \<longleftrightarrow> distinct (map fst (channels s)) \<and> distinct (map slot_fd (pollfds s)) \<and>
     set (map slot_fd (pollfds s)) = set (map fst (channels s)) \<and>
     (\<forall>i < length (pollfds s). slot_owned s i)"

definition registered :: "'c poller \<Rightarrow> nat \<Rightarrow> bool" where
  "registered s c \<longleftrightarrow> map_of (channels s) (chfd (heap s c)) = Some c"

lemma slot_fd_simps [simp]:
  "0 \<le> f \<Longrightarrow> channel_of_slot f = f"
  "0 \<le> f \<Longrightarrow> channel_of_slot (- f - 1) = f"
  "0 \<le> channel_of_slot g"
  by (simp_all add: channel_of_slot_def)

lemma slot_fd_cases: "pfd_fd p = slot_fd p \<or> pfd_fd p = - slot_fd p - 1"
  by (simp add: slot_fd_def channel_of_slot_def)

lemma registered_slot:
  assumes inv: "poller_inv s" and reg: "registered s c"
  obtains i where "i < length (pollfds s)" "index (heap s c) = int i"
    "slot_fd (pollfds s ! i) = chfd (heap s c)"
proof -
  have "(chfd (heap s c), c) \<in> set (channels s)"
    using reg by (simp add: registered_def map_of_SomeD)
  then have "chfd (heap s c) \<in> set (map fst (channels s))" by force
  then have "chfd (heap s c) \<in> set (map slot_fd (pollfds s))"
    using inv by (simp only: poller_inv_def)
  then obtain i where i: "i < length (pollfds s)" "slot_fd (pollfds s ! i) = chfd (heap s c)"
    unfolding in_set_conv_nth by auto
  then have "slot_owned s i" using inv by (simp add: poller_inv_def)
  then have "index (heap s c) = int i"
    using reg i by (simp add: slot_owned_def registered_def)
  with i that show thesis by blast
qed

lemma slot_fd_nonneg: "0 \<le> slot_fd p"
  by (simp add: slot_fd_def)

lemma registered_fd_nonneg:
  assumes "poller_inv s" and "registered s c"
  shows "0 \<le> chfd (heap s c)"
proof -
  obtain i where "slot_fd (pollfds s ! i) = chfd (heap s c)"
    using registered_slot [OF assms] .
  then show ?thesis using slot_fd_nonneg [of "pollfds s ! i"] by simp
qed

lemma slot_channel:
  assumes "poller_inv s" and "i < length (pollfds s)"
  obtains c where "map_of (channels s) (slot_fd (pollfds s ! i)) = Some c"
    "chfd (heap s c) = slot_fd (pollfds s ! i)" "index (heap s c) = int i" "registered s c"
  using assms by (auto simp: poller_inv_def slot_owned_def registered_def split: option.splits)

lemma length_channels:
  assumes "poller_inv s"
  shows "length (channels s) = length (pollfds s)"
proof -
  have "length (map fst (channels s)) = card (set (map fst (channels s)))"
    using assms by (intro distinct_card [symmetric]) (simp add: poller_inv_def)
  also have "\<dots> = card (set (map slot_fd (pollfds s)))"
    using assms by (simp only: poller_inv_def)
  also have "\<dots> = length (map slot_fd (pollfds s))"
    using assms by (intro distinct_card) (simp add: poller_inv_def)
  finally show ?thesis by simp
qed

text \<open>The invariant looks only at descriptors and indices.\<close>

lemma poller_inv_frame:
  assumes "poller_inv s" and "channels t = channels s" and "map slot_fd (pollfds t) = map slot_fd (pollfds s)"
    and "\<And>c. chfd (heap t c) = chfd (heap s c) \<and> index (heap t c) = index (heap s c)"
  shows "poller_inv t"
proof -
  have len: "length (pollfds t) = length (pollfds s)" using assms(3) by (metis length_map)
  have "slot_fd (pollfds t ! i) = slot_fd (pollfds s ! i)" if "i < length (pollfds s)" for i
    using assms(3) that len by (metis nth_map)
  then show ?thesis
    using assms len by (auto simp: poller_inv_def slot_owned_def simp del: set_map split: option.splits)
qed

lemma poller_inv_new [inv_intros]: "poller_inv (Poller_new tid h)"
  by (simp add: poller_inv_def Poller_new_def)

lemma updateChannel_registered:
  assumes inv: "poller_inv s" and reg: "registered s c" and tid: "threadId s = tid"
  shows "\<exists>i p. i < length (pollfds s) \<and> index (heap s c) = int i \<and>
    slot_fd p = chfd (heap s c) \<and> pfd_events p = ucast (events (heap s c)) \<and> pfd_revents p = 0 \<and>
    pfd_fd p = (if isNoneEvent (heap s c) then - chfd (heap s c) - 1 else pfd_fd (pollfds s ! i)) \<and>
    updateChannel s tid c = Inr (s\<lparr>pollfds := (pollfds s)[i := p]\<rparr>)"
proof -
  obtain i where i: "i < length (pollfds s)" "index (heap s c) = int i"
    "slot_fd (pollfds s ! i) = chfd (heap s c)"
    using registered_slot [OF inv reg] .
  define q where "q = (pollfds s ! i)\<lparr>pfd_events := ucast (events (heap s c)), pfd_revents := 0\<rparr>"
  define p where "p = (if isNoneEvent (heap s c) then q\<lparr>pfd_fd := - chfd (heap s c) - 1\<rparr> else q)"
  have "pfd_fd (pollfds s ! i) = chfd (heap s c) \<or> pfd_fd (pollfds s ! i) = - chfd (heap s c) - 1"
    using slot_fd_cases [of "pollfds s ! i"] i by simp
  then have "updateChannel s tid c = Inr (s\<lparr>pollfds := (pollfds s)[i := p]\<rparr>)"
    using reg i tid by (simp add: updateChannel_def assertInLoopThread_def Let_def registered_def p_def q_def)
  moreover have "slot_fd p = chfd (heap s c)"
    using i registered_fd_nonneg [OF inv reg] by (simp add: p_def q_def slot_fd_def)
  ultimately show ?thesis using i by (auto simp: p_def q_def)
qed

lemma updateChannel_registered_inv:
  assumes "poller_inv s" and "registered s c" and "threadId s = tid"
  shows "\<exists>t. updateChannel s tid c = Inr t \<and> poller_inv t \<and> channels t = channels s \<and> heap t = heap s"
proof -
  obtain i p where i: "i < length (pollfds s)" "index (heap s c) = int i"
    and p: "slot_fd p = chfd (heap s c)"
    and u: "updateChannel s tid c = Inr (s\<lparr>pollfds := (pollfds s)[i := p]\<rparr>)"
    using updateChannel_registered [OF assms] by blast
  obtain j where "j < length (pollfds s)" "index (heap s c) = int j" "slot_fd (pollfds s ! j) = chfd (heap s c)"
    using registered_slot [OF assms(1,2)] .
  then have "slot_fd (pollfds s ! i) = slot_fd p" using i p by simp
  then have "map slot_fd ((pollfds s)[i := p]) = map slot_fd (pollfds s)"
    by (metis i(1) list_update_id map_update nth_map length_map)
  then have "poller_inv (s\<lparr>pollfds := (pollfds s)[i := p]\<rparr>)"
    by (intro poller_inv_frame [OF assms(1)]) simp_all
  with u show ?thesis by simp
qed

lemma updateChannel_fresh:
  assumes inv: "poller_inv s" and tid: "threadId s = tid" and neg: "index (heap s c) < 0"
    and fd: "0 \<le> chfd (heap s c)" "map_of (channels s) (chfd (heap s c)) = None"
  shows "\<exists>t. updateChannel s tid c = Inr t \<and> poller_inv t \<and> registered t c \<and>
    pollfds t = pollfds s @ [\<lparr>pfd_fd = chfd (heap s c), pfd_events = ucast (events (heap s c)), pfd_revents = 0\<rparr>] \<and>
    heap t = (heap s)(c := set_index (int (length (pollfds s))) (heap s c)) \<and>
    map_of (channels t) = (map_of (channels s))(chfd (heap s c) \<mapsto> c)"
proof -
  let ?fd = "chfd (heap s c)" and ?n = "length (pollfds s)"
  let ?p = "\<lparr>pfd_fd = ?fd, pfd_events = ucast (events (heap s c)), pfd_revents = 0\<rparr>"
  let ?t = "s\<lparr>pollfds := pollfds s @ [?p], heap := (heap s)(c := set_index (int ?n) (heap s c)),
    channels := AList.update ?fd c (channels s)\<rparr>"
  have u: "updateChannel s tid c = Inr ?t"
    using tid neg fd by (simp add: updateChannel_def assertInLoopThread_def Let_def)
  have p: "slot_fd ?p = ?fd" using fd by (simp add: slot_fd_def)
  have m: "map_of (channels ?t) = (map_of (channels s))(?fd \<mapsto> c)"
    by (simp add: update_conv')
  have new: "?fd \<notin> fst ` set (channels s)" using fd by (simp add: map_of_eq_None_iff)
  have owned: "slot_owned ?t i" if "i < Suc ?n" for i
  proof (cases "i = ?n")
    case True
    then show ?thesis using p m by (simp add: slot_owned_def set_index_def)
  next
    case False
    then have i: "i < ?n" using that by simp
    obtain c' where c': "map_of (channels s) (slot_fd (pollfds s ! i)) = Some c'"
      "chfd (heap s c') = slot_fd (pollfds s ! i)" "index (heap s c') = int i"
      using slot_channel [OF inv i] .
    have "c' \<noteq> c" using c' neg by auto
    moreover have "slot_fd (pollfds s ! i) \<noteq> ?fd" using c' fd by auto
    ultimately show ?thesis using c' i m by (simp add: slot_owned_def nth_append)
  qed
  have "distinct (map slot_fd (pollfds s @ [?p]))"
    using inv new p by (simp add: poller_inv_def)
  moreover have "distinct (map fst (channels ?t))"
    using inv by (simp add: distinct_update poller_inv_def)
  moreover have "set (map slot_fd (pollfds ?t)) = set (map fst (channels ?t))"
    using inv p by (simp add: poller_inv_def dom_update)
  ultimately have "poller_inv ?t" using owned by (simp add: poller_inv_def)
  moreover have "registered ?t c" using m by (simp add: registered_def set_index_def)
  ultimately show ?thesis using u m by simp
qed

subsection \<open>Removal\<close>

text \<open>Filling a hole with the last element, as \<open>removeChannel\<close> does with its slots.\<close>

definition swap_pop :: "'a list \<Rightarrow> nat \<Rightarrow> 'a list" where
  "swap_pop xs i = (if i = length xs - 1 then butlast xs else butlast (xs[i := last xs]))"

lemma length_swap_pop [simp]: "length (swap_pop xs i) = length xs - 1"
  by (simp add: swap_pop_def)

lemma swap_pop_nth:
  "i < length xs \<Longrightarrow> j < length xs - 1 \<Longrightarrow> swap_pop xs i ! j = (if j = i then last xs else xs ! j)"
  by (simp add: swap_pop_def nth_butlast nth_list_update)

lemma map_swap_pop: "xs \<noteq> [] \<Longrightarrow> map f (swap_pop xs i) = swap_pop (map f xs) i"
  by (simp add: swap_pop_def map_butlast map_update last_map)

lemma swap_pop_snoc:
  assumes "distinct (ys @ [z])" and "i < length ys"
  shows "distinct (ys[i := z]) \<and> set (ys[i := z]) = set (ys @ [z]) - {ys ! i}"
proof -
  have ys: "distinct ys" "z \<notin> set ys" "ys ! i \<in> set ys" using assms by simp_all
  have "set (ys[i := z]) = insert z (set ys - {ys ! i})"
    using ys(1) assms(2) by (rule set_update_distinct)
  moreover have "distinct (ys[i := z])"
    using ys by (intro distinct_list_update) simp_all
  moreover have "ys ! i \<noteq> z" using ys by metis
  ultimately show ?thesis by auto
qed

lemma swap_pop_distinct:
  assumes "distinct xs" and "i < length xs"
  shows "distinct (swap_pop xs i) \<and> set (swap_pop xs i) = set xs - {xs ! i}"
proof (cases xs rule: rev_cases)
  case Nil
  then show ?thesis using assms(2) by simp
next
  case (snoc ys z)
  show ?thesis
  proof (cases "i < length ys")
    case True
    then have "swap_pop xs i = ys[i := z]" "xs ! i = ys ! i"
      unfolding snoc by (simp_all add: swap_pop_def butlast_list_update nth_append)
    then show ?thesis using swap_pop_snoc [of ys z i] assms(1) True unfolding snoc by simp
  next
    case False
    then have "i = length ys" using assms(2) unfolding snoc by simp
    then show ?thesis using assms(1) unfolding snoc by (simp add: swap_pop_def)
  qed
qed

lemma removeChannel_registered:
  assumes inv: "poller_inv s" and reg: "registered s c" and tid: "threadId s = tid"
    and none: "isNoneEvent (heap s c)"
  obtains i e where "i < length (pollfds s)" "index (heap s c) = int i"
    "slot_fd (pollfds s ! i) = chfd (heap s c)"
    "map_of (channels s) (slot_fd (pollfds s ! (length (pollfds s) - 1))) = Some e"
    "index (heap s e) = int (length (pollfds s) - 1)"
    "removeChannel s tid c = Inr (s\<lparr>channels := AList.delete (chfd (heap s c)) (channels s),
       pollfds := swap_pop (pollfds s) i,
       heap := (if i = length (pollfds s) - 1 then heap s else (heap s)(e := set_index (int i) (heap s e)))\<rparr>)"
proof -
  let ?n = "length (pollfds s)"
  obtain i where i: "i < ?n" "index (heap s c) = int i" "slot_fd (pollfds s ! i) = chfd (heap s c)"
    using registered_slot [OF inv reg] .
  have ne: "pollfds s \<noteq> []" using i by auto
  then have last: "last (pollfds s) = pollfds s ! (?n - 1)" by (rule last_conv_nth)
  have "?n - 1 < ?n" using i by simp
  from slot_channel [OF inv this] obtain e where
    e: "map_of (channels s) (slot_fd (last (pollfds s))) = Some e" "index (heap s e) = int (?n - 1)"
    unfolding last by blast
  have "slot_fd (last (pollfds s)) \<noteq> chfd (heap s c)" if "i \<noteq> ?n - 1"
  proof
    assume "slot_fd (last (pollfds s)) = chfd (heap s c)"
    then have "e = c" using e reg by (simp add: registered_def)
    then show False using e i that by simp
  qed
  then have "removeChannel s tid c = Inr (s\<lparr>channels := AList.delete (chfd (heap s c)) (channels s),
       pollfds := swap_pop (pollfds s) i,
       heap := (if i = ?n - 1 then heap s else (heap s)(e := set_index (int i) (heap s e)))\<rparr>)"
    using i ne tid none reg e length_channels [OF inv]
    by (auto simp: removeChannel_def assertInLoopThread_def registered_def Let_def swap_pop_def
        slot_fd_def delete_conv' split: option.splits)
  from that [OF i e [unfolded last] this] show thesis .
qed

lemma removeChannel_ok:
  assumes inv: "poller_inv s" and reg: "registered s c" and tid: "threadId s = tid"
    and none: "isNoneEvent (heap s c)"
  shows "\<exists>t. removeChannel s tid c = Inr t \<and> poller_inv t \<and> threadId t = threadId s \<and>
    map_of (channels t) = (map_of (channels s))(chfd (heap s c) := None) \<and>
    (\<forall>c'. chfd (heap t c') = chfd (heap s c') \<and> events (heap t c') = events (heap s c'))"
proof -
  let ?n = "length (pollfds s)" and ?fd = "chfd (heap s c)"
  obtain i e where i: "i < ?n" "index (heap s c) = int i" "slot_fd (pollfds s ! i) = ?fd"
    and e: "map_of (channels s) (slot_fd (pollfds s ! (?n - 1))) = Some e" "index (heap s e) = int (?n - 1)"
    and r: "removeChannel s tid c = Inr (s\<lparr>channels := AList.delete ?fd (channels s),
       pollfds := swap_pop (pollfds s) i,
       heap := (if i = ?n - 1 then heap s else (heap s)(e := set_index (int i) (heap s e)))\<rparr>)"
    (is "_ = Inr ?t")
    by (rule removeChannel_registered [OF assms])
  have ne: "pollfds s \<noteq> []" using i by auto
  have m: "map_of (channels ?t) = (map_of (channels s))(?fd := None)"
    by (simp add: delete_conv')
  have fds: "map slot_fd (pollfds ?t) = swap_pop (map slot_fd (pollfds s)) i"
    using ne by (simp add: map_swap_pop)
  have D: "distinct (map slot_fd (pollfds s))"
    and S: "set (map slot_fd (pollfds s)) = set (map fst (channels s))"
    using inv by (simp_all only: poller_inv_def)
  have D': "distinct (map slot_fd (pollfds ?t))"
    and S': "set (map slot_fd (pollfds ?t)) = set (map fst (channels ?t))"
    using swap_pop_distinct [OF D] i S unfolding fds by (auto simp: delete_keys simp del: set_map)
  have owned: "slot_owned ?t j" if j: "j < ?n - 1" for j
  proof -
    let ?k = "if j = i then ?n - 1 else j"
    have k: "?k < ?n" "?k \<noteq> i" using j by auto
    obtain d where d: "map_of (channels s) (slot_fd (pollfds s ! ?k)) = Some d"
      "chfd (heap s d) = slot_fd (pollfds s ! ?k)" "index (heap s d) = int ?k" "registered s d"
      using slot_channel [OF inv k(1)] .
    have slot: "pollfds ?t ! j = pollfds s ! ?k"
      using i j ne by (simp add: swap_pop_nth last_conv_nth)
    have other: "slot_fd (pollfds s ! ?k) \<noteq> ?fd"
      using D i k nth_eq_iff_index_eq [OF D, of ?k i] by simp
    have "heap ?t d = (if j = i then set_index (int i) (heap s d) else heap s d)"
      using d e j by auto
    then show ?thesis
      using d m other slot by (auto simp: slot_owned_def set_index_def)
  qed
  have "poller_inv ?t"
    using D' S' owned inv by (simp add: poller_inv_def distinct_delete)
  moreover have "\<forall>c'. chfd (heap ?t c') = chfd (heap s c') \<and> events (heap ?t c') = events (heap s c')"
    by (simp add: set_index_def)
  ultimately show ?thesis using r m by simp
qed

subsection \<open>Filling the list of active channels\<close>

definition ready :: "pollfd \<Rightarrow> bool" where
  "ready p \<longleftrightarrow> 0 < sint (pfd_revents p)"

definition owner :: "'c poller \<Rightarrow> pollfd \<Rightarrow> nat" where
  "owner s p = (case map_of (channels s) (pfd_fd p) of Some c \<Rightarrow> c | None \<Rightarrow> 0)"

definition owned_by_channel :: "'c poller \<Rightarrow> pollfd \<Rightarrow> bool" where
  "owned_by_channel s p \<longleftrightarrow>
     map_of (channels s) (pfd_fd p) = Some (owner s p) \<and> chfd (heap s (owner s p)) = pfd_fd p"

text \<open>The heap after the events of some slots were stored in their channels.\<close>

definition store_events :: "'c poller \<Rightarrow> pollfd list \<Rightarrow> 'c poller" where
  "store_events s ps = fold (\<lambda>p s. s\<lparr>heap := (heap s)(owner s p :=
     set_revents (scast (pfd_revents p)) (heap s (owner s p)))\<rparr>) ps s"

lemma store_events_simps [simp]:
  "store_events s [] = s"
  "store_events s (p # ps) = store_events (s\<lparr>heap := (heap s)(owner s p :=
     set_revents (scast (pfd_revents p)) (heap s (owner s p)))\<rparr>) ps"
  by (simp_all add: store_events_def)

lemma owner_heap [simp]: "owner (s\<lparr>heap := h\<rparr>) p = owner s p"
  by (simp add: owner_def)

lemma store_events_frame [simp]:
  "channels (store_events s ps) = channels s" "pollfds (store_events s ps) = pollfds s"
  "threadId (store_events s ps) = threadId s"
  "chfd (heap (store_events s ps) c) = chfd (heap s c)"
  "index (heap (store_events s ps) c) = index (heap s c)"
  "events (heap (store_events s ps) c) = events (heap s c)"
  by (induction ps arbitrary: s) (simp_all add: set_revents_def)

lemma owner_store_events [simp]: "owner (store_events s ps) p = owner s p"
  by (simp add: owner_def)

lemma store_events_revents:
  "distinct (map (owner s) ps) \<Longrightarrow>
   (\<forall>p \<in> set ps. revents (heap (store_events s ps) (owner s p)) = scast (pfd_revents p)) \<and>
   (\<forall>c. c \<notin> owner s ` set ps \<longrightarrow> heap (store_events s ps) c = heap s c)"
proof (induction ps arbitrary: s)
  case (Cons p ps)
  let ?s = "s\<lparr>heap := (heap s)(owner s p := set_revents (scast (pfd_revents p)) (heap s (owner s p)))\<rparr>"
  have own: "owner ?s = owner s" by (rule ext) simp
  have IH: "(\<forall>q \<in> set ps. revents (heap (store_events ?s ps) (owner s q)) = scast (pfd_revents q)) \<and>
    (\<forall>c. c \<notin> owner s ` set ps \<longrightarrow> heap (store_events ?s ps) c = heap ?s c)"
    using Cons.IH [of ?s] Cons.prems unfolding own by simp
  moreover have "owner s p \<notin> owner s ` set ps" using Cons.prems by simp
  ultimately show ?case by (simp add: set_revents_def)
qed simp

lemma fillActiveChannels_owned:
  assumes "\<And>p. p \<in> set ps \<Longrightarrow> ready p \<Longrightarrow> owned_by_channel s p"
  shows "fillActiveChannels ps n s active =
    (let qs = take (nat n) (filter ready ps) in Inr (store_events s qs, active @ map (owner s) qs))"
  using assms
proof (induction ps arbitrary: n s active)
  case (Cons p ps)
  show ?case
  proof (cases "0 < n \<and> ready p")
    case True
    let ?s = "s\<lparr>heap := (heap s)(owner s p := set_revents (scast (pfd_revents p)) (heap s (owner s p)))\<rparr>"
    have own: "owner ?s = owner s" by (rule ext) simp
    have p: "map_of (channels s) (pfd_fd p) = Some (owner s p)" "chfd (heap s (owner s p)) = pfd_fd p"
      using Cons.prems [of p] True by (auto simp: owned_by_channel_def)
    have "owned_by_channel ?s q" if "q \<in> set ps" "ready q" for q
      using Cons.prems [of q] that by (auto simp: owned_by_channel_def set_revents_def)
    note IH = Cons.IH [OF this, unfolded own, of "n - 1" "active @ [owner s p]"]
    have "0 < n" using True by simp
    then have "nat n = Suc (nat (n - 1))" by arith
    then show ?thesis using True p IH by (simp add: ready_def Let_def)
  next
    case False
    then show ?thesis using Cons by (auto simp: ready_def Let_def)
  qed
qed simp

text \<open>
  What \<open>poll(2)\<close> guarantees: one \<open>revents\<close> per slot, zero for a negative descriptor, flags
  that are positive as a \<open>short\<close>, and the number of slots with events as its result.
\<close>

definition poll_contract :: "pollfd list \<Rightarrow> int \<Rightarrow> 16 word list \<Rightarrow> bool" where
  "poll_contract ps n rs \<longleftrightarrow> length rs = length ps \<and>
     list_all2 (\<lambda>p r. (pfd_fd p < 0 \<longrightarrow> r = 0) \<and> 0 \<le> sint r) ps rs \<and>
     n = int (length (filter (\<lambda>r. r \<noteq> 0) rs))"

lemma store_revents_zip: "length rs = length ps \<Longrightarrow> store_revents ps rs = map (\<lambda>(p, r). p\<lparr>pfd_revents := r\<rparr>) (zip ps rs)"
  by (induction ps rs rule: store_revents.induct) auto

lemma map_fd_store_revents:
  "length rs = length ps \<Longrightarrow> map pfd_fd (store_revents ps rs) = map pfd_fd ps \<and>
     map pfd_revents (store_revents ps rs) = rs"
  by (induction ps rs rule: store_revents.induct) auto

lemma poll_contract_ready:
  assumes "poll_contract ps n rs"
  shows "nat n = length (filter ready (store_revents ps rs))"
    and "p \<in> set (store_revents ps rs) \<Longrightarrow> ready p \<Longrightarrow> 0 \<le> pfd_fd p"
    and "p \<in> set (store_revents ps rs) \<Longrightarrow> ready p \<longleftrightarrow> pfd_revents p \<noteq> 0"
proof -
  have len: "length rs = length ps" and all: "list_all2 (\<lambda>p r. (pfd_fd p < 0 \<longrightarrow> r = 0) \<and> 0 \<le> sint r) ps rs"
    and n: "n = int (length (filter (\<lambda>r. r \<noteq> 0) rs))"
    using assms by (auto simp: poll_contract_def)
  have pos: "0 < sint r \<longleftrightarrow> r \<noteq> 0" if "0 \<le> sint r" for r :: "16 word"
    using that by (metis less_le signed_eq_0_iff)
  have each: "0 \<le> sint (pfd_revents q) \<and> (pfd_fd q < 0 \<longrightarrow> pfd_revents q = 0)"
    if "q \<in> set (store_revents ps rs)" for q
    using that all len by (auto simp: store_revents_zip list_all2_iff)
  show "p \<in> set (store_revents ps rs) \<Longrightarrow> ready p \<longleftrightarrow> pfd_revents p \<noteq> 0" for p
    using each pos by (simp add: ready_def)
  then have "filter ready (store_revents ps rs) = filter (\<lambda>p. pfd_revents p \<noteq> 0) (store_revents ps rs)"
    by (intro filter_cong) auto
  also have "length \<dots> = length (filter (\<lambda>r. r \<noteq> 0) (map pfd_revents (store_revents ps rs)))"
    by (simp add: filter_map comp_def)
  finally show "nat n = length (filter ready (store_revents ps rs))"
    using n map_fd_store_revents [OF len] by simp
  show "p \<in> set (store_revents ps rs) \<Longrightarrow> ready p \<Longrightarrow> 0 \<le> pfd_fd p"
    using each [of p] by (force simp: ready_def)
qed

lemma slot_in_store:
  assumes "poller_inv s" and len: "length rs = length (pollfds s)"
    and p: "p \<in> set (store_revents (pollfds s) rs)" and nonneg: "0 \<le> pfd_fd p"
  shows "owned_by_channel s p"
proof -
  have "pfd_fd p \<in> set (map pfd_fd (pollfds s))"
    using p map_fd_store_revents [OF len] by (metis image_eqI list.set_map)
  then obtain i where i: "i < length (pollfds s)" "pfd_fd (pollfds s ! i) = pfd_fd p"
    by (auto simp: in_set_conv_nth)
  then have "slot_fd (pollfds s ! i) = pfd_fd p" using nonneg by (simp add: slot_fd_def)
  with slot_channel [OF assms(1) i(1)] show ?thesis
    by (metis owned_by_channel_def owner_def option.simps(5))
qed

lemma inj_owner:
  assumes "owned_by_channel s p" and "owned_by_channel s q" and "owner s p = owner s q"
  shows "pfd_fd p = pfd_fd q"
  using assms by (simp add: owned_by_channel_def)

lemma poll_ok:
  assumes inv: "poller_inv s" and contract: "poll_contract (pollfds s) n rs"
  defines "qs \<equiv> filter ready (store_revents (pollfds s) rs)"
  shows "Poller_poll s (Poll_ok n rs) active =
      Inr (store_events (s\<lparr>pollfds := store_revents (pollfds s) rs\<rparr>) qs, active @ map (owner s) qs) \<and>
    distinct (map (owner s) qs)"
proof -
  let ?s = "s\<lparr>pollfds := store_revents (pollfds s) rs\<rparr>"
  have len: "length rs = length (pollfds s)" using contract by (simp add: poll_contract_def)
  have own: "owner ?s = owner s" by (rule ext) (simp add: owner_def)
  have q: "owned_by_channel s p \<and> 0 \<le> pfd_fd p" if "p \<in> set (store_revents (pollfds s) rs)" "ready p" for p
    using slot_in_store [OF inv len that(1)] poll_contract_ready(2) [OF contract that] by simp
  then have q': "owned_by_channel ?s p" if "p \<in> set (store_revents (pollfds s) rs)" "ready p" for p
    using that own by (simp add: owned_by_channel_def)
  have nq: "nat n = length qs" using poll_contract_ready(1) [OF contract] by (simp add: qs_def)
  have "Poller_poll s (Poll_ok n rs) active = Inr (store_events ?s qs, active @ map (owner s) qs)"
  proof (cases "0 < n")
    case True
    then show ?thesis
      using fillActiveChannels_owned [OF q', of "store_revents (pollfds s) rs" n active] nq own
      by (simp add: Poller_poll_def Let_def flip: qs_def)
  next
    case False
    then show ?thesis using nq by (simp add: Poller_poll_def Let_def)
  qed
  moreover have "distinct (map (owner s) qs)"
  proof -
    have "distinct (map slot_fd (pollfds s))" using inv by (simp add: poller_inv_def)
    moreover have "slot_fd = channel_of_slot \<circ> pfd_fd" by (rule ext) (simp add: slot_fd_def)
    ultimately have "distinct (map channel_of_slot (map pfd_fd (pollfds s)))" by simp
    then have "distinct (map pfd_fd (store_revents (pollfds s) rs))"
      unfolding map_fd_store_revents [OF len, THEN conjunct1] by (metis distinct_map)
    then have "distinct (map pfd_fd qs)" by (simp add: qs_def distinct_map_filter)
    moreover have "inj_on (owner s) (set qs)"
    proof (rule inj_onI)
      fix a b assume ab: "a \<in> set qs" "b \<in> set qs" "owner s a = owner s b"
      then have "pfd_fd a = pfd_fd b" using q by (intro inj_owner [of s]) (auto simp: qs_def)
      with \<open>distinct (map pfd_fd qs)\<close> ab show "a = b" by (auto simp: distinct_map dest: inj_onD)
    qed
    ultimately show ?thesis by (simp add: distinct_map)
  qed
  ultimately show ?thesis by blast
qed

subsection \<open>The protocol of a loop\<close>

text \<open>
  How a loop uses its poller: it registers a channel with a fresh descriptor, changes the
  interest of a registered channel, removes a channel that was disabled before, and polls.
\<close>

definition interest_change :: "('c channel \<Rightarrow> 'c channel) \<Rightarrow> bool" where
  "interest_change f \<longleftrightarrow> f = enableReading \<or> f = enableWriting \<or> f = disableWriting \<or> f = disableAll"

inductive poller_step :: "int \<Rightarrow> 'c poller \<Rightarrow> 'c poller \<Rightarrow> bool" for tid where
  register: "index (heap s c) < 0 \<Longrightarrow> 0 \<le> chfd (heap s c) \<Longrightarrow> map_of (channels s) (chfd (heap s c)) = None \<Longrightarrow>
    interest_change f \<Longrightarrow> channel_update f s tid c = Inr t \<Longrightarrow> poller_step tid s t"
| change: "registered s c \<Longrightarrow> interest_change f \<Longrightarrow> channel_update f s tid c = Inr t \<Longrightarrow> poller_step tid s t"
| remove: "registered s c \<Longrightarrow> isNoneEvent (heap s c) \<Longrightarrow> removeChannel s tid c = Inr t \<Longrightarrow> poller_step tid s t"
| poll: "poll_contract (pollfds s) n rs \<Longrightarrow> Poller_poll s (Poll_ok n rs) [] = Inr (t, active) \<Longrightarrow> poller_step tid s t"

inductive poller_reachable :: "int \<Rightarrow> 'c poller \<Rightarrow> bool" for tid where
  start: "poller_reachable tid (Poller_new tid h)"
| step: "poller_reachable tid s \<Longrightarrow> poller_step tid s t \<Longrightarrow> poller_reachable tid t"

lemma interest_change_frame:
  "interest_change f \<Longrightarrow> chfd (f ch) = chfd ch \<and> index (f ch) = index ch"
  by (auto simp: interest_change_def)

lemma changed_heap_inv:
  assumes "interest_change f" and "poller_inv s"
  shows "poller_inv (s\<lparr>heap := (heap s)(c := f (heap s c))\<rparr>)"
  by (rule poller_inv_frame [OF assms(2)]) (use interest_change_frame [OF assms(1)] in auto)

lemma channel_update_registered:
  assumes "interest_change f" and "poller_inv s" and "registered s c" and "threadId s = tid"
  shows "\<exists>t. channel_update f s tid c = Inr t \<and> poller_inv t \<and> channels t = channels s \<and>
    heap t = (heap s)(c := f (heap s c)) \<and> threadId t = tid"
proof -
  let ?s = "s\<lparr>heap := (heap s)(c := f (heap s c))\<rparr>"
  have "registered ?s c"
    using assms(3) interest_change_frame [OF assms(1)] by (simp add: registered_def)
  note up = changed_heap_inv [OF assms(1,2), of c] this
  obtain t where t: "updateChannel ?s tid c = Inr t" "poller_inv t" "channels t = channels s"
    "heap t = heap ?s"
    using updateChannel_registered_inv [OF up, of tid] assms(4) by auto
  moreover have "threadId t = tid"
    using updateChannel_registered [OF up, of tid] t(1) assms(4) by auto
  ultimately show ?thesis by (simp add: channel_update_def)
qed

lemma channel_update_fresh:
  assumes "interest_change f" and "poller_inv s" and "threadId s = tid" and "index (heap s c) < 0"
    and "0 \<le> chfd (heap s c)" and "map_of (channels s) (chfd (heap s c)) = None"
  shows "\<exists>t. channel_update f s tid c = Inr t \<and> poller_inv t \<and> registered t c \<and> threadId t = tid \<and>
    map_of (channels t) = (map_of (channels s))(chfd (heap s c) \<mapsto> c) \<and>
    heap t = (heap s)(c := set_index (int (length (pollfds s))) (f (heap s c)))"
proof -
  let ?s = "s\<lparr>heap := (heap s)(c := f (heap s c))\<rparr>"
  have "index (heap ?s c) < 0" "0 \<le> chfd (heap ?s c)" "map_of (channels ?s) (chfd (heap ?s c)) = None"
    using assms interest_change_frame [OF assms(1)] by simp_all
  from updateChannel_fresh [OF changed_heap_inv [OF assms(1,2)] _ this] assms(3)
  obtain t where t: "updateChannel ?s tid c = Inr t" "poller_inv t" "registered t c"
    "map_of (channels t) = (map_of (channels ?s))(chfd (heap ?s c) \<mapsto> c)"
    "heap t = (heap s)(c := set_index (int (length (pollfds s))) (f (heap s c)))" by auto
  have "threadId t = tid"
    using t(1) assms by (auto simp: updateChannel_def assertInLoopThread_def Let_def result_iffs split: if_splits)
  then show ?thesis using t interest_change_frame [OF assms(1)] by (simp add: channel_update_def)
qed

lemma poller_step_inv:
  assumes "poller_step tid s t" and "poller_inv s" and "threadId s = tid"
  shows "poller_inv t \<and> threadId t = tid"
  using assms
proof (induction rule: poller_step.induct)
  case (register s c f t)
  then show ?case using channel_update_fresh [of f s tid c] by auto
next
  case (change s c f t)
  then show ?case using channel_update_registered [of f s c tid] by auto
next
  case (remove s c t)
  then show ?case using removeChannel_ok [of s c tid] by auto
next
  case (poll s n rs t active)
  have len: "length rs = length (pollfds s)" using poll.hyps(1) by (simp add: poll_contract_def)
  let ?s = "s\<lparr>pollfds := store_revents (pollfds s) rs\<rparr>"
  have "slot_fd = channel_of_slot \<circ> pfd_fd" by (rule ext) (simp add: slot_fd_def)
  then have "map slot_fd (store_revents (pollfds s) rs) = map slot_fd (pollfds s)"
    using map_fd_store_revents [OF len] by (metis list.map_comp)
  moreover have "t = store_events ?s (filter ready (store_revents (pollfds s) rs))"
    using poll_ok [OF poll.prems(1) poll.hyps(1), of "[]"] poll.hyps(2) by simp
  ultimately show ?case using poll.prems by (auto intro: poller_inv_frame [OF poll.prems(1)])
qed

lemma poller_reachable_inv: "poller_reachable tid s \<Longrightarrow> poller_inv s \<and> threadId s = tid"
proof (induction rule: poller_reachable.induct)
  case (start h)
  then show ?case using poller_inv_new [of tid h] by (simp add: Poller_new_def)
next
  case (step s t)
  then show ?case using poller_step_inv by blast
qed

text \<open>A small run: two channels for the descriptors 5 and 6, both registered for reading.\<close>

definition demo_heap :: "nat \<Rightarrow> nat channel" where
  "demo_heap c = Channel_new 0 (int c + 5) False"

definition demo_poller1 :: "nat poller" where
  "demo_poller1 = \<lparr>threadId = 1, pollfds = [\<lparr>pfd_fd = 5, pfd_events = 3, pfd_revents = 0\<rparr>],
     channels = [(5, 0)], heap = demo_heap(0 := set_index 0 (enableReading (demo_heap 0)))\<rparr>"

definition demo_poller :: "nat poller" where
  "demo_poller = \<lparr>threadId = 1,
     pollfds = [\<lparr>pfd_fd = 5, pfd_events = 3, pfd_revents = 0\<rparr>, \<lparr>pfd_fd = 6, pfd_events = 3, pfd_revents = 0\<rparr>],
     channels = [(5, 0), (6, 1)],
     heap = demo_heap(0 := set_index 0 (enableReading (demo_heap 0)), 1 := set_index 1 (enableReading (demo_heap 1)))\<rparr>"

lemmas demo_poller_defs = demo_heap_def demo_poller1_def demo_poller_def Poller_new_def Channel_new_def
  enableReading_def set_index_def event_flags

lemma demo_register:
  "channel_update enableReading (Poller_new 1 demo_heap) 1 0 = Inr demo_poller1"
  "channel_update enableReading demo_poller1 1 1 = Inr demo_poller"
  by (simp_all add: channel_update_def updateChannel_def assertInLoopThread_def demo_poller_defs Let_def)

lemma demo_reachable: "poller_reachable 1 demo_poller"
proof (rule poller_reachable.step)
  have "poller_step 1 (Poller_new 1 demo_heap) demo_poller1"
    by (rule poller_step.register [OF _ _ _ _ demo_register(1)])
      (simp_all add: demo_poller_defs interest_change_def)
  with poller_reachable.start show "poller_reachable 1 demo_poller1" by (rule poller_reachable.step)
  show "poller_step 1 demo_poller1 demo_poller"
    by (rule poller_step.register [OF _ _ _ _ demo_register(2)])
      (simp_all add: demo_poller_defs interest_change_def)
qed

lemma demo_poller_facts [simp]:
  "registered demo_poller 0" "registered demo_poller (Suc 0)" "threadId demo_poller = 1"
  "poller_inv demo_poller"
  using poller_reachable_inv [OF demo_reachable]
  by (simp_all add: registered_def demo_poller_defs)

subsection \<open>Properties\<close>

text \<open>C4: in every state a loop can reach, slots and registered channels correspond one to
  one: the map has as many entries as the array, and slot \<open>i\<close> belongs to exactly the channel that
  records \<open>i\<close> as its index.\<close>

theorem poller_slots_match_channels:
  assumes "poller_reachable tid s"
  shows "length (channels s) = length (pollfds s) \<and>
    (\<forall>i < length (pollfds s). \<exists>c. registered s c \<and> chfd (heap s c) = slot_fd (pollfds s ! i) \<and>
       index (heap s c) = int i) \<and>
    (\<forall>c. registered s c \<longrightarrow> (\<exists>i < length (pollfds s). index (heap s c) = int i \<and>
       slot_fd (pollfds s ! i) = chfd (heap s c)))"
proof -
  have inv: "poller_inv s" using poller_reachable_inv [OF assms] by simp
  show ?thesis
    using length_channels [OF inv] slot_channel [OF inv] registered_slot [OF inv] by metis
qed

theorem poller_slots_match_channels_witness:
  "length (channels demo_poller) = length (pollfds demo_poller) \<and>
    (\<exists>i < length (pollfds demo_poller). index (heap demo_poller 1) = int i)"
  using poller_slots_match_channels [OF demo_reachable] demo_poller_facts(2)
  unfolding One_nat_def by blast

text \<open>A loop that follows the protocol never trips an assertion of the poller: registering
  a channel with a fresh descriptor, changing the interest of a registered channel and removing a
  disabled one all return normally.\<close>

theorem poller_protocol_no_fault:
  assumes "poller_reachable tid s" and "interest_change f"
  shows "(index (heap s c) < 0 \<and> 0 \<le> chfd (heap s c) \<and> map_of (channels s) (chfd (heap s c)) = None \<longrightarrow>
      (\<exists>t. channel_update f s tid c = Inr t \<and> registered t c)) \<and>
    (registered s c \<longrightarrow> (\<exists>t. channel_update f s tid c = Inr t \<and> registered t c)) \<and>
    (registered s c \<and> isNoneEvent (heap s c) \<longrightarrow> (\<exists>t. removeChannel s tid c = Inr t \<and> \<not> registered t c))"
proof -
  have inv: "poller_inv s" "threadId s = tid" using poller_reachable_inv [OF assms(1)] by simp_all
  have "\<exists>t. channel_update f s tid c = Inr t \<and> registered t c" if "registered s c"
    using channel_update_registered [OF assms(2) inv(1) that inv(2)] that interest_change_frame [OF assms(2)]
    by (fastforce simp: registered_def)
  moreover have "\<exists>t. removeChannel s tid c = Inr t \<and> \<not> registered t c"
    if "registered s c" "isNoneEvent (heap s c)"
    using removeChannel_ok [OF inv(1) that(1) inv(2) that(2)] by (force simp: registered_def)
  ultimately show ?thesis using channel_update_fresh [OF assms(2) inv] by blast
qed

theorem poller_protocol_no_fault_witness:
  "\<exists>t. channel_update disableAll demo_poller 1 0 = Inr t \<and> registered t 0"
  using poller_protocol_no_fault [OF demo_reachable, of disableAll 0] demo_poller_facts(1)
  by (simp add: interest_change_def)

text \<open>Removing a disabled channel takes exactly its descriptor out of the map, keeps every
  other channel registered with its interest untouched, and keeps the slots consistent although the last
  slot is moved into the hole.\<close>

theorem removeChannel_keeps_others:
  assumes "poller_reachable tid s" and "registered s c" and "isNoneEvent (heap s c)"
  shows "\<exists>t. removeChannel s tid c = Inr t \<and> poller_inv t \<and> length (pollfds t) = length (pollfds s) - 1 \<and>
    (\<forall>fd. map_of (channels t) fd = (if fd = chfd (heap s c) then None else map_of (channels s) fd)) \<and>
    (\<forall>c'. registered s c' \<and> c' \<noteq> c \<longrightarrow> registered t c' \<and> events (heap t c') = events (heap s c'))"
proof -
  have inv: "poller_inv s" "threadId s = tid" using poller_reachable_inv [OF assms(1)] by simp_all
  obtain t where t: "removeChannel s tid c = Inr t" "poller_inv t"
    "map_of (channels t) = (map_of (channels s))(chfd (heap s c) := None)"
    "\<And>c'. chfd (heap t c') = chfd (heap s c') \<and> events (heap t c') = events (heap s c')"
    using removeChannel_ok [OF inv(1) assms(2) inv(2) assms(3)] by blast
  have "length (pollfds t) = length (pollfds s) - 1"
    by (rule removeChannel_registered [OF inv(1) assms(2) inv(2) assms(3)]) (use t(1) in auto)
  moreover have "registered t c'" if "registered s c'" "c' \<noteq> c" for c'
    using that assms(2) t by (auto simp: registered_def)
  ultimately show ?thesis using t by auto
qed

theorem removeChannel_keeps_others_witness:
  "\<exists>s t. poller_reachable 1 s \<and> removeChannel s 1 (0::nat) = Inr t \<and> registered t (1::nat) \<and>
    length (pollfds (t :: nat poller)) = 1"
proof -
  obtain s where s: "channel_update disableAll demo_poller 1 0 = Inr s" "channels s = channels demo_poller"
    "heap s = (heap demo_poller)(0 := disableAll (heap demo_poller 0))"
    using channel_update_registered [of disableAll demo_poller 0 1] by (auto simp: interest_change_def)
  have "poller_step 1 demo_poller s"
    by (rule poller_step.change [OF _ _ s(1)]) (simp_all add: interest_change_def)
  with demo_reachable have r: "poller_reachable 1 s" by (rule poller_reachable.step)
  have reg: "registered s 0" "registered s 1" using s demo_poller_facts(1,2) by (auto simp: registered_def)
  have len: "length (pollfds s) = 2"
    using length_channels [of s] poller_reachable_inv [OF r] s(2) by (auto simp: demo_poller_def)
  have "isNoneEvent (heap s 0)" using s(3) by simp
  from removeChannel_keeps_others [OF r reg(1) this] reg(2) len r show ?thesis by auto
qed

text \<open>A channel that was disabled stays deaf. Once \<open>disableAll\<close> has stored the negative
  descriptor in its slot, enabling reading again updates the wanted events but not the descriptor, so
  under the contract of \<open>poll\<close> no poll reports the channel.\<close>

theorem reenabled_channel_is_ignored:
  assumes "poller_reachable tid s" and "registered s c"
    and "channel_update disableAll s tid c = Inr t" and "channel_update enableReading t tid c = Inr u"
  shows "\<not> isNoneEvent (heap u c) \<and> registered u c \<and>
    (\<exists>i < length (pollfds u). index (heap u c) = int i \<and> pfd_fd (pollfds u ! i) = - chfd (heap u c) - 1) \<and>
    (\<forall>n rs v active. poll_contract (pollfds u) n rs \<and> Poller_poll u (Poll_ok n rs) [] = Inr (v, active) \<longrightarrow>
       c \<notin> set active)"
proof -
  have inv: "poller_inv s" "threadId s = tid" using poller_reachable_inv [OF assms(1)] by simp_all
  let ?s = "s\<lparr>heap := (heap s)(c := disableAll (heap s c))\<rparr>"
  have ic: "interest_change disableAll" "interest_change enableReading" by (simp_all add: interest_change_def)
  have reg: "registered ?s c" using assms(2) by (simp add: registered_def)
  obtain i p where i: "i < length (pollfds s)" "index (heap s c) = int i"
    and p: "pfd_fd p = - chfd (heap s c) - 1" and t: "t = ?s\<lparr>pollfds := (pollfds s)[i := p]\<rparr>"
    using updateChannel_registered [OF changed_heap_inv [OF ic(1) inv(1), of c] reg, of tid] inv(2) assms(3)
    by (auto simp: channel_update_def)
  have t': "poller_inv t" "threadId t = tid" "registered t c"
    using channel_update_registered [OF ic(1) inv(1) assms(2) inv(2)] assms(3) reg
    by (auto simp: registered_def)
  let ?t = "t\<lparr>heap := (heap t)(c := enableReading (heap t c))\<rparr>"
  have reg': "registered ?t c" using t'(3) by (simp add: registered_def)
  obtain j q where j: "j < length (pollfds t)" "index (heap t c) = int j"
    and q: "pfd_fd q = pfd_fd (pollfds t ! j)" and u: "u = ?t\<lparr>pollfds := (pollfds t)[j := q]\<rparr>"
    using updateChannel_registered [OF changed_heap_inv [OF ic(2) t'(1), of c] reg', of tid] t'(2) assms(4)
    by (auto simp: channel_update_def)
  have "j = i" using i j t by simp
  then have slot: "pfd_fd (pollfds u ! i) = - chfd (heap u c) - 1" "i < length (pollfds u)" "index (heap u c) = int i"
    using i j p q t u by simp_all
  have u': "poller_inv u" "registered u c"
    using channel_update_registered [OF ic(2) t'(1,3,2)] assms(4) reg' by (auto simp: registered_def)
  have "c \<notin> set active"
    if contract: "poll_contract (pollfds u) n rs" and polled: "Poller_poll u (Poll_ok n rs) [] = Inr (v, active)"
    for n rs v active
  proof
    assume "c \<in> set active"
    then obtain r where r: "r \<in> set (store_revents (pollfds u) rs)" "ready r" "owner u r = c"
      using poll_ok [OF u'(1) contract, of "[]"] polled by auto
    have len: "length rs = length (pollfds u)" using contract by (simp add: poll_contract_def)
    have nonneg: "0 \<le> pfd_fd r" using poll_contract_ready(2) [OF contract r(1,2)] .
    then have "pfd_fd r = chfd (heap u c)"
      using slot_in_store [OF u'(1) len r(1)] r(3) by (simp add: owned_by_channel_def)
    moreover have "pfd_fd r \<in> set (map pfd_fd (pollfds u))"
      using r(1) map_fd_store_revents [OF len] by (metis image_eqI list.set_map)
    ultimately obtain k where k: "k < length (pollfds u)" "pfd_fd (pollfds u ! k) = chfd (heap u c)"
      by (auto simp: in_set_conv_nth)
    have D: "distinct (map slot_fd (pollfds u))" using u'(1) by (simp add: poller_inv_def)
    have fd: "0 \<le> chfd (heap u c)" using registered_fd_nonneg [OF u'] .
    have "slot_fd (pollfds u ! k) = slot_fd (pollfds u ! i)"
      using k slot(1) fd by (simp add: slot_fd_def)
    then have "k = i" using nth_eq_iff_index_eq [OF D, of k i] k slot(2) by simp
    then show False using k slot(1) fd by simp
  qed
  moreover have "\<not> isNoneEvent (heap u c)" using u by simp
  ultimately show ?thesis using u'(2) slot by blast
qed

theorem reenabled_channel_is_ignored_witness:
  "\<exists>t u. channel_update disableAll demo_poller 1 0 = Inr t \<and> channel_update enableReading t 1 0 = Inr u \<and>
    \<not> isNoneEvent (heap u 0) \<and> registered u 0"
proof -
  obtain t where t: "channel_update disableAll demo_poller 1 0 = Inr t" "poller_inv t" "threadId t = 1"
    "channels t = channels demo_poller" "heap t = (heap demo_poller)(0 := disableAll (heap demo_poller 0))"
    using channel_update_registered [of disableAll demo_poller 0 1] by (auto simp: interest_change_def)
  have "registered t 0" using t demo_poller_facts(1) by (simp add: registered_def)
  with t obtain u where u: "channel_update enableReading t 1 0 = Inr u"
    using channel_update_registered [of enableReading t 0 1] by (auto simp: interest_change_def)
  from reenabled_channel_is_ignored [OF demo_reachable demo_poller_facts(1) t(1) u] t(1) u show ?thesis
    by blast
qed

text \<open>A removed channel keeps its old index, so handing it to the poller again fails an
  assertion: a channel cannot be registered twice in its life.\<close>

theorem removed_channel_cannot_return:
  assumes "poller_reachable tid s" and "registered s c" and "isNoneEvent (heap s c)"
    and "removeChannel s tid c = Inr t" and "interest_change f"
  shows "channel_update f t tid c = Inl AssertFailed"
proof -
  have inv: "poller_inv s" "threadId s = tid" using poller_reachable_inv [OF assms(1)] by simp_all
  have gone: "map_of (channels t) (chfd (heap t c)) = None" "threadId t = tid"
    using removeChannel_ok [OF inv(1) assms(2) inv(2) assms(3)] assms(4) inv(2) by auto
  have "0 \<le> index (heap t c)"
    by (rule removeChannel_registered [OF inv(1) assms(2) inv(2) assms(3)])
      (use assms(4) in \<open>auto simp: set_index_def\<close>)
  then show ?thesis
    using gone interest_change_frame [OF assms(5)]
    by (simp add: channel_update_def updateChannel_def assertInLoopThread_def Let_def rassert_def)
qed

theorem removed_channel_cannot_return_witness:
  "\<exists>s t. removeChannel s 1 0 = Inr (t :: nat poller) \<and> channel_update enableReading t 1 0 = Inl AssertFailed"
proof -
  obtain s where s: "channel_update disableAll demo_poller 1 0 = Inr s" "poller_inv s" "threadId s = 1"
    "channels s = channels demo_poller" "heap s = (heap demo_poller)(0 := disableAll (heap demo_poller 0))"
    using channel_update_registered [of disableAll demo_poller 0 1] by (auto simp: interest_change_def)
  have "poller_step 1 demo_poller s"
    by (rule poller_step.change [OF _ _ s(1)]) (simp_all add: interest_change_def)
  with demo_reachable have r: "poller_reachable 1 s" by (rule poller_reachable.step)
  have reg: "registered s 0" "isNoneEvent (heap s 0)"
    using s demo_poller_facts(1) by (auto simp: registered_def)
  obtain t where t: "removeChannel s 1 0 = Inr t" using removeChannel_ok [OF s(2) reg(1) s(3) reg(2)] by blast
  have "interest_change enableReading" by (simp add: interest_change_def)
  from removed_channel_cannot_return [OF r reg t this] t show ?thesis by blast
qed

text \<open>Polling reports exactly the channels whose slot the kernel marked, each once, in the
  order of the slots, stores the events in each of them and leaves the others alone, without tripping an
  assertion.\<close>

theorem poll_reports_marked_channels:
  assumes "poller_reachable tid s" and "poll_contract (pollfds s) n rs"
  shows "\<exists>t active. Poller_poll s (Poll_ok n rs) [] = Inr (t, active) \<and> distinct active \<and>
    int (length active) = n \<and>
    (\<forall>c. c \<in> set active \<longleftrightarrow> (\<exists>p \<in> set (store_revents (pollfds s) rs). pfd_revents p \<noteq> 0 \<and>
        map_of (channels s) (pfd_fd p) = Some c \<and> revents (heap t c) = scast (pfd_revents p))) \<and>
    (\<forall>c. c \<notin> set active \<longrightarrow> heap t c = heap s c)"
proof -
  have inv: "poller_inv s" using poller_reachable_inv [OF assms(1)] by simp
  let ?ps = "store_revents (pollfds s) rs" and ?qs = "filter ready (store_revents (pollfds s) rs)"
  let ?s = "s\<lparr>pollfds := ?ps\<rparr>"
  let ?t = "store_events ?s ?qs" and ?act = "map (owner s) ?qs"
  have len: "length rs = length (pollfds s)" using assms(2) by (simp add: poll_contract_def)
  have r: "Poller_poll s (Poll_ok n rs) [] = Inr (?t, ?act)" and D: "distinct ?act"
    using poll_ok [OF inv assms(2), of "[]"] by simp_all
  have own: "owner ?s = owner s" by (rule ext) (simp add: owner_def)
  have se: "\<forall>p \<in> set ?qs. revents (heap ?t (owner s p)) = scast (pfd_revents p)"
    "\<forall>c. c \<notin> owner s ` set ?qs \<longrightarrow> heap ?t c = heap s c"
    using store_events_revents [of ?s ?qs] D unfolding own by simp_all
  have rd: "p \<in> set ?qs \<longleftrightarrow> p \<in> set ?ps \<and> pfd_revents p \<noteq> 0" for p
    using poll_contract_ready(3) [OF assms(2)] by auto
  have mo: "map_of (channels s) (pfd_fd p) = Some (owner s p)" if "p \<in> set ?qs" for p
    using that slot_in_store [OF inv len] poll_contract_ready(2) [OF assms(2)]
    by (auto simp: owned_by_channel_def)
  have "int (length ?act) = n"
    using poll_contract_ready(1) [OF assms(2)] assms(2) by (simp add: poll_contract_def)
  moreover have "c \<in> set ?act \<longleftrightarrow> (\<exists>p \<in> set ?ps. pfd_revents p \<noteq> 0 \<and>
      map_of (channels s) (pfd_fd p) = Some c \<and> revents (heap ?t c) = scast (pfd_revents p))" for c
  proof
    assume "c \<in> set ?act"
    then obtain p where "p \<in> set ?qs" "c = owner s p" by auto
    with mo se(1) rd show "\<exists>p \<in> set ?ps. pfd_revents p \<noteq> 0 \<and>
      map_of (channels s) (pfd_fd p) = Some c \<and> revents (heap ?t c) = scast (pfd_revents p)" by blast
  next
    assume "\<exists>p \<in> set ?ps. pfd_revents p \<noteq> 0 \<and> map_of (channels s) (pfd_fd p) = Some c \<and>
      revents (heap ?t c) = scast (pfd_revents p)"
    then obtain p where p: "p \<in> set ?qs" "map_of (channels s) (pfd_fd p) = Some c" using rd by blast
    with mo [OF p(1)] have "owner s p = c" by simp
    with p(1) show "c \<in> set ?act" unfolding set_map by blast
  qed
  ultimately show ?thesis using r D se(2) by (auto simp del: set_filter)
qed

theorem poll_reports_marked_channels_witness:
  "\<exists>t active. Poller_poll demo_poller (Poll_ok 1 [0, 1]) [] = Inr (t, active) \<and> length active = 1 \<and> 1 \<in> set active"
proof -
  have "poll_contract (pollfds demo_poller) 1 [0, 1]" by (simp add: poll_contract_def demo_poller_def)
  from poll_reports_marked_channels [OF demo_reachable this] obtain t active where
    r: "Poller_poll demo_poller (Poll_ok 1 [0, 1]) [] = Inr (t, active)" "int (length active) = 1"
    by blast
  moreover have "active = [1]"
    using r(1) by (auto simp: Poller_poll_def Let_def demo_poller_defs rassert_def set_revents_def split: if_splits)
  ultimately show ?thesis by auto
qed

end
