(* ===== verification/RN_Printf.thy ===== *)
theory RN_Printf
  imports RN_Prelude
begin

text \<open>
  What the sources use of \<open>snprintf\<close>: decimal conversions with and without a field width, and the
  truncation to the size of the target array. Decimal numerals are characterised by the parser
  \<open>undec\<close>, so printed numbers can be compared and read back.
\<close>

subsection \<open>Decimal numerals\<close>

definition digit :: "nat \<Rightarrow> char" where
  "digit n = char_of (48 + n)"

fun dec :: "nat \<Rightarrow> string" where
  "dec n = (if n < 10 then [digit n] else dec (n div 10) @ [digit (n mod 10)])"

declare dec.simps [simp del]

definition undigit :: "char \<Rightarrow> nat" where
  "undigit c = of_char c - 48"

definition undec :: "string \<Rightarrow> nat" where
  "undec s = foldl (\<lambda>a c. a * 10 + undigit c) 0 s"

definition is_digit :: "char \<Rightarrow> bool" where
  "is_digit c \<longleftrightarrow> (48::nat) \<le> of_char c \<and> of_char c < (58::nat)"

lemma undigit_digit [simp]: "n < 10 \<Longrightarrow> undigit (digit n) = n"
  by (simp add: undigit_def digit_def)

lemma is_digit_digit [simp]: "n < 10 \<Longrightarrow> is_digit (digit n)"
  by (simp add: is_digit_def digit_def)

lemma undec_snoc [simp]: "undec (s @ [c]) = undec s * 10 + undigit c"
  by (simp add: undec_def)

lemma undec_dec [simp]: "undec (dec n) = n"
proof (induction n rule: dec.induct)
  case (1 n)
  show ?case
  proof (cases "n < 10")
    case True
    then show ?thesis by (simp add: dec.simps [of n] undec_def)
  next
    case False
    then show ?thesis using 1 by (simp add: dec.simps [of n])
  qed
qed

lemma dec_inject [simp]: "dec m = dec n \<longleftrightarrow> m = n"
  by (metis undec_dec)

lemma dec_digits: "list_all is_digit (dec n)"
proof (induction n rule: dec.induct)
  case (1 n)
  then show ?case by (cases "n < 10") (simp_all add: dec.simps [of n])
qed

lemma dec_not_Nil [simp]: "dec n \<noteq> []"
  by (simp add: dec.simps [of n])

lemma length_dec: "n < 10 ^ k \<Longrightarrow> 0 < k \<Longrightarrow> length (dec n) \<le> k"
proof (induction n arbitrary: k rule: dec.induct)
  case (1 n)
  show ?case
  proof (cases "n < 10")
    case True
    then show ?thesis using 1 by (simp add: dec.simps [of n])
  next
    case False
    then have k: "1 < k" using "1.prems" by (cases k) (auto simp: less_Suc_eq)
    then have "n div 10 < 10 ^ (k - 1)"
      using "1.prems"(1) by (intro less_mult_imp_div_less) (metis Suc_diff_1 "1.prems"(2) power_Suc2)
    then have "length (dec (n div 10)) \<le> k - 1" using "1.IH" False k by simp
    then show ?thesis using False k by (simp add: dec.simps [of n])
  qed
qed

lemma digit_eqI: "of_char c = 48 + n \<Longrightarrow> digit n = c"
  by (metis digit_def char_of_char)

lemma digit_numerals:
  "digit 0 = CHR ''0''" "digit 1 = CHR ''1''" "digit (Suc 0) = CHR ''1''" "digit 2 = CHR ''2''" "digit 3 = CHR ''3''"
  "digit 4 = CHR ''4''" "digit 5 = CHR ''5''" "digit 6 = CHR ''6''" "digit 7 = CHR ''7''" "digit 8 = CHR ''8''" "digit 9 = CHR ''9''"
  by (rule digit_eqI; simp)+

text \<open>Evaluating \<open>dec\<close> on a numeral.\<close>

lemma dec_numeral:
  "dec 0 = ''0''" "dec 1 = ''1''" "dec (Suc 0) = ''1''"
  "dec (numeral k) = (if numeral k < (10::nat) then [digit (numeral k)] else dec (numeral k div 10) @ [digit (numeral k mod 10)])"
  by (simp_all add: dec.simps [of 0] dec.simps [of "Suc 0"] dec.simps [of "numeral k"] digit_numerals)

subsection \<open>Conversions\<close>

text \<open>\<open>%d\<close>, \<open>%0wd\<close> and \<open>%wd\<close>.\<close>

definition fmt_d :: "int \<Rightarrow> string" where
  "fmt_d i = (if i < 0 then CHR ''-'' # dec (nat (- i)) else dec (nat i))"

definition pad :: "char \<Rightarrow> nat \<Rightarrow> string \<Rightarrow> string" where
  "pad c w s = replicate (w - length s) c @ s"

definition fmt_0d :: "nat \<Rightarrow> int \<Rightarrow> string" where
  "fmt_0d w i = (if i < 0 then CHR ''-'' # pad (CHR ''0'') (w - 1) (dec (nat (- i)))
                 else pad (CHR ''0'') w (dec (nat i)))"

definition fmt_wd :: "nat \<Rightarrow> int \<Rightarrow> string" where
  "fmt_wd w i = pad (CHR '' '') w (fmt_d i)"

text \<open>
  \<open>snprintf(buf, size, ...)\<close> stores at most \<open>size - 1\<close> characters of the text and a final zero;
  its result is the length of the whole text.
\<close>

definition snprintf_text :: "nat \<Rightarrow> string \<Rightarrow> string" where
  "snprintf_text n s = take (n - 1) s"

lemma snprintf_fits [simp]: "length s < n \<Longrightarrow> snprintf_text n s = s"
  by (simp add: snprintf_text_def)

lemma length_pad: "length s \<le> w \<Longrightarrow> length (pad c w s) = w"
  by (simp add: pad_def)

lemma undec_replicate_zero: "undec (replicate k (CHR ''0'') @ s) = undec s"
  by (induction k) (simp_all add: undec_def undigit_def)

lemma undec_pad [simp]: "undec (pad (CHR ''0'') w s) = undec s"
  by (simp add: pad_def undec_replicate_zero)

lemma length_fmt_0d: "0 \<le> i \<Longrightarrow> i < 10 ^ w \<Longrightarrow> 0 < w \<Longrightarrow> length (fmt_0d w i) = w"
proof -
  assume "0 \<le> i" "i < 10 ^ w" "0 < w"
  moreover from this have "nat i < 10 ^ w" by (simp add: nat_less_iff)
  ultimately show ?thesis using length_dec [of "nat i" w] by (simp add: fmt_0d_def length_pad)
qed

lemma digits_fmt_0d: "0 \<le> i \<Longrightarrow> list_all is_digit (fmt_0d w i)"
  using dec_digits [of "nat i"] by (auto simp: fmt_0d_def pad_def list_all_iff is_digit_def)

lemma undec_fmt_0d: "0 \<le> i \<Longrightarrow> undec (fmt_0d w i) = nat i"
  by (simp add: fmt_0d_def)

lemma fmt_d_inject: "fmt_d i = fmt_d j \<longleftrightarrow> i = j"
proof
  assume eq: "fmt_d i = fmt_d j"
  have sign: "CHR ''-'' # s \<noteq> dec n" for s n
  proof
    assume "CHR ''-'' # s = dec n"
    then have "list_all is_digit (CHR ''-'' # s)" using dec_digits by metis
    then show False by (simp add: is_digit_def)
  qed
  then have "i < 0 \<longleftrightarrow> j < 0"
    using eq sign [symmetric] by (auto simp: fmt_d_def split: if_splits)
  then show "i = j" using eq by (auto simp: fmt_d_def split: if_splits)
qed simp

lemma length_fmt_d: "- (10 ^ k) < i \<Longrightarrow> i < 10 ^ k \<Longrightarrow> 0 < k \<Longrightarrow> length (fmt_d i) \<le> Suc k"
proof -
  assume a: "- (10 ^ k) < i" "i < 10 ^ k" "0 < k"
  then have "nat \<bar>i\<bar> < 10 ^ k" by (simp add: nat_less_iff abs_less_iff)
  then have "length (dec (nat \<bar>i\<bar>)) \<le> k" using a(3) by (rule length_dec)
  then show ?thesis by (auto simp: fmt_d_def)
qed

end
