(* ===== verification/RN_Timestamp.thy ===== *)
theory RN_Timestamp
  imports RN_Printf
begin

text \<open>
  RN/base/Timestamp.h and Timestamp.cpp. A Timestamp is its one member, the microseconds since the
  epoch, as an integer (the 64-bit range covers some 290 000 years). A \<open>double\<close> is the rational number
  it denotes; the rounding of floating-point operations is the argument \<open>rnd\<close>. The clock and the calendar
  (\<open>gettimeofday\<close>, \<open>gmtime_r\<close>) are arguments.
\<close>

type_synonym timestamp = int

definition kMicroSecondsPerSecond :: int where
  "kMicroSecondsPerSecond = 1000 * 1000"

definition Timestamp_invalid :: timestamp where
  "Timestamp_invalid = 0"

definition valid :: "timestamp \<Rightarrow> bool" where
  "valid t \<longleftrightarrow> 0 < t"

definition secondsSinceEpoch :: "timestamp \<Rightarrow> int" where
  "secondsSinceEpoch t = cdiv t kMicroSecondsPerSecond"

definition fromUnixTime :: "int \<Rightarrow> int \<Rightarrow> timestamp" where
  "fromUnixTime t us = t * kMicroSecondsPerSecond + us"

definition nextMicroSeconds :: "timestamp \<Rightarrow> timestamp" where
  "nextMicroSeconds t = t + 1"

definition Timestamp_less :: "timestamp \<Rightarrow> timestamp \<Rightarrow> bool" where
  "Timestamp_less lhs rhs \<longleftrightarrow> lhs < rhs"

definition Timestamp_eq :: "timestamp \<Rightarrow> timestamp \<Rightarrow> bool" where
  "Timestamp_eq lhs rhs \<longleftrightarrow> lhs = rhs"

definition Timestamp_swap :: "timestamp \<Rightarrow> timestamp \<Rightarrow> timestamp \<times> timestamp" where
  "Timestamp_swap this that = (that, this)"

text \<open>\<open>now\<close>: from the \<open>timeval\<close> that \<open>gettimeofday\<close> filled.\<close>

definition Timestamp_now :: "int \<Rightarrow> int \<Rightarrow> timestamp" where
  "Timestamp_now tv_sec tv_usec = tv_sec * kMicroSecondsPerSecond + tv_usec"

text \<open>The conversion of a \<open>double\<close> to an integer drops the fraction.\<close>

definition trunc :: "rat \<Rightarrow> int" where
  "trunc r = (if 0 \<le> r then \<lfloor>r\<rfloor> else \<lceil>r\<rceil>)"

definition addTime :: "(rat \<Rightarrow> rat) \<Rightarrow> timestamp \<Rightarrow> rat \<Rightarrow> timestamp" where
  "addTime rnd t seconds = t + trunc (rnd (seconds * of_int kMicroSecondsPerSecond))"

definition timeDifference :: "(rat \<Rightarrow> rat) \<Rightarrow> timestamp \<Rightarrow> timestamp \<Rightarrow> rat" where
  "timeDifference rnd high low = rnd (rnd (of_int (high - low)) / of_int kMicroSecondsPerSecond)"

subsection \<open>Printing\<close>

definition Timestamp_toString :: "timestamp \<Rightarrow> string" where
  "Timestamp_toString t =
     (let seconds = cdiv t kMicroSecondsPerSecond;
          microseconds = cmod t kMicroSecondsPerSecond
      in snprintf_text (32 - 1) (fmt_d seconds @ ''.'' @ fmt_0d 6 microseconds))"

record tm =
  tm_year :: int
  tm_mon :: int
  tm_mday :: int
  tm_hour :: int
  tm_min :: int
  tm_sec :: int

text \<open>The conversion \<open>%4d%02d%02d %02d:%02d:%02d\<close> shared with the log header.\<close>

definition fmt_tm :: "tm \<Rightarrow> string" where
  "fmt_tm t = fmt_wd 4 (tm_year t + 1900) @ fmt_0d 2 (tm_mon t + 1) @ fmt_0d 2 (tm_mday t) @ '' '' @
     fmt_0d 2 (tm_hour t) @ '':'' @ fmt_0d 2 (tm_min t) @ '':'' @ fmt_0d 2 (tm_sec t)"

definition toFormattedString :: "(int \<Rightarrow> tm) \<Rightarrow> bool \<Rightarrow> timestamp \<Rightarrow> string" where
  "toFormattedString gmtime showMicroseconds t =
     (let tm_time = gmtime (cdiv t kMicroSecondsPerSecond)
      in if showMicroseconds
         then snprintf_text 64 (fmt_tm tm_time @ ''.'' @ fmt_0d 6 (cmod t kMicroSecondsPerSecond))
         else snprintf_text 64 (fmt_tm tm_time))"

text \<open>The fields \<open>gmtime_r\<close> can produce, for years of four digits.\<close>

definition tm_ok :: "tm \<Rightarrow> bool" where
  "tm_ok t \<longleftrightarrow> 1000 \<le> tm_year t + 1900 \<and> tm_year t + 1900 \<le> 9999 \<and> 0 \<le> tm_mon t \<and> tm_mon t < 12 \<and>
     1 \<le> tm_mday t \<and> tm_mday t \<le> 31 \<and> 0 \<le> tm_hour t \<and> tm_hour t < 24 \<and> 0 \<le> tm_min t \<and> tm_min t < 60 \<and>
     0 \<le> tm_sec t \<and> tm_sec t \<le> 60"

lemma trunc_of_int [simp]: "trunc (of_int i) = i"
  by (simp add: trunc_def)

lemma trunc_nonneg: "0 \<le> r \<Longrightarrow> 0 \<le> trunc r"
  by (simp add: trunc_def)

lemma length_fmt_wd_4: "1000 \<le> y \<Longrightarrow> y \<le> 9999 \<Longrightarrow> length (fmt_wd 4 y) = 4"
proof -
  assume "1000 \<le> y" "y \<le> 9999"
  then have "nat y < 10 ^ 4" by simp
  then have "length (dec (nat y)) \<le> 4" by (rule length_dec) simp
  then show ?thesis using \<open>1000 \<le> y\<close> by (simp add: fmt_wd_def fmt_d_def length_pad)
qed

lemma length_fmt_tm: "tm_ok t \<Longrightarrow> length (fmt_tm t) = 17"
  by (simp add: fmt_tm_def tm_ok_def length_fmt_wd_4 length_fmt_0d)

lemma toString_nonneg:
  assumes "0 \<le> t" and "t < 2 ^ 63"
  shows "Timestamp_toString t = dec (nat (t div 1000000)) @ ''.'' @ fmt_0d 6 (t mod 1000000)"
proof -
  have "nat (t div 1000000) < 10 ^ 13" using assms by simp
  then have "length (dec (nat (t div 1000000))) \<le> 13" by (rule length_dec) simp
  moreover have "length (fmt_0d 6 (t mod 1000000)) = 6" by (intro length_fmt_0d) simp_all
  ultimately show ?thesis
    using assms by (simp add: Timestamp_toString_def Let_def fmt_d_def kMicroSecondsPerSecond_def)
qed

subsection \<open>Properties\<close>

text \<open>C38: the printed form of a timestamp from the epoch on (0 to \<open>2 ^ 63 - 1\<close> microseconds) fits its 32-byte array, is the decimal text of its whole
  seconds, a point and exactly six digits, which are the microseconds, and identifies the timestamp: equal texts come from equal timestamps. (Before the epoch, which
  is not in the statement, the code prints a minus sign with the seconds and another one with the microseconds.)\<close>

theorem toString_identifies:
  assumes "0 \<le> t" and "t < 2 ^ 63"
  shows "length (Timestamp_toString t) < 31 \<and>
    (\<exists>seconds micros. Timestamp_toString t = seconds @ ''.'' @ micros \<and> list_all is_digit seconds \<and> seconds \<noteq> [] \<and>
      undec seconds = nat (secondsSinceEpoch t) \<and> list_all is_digit micros \<and> length micros = 6 \<and> int (undec micros) = t mod 1000000) \<and>
    (0 \<le> u \<and> u < 2 ^ 63 \<and> Timestamp_toString u = Timestamp_toString t \<longrightarrow> u = t)"
proof -
  have six: "length (fmt_0d 6 (x mod 1000000)) = 6" for x by (intro length_fmt_0d) simp_all
  have "nat (t div 1000000) < 10 ^ 13" using assms by simp
  then have len: "length (dec (nat (t div 1000000))) \<le> 13" by (rule length_dec) simp
  have inj: "u = t" if "0 \<le> u" "u < 2 ^ 63" "Timestamp_toString u = Timestamp_toString t"
  proof -
    have "dec (nat (u div 1000000)) @ ''.'' @ fmt_0d 6 (u mod 1000000) =
      dec (nat (t div 1000000)) @ ''.'' @ fmt_0d 6 (t mod 1000000)"
      using that assms by (simp add: toString_nonneg)
    then have e: "dec (nat (u div 1000000)) = dec (nat (t div 1000000))" "fmt_0d 6 (u mod 1000000) = fmt_0d 6 (t mod 1000000)"
      using six by (auto simp: append_eq_append_conv)
    then have "u div 1000000 = t div 1000000"
      using that assms by (simp add: eq_nat_nat_iff pos_imp_zdiv_nonneg_iff)
    moreover have "u mod 1000000 = t mod 1000000"
      using arg_cong [OF e(2), of undec] by (simp add: undec_fmt_0d eq_nat_nat_iff)
    ultimately show ?thesis by (metis div_mult_mod_eq)
  qed
  have sec: "secondsSinceEpoch t = t div 1000000"
    using assms by (simp add: secondsSinceEpoch_def kMicroSecondsPerSecond_def)
  have "length (Timestamp_toString t) < 31" using len six assms by (simp add: toString_nonneg)
  moreover have "\<exists>seconds micros. Timestamp_toString t = seconds @ ''.'' @ micros \<and> list_all is_digit seconds \<and> seconds \<noteq> [] \<and>
      undec seconds = nat (secondsSinceEpoch t) \<and> list_all is_digit micros \<and> length micros = 6 \<and> int (undec micros) = t mod 1000000"
    using six [of t] assms toString_nonneg [OF assms] dec_digits [of "nat (t div 1000000)"]
    by (intro exI [of _ "dec (nat (t div 1000000))"] exI [of _ "fmt_0d 6 (t mod 1000000)"])
      (simp add: sec digits_fmt_0d undec_fmt_0d)
  ultimately show ?thesis using inj by blast
qed

theorem toString_identifies_witness:
  "\<exists>seconds micros. Timestamp_toString 1530000000000123 = seconds @ ''.'' @ micros \<and> undec seconds = 1530000000 \<and> length micros = 6 \<and> undec micros = 123"
proof -
  have "secondsSinceEpoch 1530000000000123 = 1530000000" by (simp add: secondsSinceEpoch_def kMicroSecondsPerSecond_def)
  then show ?thesis using toString_identifies [of 1530000000000123 0] by auto
qed

end
