(* ===== verification/RN_TimerQueue.thy ===== *)
theory RN_TimerQueue
  imports RN_Timestamp "HOL-Library.Product_Lexorder"
begin

text \<open>
  RN/net/Timer.h, Timer.cpp, TimerQueue.h and TimerQueue.cpp. Timers are objects on a heap indexed by address
  (the \<open>shared_ptr\<close>; address 0 is null); \<open>timers_\<close>, a \<open>std::set\<close> of pairs compared by time and then by address,
  is the sorted list of its entries. \<open>timerfd\<close> records how the kernel timer was last armed: the time of the call
  and the relative seconds and nanoseconds it was given. The readings of the clock, the result of reading the
  descriptor and the effect of a timer's callback on the queue are arguments. \<open>TimerQueue::remove\<close> is
  unfinished in the source (it does not parse) and is not modelled.
\<close>

subsection \<open>Timers\<close>

record 'f timer =
  callback :: 'f
  expiration :: timestamp
  interval :: rat
  repeat :: bool

definition Timer_new :: "'f \<Rightarrow> timestamp \<Rightarrow> rat \<Rightarrow> 'f timer" where
  "Timer_new cb when i = \<lparr>callback = cb, expiration = when, interval = i, repeat = (0 < i)\<rparr>"

definition restart :: "(rat \<Rightarrow> rat) \<Rightarrow> timestamp \<Rightarrow> 'f timer \<Rightarrow> 'f timer" where
  "restart rnd now t =
     (if repeat t then t\<lparr>expiration := addTime rnd now (interval t)\<rparr>
      else t\<lparr>expiration := Timestamp_invalid\<rparr>)"

subsection \<open>The kernel timer\<close>

definition getTimeFromNow :: "timestamp \<Rightarrow> timestamp \<Rightarrow> int \<times> int" where
  "getTimeFromNow now when =
     (let microseconds = when - now;
          microseconds = (if microseconds < 100 then 100 else microseconds)
      in (cdiv microseconds kMicroSecondsPerSecond, cmod microseconds kMicroSecondsPerSecond))"

type_synonym entry = "timestamp \<times> nat"

record 'f tqueue =
  tq_thread :: int
  theap :: "nat \<Rightarrow> 'f timer"
  timers :: "entry list"
  timerfd :: "(timestamp \<times> int \<times> int) option"

definition resetTimerfd :: "timestamp \<Rightarrow> timestamp \<Rightarrow> ('f, 'z) tqueue_scheme \<Rightarrow> ('f, 'z) tqueue_scheme" where
  "resetTimerfd clk when q = q\<lparr>timerfd := Some (clk, getTimeFromNow clk when)\<rparr>"

subsection \<open>The queue\<close>

text \<open>The descriptor \<open>timerfd_create\<close> gives; LOG_SYSFATAL aborts when it fails.\<close>

definition createTimerfd :: "int \<Rightarrow> int result" where
  "createTimerfd fd = (if fd < 0 then Inl Aborted else Inr fd)"

definition TimerQueue_new :: "int \<Rightarrow> (nat \<Rightarrow> 'f timer) \<Rightarrow> 'f tqueue" where
  "TimerQueue_new tid h = \<lparr>tq_thread = tid, theap = h, timers = [], timerfd = None\<rparr>"

definition insert_timer :: "nat \<Rightarrow> ('f, 'z) tqueue_scheme \<Rightarrow> (('f, 'z) tqueue_scheme \<times> bool) result" where
  "insert_timer a q =
     (let when = expiration (theap q a);
          earliestChanged = (case timers q of [] \<Rightarrow> True | e # es \<Rightarrow> when < fst e)
      in rassert ((when, a) \<notin> set (timers q))
           (Inr (q\<lparr>timers := insort (when, a) (timers q)\<rparr>, earliestChanged)))"

definition addTimerInLoop :: "int \<Rightarrow> timestamp \<Rightarrow> nat \<Rightarrow> ('f, 'z) tqueue_scheme \<Rightarrow> ('f, 'z) tqueue_scheme result" where
  "addTimerInLoop tid clk a q =
     (if tq_thread q = tid then
        rbind (insert_timer a q) (\<lambda>(q, earliestChanged).
          Inr (if earliestChanged then resetTimerfd clk (expiration (theap q a)) q else q))
      else Inl Aborted)"

text \<open>
  \<open>addTimer\<close> allocates the timer at a fresh address and goes through \<open>runInLoop\<close>: on the loop's
  own thread the insertion happens at once, on another it is queued (the list of timers to add).
\<close>

definition addTimer ::
  "int \<Rightarrow> timestamp \<Rightarrow> nat \<Rightarrow> 'f \<Rightarrow> timestamp \<Rightarrow> rat \<Rightarrow> ('f, 'z) tqueue_scheme \<Rightarrow> (('f, 'z) tqueue_scheme \<times> nat list) result" where
  "addTimer tid clk a cb when i q =
     (let q = q\<lparr>theap := (theap q)(a := Timer_new cb when i)\<rparr>
      in if tq_thread q = tid then rbind (addTimerInLoop tid clk a q) (\<lambda>q. Inr (q, []))
         else Inr (q, [a]))"

definition getExpired :: "timestamp \<Rightarrow> ('f, 'z) tqueue_scheme \<Rightarrow> (entry list \<times> ('f, 'z) tqueue_scheme) result" where
  "getExpired now q =
     (let guard = (nextMicroSeconds now, 0);
          expired = takeWhile (\<lambda>e. e < guard) (timers q);
          rest = dropWhile (\<lambda>e. e < guard) (timers q)
      in rassert (case rest of [] \<Rightarrow> True | e # es \<Rightarrow> now < fst e)
           (Inr (expired, q\<lparr>timers := rest\<rparr>)))"

definition reinsert :: "(rat \<Rightarrow> rat) \<Rightarrow> timestamp \<Rightarrow> entry \<Rightarrow> ('f, 'z) tqueue_scheme \<Rightarrow> ('f, 'z) tqueue_scheme result" where
  "reinsert rnd now e q =
     (let a = snd e in
      if repeat (theap q a) then
        rbind (insert_timer a (q\<lparr>theap := (theap q)(a := restart rnd now (theap q a))\<rparr>)) (\<lambda>(q, ch). Inr q)
      else Inr q)"

definition reset :: "(rat \<Rightarrow> rat) \<Rightarrow> timestamp \<Rightarrow> entry list \<Rightarrow> timestamp \<Rightarrow> ('f, 'z) tqueue_scheme \<Rightarrow> ('f, 'z) tqueue_scheme result" where
  "reset rnd clk expired now q =
     rbind (rfold (reinsert rnd now) expired q) (\<lambda>q.
       let nextExpire = (case timers q of [] \<Rightarrow> Timestamp_invalid | e # es \<Rightarrow> expiration (theap q (snd e)))
       in Inr (if valid nextExpire then resetTimerfd clk nextExpire q else q))"

text \<open>\<open>n\<close> is the number of bytes read from the timer descriptor.\<close>

definition run_expired :: "('f \<Rightarrow> ('f, 'z) tqueue_scheme \<Rightarrow> ('f, 'z) tqueue_scheme result) \<Rightarrow> entry list \<Rightarrow> ('f, 'z) tqueue_scheme \<Rightarrow> ('f, 'z) tqueue_scheme result" where
  "run_expired run = rfold (\<lambda>e q. run (callback (theap q (snd e))) q)"

definition readTimerfd :: "int \<Rightarrow> unit result" where
  "readTimerfd n = rassert (n = 8) (Inr ())"

definition timer_handleRead ::
  "('f \<Rightarrow> ('f, 'z) tqueue_scheme \<Rightarrow> ('f, 'z) tqueue_scheme result) \<Rightarrow> (rat \<Rightarrow> rat) \<Rightarrow> int \<Rightarrow> timestamp \<Rightarrow> int \<Rightarrow> timestamp \<Rightarrow>
     ('f, 'z) tqueue_scheme \<Rightarrow> ('f, 'z) tqueue_scheme result" where
  "timer_handleRead run rnd tid now n clk q =
     (if tq_thread q = tid then
        rbind (readTimerfd n) (\<lambda>u.
        rbind (getExpired now q) (\<lambda>(expired, q).
        rbind (run_expired run expired q) (\<lambda>q.
        reset rnd clk expired now q)))
      else Inl Aborted)"

subsection \<open>Invariant\<close>

text \<open>
  The entries are sorted, carry the expiration of their timer, and every timer occurs once. The
  kernel timer is armed for the first of them.
\<close>

definition tq_inv :: "('f, 'z) tqueue_scheme \<Rightarrow> bool" where
  "tq_inv q \<longleftrightarrow> sorted (timers q) \<and> distinct (map snd (timers q)) \<and>
     (\<forall>e \<in> set (timers q). fst e = expiration (theap q (snd e)) \<and> 0 < fst e \<and> snd e \<noteq> 0)"

definition armed :: "('f, 'z) tqueue_scheme \<Rightarrow> bool" where
  "armed q \<longleftrightarrow> (case timers q of [] \<Rightarrow> True | e # es \<Rightarrow>
     (case timerfd q of None \<Rightarrow> False | Some (clk, ts) \<Rightarrow> ts = getTimeFromNow clk (fst e)))"

definition pending :: "('f, 'z) tqueue_scheme \<Rightarrow> nat set" where
  "pending q = snd ` set (timers q)"

lemma tq_inv_new [inv_intros]: "tq_inv (TimerQueue_new tid h)" "armed (TimerQueue_new tid h)"
  by (simp_all add: tq_inv_def armed_def TimerQueue_new_def)

lemma tq_inv_distinct: "tq_inv q \<Longrightarrow> distinct (timers q)"
  by (auto simp: tq_inv_def distinct_map)

lemma resetTimerfd_frame [simp]:
  "tq_inv (resetTimerfd clk when q) = tq_inv q" "timers (resetTimerfd clk when q) = timers q"
  "theap (resetTimerfd clk when q) = theap q" "tq_thread (resetTimerfd clk when q) = tq_thread q"
  by (simp_all add: resetTimerfd_def tq_inv_def)

lemma hd_insort: "insort x xs = (if xs = [] \<or> x \<le> hd xs then x # xs else hd xs # insort x (tl xs))"
  by (cases xs) auto

lemma distinct_snd_insort:
  "distinct (map snd (insort e es)) \<longleftrightarrow> snd e \<notin> snd ` set es \<and> distinct (map snd es)"
  by (induction es) (auto simp: set_insort_key)

lemma armed_iff: "armed q \<longleftrightarrow>
    timers q = [] \<or> (\<exists>clk. timerfd q = Some (clk, getTimeFromNow clk (fst (hd (timers q)))))"
  by (cases "timers q") (auto simp: armed_def split: option.splits)

lemma insert_timer_ok:
  assumes inv: "tq_inv q" and fresh: "a \<notin> pending q" "a \<noteq> 0" and pos: "0 < expiration (theap q a)"
  shows "\<exists>q' ch. insert_timer a q = Inr (q', ch) \<and> tq_inv q' \<and>
    q' = q\<lparr>timers := insort (expiration (theap q a), a) (timers q)\<rparr> \<and>
    fst (hd (timers q')) = (if ch then expiration (theap q a) else fst (hd (timers q))) \<and>
    (\<not> ch \<longrightarrow> timers q \<noteq> [])"
proof -
  let ?e = "(expiration (theap q a), a)"
  let ?q = "q\<lparr>timers := insort ?e (timers q)\<rparr>"
  let ?ch = "case timers q of [] \<Rightarrow> True | e # es \<Rightarrow> expiration (theap q a) < fst e"
  have notin: "?e \<notin> set (timers q)" "a \<notin> snd ` set (timers q)" using fresh by (force simp: pending_def)+
  then have "insert_timer a q = Inr (?q, ?ch)" by (simp add: insert_timer_def Let_def)
  moreover have "distinct (map snd (insort ?e (timers q)))"
    using inv notin(2) by (simp add: tq_inv_def distinct_snd_insort)
  then have "tq_inv ?q"
    using inv fresh pos by (auto simp: tq_inv_def sorted_insort set_insort_key)
  moreover have "fst (hd (insort ?e (timers q))) = (if ?ch then expiration (theap q a) else fst (hd (timers q)))"
    by (cases "timers q") (auto simp: less_eq_prod_def not_less)
  moreover have "\<not> ?ch \<longrightarrow> timers q \<noteq> []" by auto
  ultimately show ?thesis by (intro exI [of _ ?q] exI [of _ ?ch]) simp
qed

lemma pending_insort: "pending (q\<lparr>timers := insort e es\<rparr>) = insert (snd e) (snd ` set es)"
  by (simp add: pending_def set_insort_key)

lemma addTimerInLoop_ok:
  assumes inv: "tq_inv q" "armed q" and fresh: "a \<notin> pending q" "a \<noteq> 0"
    and pos: "0 < expiration (theap q a)" and tid: "tq_thread q = tid"
  shows "\<exists>q'. addTimerInLoop tid clk a q = Inr q' \<and> tq_inv q' \<and> armed q' \<and> tq_thread q' = tid \<and>
    theap q' = theap q \<and> set (timers q') = insert (expiration (theap q a), a) (set (timers q))"
proof -
  obtain q1 ch where q1: "insert_timer a q = Inr (q1, ch)" "tq_inv q1"
    "q1 = q\<lparr>timers := insort (expiration (theap q a), a) (timers q)\<rparr>"
    "fst (hd (timers q1)) = (if ch then expiration (theap q a) else fst (hd (timers q)))"
    "\<not> ch \<longrightarrow> timers q \<noteq> []"
    using insert_timer_ok [OF inv(1) fresh pos] by blast
  let ?q = "if ch then resetTimerfd clk (expiration (theap q1 a)) q1 else q1"
  have hd: "\<exists>e es. timers q1 = e # es" using q1(3) by (cases "timers q1") (auto simp: insort_not_Nil)
  have "addTimerInLoop tid clk a q = Inr ?q" using q1(1) tid by (simp add: addTimerInLoop_def)
  moreover have "tq_inv ?q" using q1(2) by simp
  moreover have "armed ?q"
  proof (cases ch)
    case True
    then show ?thesis using q1(3,4) by (auto simp: armed_iff resetTimerfd_def)
  next
    case False
    then have "fst (hd (timers q1)) = fst (hd (timers q))" "timerfd q1 = timerfd q" using q1(3,4) by simp_all
    then show ?thesis using False inv(2) q1(5) by (auto simp: armed_iff)
  qed
  ultimately show ?thesis using q1(3) tid by (auto simp: resetTimerfd_def set_insort_key)
qed

lemma sorted_takeWhile_filter:
  assumes "sorted xs" and "\<And>x y. P y \<Longrightarrow> x \<le> y \<Longrightarrow> P x"
  shows "takeWhile P xs = filter P xs \<and> dropWhile P xs = filter (\<lambda>x. \<not> P x) xs"
  using assms(1)
proof (induction xs)
  case (Cons x xs)
  have "filter P xs = []" "filter (\<lambda>y. \<not> P y) xs = xs" if "\<not> P x"
    using Cons.prems assms(2) that by (auto simp: filter_empty_conv intro!: filter_True)
  then show ?case using Cons by auto
qed simp

lemma before_guard: "e < (nextMicroSeconds now, 0 :: nat) \<longleftrightarrow> fst e \<le> now"
  by (cases e) (auto simp: nextMicroSeconds_def less_prod_def)

lemma getExpired_eq:
  assumes "tq_inv q"
  shows "getExpired now q = Inr (filter (\<lambda>e. fst e \<le> now) (timers q),
    q\<lparr>timers := filter (\<lambda>e. now < fst e) (timers q)\<rparr>)"
proof -
  have "sorted (timers q)" using assms by (simp add: tq_inv_def)
  moreover have "\<And>x y :: entry. fst y \<le> now \<Longrightarrow> x \<le> y \<Longrightarrow> fst x \<le> now" by (auto simp: less_eq_prod_def)
  ultimately have "takeWhile (\<lambda>e. fst e \<le> now) (timers q) = filter (\<lambda>e. fst e \<le> now) (timers q)"
    and rest: "dropWhile (\<lambda>e. fst e \<le> now) (timers q) = filter (\<lambda>e. now < fst e) (timers q)"
    using sorted_takeWhile_filter [of "timers q" "\<lambda>e. fst e \<le> now"] by (simp_all add: not_le)
  moreover have "case filter (\<lambda>e. now < fst e) (timers q) of [] \<Rightarrow> True | e # es \<Rightarrow> now < fst e"
    by (auto split: list.split dest: Cons_eq_filterD [OF sym])
  ultimately show ?thesis by (simp add: getExpired_def Let_def before_guard)
qed

text \<open>
  What a timer callback may do to the queue while the expired timers \<open>E\<close> are out of it: anything
  that keeps the queue well-formed, leaves the timers \<open>E\<close> alone (they are still referenced by \<open>handleRead\<close>)
  and cancels none (the library has no working cancellation).
\<close>

definition detached :: "nat set \<Rightarrow> (nat \<Rightarrow> 'f timer) \<Rightarrow> ('f, 'z) tqueue_scheme \<Rightarrow> bool" where
  "detached E h q \<longleftrightarrow> pending q \<inter> E = {} \<and> (\<forall>a \<in> E. theap q a = h a)"

definition callbacks_ok :: "('f \<Rightarrow> ('f, 'z) tqueue_scheme \<Rightarrow> ('f, 'z) tqueue_scheme result) \<Rightarrow> nat set \<Rightarrow> (nat \<Rightarrow> 'f timer) \<Rightarrow> bool" where
  "callbacks_ok run E h \<longleftrightarrow> (\<forall>f q. tq_inv q \<and> detached E h q \<longrightarrow>
     (\<exists>q'. run f q = Inr q' \<and> tq_inv q' \<and> detached E h q' \<and> tq_thread q' = tq_thread q \<and>
        set (timers q) \<subseteq> set (timers q')))"

lemma run_expired_ok:
  assumes "callbacks_ok run E h" and "tq_inv q" and "detached E h q"
  shows "\<exists>q'. run_expired run es q = Inr q' \<and> tq_inv q' \<and> detached E h q' \<and> tq_thread q' = tq_thread q \<and>
    set (timers q) \<subseteq> set (timers q')"
  using assms(2,3) unfolding run_expired_def
proof (induction es arbitrary: q)
  case (Cons e es)
  obtain q1 where "run (callback (theap q (snd e))) q = Inr q1" "tq_inv q1" "detached E h q1"
    "tq_thread q1 = tq_thread q" "set (timers q) \<subseteq> set (timers q1)"
    using assms(1) Cons.prems unfolding callbacks_ok_def by meson
  then show ?case using Cons.IH [of q1] by auto
qed simp

text \<open>Rounding keeps the sign, as IEEE rounding does.\<close>

definition rounds_sign :: "(rat \<Rightarrow> rat) \<Rightarrow> bool" where
  "rounds_sign rnd \<longleftrightarrow> (\<forall>x. 0 \<le> x \<longrightarrow> 0 \<le> rnd x)"

lemma restart_pos:
  assumes "rounds_sign rnd" and "0 < now" and "repeat t" and "0 < interval t"
  shows "0 < expiration (restart rnd now t)"
proof -
  have "0 \<le> rnd (interval t * of_int kMicroSecondsPerSecond)"
    using assms by (simp add: rounds_sign_def kMicroSecondsPerSecond_def)
  then show ?thesis using assms trunc_nonneg by (fastforce simp: restart_def addTime_def)
qed

text \<open>A timer repeats exactly when its interval is positive, as the constructor sets it.\<close>

definition timer_wf :: "'f timer \<Rightarrow> bool" where
  "timer_wf t \<longleftrightarrow> (repeat t \<longleftrightarrow> 0 < interval t)"

lemma reinsert_ok:
  assumes inv: "tq_inv q" and out: "a \<notin> pending q" "a \<noteq> 0" and wf: "timer_wf (theap q a)"
    and rnd: "rounds_sign rnd" and now: "0 < now"
  shows "\<exists>q'. reinsert rnd now (t, a) q = Inr q' \<and> tq_inv q' \<and> tq_thread q' = tq_thread q \<and>
    pending q' = (if repeat (theap q a) then insert a (pending q) else pending q) \<and>
    (\<forall>b. b \<noteq> a \<longrightarrow> theap q' b = theap q b) \<and> set (timers q) \<subseteq> set (timers q') \<and>
    (repeat (theap q a) \<longrightarrow> (addTime rnd now (interval (theap q a)), a) \<in> set (timers q'))"
proof (cases "repeat (theap q a)")
  case True
  let ?q = "q\<lparr>theap := (theap q)(a := restart rnd now (theap q a))\<rparr>"
  have "tq_inv ?q" using inv out(1) by (auto simp: tq_inv_def pending_def)
  moreover have "0 < expiration (theap ?q a)"
    using restart_pos [OF rnd now True] wf True by (simp add: timer_wf_def)
  ultimately obtain q' ch where "insert_timer a ?q = Inr (q', ch)" "tq_inv q'"
    "q' = ?q\<lparr>timers := insort (expiration (theap ?q a), a) (timers ?q)\<rparr>"
    using insert_timer_ok [of ?q a] out by (auto simp: pending_def)
  then show ?thesis using True
    by (auto simp: reinsert_def pending_def set_insort_key restart_def)
next
  case False
  then show ?thesis using inv by (simp add: reinsert_def)
qed

lemma rfold_reinsert_ok:
  assumes "tq_inv q" and "distinct (map snd es)" and "pending q \<inter> snd ` set es = {}"
    and "\<forall>e \<in> set es. snd e \<noteq> 0 \<and> timer_wf (theap q (snd e))" and "rounds_sign rnd" and "0 < now"
  shows "\<exists>q'. rfold (reinsert rnd now) es q = Inr q' \<and> tq_inv q' \<and> tq_thread q' = tq_thread q \<and>
    pending q' = pending q \<union> {a \<in> snd ` set es. repeat (theap q a)} \<and> set (timers q) \<subseteq> set (timers q') \<and>
    (\<forall>a \<in> snd ` set es. repeat (theap q a) \<longrightarrow> (addTime rnd now (interval (theap q a)), a) \<in> set (timers q'))"
  using assms(1-4)
proof (induction es arbitrary: q)
  case (Cons e es)
  obtain t a where e: "e = (t, a)" by (cases e)
  obtain q1 where q1: "reinsert rnd now e q = Inr q1" "tq_inv q1" "tq_thread q1 = tq_thread q"
    "pending q1 = (if repeat (theap q a) then insert a (pending q) else pending q)"
    "\<forall>b. b \<noteq> a \<longrightarrow> theap q1 b = theap q b" "set (timers q) \<subseteq> set (timers q1)"
    "repeat (theap q a) \<longrightarrow> (addTime rnd now (interval (theap q a)), a) \<in> set (timers q1)"
    using reinsert_ok [of q a rnd now t] Cons.prems assms(5,6) e by auto
  have a: "a \<notin> snd ` set es" using Cons.prems(2) e by simp
  then have same: "\<forall>b \<in> snd ` set es. theap q1 b = theap q b" using q1(5) by metis
  have "pending q1 \<inter> snd ` set es = {}" using Cons.prems(3) q1(4) a e by auto
  then obtain q' where q': "rfold (reinsert rnd now) es q1 = Inr q'" "tq_inv q'" "tq_thread q' = tq_thread q1"
    "pending q' = pending q1 \<union> {b \<in> snd ` set es. repeat (theap q1 b)}" "set (timers q1) \<subseteq> set (timers q')"
    "\<forall>b \<in> snd ` set es. repeat (theap q1 b) \<longrightarrow> (addTime rnd now (interval (theap q1 b)), b) \<in> set (timers q')"
    using Cons.IH [OF q1(2)] Cons.prems same by auto
  have "pending q' = pending q \<union> {b \<in> snd ` set (e # es). repeat (theap q b)}"
    using q'(4) q1(4) same e by auto
  moreover have "\<forall>b \<in> snd ` set (e # es). repeat (theap q b) \<longrightarrow>
      (addTime rnd now (interval (theap q b)), b) \<in> set (timers q')"
    using q'(5,6) q1(7) same e by auto
  ultimately show ?case using q1(1,3,6) q'(1-3,5) by auto
qed simp

lemma reset_ok:
  assumes "tq_inv q" and "distinct (map snd es)" and "pending q \<inter> snd ` set es = {}"
    and "\<forall>e \<in> set es. snd e \<noteq> 0 \<and> timer_wf (theap q (snd e))" and "rounds_sign rnd" and "0 < now"
  shows "\<exists>q'. reset rnd clk es now q = Inr q' \<and> tq_inv q' \<and> armed q' \<and> tq_thread q' = tq_thread q \<and>
    pending q' = pending q \<union> {a \<in> snd ` set es. repeat (theap q a)} \<and> set (timers q) \<subseteq> set (timers q') \<and>
    (\<forall>a \<in> snd ` set es. repeat (theap q a) \<longrightarrow> (addTime rnd now (interval (theap q a)), a) \<in> set (timers q'))"
proof -
  obtain q' where q': "rfold (reinsert rnd now) es q = Inr q'" "tq_inv q'" "tq_thread q' = tq_thread q"
    "pending q' = pending q \<union> {a \<in> snd ` set es. repeat (theap q a)}" "set (timers q) \<subseteq> set (timers q')"
    "\<forall>a \<in> snd ` set es. repeat (theap q a) \<longrightarrow> (addTime rnd now (interval (theap q a)), a) \<in> set (timers q')"
    using rfold_reinsert_ok [OF assms] by blast
  show ?thesis
  proof (cases "timers q'")
    case Nil
    then show ?thesis using q' by (simp add: reset_def Let_def valid_def Timestamp_invalid_def armed_def)
  next
    case (Cons e rest)
    then have e: "expiration (theap q' (snd e)) = fst e" "0 < fst e" using q'(2) by (auto simp: tq_inv_def)
    then have "reset rnd clk es now q = Inr (resetTimerfd clk (fst e) q')"
      using q'(1) Cons by (simp add: reset_def Let_def valid_def)
    moreover have "armed (resetTimerfd clk (fst e) q')"
      using Cons by (simp add: armed_def resetTimerfd_def)
    ultimately show ?thesis using q' by (simp add: pending_def)
  qed
qed

lemma tq_inv_filter: "tq_inv q \<Longrightarrow> tq_inv (q\<lparr>timers := filter P (timers q)\<rparr>)"
  by (auto simp: tq_inv_def sorted_wrt_filter distinct_map_filter)

lemma expired_distinct:
  assumes "tq_inv q"
  shows "distinct (map snd (filter (\<lambda>e. fst e \<le> now) (timers q)))"
    and "snd ` set (filter (\<lambda>e. now < fst e) (timers q)) \<inter> snd ` set (filter (\<lambda>e. fst e \<le> now) (timers q)) = {}"
proof -
  have d: "distinct (map snd (timers q))" using assms by (simp add: tq_inv_def)
  then show "distinct (map snd (filter (\<lambda>e. fst e \<le> now) (timers q)))" by (rule distinct_map_filter)
  have "inj_on snd (set (timers q))" using d by (simp add: distinct_map)
  then show "snd ` set (filter (\<lambda>e. now < fst e) (timers q)) \<inter> snd ` set (filter (\<lambda>e. fst e \<le> now) (timers q)) = {}"
    by (auto dest!: inj_onD)
qed

text \<open>A callback that schedules a new timer (\<open>runAfter\<close> from a timer callback) is of the allowed kind.\<close>

definition schedule_again :: "(nat \<Rightarrow> bool) \<Rightarrow> timestamp \<Rightarrow> rat \<Rightarrow> nat \<Rightarrow> nat tqueue \<Rightarrow> nat tqueue result" where
  "schedule_again usable clk i a q =
     (if usable a \<and> a \<notin> pending q then rbind (addTimer (tq_thread q) clk a a (clk + 1000000) i q) (\<lambda>(q, l). Inr q)
      else Inr q)"

lemma schedule_again_ok:
  assumes "\<And>a. usable a \<Longrightarrow> a \<noteq> 0 \<and> a \<notin> E" and "0 < clk"
  shows "callbacks_ok (schedule_again usable clk i) E h"
  unfolding callbacks_ok_def
proof (intro allI impI)
  fix f and q :: "nat tqueue"
  assume q: "tq_inv q \<and> detached E h q"
  show "\<exists>q'. schedule_again usable clk i f q = Inr q' \<and> tq_inv q' \<and> detached E h q' \<and> tq_thread q' = tq_thread q \<and>
      set (timers q) \<subseteq> set (timers q')"
  proof (cases "usable f \<and> f \<notin> pending q")
    case True
    define q1 where "q1 = q\<lparr>theap := (theap q)(f := Timer_new f (clk + 1000000) i)\<rparr>"
    have 1: "tq_inv q1" using q True by (auto simp: tq_inv_def q1_def pending_def)
    have pend: "pending q1 = pending q" by (simp add: q1_def pending_def)
    have "0 < expiration (theap q1 f)" using assms(2) by (simp add: q1_def Timer_new_def)
    then obtain q2 ch where q2: "insert_timer f q1 = Inr (q2, ch)" "tq_inv q2"
      "q2 = q1\<lparr>timers := insort (expiration (theap q1 f), f) (timers q1)\<rparr>"
      using insert_timer_ok [OF 1, of f] True assms(1) pend by blast
    have fE: "f \<notin> E" using True assms(1) by blast
    have "detached E h q2" using q fE
      by (auto simp: q2(3) q1_def detached_def pending_insort pending_def set_insort_key)
    moreover have "set (timers q) \<subseteq> set (timers q2)" by (auto simp: q2(3) q1_def set_insort_key)
    moreover have "tq_thread q2 = tq_thread q" by (simp add: q2(3) q1_def)
    moreover have "schedule_again usable clk i f q =
        Inr (if ch then resetTimerfd clk (expiration (theap q2 f)) q2 else q2)"
      using True q2(1) by (simp add: schedule_again_def addTimer_def addTimerInLoop_def Let_def q1_def)
    ultimately show ?thesis using q2(2) by (auto simp: detached_def pending_def)
  qed (use q in \<open>auto simp: schedule_again_def\<close>)
qed

lemma timer_handleRead_eq:
  assumes "tq_inv q" and "tq_thread q = tid"
  shows "timer_handleRead run rnd tid now 8 clk q =
    rbind (run_expired run (filter (\<lambda>e. fst e \<le> now) (timers q)) (q\<lparr>timers := filter (\<lambda>e. now < fst e) (timers q)\<rparr>))
      (reset rnd clk (filter (\<lambda>e. fst e \<le> now) (timers q)) now)"
  using assms by (simp add: timer_handleRead_def readTimerfd_def getExpired_eq)

text \<open>A whole timer event.\<close>

lemma timer_event:
  fixes q :: "('f, 'z) tqueue_scheme" and now :: timestamp
  defines "E \<equiv> snd ` {e \<in> set (timers q). fst e \<le> now}"
  assumes inv: "tq_inv q" and wf: "\<forall>a \<in> E. timer_wf (theap q a)" and run: "callbacks_ok run E (theap q)"
    and rnd: "rounds_sign rnd" and now: "0 < now"
  shows "\<exists>q'. timer_handleRead run rnd (tq_thread q) now 8 clk q = Inr q' \<and> tq_inv q' \<and> armed q' \<and>
    (\<forall>a \<in> E. if repeat (theap q a) then (addTime rnd now (interval (theap q a)), a) \<in> set (timers q') else a \<notin> pending q') \<and>
    (\<forall>e \<in> set (timers q). now < fst e \<longrightarrow> e \<in> set (timers q'))"
proof -
  define es where "es = filter (\<lambda>e. fst e \<le> now) (timers q)"
  define q1 where "q1 = q\<lparr>timers := filter (\<lambda>e. now < fst e) (timers q)\<rparr>"
  have E: "E = snd ` set es" by (auto simp: E_def es_def)
  have q1: "tq_inv q1" "detached E (theap q) q1" "tq_thread q1 = tq_thread q"
    using tq_inv_filter [OF inv] expired_distinct(2) [OF inv, of now]
    by (auto simp: q1_def detached_def pending_def E es_def)
  obtain q2 where q2: "run_expired run es q1 = Inr q2" "tq_inv q2" "detached E (theap q) q2"
    "tq_thread q2 = tq_thread q" "set (timers q1) \<subseteq> set (timers q2)"
    using run_expired_ok [OF run q1(1,2), of es] q1(3) by auto
  have same: "\<forall>a \<in> E. theap q2 a = theap q a" and out: "pending q2 \<inter> E = {}"
    using q2(3) by (simp_all add: detached_def)
  have "\<forall>e \<in> set es. snd e \<noteq> 0 \<and> timer_wf (theap q2 (snd e))"
    using inv wf same by (auto simp: E es_def tq_inv_def)
  then obtain q' where q': "reset rnd clk es now q2 = Inr q'" "tq_inv q'" "armed q'"
    "pending q' = pending q2 \<union> {a \<in> E. repeat (theap q2 a)}" "set (timers q2) \<subseteq> set (timers q')"
    "\<forall>a \<in> E. repeat (theap q2 a) \<longrightarrow> (addTime rnd now (interval (theap q2 a)), a) \<in> set (timers q')"
    using reset_ok [OF q2(2) _ _ _ rnd now, of es clk] expired_distinct(1) [OF inv, of now] out
    unfolding E es_def by blast
  have "timer_handleRead run rnd (tq_thread q) now 8 clk q = Inr q'"
    using timer_handleRead_eq [OF inv refl] q2(1) q'(1) by (simp add: es_def q1_def)
  moreover have "\<forall>a \<in> E. if repeat (theap q a) then (addTime rnd now (interval (theap q a)), a) \<in> set (timers q')
      else a \<notin> pending q'"
    using q'(4,6) same out by auto
  moreover have "\<forall>e \<in> set (timers q). now < fst e \<longrightarrow> e \<in> set (timers q')"
    using q2(5) q'(5) by (auto simp: q1_def)
  ultimately show ?thesis using q'(2,3) by blast
qed

text \<open>The relative time given to the kernel, in nanoseconds.\<close>

definition armed_ns :: "int \<times> int \<Rightarrow> int" where
  "armed_ns ts = fst ts * 1000000000 + snd ts"

lemma getTimeFromNow_eq:
  "getTimeFromNow now when = (max 100 (when - now) div 1000000, max 100 (when - now) mod 1000000)"
  by (auto simp: getTimeFromNow_def Let_def kMicroSecondsPerSecond_def max_def)

text \<open>Three timers of which two are due at time 200; the one at address 2 repeats every second.\<close>

definition demo_tqueue :: "nat tqueue" where
  "demo_tqueue =
     \<lparr>tq_thread = 7,
      theap = (\<lambda>a. if a = 1 then Timer_new 0 100 0 else if a = 2 then Timer_new 9 150 1 else Timer_new 0 1000000 0),
      timers = [(100, 1), (150, 2), (1000000, 3)], timerfd = Some (0, 0, 100)\<rparr>"

lemma demo_tqueue_ok: "tq_inv demo_tqueue" "armed demo_tqueue" "tq_thread demo_tqueue = 7"
  by (simp_all add: tq_inv_def armed_def demo_tqueue_def Timer_new_def getTimeFromNow_eq less_eq_prod_def)

subsection \<open>Properties\<close>

text \<open>\<open>getExpired\<close> splits the queue at the clock: on a well-formed queue it passes its assertion, returns in
  order exactly the timers due at \<open>now\<close>, leaves exactly those due later, and keeps the queue well-formed.\<close>

theorem getExpired_splits:
  assumes "tq_inv q"
  shows "\<exists>expired q'. getExpired now q = Inr (expired, q') \<and> expired @ timers q' = timers q \<and>
    (\<forall>e \<in> set expired. fst e \<le> now) \<and> (\<forall>e \<in> set (timers q'). now < fst e) \<and> tq_inv q' \<and> theap q' = theap q"
proof -
  have "sorted (timers q)" using assms by (simp add: tq_inv_def)
  moreover have mono: "\<And>x y :: entry. fst y \<le> now \<Longrightarrow> x \<le> y \<Longrightarrow> fst x \<le> now" by (auto simp: less_eq_prod_def)
  ultimately have "takeWhile (\<lambda>e. fst e \<le> now) (timers q) = filter (\<lambda>e. fst e \<le> now) (timers q)"
    "dropWhile (\<lambda>e. fst e \<le> now) (timers q) = filter (\<lambda>e. now < fst e) (timers q)"
    using sorted_takeWhile_filter [of "timers q" "\<lambda>e. fst e \<le> now"] by (simp_all add: not_le)
  then have "filter (\<lambda>e. fst e \<le> now) (timers q) @ filter (\<lambda>e. now < fst e) (timers q) = timers q"
    by (metis takeWhile_dropWhile_id)
  then show ?thesis using tq_inv_filter [OF assms] by (simp add: getExpired_eq [OF assms])
qed

theorem getExpired_splits_witness:
  "\<exists>expired q'. getExpired 150 demo_tqueue = Inr (expired, q') \<and> expired @ timers q' = timers demo_tqueue"
  using getExpired_splits [OF demo_tqueue_ok(1), of 150] by blast

text \<open>\<open>addTimer\<close> on the loop's thread adds exactly the new timer, keeps the queue well-formed and the kernel
  timer armed for the earliest entry; called on another thread it leaves the queue as it is and hands the
  timer to the loop, whose run of \<open>addTimerInLoop\<close> then has that effect.\<close>

theorem addTimer_schedules:
  assumes "tq_inv q" and "armed q" and "a \<notin> pending q" and "a \<noteq> 0" and "0 < when"
  shows "\<exists>q1 q'. addTimer tid clk a cb when i q = Inr (if tid = tq_thread q then (q', []) else (q1, [a])) \<and>
    timers q1 = timers q \<and> timerfd q1 = timerfd q \<and> theap q1 = (theap q)(a := Timer_new cb when i) \<and>
    addTimerInLoop (tq_thread q) clk a q1 = Inr q' \<and> tq_inv q' \<and> armed q' \<and>
    set (timers q') = insert (when, a) (set (timers q)) \<and> callback (theap q' a) = cb"
proof -
  define q1 where "q1 = q\<lparr>theap := (theap q)(a := Timer_new cb when i)\<rparr>"
  have "tq_inv q1" using assms by (auto simp: tq_inv_def q1_def pending_def)
  moreover have "armed q1" "a \<notin> pending q1" "0 < expiration (theap q1 a)" "tq_thread q1 = tq_thread q"
    using assms by (simp_all add: armed_iff q1_def pending_def Timer_new_def)
  ultimately obtain q' where q': "addTimerInLoop (tq_thread q) clk a q1 = Inr q'" "tq_inv q'" "armed q'"
    "theap q' = theap q1" "set (timers q') = insert (expiration (theap q1 a), a) (set (timers q1))"
    using addTimerInLoop_ok [of q1 a "tq_thread q" clk] assms(4) by blast
  moreover have "addTimer tid clk a cb when i q = Inr (if tid = tq_thread q then (q', []) else (q1, [a]))"
    using q'(1) by (auto simp: addTimer_def q1_def Let_def)
  ultimately show ?thesis by (intro exI [of _ q1] exI [of _ q']) (simp add: q1_def Timer_new_def)
qed

theorem addTimer_schedules_witness:
  "\<exists>q'. addTimer 7 0 5 (42::nat) 50 0 demo_tqueue = Inr (q', []) \<and> armed q' \<and> set (timers q') = insert (50, 5) (set (timers demo_tqueue))"
proof -
  have "5 \<notin> pending demo_tqueue" by (simp add: pending_def demo_tqueue_def)
  from addTimer_schedules [OF demo_tqueue_ok(1,2) this, of 50 7 0 42 0] show ?thesis by (auto simp: demo_tqueue_ok(3))
qed

text \<open>C5: the handler of the timer descriptor, with callbacks that may schedule further timers: it runs
  without a fault, keeps the queue well-formed, arms the kernel timer for the earliest entry, re-inserts every expired
  repeating timer at \<open>now\<close> plus its interval, drops every expired one-shot timer, and keeps the timers not yet due.\<close>

theorem timer_handleRead_spec:
  fixes q :: "('f, 'z) tqueue_scheme" and now :: timestamp
  defines "E \<equiv> snd ` {e \<in> set (timers q). fst e \<le> now}"
  assumes inv: "tq_inv q" and wf: "\<forall>a \<in> E. timer_wf (theap q a)" and run: "callbacks_ok run E (theap q)"
    and rnd: "rounds_sign rnd" and now: "0 < now"
  shows "\<exists>q'. timer_handleRead run rnd (tq_thread q) now 8 clk q = Inr q' \<and> tq_inv q' \<and> armed q' \<and>
    (\<forall>a \<in> E. if repeat (theap q a) then (addTime rnd now (interval (theap q a)), a) \<in> set (timers q') else a \<notin> pending q') \<and>
    (\<forall>e \<in> set (timers q). now < fst e \<longrightarrow> e \<in> set (timers q'))"
  unfolding E_def by (rule timer_event [OF inv wf [unfolded E_def] run [unfolded E_def] rnd now])

theorem timer_handleRead_spec_witness:
  "\<exists>q'. timer_handleRead (schedule_again (\<lambda>a. 3 < a) 201 0) id 7 200 8 210 demo_tqueue = Inr q' \<and>
     (1000200, 2) \<in> set (timers q') \<and> 1 \<notin> pending q' \<and> armed q'"
proof -
  have E: "snd ` {e \<in> set (timers demo_tqueue). fst e \<le> 200} = {1, 2}"
  proof -
    have "{e \<in> set (timers demo_tqueue). fst e \<le> 200} = {(100, 1), (150, 2)}" by (auto simp: demo_tqueue_def)
    then show ?thesis by simp
  qed
  have "callbacks_ok (schedule_again (\<lambda>a. 3 < a) 201 0) {1, 2} (theap demo_tqueue)" by (rule schedule_again_ok) auto
  moreover have "\<forall>a \<in> {1, 2}. timer_wf (theap demo_tqueue a)" by (simp add: demo_tqueue_def Timer_new_def timer_wf_def)
  moreover have "rounds_sign id" by (simp add: rounds_sign_def)
  ultimately obtain q' where q': "timer_handleRead (schedule_again (\<lambda>a. 3 < a) 201 0) id 7 200 8 210 demo_tqueue = Inr q'" "armed q'"
    "\<forall>a \<in> {1, 2}. if repeat (theap demo_tqueue a) then (addTime id 200 (interval (theap demo_tqueue a)), a) \<in> set (timers q')
       else a \<notin> pending q'"
    using timer_handleRead_spec [OF demo_tqueue_ok(1), of 200 _ id 210] unfolding E demo_tqueue_ok(3) by auto
  moreover have "addTime id 200 1 = 1000200"
    by (simp add: addTime_def kMicroSecondsPerSecond_def trunc_def)
  ultimately show ?thesis by (auto simp: demo_tqueue_def Timer_new_def)
qed

text \<open>C28: what \<open>resetTimerfd\<close> tells the kernel: always a valid, non-zero \<open>timespec\<close> (so the timer is armed,
  never disarmed), never later than asked for (100 microseconds at least), but too early by 999 nanoseconds for every
  microsecond of the fractional second, because the remainder is stored in \<open>tv_nsec\<close> unscaled: whatever is less than a
  second away is armed a thousand times too early.\<close>

theorem getTimeFromNow_armed_ns:
  "(let ts = getTimeFromNow now when; us = max 100 (when - now)
    in 0 \<le> fst ts \<and> 0 \<le> snd ts \<and> snd ts < 1000000000 \<and> 0 < armed_ns ts \<and> armed_ns ts \<le> us * 1000 \<and>
       armed_ns ts = us * 1000 - 999 * (us mod 1000000) \<and> (us < 1000000 \<longrightarrow> armed_ns ts = us))"
proof -
  define us where "us = max 100 (when - now)"
  have us: "100 \<le> us" by (simp add: us_def)
  have split: "us = us div 1000000 * 1000000 + us mod 1000000" by simp
  have m: "0 \<le> us mod 1000000" "us mod 1000000 < 1000000" "0 \<le> us div 1000000"
    using us by (simp_all add: pos_imp_zdiv_nonneg_iff)
  have "0 < us div 1000000 * 1000000000 + us mod 1000000"
    using us m split by linarith
  moreover have "us < 1000000 \<longrightarrow> us div 1000000 = 0 \<and> us mod 1000000 = us" using us by simp
  ultimately show ?thesis
    using m split unfolding Let_def armed_ns_def getTimeFromNow_eq us_def [symmetric] fst_conv snd_conv
    by (intro conjI) linarith+
qed

theorem getTimeFromNow_armed_ns_witness: "armed_ns (getTimeFromNow 0 500000) = 500000"
  using getTimeFromNow_armed_ns [of 0 500000] by (simp add: Let_def)

text \<open>Such an early wake-up is harmless to the queue: when no timer is due the handler runs no callback, changes no
  timer, and arms the kernel timer again for the earliest one.\<close>

theorem early_wakeup_rearms:
  assumes "tq_inv q" and "\<forall>e \<in> set (timers q). now < fst e"
  shows "timer_handleRead run rnd (tq_thread q) now 8 clk q =
    Inr (if timers q = [] then q else resetTimerfd clk (fst (hd (timers q))) q)"
proof -
  have f: "filter (\<lambda>e. fst e \<le> now) (timers q) = []" "filter (\<lambda>e. now < fst e) (timers q) = timers q"
    using assms(2) by (auto simp: filter_empty_conv not_le)
  have "timer_handleRead run rnd (tq_thread q) now 8 clk q = reset rnd clk [] now q"
    by (simp add: timer_handleRead_eq [OF assms(1) refl] f run_expired_def)
  also have "\<dots> = Inr (if timers q = [] then q else resetTimerfd clk (fst (hd (timers q))) q)"
  proof (cases "timers q")
    case (Cons e es)
    then have "expiration (theap q (snd e)) = fst e" "0 < fst e" using assms(1) by (auto simp: tq_inv_def)
    then show ?thesis using Cons by (simp add: reset_def Let_def valid_def)
  qed (simp add: reset_def Let_def valid_def Timestamp_invalid_def)
  finally show ?thesis .
qed

theorem early_wakeup_rearms_witness:
  "timer_handleRead (\<lambda>f q. Inl BadCall) id 7 50 8 60 demo_tqueue = Inr (resetTimerfd 60 100 demo_tqueue)"
  using early_wakeup_rearms [OF demo_tqueue_ok(1), of 50 "\<lambda>f q. Inl BadCall" id 60]
  by (simp add: demo_tqueue_def)

end
