(* ===== verification/RN_Mailbox.thy ===== *)
theory RN_Mailbox
  imports RN_Prelude
begin

text \<open>
  The interface of a first-in first-out hand-over between threads: a producer appends, a consumer collects a prefix
  (one element, or everything at once). The loop's functor queue and the two entries of the
  blocking queue are instances; each proves the laws in its own theory and inherits that no element is lost,
  duplicated or reordered, whatever the interleaving of the critical sections.
\<close>

datatype 'x mailbox_op = Push 'x | Collect

fun mailbox_run ::
  "('x \<Rightarrow> 's \<Rightarrow> 's) \<Rightarrow> ('s \<Rightarrow> 'x list \<times> 's) \<Rightarrow> 'x mailbox_op list \<Rightarrow> 's \<Rightarrow> 'x list \<times> 's" where
  "mailbox_run push collect [] s = ([], s)"
| "mailbox_run push collect (Push x # ops) s = mailbox_run push collect ops (push x s)"
| "mailbox_run push collect (Collect # ops) s =
     (let (xs, s) = collect s; (ys, s) = mailbox_run push collect ops s in (xs @ ys, s))"

fun pushed :: "'x mailbox_op list \<Rightarrow> 'x list" where
  "pushed [] = []"
| "pushed (Push x # ops) = x # pushed ops"
| "pushed (Collect # ops) = pushed ops"

locale mailbox =
  fixes good :: "'s \<Rightarrow> bool" and contents :: "'s \<Rightarrow> 'x list"
    and push :: "'x \<Rightarrow> 's \<Rightarrow> 's" and collect :: "'s \<Rightarrow> 'x list \<times> 's"
  assumes push_good: "good s \<Longrightarrow> good (push x s)"
    and push_contents: "good s \<Longrightarrow> contents (push x s) = contents s @ [x]"
    and collect_good: "good s \<Longrightarrow> good (snd (collect s))"
    and collect_contents: "good s \<Longrightarrow> fst (collect s) @ contents (snd (collect s)) = contents s"
begin

lemma run_fifo:
  "good s \<Longrightarrow> mailbox_run push collect ops s = (out, s') \<Longrightarrow>
     good s' \<and> out @ contents s' = contents s @ pushed ops"
proof (induction ops arbitrary: s out)
  case (Cons op ops)
  show ?case
  proof (cases op)
    case (Push x)
    then show ?thesis using Cons.IH [of "push x s"] Cons.prems push_good push_contents by simp
  next
    case Collect
    obtain ys where ys: "mailbox_run push collect ops (snd (collect s)) = (ys, s')" "out = fst (collect s) @ ys"
      using Cons.prems(2) Collect by (auto split: prod.splits)
    then have "good s' \<and> ys @ contents s' = contents (snd (collect s)) @ pushed ops"
      using Cons.IH Cons.prems(1) collect_good by blast
    then show ?thesis using ys(2) Collect collect_contents [OF Cons.prems(1)] by (metis append.assoc pushed.simps(3))
  qed
qed simp

lemma collected_prefix:
  "good s \<Longrightarrow> mailbox_run push collect ops s = (out, s') \<Longrightarrow>
     out = take (length out) (contents s @ pushed ops)"
  using run_fifo [of s ops out s'] by (metis append_eq_conv_conj)

end

end
