(* ===== verification/RN_EventLoop.thy ===== *)
theory RN_EventLoop
  imports RN_Poller RN_TimerQueue RN_Mailbox
begin

text \<open>
  RN/net/EventLoop.h and EventLoop.cpp, RN/net/IOWakeupTrigger.h and IOWakeupTrigger.cpp. The loop's record extends
  that of its timer queue (the loop owns it, and \<open>tq_thread\<close> is the loop's \<open>threadId_\<close>) and holds its poller. The
  kernel's eventfd is its counter. A program adds its own state to the record (the \<open>'w\<close> of its scheme). What user code does when it is called (a functor, a channel
  callback) is the argument \<open>env\<close>; every operation also gets the calling thread \<open>tid\<close>.

  The second half is the loop among other threads: a step relation whose atomic steps are the critical section of
  \<open>queueInLoop\<close>, the wake-up that follows it, the setting of \<open>quit_\<close>, and the stages of \<open>loop()\<close>.
\<close>

subsection \<open>The wake-up descriptor\<close>

text \<open>
  An eventfd holds a 64-bit counter: writing adds to it (and fails, with a log line, when the sum would exceed the
  maximum \<open>2^64 - 2\<close>), reading resets it.
\<close>

definition eventfd_write :: "nat \<Rightarrow> nat \<Rightarrow> nat" where
  "eventfd_write v c = (if c + v \<le> 2 ^ 64 - 2 then c + v else c)"

definition eventfd_read :: "nat \<Rightarrow> nat" where
  "eventfd_read c = 0"

subsection \<open>The loop\<close>

text \<open>The callbacks bound to channels: those of the loop's own two channels, and the user's.\<close>

datatype 'c callback_of = Timer_handleRead | Wakeup_handleRead | User_callback 'c

text \<open>The functors handed to the loop: a user's, or \<open>addTimerInLoop\<close> bound to a timer.\<close>

datatype 'f loop_functor = User_functor 'f | AddTimer nat

record ('f, 'c) evloop = "'f tqueue" +
  el_addr :: nat
  looping :: bool
  quit :: bool
  el_poller :: "'c callback_of poller"
  pollReturnTime :: timestamp
  pendingFunctors :: "'f loop_functor list"
  callingPendingFunctors :: bool
  activeChannels :: "nat list"
  wakeupfd :: nat

record ('f, 'c, 'w) env =
  run_user :: "'f \<Rightarrow> ('f, 'c, 'w) evloop_scheme \<Rightarrow> ('f, 'c, 'w) evloop_scheme result"
  user_event :: "'c callback_of invocation \<Rightarrow> ('f, 'c, 'w) evloop_scheme \<Rightarrow> ('f, 'c, 'w) evloop_scheme result"
  clock :: "nat \<Rightarrow> timestamp"
  rounding :: "rat \<Rightarrow> rat"

text \<open>What the kernel answers during one iteration.\<close>

record input =
  in_poll :: poll_result
  in_time :: timestamp
  in_timer_now :: timestamp
  in_timer_read :: int
  in_timer_clock :: timestamp

text \<open>The descriptor \<open>eventfd\<close> gives, or the abort when it fails.\<close>

definition createEventfd :: "int \<Rightarrow> int result" where
  "createEventfd fd = (if fd < 0 then Inl Aborted else Inr fd)"

definition abortNotInLoopThread :: "'a result" where
  "abortNotInLoopThread = Inl Aborted"

definition kPollTimeMs :: int where
  "kPollTimeMs = 10000"

definition isInLoopThread :: "int \<Rightarrow> ('f, 'c, 'w) evloop_scheme \<Rightarrow> bool" where
  "isInLoopThread tid l \<longleftrightarrow> tq_thread l = tid"

definition wakeup :: "('f, 'c, 'w) evloop_scheme \<Rightarrow> ('f, 'c, 'w) evloop_scheme" where
  "wakeup l = l\<lparr>wakeupfd := eventfd_write 1 (wakeupfd l)\<rparr>"

definition wakeup_handleRead :: "('f, 'c, 'w) evloop_scheme \<Rightarrow> ('f, 'c, 'w) evloop_scheme" where
  "wakeup_handleRead l = l\<lparr>wakeupfd := eventfd_read (wakeupfd l)\<rparr>"

definition loop_updateChannel ::
  "('c callback_of channel \<Rightarrow> 'c callback_of channel) \<Rightarrow> int \<Rightarrow> nat \<Rightarrow> ('f, 'c, 'w) evloop_scheme \<Rightarrow> ('f, 'c, 'w) evloop_scheme result" where
  "loop_updateChannel change tid c l =
     rassert (ownerLoop (heap (el_poller l) c) = el_addr l)
     (rbind (channel_update change (el_poller l) tid c) (\<lambda>p. Inr (l\<lparr>el_poller := p\<rparr>)))"

definition loop_removeChannel :: "int \<Rightarrow> nat \<Rightarrow> ('f, 'c, 'w) evloop_scheme \<Rightarrow> ('f, 'c, 'w) evloop_scheme result" where
  "loop_removeChannel tid c l =
     rassert (ownerLoop (heap (el_poller l) c) = el_addr l)
     (rbind (removeChannel (el_poller l) tid c) (\<lambda>p. Inr (l\<lparr>el_poller := p\<rparr>)))"

subsection \<open>Construction and destruction\<close>

text \<open>
  The channels of the timer descriptor and of the wake-up descriptor live at the addresses \<open>ct\<close> and \<open>cw\<close>. The
  wake-up trigger sets its handler as the write callback and enables reading.
\<close>

definition timer_channel :: "nat \<Rightarrow> int \<Rightarrow> bool \<Rightarrow> 'c callback_of channel" where
  "timer_channel addr fd garbage = setReadCallback Timer_handleRead (Channel_new addr fd garbage)"

definition wakeup_channel :: "nat \<Rightarrow> int \<Rightarrow> bool \<Rightarrow> 'c callback_of channel" where
  "wakeup_channel addr fd garbage = setWriteCallback Wakeup_handleRead (Channel_new addr fd garbage)"

definition EventLoop_members ::
  "int \<Rightarrow> nat \<Rightarrow> (nat \<Rightarrow> 'c callback_of channel) \<Rightarrow> (nat \<Rightarrow> 'f timer) \<Rightarrow> ('f, 'c) evloop" where
  "EventLoop_members tid addr h th = tqueue.extend (TimerQueue_new tid th)
     (evloop.fields addr False False (Poller_new tid h) 0 [] False [] 0)"

definition EventLoop_new ::
  "int \<Rightarrow> nat \<Rightarrow> nat \<times> int \<Rightarrow> nat \<times> int \<Rightarrow> bool \<Rightarrow> (nat \<Rightarrow> 'c callback_of channel) \<Rightarrow> (nat \<Rightarrow> 'f timer) \<Rightarrow>
     (int \<Rightarrow> nat option) \<Rightarrow> (('f, 'c) evloop \<times> (int \<Rightarrow> nat option)) result" where
  "EventLoop_new tid addr ct cw garbage h th loops =
     rbind (Inr (EventLoop_members tid addr
              (h(fst ct := timer_channel addr (snd ct) garbage, fst cw := wakeup_channel addr (snd cw) garbage)) th)) (\<lambda>l.
     rbind (loop_updateChannel enableReading tid (fst ct) l) (\<lambda>l.
     rbind (loop_updateChannel enableReading tid (fst cw) l) (\<lambda>l.
     if loops tid \<noteq> None then Inl Aborted else Inr (l, loops(tid \<mapsto> addr)))))"

definition EventLoop_destroy ::
  "int \<Rightarrow> ('f, 'c, 'w) evloop_scheme \<Rightarrow> (int \<Rightarrow> nat option) \<Rightarrow> (int \<Rightarrow> nat option) result" where
  "EventLoop_destroy tid l loops = rassert (\<not> looping l) (Inr (loops(tid := None)))"

subsection \<open>Functors\<close>

definition run_functor :: "('f, 'c, 'w) env \<Rightarrow> 'f loop_functor \<Rightarrow> ('f, 'c, 'w) evloop_scheme \<Rightarrow> ('f, 'c, 'w) evloop_scheme result" where
  "run_functor env f l = (case f of
     User_functor u \<Rightarrow> run_user env u l
   | AddTimer a \<Rightarrow> addTimerInLoop (tq_thread l) (clock env a) a l)"

text \<open>The critical section of \<open>queueInLoop\<close>, the test that follows it, and the whole of it.\<close>

definition push_functor :: "'f loop_functor \<Rightarrow> ('f, 'c, 'w) evloop_scheme \<Rightarrow> ('f, 'c, 'w) evloop_scheme" where
  "push_functor f l = l\<lparr>pendingFunctors := pendingFunctors l @ [f]\<rparr>"

definition needs_wakeup :: "int \<Rightarrow> ('f, 'c, 'w) evloop_scheme \<Rightarrow> bool" where
  "needs_wakeup tid l \<longleftrightarrow> \<not> isInLoopThread tid l \<or> callingPendingFunctors l"

declare needs_wakeup_def [simp]

definition queueInLoop :: "int \<Rightarrow> 'f loop_functor \<Rightarrow> ('f, 'c, 'w) evloop_scheme \<Rightarrow> ('f, 'c, 'w) evloop_scheme" where
  "queueInLoop tid f l = (let l = push_functor f l in if needs_wakeup tid l then wakeup l else l)"

definition runInLoop :: "('f, 'c, 'w) env \<Rightarrow> int \<Rightarrow> 'f loop_functor \<Rightarrow> ('f, 'c, 'w) evloop_scheme \<Rightarrow> ('f, 'c, 'w) evloop_scheme result" where
  "runInLoop env tid f l =
     (if isInLoopThread tid l then run_functor env f l else Inr (queueInLoop tid f l))"

definition swap_functors :: "('f, 'c, 'w) evloop_scheme \<Rightarrow> 'f loop_functor list \<times> ('f, 'c, 'w) evloop_scheme" where
  "swap_functors l = (pendingFunctors l, l\<lparr>pendingFunctors := []\<rparr>)"

definition doPendingFunctors :: "('f, 'c, 'w) env \<Rightarrow> ('f, 'c, 'w) evloop_scheme \<Rightarrow> ('f, 'c, 'w) evloop_scheme result" where
  "doPendingFunctors env l =
     (let (functors, l) = swap_functors (l\<lparr>callingPendingFunctors := True\<rparr>)
      in rbind (rfold (run_functor env) functors l) (\<lambda>l. Inr (l\<lparr>callingPendingFunctors := False\<rparr>)))"

definition quit_loop :: "int \<Rightarrow> ('f, 'c, 'w) evloop_scheme \<Rightarrow> ('f, 'c, 'w) evloop_scheme" where
  "quit_loop tid l =
     (let l = l\<lparr>quit := True\<rparr> in if \<not> isInLoopThread tid l then wakeup l else l)"

subsection \<open>Timers\<close>

text \<open>\<open>TimerQueue::addTimer\<close> through the loop: on another thread the insertion is queued.\<close>

definition loop_addTimer ::
  "('f, 'c, 'w) env \<Rightarrow> int \<Rightarrow> nat \<Rightarrow> 'f \<Rightarrow> timestamp \<Rightarrow> rat \<Rightarrow> ('f, 'c, 'w) evloop_scheme \<Rightarrow> ('f, 'c, 'w) evloop_scheme result" where
  "loop_addTimer env tid a cb when i l =
     rbind (addTimer tid (clock env a) a cb when i l) (\<lambda>(l, later).
     Inr (foldl (\<lambda>l a. queueInLoop tid (AddTimer a) l) l later))"

definition runAt ::
  "('f, 'c, 'w) env \<Rightarrow> int \<Rightarrow> nat \<Rightarrow> timestamp \<Rightarrow> 'f \<Rightarrow> ('f, 'c, 'w) evloop_scheme \<Rightarrow> ('f, 'c, 'w) evloop_scheme result" where
  "runAt env tid a time cb l = loop_addTimer env tid a cb time 0 l"

definition runAfter ::
  "('f, 'c, 'w) env \<Rightarrow> int \<Rightarrow> nat \<Rightarrow> timestamp \<Rightarrow> rat \<Rightarrow> 'f \<Rightarrow> ('f, 'c, 'w) evloop_scheme \<Rightarrow> ('f, 'c, 'w) evloop_scheme result" where
  "runAfter env tid a now delay cb l = runAt env tid a (addTime (rounding env) now delay) cb l"

definition runEvery ::
  "('f, 'c, 'w) env \<Rightarrow> int \<Rightarrow> nat \<Rightarrow> timestamp \<Rightarrow> rat \<Rightarrow> 'f \<Rightarrow> ('f, 'c, 'w) evloop_scheme \<Rightarrow> ('f, 'c, 'w) evloop_scheme result" where
  "runEvery env tid a now i cb l = loop_addTimer env tid a cb now i l"

text \<open>\<open>cancle\<close> has an empty body.\<close>

definition cancle :: "nat \<Rightarrow> ('f, 'c, 'w) evloop_scheme \<Rightarrow> ('f, 'c, 'w) evloop_scheme" where
  "cancle a l = l"

definition TimerId_eq :: "nat \<Rightarrow> nat \<Rightarrow> bool" where
  "TimerId_eq lhs rhs \<longleftrightarrow> lhs = rhs"

subsection \<open>The iteration\<close>

text \<open>Invoking a callback that a channel of the loop holds.\<close>

definition invoke ::
  "('f, 'c, 'w) env \<Rightarrow> input \<Rightarrow> 'c callback_of invocation \<Rightarrow> ('f, 'c, 'w) evloop_scheme \<Rightarrow> ('f, 'c, 'w) evloop_scheme result" where
  "invoke env inp call l = (case call of
     Call_read Timer_handleRead t \<Rightarrow>
       timer_handleRead (run_user env) (rounding env) (tq_thread l) (in_timer_now inp) (in_timer_read inp) (in_timer_clock inp) l
   | Call_write Wakeup_handleRead \<Rightarrow> Inr (wakeup_handleRead l)
   | Call_read Wakeup_handleRead t \<Rightarrow> Inr (wakeup_handleRead l)
   | _ \<Rightarrow> user_event env call l)"

text \<open>\<open>handleEvent\<close> on the channel at address \<open>c\<close>; the channel object lives in the poller's heap.\<close>

definition store_channel :: "nat \<Rightarrow> 'c callback_of channel \<Rightarrow> ('f, 'c, 'w) evloop_scheme \<Rightarrow> ('f, 'c, 'w) evloop_scheme" where
  "store_channel c ch l = l\<lparr>el_poller := (el_poller l)\<lparr>heap := (heap (el_poller l))(c := ch)\<rparr>\<rparr>"

definition handle_channel ::
  "('f, 'c, 'w) env \<Rightarrow> input \<Rightarrow> nat \<Rightarrow> ('f, 'c, 'w) evloop_scheme \<Rightarrow> ('f, 'c, 'w) evloop_scheme result" where
  "handle_channel env inp c l =
     rbind (handleEvent (\<lambda>call (ch, l). rbind (invoke env inp call (store_channel c ch l)) (\<lambda>l. Inr (heap (el_poller l) c, l)))
             (in_time inp) (heap (el_poller l) c, l))
       (\<lambda>(ch, l). Inr (store_channel c ch l))"

definition poll_channels :: "input \<Rightarrow> ('f, 'c, 'w) evloop_scheme \<Rightarrow> ('f, 'c, 'w) evloop_scheme result" where
  "poll_channels inp l =
     rbind (Poller_poll (el_poller l) (in_poll inp) [])
       (\<lambda>(p, active). Inr (l\<lparr>el_poller := p, activeChannels := active\<rparr>))"

definition loop_iteration :: "('f, 'c, 'w) env \<Rightarrow> input \<Rightarrow> ('f, 'c, 'w) evloop_scheme \<Rightarrow> ('f, 'c, 'w) evloop_scheme result" where
  "loop_iteration env inp l =
     rbind (poll_channels inp (l\<lparr>activeChannels := []\<rparr>)) (\<lambda>l.
     rbind (rfold (handle_channel env inp) (activeChannels l) l) (\<lambda>l.
     doPendingFunctors env l))"

text \<open>
  \<open>loop()\<close> over the inputs the kernel provides: it returns \<open>(l, True)\<close> when it has returned, \<open>(l, False)\<close> when
  the inputs are used up and it is waiting in \<open>poll\<close>.
\<close>

fun loop_while ::
  "('f, 'c, 'w) env \<Rightarrow> input list \<Rightarrow> ('f, 'c, 'w) evloop_scheme \<Rightarrow> (('f, 'c, 'w) evloop_scheme \<times> bool) result" where
  "loop_while env inps l =
     (if quit l then Inr (l\<lparr>looping := False\<rparr>, True)
      else (case inps of [] \<Rightarrow> Inr (l, False)
            | inp # inps \<Rightarrow> rbind (loop_iteration env inp l) (loop_while env inps)))"

declare loop_while.simps [simp del]

definition loop ::
  "('f, 'c, 'w) env \<Rightarrow> int \<Rightarrow> input list \<Rightarrow> ('f, 'c, 'w) evloop_scheme \<Rightarrow> (('f, 'c, 'w) evloop_scheme \<times> bool) result" where
  "loop env tid inps l =
     rassert (\<not> looping l)
     (if tq_thread l = tid then loop_while env inps (l\<lparr>looping := True, quit := False\<rparr>) else Inl Aborted)"

text \<open>The functor queue is a mailbox whose consumer takes everything at once.\<close>

interpretation functors: mailbox "\<lambda>l. True" pendingFunctors push_functor swap_functors
  by unfold_locales (simp_all add: push_functor_def swap_functors_def)

subsection \<open>The loop among other threads\<close>

text \<open>
  The stage of the loop's thread: before \<open>loop()\<close>, about to test \<open>quit_\<close>, waiting in \<open>poll\<close>, calling the handlers of
  active channels, between the setting of \<open>callingPendingFunctors_\<close> and the swap, running the swapped batch (what is left of
  it), returned. \<open>wakers\<close> counts the other threads that have changed the loop's state and are about to call \<open>wakeup\<close>;
  \<open>submitted\<close> and \<open>executed\<close> record the functors in the order of their submission and execution, \<open>quit_called\<close>
  that \<open>quit()\<close> has been called since \<open>loop()\<close> was last entered (or since the construction, before that).
\<close>

datatype 'f stage = Idle | Testing | Polling | Handling | Marked | Running "'f loop_functor list" | Stopped

record ('f, 'c) system =
  sys_loop :: "('f, 'c) evloop"
  stage :: "'f stage"
  wakers :: nat
  submitted :: "'f loop_functor list"
  executed :: "'f loop_functor list"
  quit_called :: bool

text \<open>Who takes a step: the loop's thread, user code called by it, another thread, or the kernel (an event on another descriptor
  than the wake-up descriptor, or the end of the poll time).\<close>

datatype actor = Loop_thread | Callback | Other_thread | Kernel

definition outside_loop :: "('f, 'c) system \<Rightarrow> bool" where
  "outside_loop s \<longleftrightarrow> stage s = Idle \<or> stage s = Stopped"

definition in_user_code :: "('f, 'c) system \<Rightarrow> bool" where
  "in_user_code s \<longleftrightarrow> stage s = Handling \<or> (\<exists>fs. stage s = Running fs)"

text \<open>Two loops that differ only in what the relation does not look at: the poller, the timers, the active channels.\<close>

definition same_queue :: "('f, 'c, 'w) evloop_scheme \<Rightarrow> ('f, 'c, 'w) evloop_scheme \<Rightarrow> bool" where
  "same_queue l m \<longleftrightarrow> pendingFunctors m = pendingFunctors l \<and> callingPendingFunctors m = callingPendingFunctors l \<and>
     looping m = looping l \<and> quit m = quit l \<and> wakeupfd m = wakeupfd l \<and> tq_thread m = tq_thread l"

text \<open>
  \<open>wired\<close>: reading the eventfd is reachable (the handler is the read callback of the wake-up channel);
  \<open>early\<close>: functors may be queued on the loop's own thread while \<open>loop()\<close> is not running.
\<close>

inductive sys_step :: "bool \<Rightarrow> bool \<Rightarrow> actor \<Rightarrow> ('f, 'c) system \<Rightarrow> ('f, 'c) system \<Rightarrow> bool" for wired early where
  submit_other: "tid \<noteq> tq_thread (sys_loop s) \<Longrightarrow> sys_step wired early Other_thread s
    (s\<lparr>sys_loop := push_functor f (sys_loop s),
       wakers := (if needs_wakeup tid (push_functor f (sys_loop s)) then Suc (wakers s) else wakers s),
       submitted := submitted s @ [f]\<rparr>)"
| quit_other: "tid \<noteq> tq_thread (sys_loop s) \<Longrightarrow> sys_step wired early Other_thread s
    (s\<lparr>sys_loop := (sys_loop s)\<lparr>quit := True\<rparr>,
       wakers := (if isInLoopThread tid (sys_loop s) then wakers s else Suc (wakers s)), quit_called := True\<rparr>)"
| wake: "wakers s = Suc n \<Longrightarrow> sys_step wired early Other_thread s (s\<lparr>sys_loop := wakeup (sys_loop s), wakers := n\<rparr>)"
| submit_own: "in_user_code s \<or> early \<and> outside_loop s \<Longrightarrow> sys_step wired early Callback s
    (s\<lparr>sys_loop := queueInLoop (tq_thread (sys_loop s)) f (sys_loop s), submitted := submitted s @ [f]\<rparr>)"
| quit_own: "in_user_code s \<or> outside_loop s \<Longrightarrow> sys_step wired early Callback s
    (s\<lparr>sys_loop := quit_loop (tq_thread (sys_loop s)) (sys_loop s), quit_called := True\<rparr>)"
| own_other: "in_user_code s \<or> outside_loop s \<Longrightarrow> same_queue (sys_loop s) l \<Longrightarrow>
    sys_step wired early Callback s (s\<lparr>sys_loop := l\<rparr>)"
| start: "outside_loop s \<Longrightarrow> sys_step wired early Loop_thread s
    (s\<lparr>sys_loop := (sys_loop s)\<lparr>looping := True, quit := False\<rparr>, quit_called := False, stage := Testing\<rparr>)"
| test: "stage s = Testing \<Longrightarrow> sys_step wired early Loop_thread s
    (if quit (sys_loop s) then s\<lparr>sys_loop := (sys_loop s)\<lparr>looping := False\<rparr>, stage := Stopped\<rparr> else s\<lparr>stage := Polling\<rparr>)"
| poll_woken: "stage s = Polling \<Longrightarrow> 0 < wakeupfd (sys_loop s) \<Longrightarrow> same_queue (sys_loop s) l \<Longrightarrow>
    sys_step wired early Loop_thread s (s\<lparr>sys_loop := l, stage := Handling\<rparr>)"
| poll_event: "stage s = Polling \<Longrightarrow> same_queue (sys_loop s) l \<Longrightarrow>
    sys_step wired early Kernel s (s\<lparr>sys_loop := l, stage := Handling\<rparr>)"
| drain: "stage s = Handling \<Longrightarrow> wired \<Longrightarrow>
    sys_step wired early Loop_thread s (s\<lparr>sys_loop := wakeup_handleRead (sys_loop s)\<rparr>)"
| mark: "stage s = Handling \<Longrightarrow> sys_step wired early Loop_thread s
    (s\<lparr>sys_loop := (sys_loop s)\<lparr>callingPendingFunctors := True\<rparr>, stage := Marked\<rparr>)"
| swap: "stage s = Marked \<Longrightarrow> sys_step wired early Loop_thread s
    (s\<lparr>sys_loop := snd (swap_functors (sys_loop s)), stage := Running (fst (swap_functors (sys_loop s)))\<rparr>)"
| run_one: "stage s = Running (f # fs) \<Longrightarrow>
    sys_step wired early Loop_thread s (s\<lparr>stage := Running fs, executed := executed s @ [f]\<rparr>)"
| finish: "stage s = Running [] \<Longrightarrow> sys_step wired early Loop_thread s
    (s\<lparr>sys_loop := (sys_loop s)\<lparr>callingPendingFunctors := False\<rparr>, stage := Testing\<rparr>)"

inductive_cases sys_stepE: "sys_step wired early a s t"

definition sys_init :: "('f, 'c) evloop \<Rightarrow> ('f, 'c) system" where
  "sys_init l = \<lparr>sys_loop = l, stage = Idle, wakers = 0, submitted = [], executed = [], quit_called = False\<rparr>"

definition fresh_loop :: "('f, 'c) evloop \<Rightarrow> bool" where
  "fresh_loop l \<longleftrightarrow> pendingFunctors l = [] \<and> \<not> callingPendingFunctors l \<and> \<not> looping l \<and> \<not> quit l \<and> wakeupfd l = 0"

inductive sys_reachable :: "bool \<Rightarrow> bool \<Rightarrow> ('f, 'c) system \<Rightarrow> bool" for wired early where
  init: "fresh_loop l \<Longrightarrow> sys_reachable wired early (sys_init l)"
| step: "sys_reachable wired early s \<Longrightarrow> sys_step wired early a s t \<Longrightarrow> sys_reachable wired early t"

definition batch :: "('f, 'c) system \<Rightarrow> 'f loop_functor list" where
  "batch s = (case stage s of Running fs \<Rightarrow> fs | _ \<Rightarrow> [])"

text \<open>\<open>poll\<close> has nothing to report on the wake-up descriptor and sleeps.\<close>

definition blocked :: "('f, 'c) system \<Rightarrow> bool" where
  "blocked s \<longleftrightarrow> stage s = Polling \<and> wakeupfd (sys_loop s) = 0"

definition wake_coming :: "('f, 'c) system \<Rightarrow> bool" where
  "wake_coming s \<longleftrightarrow> 0 < wakeupfd (sys_loop s) \<or> 0 < wakers s"

definition queue_inv :: "('f, 'c) system \<Rightarrow> bool" where
  "queue_inv s \<longleftrightarrow> submitted s = executed s @ batch s @ pendingFunctors (sys_loop s) \<and>
     (callingPendingFunctors (sys_loop s) \<longleftrightarrow> stage s = Marked \<or> (\<exists>fs. stage s = Running fs)) \<and>
     (looping (sys_loop s) \<longleftrightarrow> stage s \<noteq> Idle \<and> stage s \<noteq> Stopped)"

definition wake_inv :: "('f, 'c) system \<Rightarrow> bool" where
  "wake_inv s \<longleftrightarrow>
     (pendingFunctors (sys_loop s) \<noteq> [] \<and> (stage s \<in> {Idle, Testing, Polling, Stopped} \<or> (\<exists>fs. stage s = Running fs)) \<longrightarrow>
        wake_coming s) \<and>
     (quit (sys_loop s) \<and> stage s = Polling \<longrightarrow> wake_coming s) \<and>
     (quit_called s \<longrightarrow> quit (sys_loop s))"

lemma wakeup_pos [simp]: "0 < wakeupfd (wakeup l)"
  by (simp add: wakeup_def eventfd_write_def)

lemma wakeup_frame [simp]:
  "pendingFunctors (wakeup l) = pendingFunctors l" "callingPendingFunctors (wakeup l) = callingPendingFunctors l"
  "looping (wakeup l) = looping l" "quit (wakeup l) = quit l" "tq_thread (wakeup l) = tq_thread l"
  by (simp_all add: wakeup_def)

lemma wakeup_mono [simp]: "wakeupfd l \<le> wakeupfd (wakeup l)"
  by (simp add: wakeup_def eventfd_write_def)

lemma push_functor_frame [simp]:
  "pendingFunctors (push_functor f l) = pendingFunctors l @ [f]" "wakeupfd (push_functor f l) = wakeupfd l"
  "callingPendingFunctors (push_functor f l) = callingPendingFunctors l" "looping (push_functor f l) = looping l"
  "quit (push_functor f l) = quit l" "tq_thread (push_functor f l) = tq_thread l"
  by (simp_all add: push_functor_def)

lemma queueInLoop_own:
  "queueInLoop (tq_thread l) f l = (if callingPendingFunctors l then wakeup (push_functor f l) else push_functor f l)"
  by (simp add: queueInLoop_def Let_def isInLoopThread_def)

lemma queueInLoop_other: "tid \<noteq> tq_thread l \<Longrightarrow> queueInLoop tid f l = wakeup (push_functor f l)"
  by (auto simp: queueInLoop_def Let_def isInLoopThread_def)

lemma quit_loop_own: "quit_loop (tq_thread l) l = l\<lparr>quit := True\<rparr>"
  by (simp add: quit_loop_def Let_def isInLoopThread_def)

lemmas stage_simps = batch_def swap_functors_def queueInLoop_own quit_loop_own wakeup_handleRead_def eventfd_read_def
  in_user_code_def outside_loop_def same_queue_def isInLoopThread_def

lemma queue_inv_step: "sys_step wired early a s t \<Longrightarrow> queue_inv s \<Longrightarrow> queue_inv t"
  by (induction rule: sys_step.induct) (auto simp: queue_inv_def stage_simps split: stage.splits)

lemma wake_inv_step: "sys_step wired False a s t \<Longrightarrow> queue_inv s \<Longrightarrow> wake_inv s \<Longrightarrow> wake_inv t"
  by (induction rule: sys_step.induct) (auto simp: wake_inv_def queue_inv_def wake_coming_def stage_simps)

lemma queue_inv_reachable: "sys_reachable wired early s \<Longrightarrow> queue_inv s"
proof (induction rule: sys_reachable.induct)
  case (init l)
  then show ?case by (simp add: queue_inv_def sys_init_def fresh_loop_def batch_def)
qed (rule queue_inv_step)

lemma wake_inv_reachable: "sys_reachable wired False s \<Longrightarrow> wake_inv s"
proof (induction rule: sys_reachable.induct)
  case (init l)
  then show ?case by (simp add: wake_inv_def sys_init_def fresh_loop_def)
next
  case (step s a t)
  then show ?case using wake_inv_step queue_inv_reachable by blast
qed

subsection \<open>Loops to evaluate on\<close>

text \<open>The loops the witnesses use: thread 1, nothing queued.\<close>

definition demo_loop :: "(nat, nat) evloop" where
  "demo_loop = EventLoop_members 1 100 (\<lambda>a. Channel_new 100 0 False) (\<lambda>a. Timer_new 0 0 0)"

lemma demo_loop_fresh [simp]: "fresh_loop demo_loop" "tq_thread demo_loop = 1"
  by (simp_all add: fresh_loop_def demo_loop_def EventLoop_members_def tqueue.extend_def evloop.fields_def TimerQueue_new_def)

text \<open>Another thread has queued a functor and the loop is in its first \<open>poll\<close>; the wake-up is still to come.\<close>

definition demo_system :: "(nat, nat) system" where
  "demo_system =
     \<lparr>sys_loop = (push_functor (User_functor 5) demo_loop)\<lparr>looping := True, quit := False\<rparr>, stage = Polling, wakers = 1,
      submitted = [User_functor 5], executed = [], quit_called = False\<rparr>"

lemma enter_loop:
  assumes "sys_reachable wired early s" and "outside_loop s"
  shows "sys_reachable wired early
    (s\<lparr>sys_loop := (sys_loop s)\<lparr>looping := True, quit := False\<rparr>, quit_called := False, stage := Polling\<rparr>)"
proof -
  let ?s = "s\<lparr>sys_loop := (sys_loop s)\<lparr>looping := True, quit := False\<rparr>, quit_called := False, stage := Testing\<rparr>"
  have "sys_reachable wired early ?s" by (rule sys_reachable.step [OF assms(1) start [OF assms(2)]])
  moreover have "sys_step wired early Loop_thread ?s (?s\<lparr>stage := Polling\<rparr>)" using test [of ?s wired early] by simp
  ultimately have "sys_reachable wired early (?s\<lparr>stage := Polling\<rparr>)" by (rule sys_reachable.step)
  then show ?thesis by simp
qed

lemma demo_system_reachable: "sys_reachable wired early demo_system"
proof -
  let ?s = "(sys_init demo_loop)\<lparr>sys_loop := push_functor (User_functor 5) demo_loop, wakers := 1, submitted := [User_functor 5]\<rparr>"
  have "sys_step wired early Other_thread (sys_init demo_loop) ?s"
    using submit_other [of 2 "sys_init demo_loop" wired early "User_functor 5"] by (simp add: sys_init_def isInLoopThread_def)
  with sys_reachable.init [OF demo_loop_fresh(1)] have r: "sys_reachable wired early ?s" by (rule sys_reachable.step)
  have "outside_loop ?s" by (simp add: sys_init_def outside_loop_def)
  from enter_loop [OF r this] show ?thesis by (simp add: demo_system_def sys_init_def)
qed

lemma demo_system_woken_reachable: "sys_reachable wired early (demo_system\<lparr>sys_loop := wakeup (sys_loop demo_system), wakers := 0\<rparr>)"
  by (rule sys_reachable.step [OF demo_system_reachable wake]) (simp add: demo_system_def)

text \<open>Functors that only queue further functors.\<close>

definition queues_only :: "('f, 'c, 'w) env \<Rightarrow> ('f \<Rightarrow> 'f loop_functor list) \<Rightarrow> bool" where
  "queues_only env qs \<longleftrightarrow> (\<forall>f l. run_user env f l = Inr (foldl (\<lambda>l g. queueInLoop (tq_thread l) g l) l (qs f)))"

lemma queue_own_fold:
  assumes "callingPendingFunctors l" and "l' = foldl (\<lambda>l g. queueInLoop (tq_thread l) g l) l gs"
  shows "pendingFunctors l' = pendingFunctors l @ gs \<and> callingPendingFunctors l' \<and> (gs \<noteq> [] \<longrightarrow> 0 < wakeupfd l') \<and>
       wakeupfd l \<le> wakeupfd l' \<and> tq_thread l' = tq_thread l"
  using assms
proof (induction gs arbitrary: l)
  case (Cons g gs)
  define l1 where "l1 = wakeup (push_functor g l)"
  have l1: "callingPendingFunctors l1" "pendingFunctors l1 = pendingFunctors l @ [g]" "0 < wakeupfd l1"
    "wakeupfd l \<le> wakeupfd l1" "tq_thread l1 = tq_thread l"
    using wakeup_mono [of "push_functor g l"] Cons.prems(1) by (simp_all add: l1_def)
  have "l' = foldl (\<lambda>l g. queueInLoop (tq_thread l) g l) l1 gs"
    using Cons.prems by (simp add: queueInLoop_own l1_def)
  from Cons.IH [OF l1(1) this] show ?case using l1 by auto
qed simp

lemma queues_only_fold:
  assumes "queues_only env qs" and "callingPendingFunctors l"
  shows "\<exists>l'. rfold (run_functor env) (map User_functor us) l = Inr l' \<and>
    pendingFunctors l' = pendingFunctors l @ concat (map qs us) \<and> callingPendingFunctors l' \<and>
    (concat (map qs us) \<noteq> [] \<longrightarrow> 0 < wakeupfd l') \<and> wakeupfd l \<le> wakeupfd l'"
  using assms(2)
proof (induction us arbitrary: l)
  case (Cons u us)
  define l1 where "l1 = foldl (\<lambda>l g. queueInLoop (tq_thread l) g l) l (qs u)"
  have l1: "run_functor env (User_functor u) l = Inr l1"
    using assms(1) by (simp add: run_functor_def queues_only_def l1_def)
  have q: "pendingFunctors l1 = pendingFunctors l @ qs u" "callingPendingFunctors l1" "qs u \<noteq> [] \<longrightarrow> 0 < wakeupfd l1"
    "wakeupfd l \<le> wakeupfd l1"
    using queue_own_fold [OF Cons.prems l1_def] by simp_all
  obtain l' where "rfold (run_functor env) (map User_functor us) l1 = Inr l'"
    "pendingFunctors l' = pendingFunctors l1 @ concat (map qs us)" "callingPendingFunctors l'"
    "concat (map qs us) \<noteq> [] \<longrightarrow> 0 < wakeupfd l'" "wakeupfd l1 \<le> wakeupfd l'"
    using Cons.IH [OF q(2)] by blast
  then show ?case using l1 q by auto
qed simp

subsection \<open>Construction\<close>

lemma EventLoop_members_simps [simp]:
  "el_poller (EventLoop_members tid addr h th) = Poller_new tid h" "el_addr (EventLoop_members tid addr h th) = addr"
  "fresh_loop (EventLoop_members tid addr h th)" "tq_inv (EventLoop_members tid addr h th)"
  "armed (EventLoop_members tid addr h th)" "tq_thread (EventLoop_members tid addr h th) = tid"
  by (simp_all add: EventLoop_members_def tqueue.extend_def evloop.fields_def TimerQueue_new_def fresh_loop_def
    tq_inv_def armed_def)

lemma own_channel_simps [simp]:
  "chfd (timer_channel addr fd g) = fd" "index (timer_channel addr fd g) = -1" "ownerLoop (timer_channel addr fd g) = addr"
  "chfd (wakeup_channel addr fd g) = fd" "index (wakeup_channel addr fd g) = -1" "ownerLoop (wakeup_channel addr fd g) = addr"
  by (simp_all add: timer_channel_def wakeup_channel_def setReadCallback_def setWriteCallback_def Channel_new_def)

lemma EventLoop_new_ok:
  assumes "fst ct \<noteq> fst cw" and "0 \<le> snd ct" and "0 \<le> snd cw" and "snd ct \<noteq> snd cw" and "loops tid = None"
  shows "\<exists>l. EventLoop_new tid addr ct cw garbage h th loops = Inr (l, loops(tid \<mapsto> addr)) \<and> fresh_loop l \<and>
    poller_inv (el_poller l) \<and> threadId (el_poller l) = tid \<and> registered (el_poller l) (fst ct) \<and>
    registered (el_poller l) (fst cw) \<and> tq_inv l \<and> armed l \<and> tq_thread l = tid \<and> el_addr l = addr \<and>
    heap (el_poller l) (fst ct) = set_index 0 (enableReading (timer_channel addr (snd ct) garbage)) \<and>
    heap (el_poller l) (fst cw) = set_index 1 (enableReading (wakeup_channel addr (snd cw) garbage))"
proof -
  define h0 where "h0 = h(fst ct := timer_channel addr (snd ct) garbage, fst cw := wakeup_channel addr (snd cw) garbage)"
  define l0 where "l0 = EventLoop_members tid addr h0 th"
  have p0: "el_poller l0 = Poller_new tid h0" by (simp add: l0_def)
  have read: "interest_change enableReading" by (simp add: interest_change_def)
  have h0: "h0 (fst ct) = timer_channel addr (snd ct) garbage" "h0 (fst cw) = wakeup_channel addr (snd cw) garbage"
    using assms(1) by (simp_all add: h0_def)
  have new: "heap (Poller_new tid h0) = h0" "pollfds (Poller_new tid h0) = []" "channels (Poller_new tid h0) = []"
    "threadId (Poller_new tid h0) = tid"
    by (simp_all add: Poller_new_def)
  obtain p1 where p1: "channel_update enableReading (Poller_new tid h0) tid (fst ct) = Inr p1" "poller_inv p1"
    "threadId p1 = tid" "map_of (channels p1) = [snd ct \<mapsto> fst ct]"
    "heap p1 = h0(fst ct := set_index 0 (enableReading (h0 (fst ct))))"
    using channel_update_fresh [OF read poller_inv_new [of tid h0], of tid "fst ct"] assms(2) by (auto simp: new h0)
  have "set (map slot_fd (pollfds p1)) = {snd ct}" "distinct (map slot_fd (pollfds p1))"
    using p1(2) p1(4) by (simp_all add: poller_inv_def dom_map_of_conv_image_fst [symmetric] del: set_map)
       (simp add: dom_map_of_conv_image_fst [symmetric])
  then have len: "length (pollfds p1) = 1" using distinct_card by force
  have h1: "heap p1 (fst cw) = wakeup_channel addr (snd cw) garbage" using p1(5) assms(1) h0 by simp
  obtain p2 where p2: "channel_update enableReading p1 tid (fst cw) = Inr p2" "poller_inv p2" "registered p2 (fst cw)"
    "threadId p2 = tid" "map_of (channels p2) = [snd ct \<mapsto> fst ct, snd cw \<mapsto> fst cw]"
    "heap p2 = (heap p1)(fst cw := set_index 1 (enableReading (heap p1 (fst cw))))"
    using channel_update_fresh [OF read p1(2,3), of "fst cw"] assms(3,4) p1(4) len by (auto simp: h1)
  have hc: "heap p2 (fst ct) = set_index 0 (enableReading (timer_channel addr (snd ct) garbage))"
    using p2(6) p1(5) assms(1) h0 by simp
  then have reg: "registered p2 (fst ct)"
    using p2(5) assms(4) by (simp add: registered_def set_index_def enableReading_def)
  have "EventLoop_new tid addr ct cw garbage h th loops = Inr (l0\<lparr>el_poller := p2\<rparr>, loops(tid \<mapsto> addr))"
    using p1(1) p2(1) assms(5) h1
    by (simp add: EventLoop_new_def h0_def [symmetric] l0_def [symmetric] loop_updateChannel_def p0 new h0)
       (simp add: l0_def)
  moreover have "fresh_loop (l0\<lparr>el_poller := p2\<rparr>)" "tq_inv (l0\<lparr>el_poller := p2\<rparr>)" "armed (l0\<lparr>el_poller := p2\<rparr>)"
    "tq_thread (l0\<lparr>el_poller := p2\<rparr>) = tid" "el_addr (l0\<lparr>el_poller := p2\<rparr>) = addr"
    by (simp_all add: l0_def EventLoop_members_def tqueue.extend_def evloop.fields_def TimerQueue_new_def fresh_loop_def
      tq_inv_def armed_def)
  moreover have "heap p2 (fst cw) = set_index 1 (enableReading (wakeup_channel addr (snd cw) garbage))"
    using p2(6) h1 by simp
  ultimately show ?thesis using p2(2-4) reg hc by (intro exI [of _ "l0\<lparr>el_poller := p2\<rparr>"]) simp
qed

lemma wakeup_channel_deaf:
  assumes "readCallback (heap (el_poller l) c) = None" and "errorCallback (heap (el_poller l) c) = None"
    and "closeCallback (heap (el_poller l) c) = None" and "\<not> has_flag (revents (heap (el_poller l) c)) POLLOUT"
  shows "handle_channel env inp c l = Inr (store_channel c ((heap (el_poller l) c)\<lparr>eventHandling := False\<rparr>) l)"
  using assms by (simp add: handle_channel_def handleEvent_def call_if_set_def)

subsection \<open>Properties\<close>

text \<open>C1: functors are executed first in, first out and at most once, whichever thread queues them and at whatever
  point of the loop: in every reachable state the functors submitted so far are those executed, followed by what is left of
  the swapped batch, followed by what is pending.\<close>

theorem functors_fifo_exactly_once:
  assumes "sys_reachable wired early s"
  shows "submitted s = executed s @ batch s @ pendingFunctors (sys_loop s)"
  using queue_inv_reachable [OF assms] by (simp add: queue_inv_def)

theorem functors_fifo_exactly_once_witness:
  "submitted demo_system = executed demo_system @ batch demo_system @ pendingFunctors (sys_loop demo_system)"
  by (rule functors_fifo_exactly_once [OF demo_system_reachable [of True True]])

text \<open>C2: no wake-up is lost. When nothing is queued by the loop's own thread while \<open>loop()\<close> is not running, then in every
  reachable state in which the other threads have finished their calls, the loop does not sleep in \<open>poll\<close> while a functor is
  pending, nor after a \<open>quit()\<close> called since \<open>loop()\<close> was last entered; this holds whether or not the eventfd is ever drained. (A
  \<open>quit()\<close> from before \<open>loop()\<close> is entered is erased there and gives no such guarantee: \<open>early_quit_sleeps\<close>.)\<close>

theorem no_lost_wakeup:
  assumes "sys_reachable wired False s" and "wakers s = 0"
    and "pendingFunctors (sys_loop s) \<noteq> [] \<or> quit_called s"
  shows "\<not> blocked s"
  using wake_inv_reachable [OF assms(1)] assms(2,3) by (auto simp: wake_inv_def blocked_def wake_coming_def)

theorem no_lost_wakeup_witness: "\<not> blocked (demo_system\<lparr>sys_loop := wakeup (sys_loop demo_system), wakers := 0\<rparr>)"
  by (rule no_lost_wakeup [OF demo_system_woken_reachable [of True]]) (simp_all add: demo_system_def)

text \<open>The exception to it: a functor queued on the loop's own thread before \<open>loop()\<close> writes no wake-up (the
  thread is the loop's and no functors are being run), so the loop can reach \<open>poll\<close> with the functor pending and nothing to wake it.\<close>

theorem early_functor_sleeps:
  fixes l :: "('f, 'c) evloop"
  assumes "fresh_loop l"
  shows "\<exists>s :: ('f, 'c) system. sys_reachable wired True s \<and> blocked s \<and> wakers s = 0 \<and> pendingFunctors (sys_loop s) = [f]"
proof -
  let ?s = "(sys_init l)\<lparr>sys_loop := push_functor f l, submitted := [f]\<rparr>"
  have "sys_step wired True Callback (sys_init l) ?s"
    using submit_own [of "sys_init l" True wired f] assms
    by (simp add: sys_init_def queueInLoop_own fresh_loop_def outside_loop_def)
  with sys_reachable.init [OF assms] have r: "sys_reachable wired True ?s" by (rule sys_reachable.step)
  have "outside_loop ?s" by (simp add: sys_init_def outside_loop_def)
  from enter_loop [OF r this] show ?thesis
    using assms by (intro exI conjI) (assumption | simp add: blocked_def sys_init_def fresh_loop_def)+
qed

theorem early_functor_sleeps_witness:
  "\<exists>s :: (nat, nat) system. sys_reachable False True s \<and> blocked s \<and> wakers s = 0 \<and>
     pendingFunctors (sys_loop s) = [User_functor 3]"
  by (rule early_functor_sleeps [OF demo_loop_fresh(1)])

text \<open>A \<open>quit()\<close> of another thread before \<open>loop()\<close> is entered: the flag is cleared at the entry, its wake-up makes the first \<open>poll\<close>
  return, and when the eventfd has been drained the loop sleeps with nobody left to wake it.\<close>

theorem early_quit_sleeps:
  fixes l :: "('f, 'c) evloop"
  assumes "fresh_loop l"
  shows "\<exists>s t :: ('f, 'c) system. sys_reachable True False s \<and> stage s = Idle \<and> quit_called s \<and>
    (\<lambda>s t. \<exists>a. sys_step True False a s t)\<^sup>*\<^sup>* s t \<and> blocked t \<and> wakers t = 0"
proof -
  define R where "R = (\<lambda>s t :: ('f, 'c) system. \<exists>a. sys_step True False a s t)"
  let ?l = "l\<lparr>quit := True\<rparr>"
  let ?s = "(sys_init l)\<lparr>sys_loop := ?l, wakers := 1, quit_called := True\<rparr>"
  have "sys_step True False Other_thread (sys_init l) ?s"
    using quit_other [of "tq_thread l + 1" "sys_init l" True False] by (simp add: sys_init_def isInLoopThread_def)
  with sys_reachable.init [OF assms] have r: "sys_reachable True False ?s" by (rule sys_reachable.step)
  define m where "m = l\<lparr>looping := True, quit := False\<rparr>"
  define n where "n = (wakeup_handleRead (wakeup m))\<lparr>callingPendingFunctors := True, pendingFunctors := []\<rparr>"
  let ?t = "\<lambda>st m. \<lparr>sys_loop = m, stage = st, wakers = 0, submitted = [], executed = [], quit_called = False\<rparr> :: ('f, 'c) system"
  have "R ?s ((?t Testing m)\<lparr>wakers := 1\<rparr>)"
    using start [of ?s True False] unfolding R_def by (intro exI [of _ Loop_thread]) (simp add: outside_loop_def sys_init_def m_def)
  moreover have "R ((?t Testing m)\<lparr>wakers := 1\<rparr>) (?t Testing (wakeup m))"
    using wake [of "(?t Testing m)\<lparr>wakers := 1\<rparr>" 0 True False] unfolding R_def by (intro exI [of _ Other_thread]) (simp add: sys_init_def)
  moreover have "R (?t Testing (wakeup m)) (?t Polling (wakeup m))"
    using test [of "?t Testing (wakeup m)" True False] unfolding R_def by (intro exI [of _ Loop_thread]) (simp add: m_def)
  moreover have "R (?t Polling (wakeup m)) (?t Handling (wakeup m))"
    using poll_woken [of "?t Polling (wakeup m)" "wakeup m" True False]
    unfolding R_def by (intro exI [of _ Loop_thread]) (simp add: same_queue_def)
  moreover have "R (?t Handling (wakeup m)) (?t Handling (wakeup_handleRead (wakeup m)))"
    using drain [of "?t Handling (wakeup m)" True False] unfolding R_def by (intro exI [of _ Loop_thread]) simp
  moreover have "R (?t Handling (wakeup_handleRead (wakeup m)))
      (?t Marked ((wakeup_handleRead (wakeup m))\<lparr>callingPendingFunctors := True\<rparr>))"
    using mark [of "?t Handling (wakeup_handleRead (wakeup m))" True False] unfolding R_def by (intro exI [of _ Loop_thread]) simp
  moreover have "R (?t Marked ((wakeup_handleRead (wakeup m))\<lparr>callingPendingFunctors := True\<rparr>))
      (?t (Running []) n)"
    using swap [of "?t Marked ((wakeup_handleRead (wakeup m))\<lparr>callingPendingFunctors := True\<rparr>)" True False] assms
    unfolding R_def by (intro exI [of _ Loop_thread]) (simp add: swap_functors_def n_def m_def fresh_loop_def wakeup_handleRead_def)
  moreover have "R (?t (Running []) n)
      (?t Testing (n\<lparr>callingPendingFunctors := False\<rparr>))"
    using finish [of "?t (Running []) n" True False]
    unfolding R_def by (intro exI [of _ Loop_thread]) simp
  moreover have "R (?t Testing (n\<lparr>callingPendingFunctors := False\<rparr>))
      (?t Polling (n\<lparr>callingPendingFunctors := False\<rparr>))"
    using test [of "?t Testing (n\<lparr>callingPendingFunctors := False\<rparr>)" True False]
    unfolding R_def by (intro exI [of _ Loop_thread]) (simp add: n_def m_def wakeup_handleRead_def)
  ultimately have "R\<^sup>*\<^sup>* ?s (?t Polling (n\<lparr>callingPendingFunctors := False\<rparr>))"
    by (meson converse_rtranclp_into_rtranclp rtranclp.rtrancl_refl)
  with r show ?thesis
    unfolding R_def
    by (intro exI conjI) (assumption | simp add: blocked_def n_def sys_init_def wakeup_handleRead_def eventfd_read_def)+
qed

theorem early_quit_sleeps_witness:
  "\<exists>s t :: (nat, nat) system. stage s = Idle \<and> quit_called s \<and> (\<lambda>s t. \<exists>a. sys_step True False a s t)\<^sup>*\<^sup>* s t \<and> blocked t"
  using early_quit_sleeps [OF demo_loop_fresh(1)] by blast

text \<open>\<open>doPendingFunctors\<close> defers what its functors queue: for functors that queue further functors on the loop,
  the pass returns, runs none of the new ones, leaves them pending in order, and has written a wake-up if there are any, so the
  next \<open>poll\<close> does not sleep on them.\<close>

theorem doPendingFunctors_defers:
  assumes "queues_only env qs" and "pendingFunctors l = map User_functor us"
  shows "\<exists>l'. doPendingFunctors env l = Inr l' \<and> pendingFunctors l' = concat (map qs us) \<and> \<not> callingPendingFunctors l' \<and>
    (pendingFunctors l' \<noteq> [] \<longrightarrow> 0 < wakeupfd l') \<and> wakeupfd l \<le> wakeupfd l'"
proof -
  let ?l = "l\<lparr>callingPendingFunctors := True, pendingFunctors := []\<rparr>"
  obtain l' where "rfold (run_functor env) (map User_functor us) ?l = Inr l'"
    "pendingFunctors l' = pendingFunctors ?l @ concat (map qs us)" "concat (map qs us) \<noteq> [] \<longrightarrow> 0 < wakeupfd l'"
    "wakeupfd ?l \<le> wakeupfd l'"
    using queues_only_fold [OF assms(1), of ?l us] by auto
  then show ?thesis
    using assms(2) by (intro exI [of _ "l'\<lparr>callingPendingFunctors := False\<rparr>"]) (simp add: doPendingFunctors_def swap_functors_def)
qed

definition demo_env :: "(nat, nat, unit) env" where
  "demo_env = \<lparr>run_user = (\<lambda>f l. Inr (foldl (\<lambda>l g. queueInLoop (tq_thread l) g l) l (map User_functor [10 ..< 10 + f]))),
     user_event = (\<lambda>call l. Inr l), clock = (\<lambda>a. 0), rounding = id\<rparr>"

theorem doPendingFunctors_defers_witness:
  "\<exists>l'. doPendingFunctors demo_env (demo_loop\<lparr>pendingFunctors := map User_functor [2, 0, 1]\<rparr>) = Inr l' \<and>
     pendingFunctors l' = [User_functor 10, User_functor 11, User_functor 10] \<and> 0 < wakeupfd l'"
proof -
  have "queues_only demo_env (\<lambda>f. map User_functor [10 ..< 10 + f])" by (simp add: queues_only_def demo_env_def)
  from doPendingFunctors_defers [OF this, of "demo_loop\<lparr>pendingFunctors := map User_functor [2, 0, 1]\<rparr>" "[2, 0, 1]"]
  show ?thesis by (auto simp: upt_conv_Cons)
qed

text \<open>What \<open>quit\<close> achieves. A loop whose iteration ends with \<open>quit_\<close> set returns after that iteration, whatever
  the kernel would report next; a \<open>quit()\<close> issued before \<open>loop()\<close> is erased by the \<open>quit_ = false\<close> at its start and makes no difference.\<close>

theorem quit_semantics:
  assumes "\<not> quit l" and "loop_iteration env inp l = Inr l'" and "quit l'"
  shows "loop_while env (inp # inps) l = Inr (l'\<lparr>looping := False\<rparr>, True) \<and>
    loop env tid inps2 (m\<lparr>quit := True\<rparr>) = loop env tid inps2 (m\<lparr>quit := False\<rparr>)"
  using assms by (simp add: loop_while.simps loop_def)

definition quit_env :: "(nat, nat, unit) env" where
  "quit_env = demo_env\<lparr>run_user := (\<lambda>f l. Inr (quit_loop (tq_thread l) l))\<rparr>"

theorem quit_semantics_witness:
  "\<exists>l'. loop quit_env 1 [\<lparr>in_poll = Poll_ok 0 [], in_time = 0, in_timer_now = 0, in_timer_read = 8, in_timer_clock = 0\<rparr>]
     (demo_loop\<lparr>pendingFunctors := [User_functor 4]\<rparr>) = Inr (l', True) \<and> \<not> looping l'"
proof -
  let ?inp = "\<lparr>in_poll = Poll_ok 0 [], in_time = 0, in_timer_now = 0, in_timer_read = 8, in_timer_clock = 0\<rparr>"
  define l where "l = demo_loop\<lparr>pendingFunctors := [User_functor 4], looping := True, quit := False\<rparr>"
  have p: "pollfds (el_poller demo_loop) = []" by (simp add: demo_loop_def Poller_new_def)
  obtain l' where l': "loop_iteration quit_env ?inp l = Inr l'" "quit l'"
    by (simp add: loop_iteration_def poll_channels_def Poller_poll_def l_def p doPendingFunctors_def swap_functors_def
      run_functor_def quit_env_def quit_loop_own Let_def)
  have "\<not> quit l" by (simp add: l_def)
  from quit_semantics [OF this l', of "[]" 1 "[]" l] have "loop_while quit_env [?inp] l = Inr (l'\<lparr>looping := False\<rparr>, True)" by blast
  moreover have "\<not> looping demo_loop" using demo_loop_fresh by (simp add: fresh_loop_def)
  ultimately show ?thesis by (simp add: loop_def l_def)
qed

text \<open>The constructor succeeds on a thread without a loop and leaves a well-formed loop: nothing queued, both
  internal channels registered for reading, the timer queue empty. But the wake-up channel has only a write callback, so handling
  any readiness the kernel can report on it (it never asks for POLLOUT) leaves the eventfd as it is: after the first wake-up
  \<open>poll\<close> never sleeps again.\<close>

theorem EventLoop_new_wakeup_never_drained:
  assumes "fst ct \<noteq> fst cw" and "0 \<le> snd ct" and "0 \<le> snd cw" and "snd ct \<noteq> snd cw" and "loops tid = None"
  shows "\<exists>l. EventLoop_new tid addr ct cw garbage h th loops = Inr (l, loops(tid \<mapsto> addr)) \<and> fresh_loop l \<and>
    poller_inv (el_poller l) \<and> registered (el_poller l) (fst ct) \<and> registered (el_poller l) (fst cw) \<and> tq_inv l \<and>
    events (heap (el_poller l) (fst cw)) = kReadEvent \<and>
    (\<forall>r. \<not> has_flag r POLLOUT \<longrightarrow> (\<exists>l'.
       handle_channel env inp (fst cw) (store_channel (fst cw) (set_revents r (heap (el_poller l) (fst cw))) (wakeup l)) = Inr l' \<and>
       wakeupfd l' = wakeupfd (wakeup l) \<and> 0 < wakeupfd l'))"
proof -
  obtain l where l: "EventLoop_new tid addr ct cw garbage h th loops = Inr (l, loops(tid \<mapsto> addr))" "fresh_loop l"
    "poller_inv (el_poller l)" "registered (el_poller l) (fst ct)" "registered (el_poller l) (fst cw)" "tq_inv l"
    "heap (el_poller l) (fst cw) = set_index 1 (enableReading (wakeup_channel addr (snd cw) garbage))"
    using EventLoop_new_ok [of ct cw loops tid addr garbage h th] assms by blast
  let ?ch = "heap (el_poller l) (fst cw)"
  have ch: "readCallback ?ch = None" "errorCallback ?ch = None" "closeCallback ?ch = None" "events ?ch = kReadEvent"
    by (simp_all add: l(7) wakeup_channel_def setWriteCallback_def Channel_new_def enableReading_def set_index_def)
  have "\<exists>l'. handle_channel env inp (fst cw) (store_channel (fst cw) (set_revents r ?ch) (wakeup l)) = Inr l' \<and>
       wakeupfd l' = wakeupfd (wakeup l) \<and> 0 < wakeupfd l'" if "\<not> has_flag r POLLOUT" for r
    using wakeup_channel_deaf [of "store_channel (fst cw) (set_revents r ?ch) (wakeup l)" "fst cw" env inp] ch that
      wakeup_pos [of l] by (simp add: store_channel_def set_revents_def)
  then show ?thesis using l ch(4) by blast
qed

theorem EventLoop_new_wakeup_never_drained_witness:
  "\<exists>l :: (nat, nat) evloop. EventLoop_new 1 100 (1, 3) (2, 4) False (\<lambda>a. Channel_new 0 0 False) (\<lambda>a. Timer_new 0 0 0) Map.empty =
     Inr (l, [1 \<mapsto> 100]) \<and> poller_inv (el_poller l)"
  using EventLoop_new_wakeup_never_drained [of "(1, 3)" "(2, 4)" Map.empty 1 100 False "\<lambda>a. Channel_new 0 0 False"
    "\<lambda>a. Timer_new 0 0 0" demo_env undefined]
  by simp blast

end
