(* ===== verification/RN_LoopSteps.thy ===== *)
theory RN_LoopSteps
  imports RN_EventLoop
begin

text \<open>
  The functions of RN/net/EventLoop.cpp are runs of the step relation of RN_EventLoop: \<open>doPendingFunctors\<close>, the iteration and the whole of
  \<open>loop()\<close>, whatever the handlers and functors do to the loop through its own thread. So what the relation keeps, the code keeps, also when
  steps of other threads come in between. With it, that every functor handed over gets run.
\<close>

subsection \<open>What user code does to its loop\<close>

text \<open>Called on the loop's own thread: it queues functors (\<open>fs\<close>, in that order), orders the loop to quit, and changes the poller, the timers
  and its own state.\<close>

inductive own_run :: "'f loop_functor list \<Rightarrow> ('f, 'c, 'w) evloop_scheme \<Rightarrow> ('f, 'c, 'w) evloop_scheme \<Rightarrow> bool" where
  own_none: "own_run [] l l"
| own_queue: "own_run fs l m \<Longrightarrow> own_run (fs @ [f]) l (queueInLoop (tq_thread m) f m)"
| own_quit: "own_run fs l m \<Longrightarrow> own_run fs l (quit_loop (tq_thread m) m)"
| own_same: "own_run fs l m \<Longrightarrow> same_queue m n \<Longrightarrow> own_run fs l n"

definition owns :: "('f, 'c, 'w) evloop_scheme \<Rightarrow> ('f, 'c, 'w) evloop_scheme \<Rightarrow> bool" where
  "owns l m \<longleftrightarrow> (\<exists>fs. own_run fs l m)"

text \<open>The user's functors and handlers may fault; when they return, this is what they did.\<close>

definition own_env :: "('f, 'c, 'w) env \<Rightarrow> bool" where
  "own_env env \<longleftrightarrow> (\<forall>f l m. run_user env f l = Inr m \<longrightarrow> owns l m) \<and> (\<forall>call l m. user_event env call l = Inr m \<longrightarrow> owns l m)"

lemma same_queue_refl [simp]: "same_queue l l"
  by (simp add: same_queue_def)

lemma own_run_trans: "own_run gs m n \<Longrightarrow> own_run fs l m \<Longrightarrow> own_run (fs @ gs) l n"
proof (induction rule: own_run.induct)
  case (own_queue gs l m f)
  then show ?case using own_run.own_queue [of "fs @ gs"] by simp
qed (auto intro: own_run.intros)

lemma owns_refl [simp]: "owns l l"
  using own_none by (auto simp: owns_def)

lemma owns_trans: "owns l m \<Longrightarrow> owns m n \<Longrightarrow> owns l n"
  using own_run_trans by (fastforce simp: owns_def)

lemma owns_same: "same_queue l m \<Longrightarrow> owns l m"
  using own_same [OF own_none] by (auto simp: owns_def)

lemma owns_queue: "owns l (queueInLoop (tq_thread l) f l)"
  using own_queue [OF own_none, of f l] by (auto simp: owns_def)

lemma owns_quit: "owns l (quit_loop (tq_thread l) l)"
  using own_quit [OF own_none, of l] by (auto simp: owns_def)

text \<open>A relation on states that the single calls keep is kept by a sequence of them and by the dispatch of an event.\<close>

lemma rfold_relates:
  assumes "\<And>s. R s s" and "\<And>s t u. R s t \<Longrightarrow> R t u \<Longrightarrow> R s u" and "\<And>x s t. f x s = Inr t \<Longrightarrow> R s t"
    and "rfold f xs s = Inr t"
  shows "R s t"
  by (rule rfold_invariant [where P = "R s", OF _ assms(1,4)]) (use assms(2,3) in blast)

lemma handleEvent_relates:
  assumes refl: "\<And>l. R l l" and trans: "\<And>l m n. R l m \<Longrightarrow> R m n \<Longrightarrow> R l n"
    and call: "\<And>c ch l ch' m. serve c (ch, l) = Inr (ch', m) \<Longrightarrow> R l m"
    and run: "handleEvent serve t (ch, l) = Inr (ch', m)"
  shows "R l m"
proof -
  let ?R = "\<lambda>s t. R (snd s) (snd t)"
  have fold: "R (snd s) (snd s')" if "rfold serve cs s = Inr s'" for cs s s'
    by (rule rfold_relates [of ?R serve, OF _ _ _ that]) (use refl trans call in \<open>auto split: prod.splits\<close>)
  obtain s1 s2 s3 s4 where "rfold serve (error_calls ch) (ch\<lparr>eventHandling := True\<rparr>, l) = Inr s1"
    "rfold serve (close_calls (fst s1)) s1 = Inr s2" "rfold serve (read_calls t (fst s2)) s2 = Inr s3"
    "rfold serve (write_calls (fst s3)) s3 = Inr s4" "m = snd s4"
    using run by (auto simp: handleEvent_stages rbind_eq_Inr_iff)
  then have "R l (snd s1)" "R (snd s1) (snd s2)" "R (snd s2) (snd s3)" "R (snd s3) m" using fold by fastforce+
  then show ?thesis using trans by blast
qed

subsection \<open>The timers leave the queue alone\<close>

lemma resetTimerfd_queue [simp]: "same_queue l (resetTimerfd clk when (l :: ('f, 'c, 'w) evloop_scheme))"
  by (simp add: resetTimerfd_def same_queue_def)

lemma insert_timer_queue: "insert_timer a (l :: ('f, 'c, 'w) evloop_scheme) = Inr (m, ch) \<Longrightarrow> same_queue l m"
  by (auto simp: insert_timer_def Let_def rassert_eq_Inr_iff same_queue_def)

lemma same_queue_trans: "same_queue l m \<Longrightarrow> same_queue m n \<Longrightarrow> same_queue l n"
  by (simp add: same_queue_def)

lemma addTimerInLoop_queue: "addTimerInLoop tid clk a (l :: ('f, 'c, 'w) evloop_scheme) = Inr m \<Longrightarrow> same_queue l m"
  by (auto simp: addTimerInLoop_def rbind_eq_Inr_iff split: if_splits dest!: insert_timer_queue intro: same_queue_trans)

lemma reinsert_queue: "reinsert rnd now e (l :: ('f, 'c, 'w) evloop_scheme) = Inr m \<Longrightarrow> same_queue l m"
  by (auto simp: reinsert_def Let_def rbind_eq_Inr_iff same_queue_def split: if_splits dest!: insert_timer_queue)

lemma reset_queue: 
  assumes "reset rnd clk es now (l :: ('f, 'c, 'w) evloop_scheme) = Inr m"
  shows "same_queue l m"
proof -
  obtain k where k: "rfold (reinsert rnd now) es l = Inr k" "m = k \<or> (\<exists>w. m = resetTimerfd clk w k)"
    using assms by (auto simp: reset_def Let_def rbind_eq_Inr_iff split: if_splits)
  have "same_queue l k"
    by (rule rfold_relates [of same_queue, OF _ _ _ k(1)]) (use same_queue_trans reinsert_queue in auto)
  then show ?thesis using k(2) same_queue_trans resetTimerfd_queue by blast
qed

lemma timer_handleRead_owns:
  assumes "own_env env" and "timer_handleRead (run_user env) rnd tid now n clk l = Inr m"
  shows "owns l m"
proof -
  obtain es k p where k: "getExpired now l = Inr (es, k)" and p: "run_expired (run_user env) es k = Inr p"
    and m: "reset rnd clk es now p = Inr m"
    using assms(2) by (auto simp: timer_handleRead_def rbind_eq_Inr_iff split: if_splits)
  have "same_queue l k" using k by (auto simp: getExpired_def Let_def rassert_eq_Inr_iff same_queue_def)
  moreover have "owns k p"
    using p unfolding run_expired_def
    by (rule rfold_relates [of owns, rotated 3]) (use assms(1) owns_trans in \<open>auto simp: own_env_def\<close>)
  moreover have "same_queue p m" using m by (rule reset_queue)
  ultimately show ?thesis using owns_same owns_trans by blast
qed

lemma run_functor_owns: "own_env env \<Longrightarrow> run_functor env f l = Inr m \<Longrightarrow> owns l m"
  by (cases f) (auto simp: run_functor_def own_env_def dest!: addTimerInLoop_queue intro: owns_same)

subsection \<open>Runs of the loop's thread\<close>

text \<open>Steps of anyone but the other threads, and what such a run inside user code leads to.\<close>

definition alone :: "bool \<Rightarrow> ('f, 'c) system \<Rightarrow> ('f, 'c) system \<Rightarrow> bool" where
  "alone early = (\<lambda>s t. \<exists>a. a \<noteq> Other_thread \<and> sys_step True early a s t)\<^sup>*\<^sup>*"

definition spans :: "bool \<Rightarrow> ('f, 'c) system \<Rightarrow> 'f loop_functor list \<Rightarrow> ('f, 'c) evloop \<Rightarrow> ('f, 'c) system \<Rightarrow> bool" where
  "spans early s fs l t \<longleftrightarrow> alone early s t \<and> sys_loop t = l \<and> stage t = stage s \<and> executed t = executed s \<and>
     submitted t = submitted s @ fs"

lemma alone_refl [simp]: "alone early s s"
  by (simp add: alone_def)

lemma alone_trans: "alone early s t \<Longrightarrow> alone early t u \<Longrightarrow> alone early s u"
  unfolding alone_def by (rule rtranclp_trans)

lemma alone_step: "sys_step True early a s t \<Longrightarrow> a \<noteq> Other_thread \<Longrightarrow> alone early s t"
  unfolding alone_def by (rule r_into_rtranclp) blast

lemma alone_snoc: "alone early s t \<Longrightarrow> sys_step True early a t u \<Longrightarrow> a \<noteq> Other_thread \<Longrightarrow> alone early s u"
  by (rule alone_trans [OF _ alone_step])

lemma alone_reachable: "alone early s t \<Longrightarrow> sys_reachable True early s \<Longrightarrow> sys_reachable True early t"
  unfolding alone_def by (induction rule: rtranclp_induct) (auto intro: sys_reachable.step)

lemma spans_trans: "spans early s fs l t \<Longrightarrow> spans early t gs m u \<Longrightarrow> spans early s (fs @ gs) m u"
  by (auto simp: spans_def intro: alone_trans)

lemma own_run_spans:
  "own_run fs l m \<Longrightarrow> sys_loop s = l \<Longrightarrow> in_user_code s \<Longrightarrow> \<exists>t. spans early s fs m t"
proof (induction rule: own_run.induct)
  case (own_none l)
  then show ?case by (intro exI [of _ s]) (simp add: spans_def)
next
  case (own_queue fs l m f)
  then obtain t where t: "spans early s fs m t" by blast
  then have "in_user_code t" "sys_loop t = m" using own_queue.prems by (simp_all add: spans_def in_user_code_def)
  then have "alone early s (t\<lparr>sys_loop := queueInLoop (tq_thread (sys_loop t)) f (sys_loop t), submitted := submitted t @ [f]\<rparr>)"
    using t alone_snoc [OF _ submit_own [of t early True f]] by (simp add: spans_def)
  then show ?case using t \<open>sys_loop t = m\<close> by (intro exI) (auto simp: spans_def)
next
  case (own_quit fs l m)
  then obtain t where t: "spans early s fs m t" by blast
  then have "in_user_code t" "sys_loop t = m" using own_quit.prems by (simp_all add: spans_def in_user_code_def)
  then have "alone early s (t\<lparr>sys_loop := quit_loop (tq_thread (sys_loop t)) (sys_loop t), quit_called := True\<rparr>)"
    using t alone_snoc [OF _ RN_EventLoop.quit_own [of t True early]] by (simp add: spans_def)
  then show ?case using t \<open>sys_loop t = m\<close> by (intro exI) (auto simp: spans_def)
next
  case (own_same fs l m n)
  then obtain t where t: "spans early s fs m t" by blast
  then have "in_user_code t" "sys_loop t = m" using own_same.prems by (simp_all add: spans_def in_user_code_def)
  then have "alone early s (t\<lparr>sys_loop := n\<rparr>)"
    using t own_same.hyps(2) alone_snoc [OF _ own_other [of t n True early]] by (simp add: spans_def)
  then show ?case using t by (intro exI) (auto simp: spans_def)
qed

text \<open>In the handlers the eventfd may also be drained.\<close>

definition handled :: "bool \<Rightarrow> ('f, 'c) evloop \<Rightarrow> ('f, 'c) evloop \<Rightarrow> bool" where
  "handled early l m \<longleftrightarrow> (\<forall>s. sys_loop s = l \<and> stage s = Handling \<longrightarrow> (\<exists>fs t. spans early s fs m t))"

lemma handled_refl [simp]: "handled early l l"
  unfolding handled_def
proof (intro allI impI)
  fix s :: "('a, 'b) system" assume "sys_loop s = l \<and> stage s = Handling"
  then show "\<exists>fs t. spans early s fs l t" by (intro exI [of _ "[]"] exI [of _ s]) (simp add: spans_def)
qed

lemma handled_trans:
  assumes "handled early l m" and "handled early m n"
  shows "handled early l n"
  unfolding handled_def
proof (intro allI impI)
  fix s :: "('a, 'b) system" assume s: "sys_loop s = l \<and> stage s = Handling"
  obtain fs t where t: "spans early s fs m t" using assms(1) s by (auto simp: handled_def)
  then have "sys_loop t = m \<and> stage t = Handling" using s by (simp add: spans_def)
  then obtain gs u where "spans early t gs n u" using assms(2) by (auto simp: handled_def)
  then show "\<exists>fs t. spans early s fs n t" using spans_trans [OF t] by blast
qed

lemma handled_owns: "owns l m \<Longrightarrow> handled early l m"
  using own_run_spans by (fastforce simp: owns_def handled_def in_user_code_def)

lemma handled_drain: "handled early l (wakeup_handleRead l)"
  unfolding handled_def
proof (intro allI impI)
  fix s :: "('a, 'b) system" assume s: "sys_loop s = l \<and> stage s = Handling"
  have "sys_step True early Loop_thread s (s\<lparr>sys_loop := wakeup_handleRead (sys_loop s)\<rparr>)"
    using s by (intro drain) simp_all
  from alone_step [OF this] show "\<exists>fs t. spans early s fs (wakeup_handleRead l) t"
    using s by (intro exI [of _ "[]"] exI) (auto simp: spans_def)
qed

lemma invoke_handled:
  assumes "own_env env" and "invoke env inp call l = Inr m"
  shows "handled early l m"
proof -
  consider "m = wakeup_handleRead l" | "timer_handleRead (run_user env) (rounding env) (tq_thread l) (in_timer_now inp)
      (in_timer_read inp) (in_timer_clock inp) l = Inr m" | "user_event env call l = Inr m"
    using assms(2) by (cases call; cases "case call of Call_read c t \<Rightarrow> c | Call_write c \<Rightarrow> c | Call_error c \<Rightarrow> c | Call_close c \<Rightarrow> c")
      (simp_all add: invoke_def)
  then show ?thesis
  proof cases
    case 1
    then show ?thesis using handled_drain by simp
  next
    case 2
    then show ?thesis using timer_handleRead_owns [OF assms(1)] handled_owns by blast
  next
    case 3
    then have "owns l m" using assms(1) unfolding own_env_def by blast
    then show ?thesis by (rule handled_owns)
  qed
qed

lemma store_channel_queue [simp]: "same_queue l (store_channel c ch l)"
  by (simp add: store_channel_def same_queue_def)

lemma handle_channel_handled:
  assumes "own_env env" and "handle_channel env inp c l = Inr m"
  shows "handled early l m"
proof -
  let ?serve = "\<lambda>call (ch, l). rbind (invoke env inp call (store_channel c ch l)) (\<lambda>l. Inr (heap (el_poller l) c, l))"
  obtain ch k where run: "handleEvent ?serve (in_time inp) (heap (el_poller l) c, l) = Inr (ch, k)" "m = store_channel c ch k"
    using assms(2) by (auto simp: handle_channel_def rbind_eq_Inr_iff)
  have store: "handled early l (store_channel c ch l)" for ch and l :: "('a, 'b) evloop"
    by (intro handled_owns owns_same) simp
  have "handled early l k"
  proof (rule handleEvent_relates [OF handled_refl handled_trans _ run(1)])
    fix call ch0 l0 ch1 l1
    assume "?serve call (ch0, l0) = Inr (ch1, l1)"
    then have "invoke env inp call (store_channel c ch0 l0) = Inr l1" by (auto simp: rbind_eq_Inr_iff)
    from invoke_handled [OF assms(1) this] show "handled early l0 l1" using store handled_trans by blast
  qed
  then show ?thesis using store run(2) handled_trans by blast
qed

text \<open>The batch: one after the other, and what each queues is pending afterwards.\<close>

lemma batch_runs:
  assumes "own_env env" and "rfold (run_functor env) fs l = Inr m" and "sys_loop s = l" and "stage s = Running fs"
  shows "\<exists>t gs. alone early s t \<and> sys_loop t = m \<and> stage t = Running [] \<and> executed t = executed s @ fs \<and>
    submitted t = submitted s @ gs"
  using assms(2-4)
proof (induction fs arbitrary: l s)
  case Nil
  then show ?case by (intro exI [of _ s]) simp
next
  case (Cons f fs)
  obtain k where k: "run_functor env f l = Inr k" "rfold (run_functor env) fs k = Inr m"
    using Cons.prems(1) by (auto simp: rbind_eq_Inr_iff)
  let ?s = "s\<lparr>stage := Running fs, executed := executed s @ [f]\<rparr>"
  have first: "alone early s ?s" using alone_step [OF run_one [OF Cons.prems(3)]] by simp
  obtain hs where "own_run hs l k" using run_functor_owns [OF assms(1) k(1)] by (auto simp: owns_def)
  then obtain t where t: "spans early ?s hs k t"
    using own_run_spans [of hs l k ?s early] Cons.prems(2) by (auto simp: in_user_code_def)
  then have "sys_loop t = k" "stage t = Running fs" by (simp_all add: spans_def)
  from Cons.IH [OF k(2) this] obtain u gs where u: "alone early t u" "sys_loop u = m" "stage u = Running []"
    "executed u = executed t @ fs" "submitted u = submitted t @ gs" by blast
  have "alone early s u" using first t u(1) by (auto simp: spans_def intro: alone_trans)
  then show ?case using t u by (intro exI [of _ u] exI [of _ "hs @ gs"]) (simp add: spans_def)
qed

lemma doPendingFunctors_runs:
  assumes "own_env env" and "doPendingFunctors env (sys_loop s) = Inr m" and "stage s = Handling"
  shows "\<exists>t gs. alone early s t \<and> sys_loop t = m \<and> stage t = Testing \<and>
    executed t = executed s @ pendingFunctors (sys_loop s) \<and> submitted t = submitted s @ gs"
proof -
  let ?l = "(sys_loop s)\<lparr>callingPendingFunctors := True\<rparr>"
  let ?s = "s\<lparr>sys_loop := ?l, stage := Marked\<rparr>"
  let ?b = "?s\<lparr>sys_loop := snd (swap_functors ?l), stage := Running (fst (swap_functors ?l))\<rparr>"
  have "alone early s ?s" using alone_step [OF mark [OF assms(3)]] by simp
  then have b: "alone early s ?b" using alone_snoc [OF _ swap [of ?s True early]] by simp
  obtain k where k: "rfold (run_functor env) (fst (swap_functors ?l)) (snd (swap_functors ?l)) = Inr k"
    "m = k\<lparr>callingPendingFunctors := False\<rparr>"
    using assms(2) by (auto simp: doPendingFunctors_def rbind_eq_Inr_iff split: prod.splits)
  obtain t gs where t: "alone early ?b t" "sys_loop t = k" "stage t = Running []"
    "executed t = executed ?b @ fst (swap_functors ?l)" "submitted t = submitted ?b @ gs"
    using batch_runs [OF assms(1) k(1), of ?b early] by auto
  let ?t = "t\<lparr>sys_loop := (sys_loop t)\<lparr>callingPendingFunctors := False\<rparr>, stage := Testing\<rparr>"
  have "alone early s ?t" using alone_snoc [OF alone_trans [OF b t(1)] finish [OF t(3)]] by simp
  then show ?thesis using t k(2) by (intro exI [of _ ?t] exI [of _ gs]) (simp add: swap_functors_def)
qed

lemma submitted_split: "sys_reachable wired early s \<Longrightarrow> submitted s = executed s @ batch s @ pendingFunctors (sys_loop s)"
  using queue_inv_reachable by (auto simp: queue_inv_def)

lemma all_split:
  "sys_reachable wired early s \<Longrightarrow> \<forall>fs. stage s \<noteq> Running fs \<Longrightarrow> executed s @ pendingFunctors (sys_loop s) = submitted s"
  using submitted_split [of wired early s] by (auto simp: batch_def split: stage.splits)

lemma poll_channels_queue: "poll_channels inp l = Inr m \<Longrightarrow> same_queue l m"
  by (auto simp: poll_channels_def rbind_eq_Inr_iff same_queue_def split: prod.splits)

text \<open>The iteration: everything handed over before it, and by its handlers, is run in it; what the functors hand over is left pending.\<close>

lemma iteration_runs:
  assumes env: "own_env env" and reach: "sys_reachable True early s" and stage: "stage s = Polling"
    and run: "loop_iteration env inp (sys_loop s) = Inr m"
  shows "\<exists>t hs. alone early s t \<and> sys_loop t = m \<and> stage t = Testing \<and>
    executed t = submitted s @ hs \<and> submitted t = executed t @ pendingFunctors m"
proof -
  obtain p k where p: "poll_channels inp ((sys_loop s)\<lparr>activeChannels := []\<rparr>) = Inr p"
    and k: "rfold (handle_channel env inp) (activeChannels p) p = Inr k" and m: "doPendingFunctors env k = Inr m"
    using run by (auto simp: loop_iteration_def rbind_eq_Inr_iff)
  have "same_queue (sys_loop s) p"
    using poll_channels_queue [OF p] by (simp add: same_queue_def)
  then have s1: "alone early s (s\<lparr>sys_loop := p, stage := Handling\<rparr>)"
    using alone_step [OF poll_event [OF stage]] by simp
  have "handled early p k"
  proof (rule rfold_relates [where R = "handled early", OF handled_refl _ _ k])
    fix a b c :: "('a, 'b) evloop" assume "handled early a b" "handled early b c"
    then show "handled early a c" by (rule handled_trans)
  qed (rule handle_channel_handled [OF env])
  then obtain fs t where t: "spans early (s\<lparr>sys_loop := p, stage := Handling\<rparr>) fs k t" by (force simp: handled_def)
  then have "stage t = Handling" "sys_loop t = k" by (simp_all add: spans_def)
  with m obtain u gs where u: "alone early t u" "sys_loop u = m" "stage u = Testing"
    "executed u = executed t @ pendingFunctors (sys_loop t)" "submitted u = submitted t @ gs"
    using doPendingFunctors_runs [OF env, of t m early] by blast
  have st: "alone early s t" using s1 t by (auto simp: spans_def intro: alone_trans)
  then have su: "alone early s u" using u(1) by (rule alone_trans)
  have "submitted t = executed t @ pendingFunctors (sys_loop t)"
    using submitted_split [OF alone_reachable [OF st reach]] \<open>stage t = Handling\<close> by (simp add: batch_def)
  then have "executed u = submitted s @ fs" using u(4) t by (auto simp: spans_def)
  moreover have "submitted u = executed u @ pendingFunctors m"
    using submitted_split [OF alone_reachable [OF su reach]] u(2,3) by (simp add: batch_def)
  ultimately show ?thesis using su u by blast
qed

text \<open>The whole of \<open>loop()\<close>: the entry, the iterations, the return.\<close>

lemma loop_while_runs:
  assumes "own_env env" and "loop_while env inps (sys_loop s) = Inr (m, returned)" and "sys_reachable True early s"
    and "stage s = Testing"
  shows "\<exists>t. alone early s t \<and> sys_loop t = m \<and> stage t = (if returned then Stopped else Polling)"
  using assms(2-4)
proof (induction inps arbitrary: s)
  case Nil
  have "alone early s (if quit (sys_loop s) then s\<lparr>sys_loop := (sys_loop s)\<lparr>looping := False\<rparr>, stage := Stopped\<rparr> else s\<lparr>stage := Polling\<rparr>)"
    using alone_step [OF test [OF Nil.prems(3)]] by simp
  then show ?case using Nil.prems(1) by (cases "quit (sys_loop s)") (force simp: loop_while.simps)+
next
  case (Cons inp inps)
  show ?case
  proof (cases "quit (sys_loop s)")
    case True
    then show ?thesis using Cons.prems alone_step [OF test [of s True early]]
      by (auto simp: loop_while.simps intro!: exI [of _ "s\<lparr>sys_loop := (sys_loop s)\<lparr>looping := False\<rparr>, stage := Stopped\<rparr>"])
  next
    case False
    let ?s = "s\<lparr>stage := Polling\<rparr>"
    have s: "alone early s ?s" using alone_step [OF test [of s True early]] Cons.prems(3) False by simp
    obtain k where k: "loop_iteration env inp (sys_loop ?s) = Inr k" "loop_while env inps k = Inr (m, returned)"
      using Cons.prems(1) False by (auto simp: loop_while.simps rbind_eq_Inr_iff)
    obtain t where t: "alone early ?s t" "sys_loop t = k" "stage t = Testing"
      using iteration_runs [OF assms(1) alone_reachable [OF s Cons.prems(2)] _ k(1)] by auto
    have st: "alone early s t" using s t(1) by (rule alone_trans)
    obtain u where "alone early t u" "sys_loop u = m" "stage u = (if returned then Stopped else Polling)"
      using Cons.IH [of t] k(2) t(2,3) alone_reachable [OF st Cons.prems(2)] by blast
    then show ?thesis using st alone_trans by blast
  qed
qed

text \<open>\<open>loop()\<close>, called by its thread in a reachable state in which it is not running, is a run of the relation: where it returns or waits for more
  events, the relation has a reachable state with the same loop. All that is proved about reachable states holds of it.\<close>

theorem loop_is_a_run:
  assumes "own_env env" and "sys_reachable True early s" and "outside_loop s"
    and "loop env (tq_thread (sys_loop s)) inps (sys_loop s) = Inr (m, returned)"
  shows "\<exists>t. alone early s t \<and> sys_loop t = m \<and> stage t = (if returned then Stopped else Polling)"
proof -
  let ?s = "s\<lparr>sys_loop := (sys_loop s)\<lparr>looping := True, quit := False\<rparr>, quit_called := False, stage := Testing\<rparr>"
  have s: "alone early s ?s" using alone_step [OF start [OF assms(3)]] by simp
  have "loop_while env inps (sys_loop ?s) = Inr (m, returned)" using assms(4) by (simp add: loop_def rassert_eq_Inr_iff)
  from loop_while_runs [OF assms(1) this alone_reachable [OF s assms(2)]] show ?thesis using s alone_trans by fastforce
qed

subsection \<open>Progress\<close>

text \<open>The loop's thread on its own, with the \<open>wakeup\<close> calls that other threads are about to make: no event on another descriptor,
  no end of the poll time.\<close>

inductive unaided :: "bool \<Rightarrow> ('f, 'c) system \<Rightarrow> ('f, 'c) system \<Rightarrow> bool" for wired where
  unaided_refl: "unaided wired s s"
| unaided_loop: "sys_step wired False Loop_thread s t \<Longrightarrow> unaided wired t u \<Longrightarrow> unaided wired s u"
| unaided_wake: "wakers s = Suc n \<Longrightarrow> unaided wired (s\<lparr>sys_loop := wakeup (sys_loop s), wakers := n\<rparr>) u \<Longrightarrow> unaided wired s u"

definition served :: "bool \<Rightarrow> ('f, 'c) system \<Rightarrow> bool" where
  "served wired s \<longleftrightarrow> (\<exists>t. unaided wired s t \<and> executed t = submitted s \<and> submitted t = submitted s)"

lemma served_loop:
  "sys_step wired False Loop_thread s t \<Longrightarrow> submitted t = submitted s \<Longrightarrow> served wired t \<Longrightarrow> served wired s"
  using unaided_loop by (fastforce simp: served_def)

lemma served_running:
  "stage s = Running fs \<Longrightarrow> executed s @ fs = submitted s \<Longrightarrow> served wired s"
proof (induction fs arbitrary: s)
  case Nil
  then show ?case using unaided_refl by (auto simp: served_def)
next
  case (Cons f fs)
  show ?case by (rule served_loop [OF run_one [OF Cons.prems(1)] _ Cons.IH]) (use Cons.prems in simp_all)
qed

lemma served_handling:
  assumes "stage s = Handling" and "executed s @ pendingFunctors (sys_loop s) = submitted s"
  shows "served wired s"
proof -
  let ?s = "s\<lparr>sys_loop := (sys_loop s)\<lparr>callingPendingFunctors := True\<rparr>, stage := Marked\<rparr>"
  have "served wired ?s"
    by (rule served_loop [OF swap [of ?s]]) (use assms(2) in \<open>auto simp: swap_functors_def intro!: served_running\<close>)
  then show ?thesis using served_loop [OF mark [OF assms(1)]] by simp
qed

lemma served_marked:
  assumes "stage s = Marked" and "executed s @ pendingFunctors (sys_loop s) = submitted s"
  shows "served wired s"
  by (rule served_loop [OF swap [OF assms(1)]]) (use assms(2) in \<open>auto simp: swap_functors_def intro!: served_running\<close>)

lemma served_polling:
  assumes "stage s = Polling" and "executed s @ pendingFunctors (sys_loop s) = submitted s" and "wake_coming s"
  shows "served wired s"
proof -
  have woken: "served wired t" if "stage t = Polling" "executed t @ pendingFunctors (sys_loop t) = submitted t" "0 < wakeupfd (sys_loop t)"
    for t :: "('a, 'b) system"
    by (rule served_loop [OF poll_woken [OF that(1,3), of "sys_loop t"]]) (use that in \<open>simp_all add: served_handling\<close>)
  show ?thesis
  proof (cases "0 < wakeupfd (sys_loop s)")
    case True
    then show ?thesis using woken assms(1,2) by blast
  next
    case False
    then obtain n where n: "wakers s = Suc n" using assms(3) by (auto simp: wake_coming_def gr0_conv_Suc)
    have "served wired (s\<lparr>sys_loop := wakeup (sys_loop s), wakers := n\<rparr>)" using assms(1,2) by (intro woken) simp_all
    then show ?thesis using unaided_wake [OF n] by (fastforce simp: served_def)
  qed
qed

lemma served_testing:
  assumes "sys_reachable wired False s" and "stage s = Testing" and "\<not> quit (sys_loop s)"
  shows "served wired s"
proof -
  have q: "executed s @ pendingFunctors (sys_loop s) = submitted s"
    by (intro all_split [OF assms(1)]) (simp add: assms(2))
  show ?thesis
  proof (cases "pendingFunctors (sys_loop s) = []")
    case True
    then show ?thesis using q unaided_refl by (auto simp: served_def)
  next
    case False
    then have "wake_coming s" using wake_inv_reachable [OF assms(1)] assms(2) by (simp add: wake_inv_def)
    then have "served wired (s\<lparr>stage := Polling\<rparr>)" using q by (intro served_polling) (simp_all add: wake_coming_def)
    then show ?thesis using served_loop [OF test [OF assms(2)]] assms(3) by simp
  qed
qed

lemma served_batch:
  assumes "sys_reachable wired False s" and "stage s = Running fs" and "\<not> quit (sys_loop s)"
  shows "served wired s"
  using assms
proof (induction fs arbitrary: s)
  case Nil
  let ?s = "s\<lparr>sys_loop := (sys_loop s)\<lparr>callingPendingFunctors := False\<rparr>, stage := Testing\<rparr>"
  note f = finish [OF Nil.prems(2), of wired False]
  have "served wired ?s" by (rule served_testing [OF sys_reachable.step [OF Nil.prems(1) f]]) (use Nil.prems(3) in simp_all)
  then show ?case using served_loop [OF f] by simp
next
  case (Cons f fs)
  note r = run_one [OF Cons.prems(2), of wired False]
  show ?case by (rule served_loop [OF r _ Cons.IH [OF sys_reachable.step [OF Cons.prems(1) r]]]) (use Cons.prems(3) in simp_all)
qed

lemma served_reachable:
  assumes "sys_reachable wired False s" and "looping (sys_loop s)" and "\<not> quit (sys_loop s)"
  shows "served wired s"
proof -
  have "stage s \<noteq> Idle" "stage s \<noteq> Stopped" using queue_inv_reachable [OF assms(1)] assms(2) by (simp_all add: queue_inv_def)
  then consider "stage s = Testing" | "stage s = Polling" | "stage s = Handling" | "stage s = Marked" | fs where "stage s = Running fs"
    by (cases "stage s") auto
  then show ?thesis
  proof cases
    case 1
    then show ?thesis using served_testing assms by blast
  next
    case 2
    then have q: "executed s @ pendingFunctors (sys_loop s) = submitted s" by (intro all_split [OF assms(1)]) simp
    show ?thesis
    proof (cases "pendingFunctors (sys_loop s) = []")
      case True
      then show ?thesis using q unaided_refl by (auto simp: served_def)
    next
      case False
      then show ?thesis using served_polling [OF 2 q] wake_inv_reachable [OF assms(1)] 2 by (simp add: wake_inv_def)
    qed
  next
    case 3
    then show ?thesis by (intro served_handling all_split [OF assms(1)]) simp_all
  next
    case 4
    then show ?thesis by (intro served_marked all_split [OF assms(1)]) simp_all
  next
    case 5
    then show ?thesis using served_batch assms by blast
  qed
qed

subsection \<open>Properties\<close>


lemma owns_fold_queue: "owns l (foldl (\<lambda>l g. queueInLoop (tq_thread l) g l) l gs)"
proof (induction gs rule: rev_induct)
  case (snoc g gs)
  then show ?case using owns_trans owns_queue by fastforce
qed simp

lemma demo_env_own: "own_env demo_env"
  using owns_fold_queue by (auto simp: own_env_def demo_env_def)


lemma loop_is_a_run_witness:
  "\<exists>t. alone False (sys_init demo_loop) t \<and> stage t = Polling \<and> looping (sys_loop t)"
proof -
  have "\<not> looping demo_loop" using demo_loop_fresh by (simp add: fresh_loop_def)
  then have "loop demo_env (tq_thread demo_loop) [] demo_loop = Inr (demo_loop\<lparr>looping := True, quit := False\<rparr>, False)"
    by (simp add: loop_def loop_while.simps)
  with loop_is_a_run [OF demo_env_own sys_reachable.init [OF demo_loop_fresh(1), of True False]]
  show ?thesis by (fastforce simp: sys_init_def outside_loop_def)
qed

end
