(* ===== verification/RN_Buffer.thy ===== *)
theory RN_Buffer
  imports RN_Prelude
begin

text \<open>
  The growable byte buffer of RN/net/Buffer.h. A \<open>std::vector<char>\<close> is a list of
  characters; the indices and lengths of type \<open>size_t\<close> are natural numbers (a vector
  never reaches the size at which they would wrap), and a pointer into the vector is
  its offset. Assertions have the reading of the Debug build. \<open>content\<close> is the abstraction: the
  unread bytes, between the reader index and the writer index.
\<close>

subsection \<open>State\<close>

definition kCheapPrepend :: nat where
  "kCheapPrepend = 8"

definition kInitialSize :: nat where
  "kInitialSize = 1024"

record buffer =
  buf :: string
  writerIndex :: nat
  readerIndex :: nat

definition Buffer_new :: buffer where
  "Buffer_new = \<lparr>buf = replicate (kCheapPrepend + kInitialSize) (CHR 0x00),
     writerIndex = kCheapPrepend, readerIndex = kCheapPrepend\<rparr>"

definition readableBytes :: "buffer \<Rightarrow> nat" where
  "readableBytes b = writerIndex b - readerIndex b"

definition writableBytes :: "buffer \<Rightarrow> nat" where
  "writableBytes b = length (buf b) - writerIndex b"

definition prependableBytes :: "buffer \<Rightarrow> nat" where
  "prependableBytes b = readerIndex b"

text \<open>\<open>peek\<close>: what a caller sees from the returned pointer on.\<close>

definition peek :: "buffer \<Rightarrow> string" where
  "peek b = drop (readerIndex b) (buf b)"

definition content :: "buffer \<Rightarrow> string" where
  "content b = take (readableBytes b) (peek b)"

definition buffer_inv :: "buffer \<Rightarrow> bool" where
  "buffer_inv b \<longleftrightarrow> readerIndex b \<le> writerIndex b \<and> writerIndex b \<le> length (buf b)"

subsection \<open>Consuming\<close>

definition retrive :: "buffer \<Rightarrow> nat \<Rightarrow> buffer result" where
  "retrive b len = rassert (len \<le> readableBytes b)
     (Inr (b\<lparr>readerIndex := readerIndex b + len\<rparr>))"

text \<open>The pointer argument of \<open>retirveUtil\<close> is an offset into the vector.\<close>

definition retirveUtil :: "buffer \<Rightarrow> nat \<Rightarrow> buffer result" where
  "retirveUtil b util =
     rassert (util \<le> writerIndex b)
    (rassert (readerIndex b < util)
       (retrive b (util - readerIndex b)))"

definition retrieveAll :: "buffer \<Rightarrow> buffer" where
  "retrieveAll b = b\<lparr>writerIndex := kCheapPrepend, readerIndex := kCheapPrepend\<rparr>"

definition retirveAllAsString :: "buffer \<Rightarrow> string \<times> buffer" where
  "retirveAllAsString b =
     (let str = take (readableBytes b) (drop (readerIndex b) (buf b)) in (str, retrieveAll b))"

subsection \<open>Making room and writing\<close>

definition hasWritten :: "buffer \<Rightarrow> nat \<Rightarrow> buffer" where
  "hasWritten b len = b\<lparr>writerIndex := writerIndex b + len\<rparr>"

text \<open>
  \<open>resize\<close> appends zero bytes (here it never shrinks); the other branch moves the
  unread bytes down to offset \<open>kCheapPrepend\<close>.
\<close>

definition makeSpace :: "buffer \<Rightarrow> nat \<Rightarrow> buffer result" where
  "makeSpace b len =
     (if writableBytes b + prependableBytes b < len + kCheapPrepend
      then Inr (b\<lparr>buf := buf b @ replicate (writerIndex b + len - length (buf b)) (CHR 0x00)\<rparr>)
      else rassert (kCheapPrepend < readerIndex b)
        (let n = readableBytes b;
             moved = blit (buf b) kCheapPrepend (take n (drop (readerIndex b) (buf b)))
         in Inr (b\<lparr>buf := moved, writerIndex := kCheapPrepend + n, readerIndex := kCheapPrepend\<rparr>)))"

definition ensureEnoughSpace :: "buffer \<Rightarrow> nat \<Rightarrow> buffer result" where
  "ensureEnoughSpace b len = (if len \<le> writableBytes b then Inr b else makeSpace b len)"

text \<open>
  \<open>append\<close> copies to \<open>beginOfReader()\<close>, as the source does. Reading \<open>len\<close> bytes from a
  shorter object is the fault \<open>OutOfRange\<close>.
\<close>

definition append_bytes :: "buffer \<Rightarrow> string \<Rightarrow> nat \<Rightarrow> buffer result" where
  "append_bytes b str len =
     rbind (ensureEnoughSpace b len) (\<lambda>b.
     rassert (len \<le> writableBytes b)
     (if length str < len then Inl OutOfRange
      else Inr (hasWritten (b\<lparr>buf := blit (buf b) (readerIndex b) (take len str)\<rparr>) len)))"

definition prepend :: "buffer \<Rightarrow> string \<Rightarrow> nat \<Rightarrow> buffer result" where
  "prepend b dat len =
     rassert (len \<le> prependableBytes b)
     (if length dat < len then Inl OutOfRange
      else let b' = b\<lparr>readerIndex := readerIndex b - len\<rparr>
           in Inr (b'\<lparr>buf := blit (buf b') (readerIndex b') (take len dat)\<rparr>))"

subsection \<open>Reading from a descriptor\<close>

text \<open>
  \<open>readv\<close> is the kernel's: it fails with an errno, or stores a number of bytes first in
  the writable part of the vector and then in the 64 KiB stack buffer. \<open>readFd\<close> returns
  \<open>n\<close>, the saved errno and the buffer.
\<close>

datatype readv_result = Readv_error int | Readv_bytes string

definition readFd_extra :: nat where
  "readFd_extra = 65536"

definition readFd :: "buffer \<Rightarrow> readv_result \<Rightarrow> int \<Rightarrow> (int \<times> int \<times> buffer) result" where
  "readFd b r savedErrno = (let writeable = writableBytes b in
     case r of
       Readv_error e \<Rightarrow> Inr (-1, e, b)
     | Readv_bytes bs \<Rightarrow>
         (let n = length bs;
              b1 = b\<lparr>buf := blit (buf b) (writerIndex b) (take writeable bs)\<rparr>;
              extra = drop writeable bs
          in if n \<le> writeable
             then Inr (int n, savedErrno, b1\<lparr>writerIndex := writerIndex b1 + n\<rparr>)
             else rbind (append_bytes (b1\<lparr>writerIndex := length (buf b1)\<rparr>) extra (n - writeable))
                    (\<lambda>b2. Inr (int n, savedErrno, b2))))"

text \<open>What the kernel can return: no more bytes than the two areas hold.\<close>

definition readv_fits :: "buffer \<Rightarrow> readv_result \<Rightarrow> bool" where
  "readv_fits b r \<longleftrightarrow>
     (case r of Readv_error e \<Rightarrow> True | Readv_bytes bs \<Rightarrow> length bs \<le> writableBytes b + readFd_extra)"

subsection \<open>Invariant and abstraction\<close>

lemmas buffer_sizes =
  readableBytes_def writableBytes_def prependableBytes_def kCheapPrepend_def

declare buffer_sizes [bounds_simps]

lemma buffer_inv_new [inv_intros]: "buffer_inv Buffer_new"
  by (simp add: buffer_inv_def Buffer_new_def)

lemma content_new [simp]: "content Buffer_new = []"
  by (simp add: content_def Buffer_new_def readableBytes_def)

lemma length_content: "buffer_inv b \<Longrightarrow> length (content b) = readableBytes b"
  by (auto simp: buffer_inv_def content_def peek_def readableBytes_def)

lemma content_empty_iff: "buffer_inv b \<Longrightarrow> content b = [] \<longleftrightarrow> readableBytes b = 0"
  using length_content by fastforce

lemma content_eq: "content b = take (writerIndex b - readerIndex b) (drop (readerIndex b) (buf b))"
  by (simp add: content_def peek_def readableBytes_def)

lemma retrive_ok:
  assumes "buffer_inv b" and "n \<le> length (content b)"
  shows "\<exists>b'. retrive b n = Inr b' \<and> buffer_inv b' \<and> content b' = drop n (content b)"
  using assms
  by (auto simp: retrive_def length_content buffer_inv_def content_eq drop_take readableBytes_def add.commute)

lemma retrieveAll_inv: "buffer_inv b \<Longrightarrow> kCheapPrepend \<le> length (buf b) \<Longrightarrow> buffer_inv (retrieveAll b)"
  by (simp add: retrieveAll_def buffer_inv_def)

lemma content_retrieveAll [simp]: "content (retrieveAll b) = []"
  by (simp add: content_eq retrieveAll_def)

lemma makeSpace_ok:
  assumes inv: "buffer_inv b" and few: "writableBytes b < len"
  shows "\<exists>b'. makeSpace b len = Inr b' \<and> buffer_inv b' \<and> content b' = content b \<and> len \<le> writableBytes b'"
proof (cases "writableBytes b + prependableBytes b < len + kCheapPrepend")
  case True
  let ?b = "b\<lparr>buf := buf b @ replicate (writerIndex b + len - length (buf b)) (CHR 0x00)\<rparr>"
  have "makeSpace b len = Inr ?b" using True by (simp add: makeSpace_def)
  moreover have "buffer_inv ?b" and "len \<le> writableBytes ?b" and "content ?b = content b"
    using inv few by (simp_all add: buffer_inv_def content_eq writableBytes_def)
  ultimately show ?thesis by blast
next
  case False
  then have front: "kCheapPrepend < readerIndex b" using few by (simp add: prependableBytes_def)
  let ?moved = "blit (buf b) kCheapPrepend (content b)"
  let ?b = "b\<lparr>buf := ?moved, writerIndex := kCheapPrepend + readableBytes b, readerIndex := kCheapPrepend\<rparr>"
  have n: "length (content b) = readableBytes b" using inv by (rule length_content)
  have fits: "kCheapPrepend + length (content b) \<le> length (buf b)"
    using inv front n by (auto simp: buffer_inv_def readableBytes_def)
  have "makeSpace b len = Inr ?b"
    using False front by (simp add: makeSpace_def Let_def content_def peek_def)
  moreover have "buffer_inv ?b" using fits n by (simp add: buffer_inv_def)
  moreover have "content ?b = take (length (content b)) (drop kCheapPrepend ?moved)"
    unfolding content_eq [of ?b] by (simp add: n)
  then have "content ?b = content b" by (simp only: take_drop_blit_at [OF fits])
  moreover have "len \<le> writableBytes ?b"
    using False fits inv n
    by (simp add: writableBytes_def prependableBytes_def readableBytes_def buffer_inv_def)
  ultimately show ?thesis by blast
qed

lemma ensureEnoughSpace_ok:
  assumes "buffer_inv b"
  shows "\<exists>b'. ensureEnoughSpace b len = Inr b' \<and> buffer_inv b' \<and> content b' = content b \<and> len \<le> writableBytes b'"
  using makeSpace_ok [OF assms, of len] assms
  by (cases "len \<le> writableBytes b") (auto simp: ensureEnoughSpace_def)

text \<open>The overwrite performed at the reader index, seen through the abstraction.\<close>

lemma overwrite_content:
  assumes inv: "buffer_inv b" and room: "length s \<le> writableBytes b"
  defines "b' \<equiv> hasWritten (b\<lparr>buf := blit (buf b) (readerIndex b) s\<rparr>) (length s)"
  shows "buffer_inv b' \<and> (\<exists>stale. length stale = min (length s) (readableBytes b) \<and>
    content b' = s @ drop (length s) (content b) @ stale)"
proof -
  let ?r = "readerIndex b" and ?w = "writerIndex b" and ?k = "length s"
  have bnd: "?r \<le> ?w" "?w + ?k \<le> length (buf b)"
    using inv room by (auto simp: buffer_inv_def writableBytes_def)
  have inv': "buffer_inv b'" using bnd by (simp add: b'_def buffer_inv_def hasWritten_def)
  have "content b' = take (?w - ?r + ?k) (s @ drop (?r + ?k) (buf b))"
    using bnd by (simp add: b'_def content_eq hasWritten_def drop_blit add.commute)
  then have c': "content b' = s @ take (?w - ?r) (drop (?r + ?k) (buf b))" by simp
  define rest where "rest = take (?w - ?r) (drop (?r + ?k) (buf b))"
  have "take (?w - ?r - ?k) rest = drop ?k (content b)"
    by (simp add: rest_def content_eq drop_take min_def add.commute)
  then have split: "rest = drop ?k (content b) @ drop (?w - ?r - ?k) rest"
    by (metis append_take_drop_id)
  have len: "length (drop (?w - ?r - ?k) rest) = min ?k (readableBytes b)"
    using bnd by (auto simp: rest_def readableBytes_def min_def)
  have "content b' = s @ drop ?k (content b) @ drop (?w - ?r - ?k) rest"
    using c' split by (simp only: rest_def [symmetric])
  with len inv' show ?thesis by blast
qed

lemma append_bytes_ok:
  assumes inv: "buffer_inv b" and len: "len \<le> length str"
  shows "\<exists>b' stale. append_bytes b str len = Inr b' \<and> buffer_inv b' \<and>
    length stale = min len (readableBytes b) \<and>
    content b' = take len str @ drop len (content b) @ stale"
proof -
  obtain b1 where b1: "ensureEnoughSpace b len = Inr b1" "buffer_inv b1"
    "content b1 = content b" "len \<le> writableBytes b1"
    using ensureEnoughSpace_ok [OF inv] by blast
  have same: "readableBytes b1 = readableBytes b"
    using inv b1 by (metis length_content)
  let ?s = "take len str"
  have "length ?s = len" using len by simp
  then show ?thesis
    using overwrite_content [OF b1(2), of ?s] b1 len same
    by (auto simp: append_bytes_def)
qed

lemma append_bytes_empty:
  assumes "buffer_inv b" and "content b = []" and "len \<le> length str"
  shows "\<exists>b'. append_bytes b str len = Inr b' \<and> buffer_inv b' \<and> content b' = take len str"
  using append_bytes_ok [OF assms(1,3)] assms(1,2) by (auto simp: content_empty_iff)

lemma append_bytes_length:
  assumes "buffer_inv b" and "len \<le> length str"
  shows "\<exists>b'. append_bytes b str len = Inr b' \<and> buffer_inv b' \<and>
    length (content b') = length (content b) + len"
  using append_bytes_ok [OF assms] assms by (fastforce simp: length_content min_def)

lemma prepend_content:
  assumes inv: "buffer_inv b" and k: "length s \<le> readerIndex b"
  defines "b' \<equiv> b\<lparr>readerIndex := readerIndex b - length s,
    buf := blit (buf b) (readerIndex b - length s) s\<rparr>"
  shows "buffer_inv b' \<and> content b' = s @ content b"
proof -
  have "writerIndex b - (readerIndex b - length s) = length s + (writerIndex b - readerIndex b)"
    using inv k by (auto simp: buffer_inv_def)
  moreover have "drop (readerIndex b - length s) (buf b') = s @ drop (readerIndex b) (buf b)"
    using inv k by (auto simp: b'_def drop_blit buffer_inv_def)
  ultimately have "content b' = s @ content b" by (simp add: content_eq b'_def)
  moreover have "buffer_inv b'" using inv k by (auto simp: b'_def buffer_inv_def)
  ultimately show ?thesis by blast
qed

lemma prepend_ok:
  assumes inv: "buffer_inv b" and len: "len \<le> prependableBytes b" "len \<le> length dat"
  shows "\<exists>b'. prepend b dat len = Inr b' \<and> buffer_inv b' \<and> content b' = take len dat @ content b"
proof -
  have "length (take len dat) = len" using len by simp
  then show ?thesis
    using prepend_content [OF inv, of "take len dat"] len
    by (simp add: prepend_def Let_def prependableBytes_def)
qed

lemma append_bytes_short:
  assumes "buffer_inv b" and "length str < len"
  shows "append_bytes b str len = Inl OutOfRange"
proof -
  obtain b1 where "ensureEnoughSpace b len = Inr b1" and "len \<le> writableBytes b1"
    using ensureEnoughSpace_ok [OF assms(1)] by blast
  then show ?thesis using assms(2) by (simp add: append_bytes_def)
qed

lemma readFd_within:
  assumes inv: "buffer_inv b" and n: "length bs \<le> writableBytes b"
  shows "\<exists>b'. readFd b (Readv_bytes bs) e = Inr (int (length bs), e, b') \<and> buffer_inv b' \<and>
    content b' = content b @ bs"
proof -
  let ?b = "b\<lparr>buf := blit (buf b) (writerIndex b) bs, writerIndex := writerIndex b + length bs\<rparr>"
  have fit: "readerIndex b \<le> writerIndex b" "writerIndex b + length bs \<le> length (buf b)"
    using inv n by (auto simp: buffer_inv_def writableBytes_def)
  have "content ?b = content b @ bs"
    using take_drop_blit_extend [OF fit] by (simp add: content_eq)
  moreover have "buffer_inv ?b" using fit by (simp add: buffer_inv_def)
  moreover have "readFd b (Readv_bytes bs) e = Inr (int (length bs), e, ?b)"
    using n by (simp add: readFd_def Let_def)
  ultimately show ?thesis by blast
qed

lemma fill_content:
  assumes inv: "buffer_inv b" and k: "length s = writableBytes b"
  defines "b' \<equiv> b\<lparr>buf := blit (buf b) (writerIndex b) s, writerIndex := length (buf b)\<rparr>"
  shows "buffer_inv b' \<and> content b' = content b @ s"
proof -
  have fit: "readerIndex b \<le> writerIndex b" "writerIndex b + length s \<le> length (buf b)"
    and full: "length (buf b) = writerIndex b + length s"
    using inv k by (auto simp: buffer_inv_def writableBytes_def)
  have "content b' = content b @ s"
    using take_drop_blit_extend [OF fit] fit(1) by (simp add: content_eq b'_def full)
  moreover have "buffer_inv b'" using fit full by (simp add: buffer_inv_def b'_def)
  ultimately show ?thesis by blast
qed

lemma readFd_beyond:
  assumes inv: "buffer_inv b" and n: "writableBytes b < length bs"
  defines "w \<equiv> writableBytes b"
  shows "\<exists>b' stale. readFd b (Readv_bytes bs) e = Inr (int (length bs), e, b') \<and> buffer_inv b' \<and>
    length stale = min (length bs - w) (length (content b) + w) \<and>
    content b' = drop w bs @ drop (length bs - w) (content b @ take w bs) @ stale"
proof -
  let ?b = "b\<lparr>buf := blit (buf b) (writerIndex b) (take w bs), writerIndex := length (buf b)\<rparr>"
  have k: "length (take w bs) = w" using n by (simp add: w_def)
  have filled: "buffer_inv ?b" "content ?b = content b @ take w bs"
    using fill_content [OF inv] k unfolding w_def by blast+
  have "readableBytes ?b = length (content b) + w"
    using length_content [OF filled(1)] filled(2) k by simp
  moreover have "length (blit (buf b) (writerIndex b) (take w bs)) = length (buf b)"
    using inv k by (intro length_blit) (auto simp: buffer_inv_def w_def writableBytes_def)
  then have "readFd b (Readv_bytes bs) e =
      rbind (append_bytes ?b (drop w bs) (length bs - w)) (\<lambda>b2. Inr (int (length bs), e, b2))"
    using n by (simp add: readFd_def Let_def w_def)
  ultimately show ?thesis
    using append_bytes_ok [OF filled(1), of "length bs - w" "drop w bs"] filled(2)
    by (auto simp del: drop_append)
qed

subsection \<open>The interface a connection uses\<close>

text \<open>
  What a client of the buffer may rely on: the number of readable bytes, consumption
  from the front, and storing into an \<^emph>\<open>empty\<close> buffer. Storing behind unread bytes is
  not promised, since \<open>append_bytes\<close> does not do it; only the length is.
\<close>

locale byte_store =
  fixes inv :: "'b \<Rightarrow> bool"
    and view :: "'b \<Rightarrow> string"
    and readable :: "'b \<Rightarrow> nat"
    and consume :: "'b \<Rightarrow> nat \<Rightarrow> 'b result"
    and store :: "'b \<Rightarrow> string \<Rightarrow> nat \<Rightarrow> 'b result"
  assumes readable_view: "inv b \<Longrightarrow> readable b = length (view b)"
    and consume_view: "inv b \<Longrightarrow> n \<le> length (view b) \<Longrightarrow>
      \<exists>b'. consume b n = Inr b' \<and> inv b' \<and> view b' = drop n (view b)"
    and store_empty: "inv b \<Longrightarrow> view b = [] \<Longrightarrow> n \<le> length s \<Longrightarrow>
      \<exists>b'. store b s n = Inr b' \<and> inv b' \<and> view b' = take n s"
    and store_length: "inv b \<Longrightarrow> n \<le> length s \<Longrightarrow>
      \<exists>b'. store b s n = Inr b' \<and> inv b' \<and> length (view b') = length (view b) + n"
begin

lemma consume_many:
  assumes "inv b" and "sum_list ns \<le> length (view b)"
  shows "\<exists>b'. rfold (\<lambda>n b. consume b n) ns b = Inr b' \<and> inv b' \<and> view b' = drop (sum_list ns) (view b)"
  using assms
proof (induction ns arbitrary: b)
  case Nil
  then show ?case by simp
next
  case (Cons n ns)
  obtain b1 where "consume b n = Inr b1" "inv b1" "view b1 = drop n (view b)"
    using consume_view [of b n] Cons.prems by auto
  then show ?case using Cons.IH [of b1] Cons.prems by (simp add: add.commute)
qed

lemma store_then_consume_all:
  assumes "inv b" and "view b = []"
  shows "\<exists>b1 b2. store b s (length s) = Inr b1 \<and> view b1 = s \<and>
    consume b1 (readable b1) = Inr b2 \<and> inv b2 \<and> view b2 = []"
proof -
  obtain b1 where b1: "store b s (length s) = Inr b1" "inv b1" "view b1 = s"
    using store_empty [OF assms, of "length s" s] by auto
  then show ?thesis using consume_view [of b1 "length s"] readable_view [of b1] by auto
qed

end

interpretation out_buffer: byte_store buffer_inv content readableBytes retrive append_bytes
  by unfold_locales
    (rule length_content [symmetric] retrive_ok append_bytes_empty append_bytes_length; assumption)+

subsection \<open>Sequences of operations\<close>

datatype buffer_op =
    Op_append string nat
  | Op_prepend string nat
  | Op_retrive nat
  | Op_retirveUtil nat
  | Op_retrieveAll
  | Op_ensure nat
  | Op_readFd readv_result
  | Op_hasWritten nat
  | Op_retirveAllAsString

fun exec_op :: "buffer_op \<Rightarrow> buffer \<Rightarrow> buffer result" where
  "exec_op (Op_append s n) b = append_bytes b s n"
| "exec_op (Op_prepend s n) b = prepend b s n"
| "exec_op (Op_retrive n) b = retrive b n"
| "exec_op (Op_retirveUtil n) b = retirveUtil b n"
| "exec_op Op_retrieveAll b = Inr (retrieveAll b)"
| "exec_op (Op_ensure n) b = ensureEnoughSpace b n"
| "exec_op (Op_readFd r) b = rbind (readFd b r 0) (\<lambda>(n, e, b'). Inr b')"
| "exec_op (Op_hasWritten n) b = Inr (hasWritten b n)"
| "exec_op Op_retirveAllAsString b = (let (str, b') = retirveAllAsString b in Inr b')"

text \<open>
  What the caller of an operation owes; everything else is the buffer's own business. The code asserts what \<open>prepend\<close>, \<open>retrive\<close> and \<open>retirveUtil\<close> ask of the
  buffer. It does not check that the bytes given are there, nor that what \<open>hasWritten\<close> counts was written into the writable space.
\<close>

fun op_requires :: "buffer_op \<Rightarrow> buffer \<Rightarrow> bool" where
  "op_requires (Op_append s n) b = (n \<le> length s)"
| "op_requires (Op_prepend s n) b = (n \<le> length s \<and> n \<le> prependableBytes b)"
| "op_requires (Op_retrive n) b = (n \<le> readableBytes b)"
| "op_requires (Op_retirveUtil n) b = (readerIndex b < n \<and> n \<le> writerIndex b)"
| "op_requires Op_retrieveAll b = True"
| "op_requires (Op_ensure n) b = True"
| "op_requires (Op_readFd r) b = True"
| "op_requires (Op_hasWritten n) b = (n \<le> writableBytes b)"
| "op_requires Op_retirveAllAsString b = True"

text \<open>The vector never shrinks below its initial size, so \<open>retrieveAll\<close> stays in range.\<close>

definition buffer_wf :: "buffer \<Rightarrow> bool" where
  "buffer_wf b \<longleftrightarrow> buffer_inv b \<and> kCheapPrepend + kInitialSize \<le> length (buf b)"

lemma buffer_wf_new [inv_intros]: "buffer_wf Buffer_new"
  using buffer_inv_new by (simp add: buffer_wf_def Buffer_new_def)

lemma makeSpace_grows: "buffer_inv b \<Longrightarrow> makeSpace b len = Inr b' \<Longrightarrow> length (buf b) \<le> length (buf b')"
  by (auto simp: makeSpace_def Let_def rassert_def buffer_inv_def readableBytes_def split: if_splits)

lemma ensure_wf: "buffer_wf b \<Longrightarrow> ensureEnoughSpace b n = Inr b' \<Longrightarrow> buffer_wf b'"
  using ensureEnoughSpace_ok [of b n] makeSpace_grows [of b n b']
  by (auto simp: buffer_wf_def ensureEnoughSpace_def split: if_splits)

lemma append_wf:
  assumes "buffer_wf b" and r: "append_bytes b s n = Inr b'"
  shows "buffer_wf b'"
proof -
  obtain b1 where b1: "ensureEnoughSpace b n = Inr b1" "n \<le> writableBytes b1" "n \<le> length s"
    "b' = hasWritten (b1\<lparr>buf := blit (buf b1) (readerIndex b1) (take n s)\<rparr>) n"
    using r by (auto simp: append_bytes_def result_iffs split: if_splits)
  have wf1: "buffer_wf b1" using ensure_wf assms(1) b1(1) by blast
  have "length (take n s) \<le> writableBytes b1" "length (take n s) = n" using b1 by simp_all
  with overwrite_content [of b1 "take n s"] wf1 have "buffer_inv b'"
    by (simp add: b1(4) buffer_wf_def)
  moreover have "length (buf b') = length (buf b1)"
    using wf1 b1 by (auto simp: buffer_wf_def buffer_inv_def hasWritten_def writableBytes_def)
  ultimately show ?thesis using wf1 by (simp add: buffer_wf_def)
qed

lemma readFd_wf:
  assumes wf: "buffer_wf b" and r: "readFd b rv e = Inr (n, e', b')"
  shows "buffer_wf b'"
proof (cases rv)
  case (Readv_error x)
  then show ?thesis using wf r by (simp add: readFd_def)
next
  case (Readv_bytes bs)
  let ?blit = "blit (buf b) (writerIndex b) (take (writableBytes b) bs)"
  have len: "length ?blit = length (buf b)"
    using wf by (auto simp: buffer_wf_def buffer_inv_def writableBytes_def)
  show ?thesis
  proof (cases "length bs \<le> writableBytes b")
    case True
    then show ?thesis using wf r Readv_bytes len
      by (auto simp: readFd_def Let_def buffer_wf_def buffer_inv_def writableBytes_def)
  next
    case False
    let ?b = "b\<lparr>buf := ?blit, writerIndex := length (buf b)\<rparr>"
    have "buffer_wf ?b" using wf len by (auto simp: buffer_wf_def buffer_inv_def)
    then show ?thesis using r Readv_bytes False len
      by (auto simp: readFd_def Let_def rbind_eq_Inr_iff intro: append_wf)
  qed
qed

lemma prepend_wf: "buffer_wf b \<Longrightarrow> prepend b s n = Inr b' \<Longrightarrow> buffer_wf b'"
  using prepend_content [of b "take n s"]
  by (auto simp: prepend_def result_iffs Let_def prependableBytes_def buffer_wf_def
      buffer_inv_def split: if_splits)

lemma retrive_wf: "buffer_wf b \<Longrightarrow> retrive b n = Inr b' \<Longrightarrow> buffer_wf b'"
  by (auto simp: retrive_def result_iffs buffer_wf_def buffer_inv_def readableBytes_def)

lemma retirveUtil_wf: "buffer_wf b \<Longrightarrow> retirveUtil b n = Inr b' \<Longrightarrow> buffer_wf b'"
  using retrive_wf by (auto simp: retirveUtil_def result_iffs)

lemma retrieveAll_wf: "buffer_wf b \<Longrightarrow> buffer_wf (retrieveAll b)"
  by (simp add: buffer_wf_def buffer_inv_def retrieveAll_def)

lemma hasWritten_wf: "buffer_wf b \<Longrightarrow> n \<le> writableBytes b \<Longrightarrow> buffer_wf (hasWritten b n)"
  by (auto simp: buffer_wf_def buffer_inv_def hasWritten_def writableBytes_def)

lemmas buffer_op_wf [inv_intros] =
  append_wf prepend_wf retrive_wf retirveUtil_wf retrieveAll_wf ensure_wf readFd_wf hasWritten_wf

lemma exec_op_wf:
  assumes "buffer_wf b" and "exec_op p b = Inr b'" and "op_requires p b"
  shows "buffer_wf b'"
  using assms by (cases p) (auto simp: rbind_eq_Inr_iff retirveAllAsString_def Let_def intro: buffer_op_wf)

lemma readFd_total:
  assumes "buffer_inv b"
  shows "\<exists>n e' b'. readFd b r e = Inr (n, e', b')"
proof (cases r)
  case (Readv_bytes bs)
  show ?thesis
  proof (cases "length bs \<le> writableBytes b")
    case True
    then show ?thesis using readFd_within [OF assms] Readv_bytes by blast
  next
    case False
    then have "writableBytes b < length bs" by simp
    then show ?thesis using readFd_beyond [OF assms, of bs e] Readv_bytes by blast
  qed
qed (simp add: readFd_def)

lemma exec_op_ok:
  assumes wf: "buffer_wf b" and req: "op_requires p b"
  shows "\<exists>b'. exec_op p b = Inr b'"
proof -
  have inv: "buffer_inv b" using wf by (simp add: buffer_wf_def)
  show ?thesis
  proof (cases p)
    case (Op_append s n)
    then show ?thesis using append_bytes_ok [OF inv, of n s] req by auto
  next
    case (Op_prepend s n)
    then show ?thesis using prepend_ok [OF inv, of n s] req by auto
  next
    case (Op_ensure n)
    then show ?thesis using ensureEnoughSpace_ok [OF inv, of n] by auto
  next
    case (Op_readFd r)
    then show ?thesis using readFd_total [OF inv, of r 0] by auto
  qed (use req in \<open>auto simp: retrive_def retirveUtil_def readableBytes_def rassert_def retirveAllAsString_def Let_def\<close>)
qed

fun run_requires :: "buffer_op list \<Rightarrow> buffer \<Rightarrow> bool" where
  "run_requires [] b = True"
| "run_requires (p # ps) b =
     (op_requires p b \<and> (case exec_op p b of Inl e \<Rightarrow> True | Inr b' \<Rightarrow> run_requires ps b'))"

lemma run_ok: "buffer_wf b \<Longrightarrow> run_requires ps b \<Longrightarrow> \<exists>b'. rfold exec_op ps b = Inr b' \<and> buffer_wf b'"
proof (induction ps arbitrary: b)
  case (Cons p ps)
  then obtain b1 where "exec_op p b = Inr b1" using exec_op_ok by fastforce
  then show ?case using Cons exec_op_wf [of b p b1] by simp
qed simp

text \<open>A buffer small enough to evaluate on: two unread bytes, five bytes of room.\<close>

definition demo_buffer :: buffer where
  "demo_buffer = \<lparr>buf = replicate 8 (CHR 0x00) @ ''ab'' @ replicate 5 (CHR 0x00),
     writerIndex = 10, readerIndex = 8\<rparr>"

lemma demo_buffer_inv [simp]: "buffer_inv demo_buffer"
  by (simp add: buffer_inv_def demo_buffer_def)

lemma demo_buffer_content [simp]: "content demo_buffer = ''ab''"
  by (simp add: content_eq demo_buffer_def)

lemma demo_buffer_sizes [simp]: "writableBytes demo_buffer = 5" "prependableBytes demo_buffer = 8"
  by (simp_all add: demo_buffer_def writableBytes_def prependableBytes_def)

subsection \<open>Properties\<close>

text \<open>\<open>append\<close> never fails an internal assertion, keeps the invariant and adds
  \<open>len\<close> readable bytes, but it stores them over the oldest unread bytes: what is read afterwards is
  the new string, then the old bytes past the first \<open>len\<close>, then stale bytes of the vector.\<close>

theorem append_overwrites_front:
  assumes "buffer_inv b" and "len \<le> length str"
  shows "\<exists>b' stale. append_bytes b str len = Inr b' \<and> buffer_inv b' \<and>
    length stale = min len (length (content b)) \<and>
    content b' = take len str @ drop len (content b) @ stale"
  using append_bytes_ok [OF assms] assms(1) by (simp add: length_content)

theorem append_overwrites_front_witness:
  "\<exists>b' stale. append_bytes demo_buffer ''c'' 1 = Inr b' \<and> length stale = 1 \<and> content b' = ''cb'' @ stale"
  using append_overwrites_front [of demo_buffer 1 "''c''"] by auto

text \<open>\<open>append\<close> is not a queue operation on a non-empty buffer: whenever the first
  byte appended differs from the oldest unread byte, the appended byte is read first and the unread
  bytes are no longer a prefix of the content.\<close>

theorem append_not_fifo:
  assumes "buffer_inv b" and "content b = c # cs" and "c \<noteq> d" and "0 < len" and "len \<le> length (d # ds)"
  shows "\<exists>b'. append_bytes b (d # ds) len = Inr b' \<and> hd (content b') = d \<and>
    content b' \<noteq> content b @ take len (d # ds)"
proof -
  obtain b' stale where "append_bytes b (d # ds) len = Inr b'"
    "content b' = take len (d # ds) @ drop len (content b) @ stale"
    using append_bytes_ok [OF assms(1,5)] by blast
  then show ?thesis using assms by (cases len) auto
qed

theorem append_not_fifo_witness:
  "\<exists>b'. append_bytes demo_buffer ''cd'' 2 = Inr b' \<and> content b' \<noteq> ''abcd''"
  using append_not_fifo [of demo_buffer "CHR ''a''" "''b''" "CHR ''c''" 2 "''d''"] by auto

text \<open>Making room never fails its assertion, keeps the unread bytes in order (whether it
  grows the vector or moves the bytes to the front) and leaves room for \<open>len\<close> more.\<close>

theorem ensureEnoughSpace_keeps_content:
  assumes "buffer_inv b"
  shows "\<exists>b'. ensureEnoughSpace b len = Inr b' \<and> buffer_inv b' \<and> content b' = content b \<and>
    len \<le> writableBytes b'"
  by (rule ensureEnoughSpace_ok [OF assms])

theorem ensureEnoughSpace_keeps_content_witness:
  "\<exists>b'. ensureEnoughSpace demo_buffer 6 = Inr b' \<and> content b' = ''ab'' \<and> 6 \<le> writableBytes b'"
  using ensureEnoughSpace_keeps_content [of demo_buffer 6] by auto

text \<open>What a read from a descriptor does to the buffer, on every branch: an error
  leaves it alone and reports the errno; bytes that fit are added behind the unread ones; bytes that
  overflow into the stack buffer are written over the front of the unread ones.\<close>

theorem readFd_spec:
  assumes inv: "buffer_inv b"
  shows "(case r of
      Readv_error x \<Rightarrow> readFd b r e = Inr (-1, x, b)
    | Readv_bytes bs \<Rightarrow> (\<exists>b'. readFd b r e = Inr (int (length bs), e, b') \<and> buffer_inv b' \<and>
        (let w = writableBytes b; k = length bs - w in
         if length bs \<le> w then content b' = content b @ bs
         else \<exists>stale. content b' = drop w bs @ drop k (content b @ take w bs) @ stale \<and>
                length stale = min k (length (content b) + w))))"
proof (cases r)
  case (Readv_bytes bs)
  show ?thesis
  proof (cases "length bs \<le> writableBytes b")
    case True
    then show ?thesis using readFd_within [OF inv True] by (auto simp: Readv_bytes Let_def)
  next
    case False
    then have "writableBytes b < length bs" by simp
    from readFd_beyond [OF inv this, of e] False show ?thesis
      unfolding Readv_bytes Let_def by (simp only: readv_result.case if_False) blast
  qed
qed (simp add: readFd_def)

theorem readFd_spec_witness:
  "\<exists>b'. readFd demo_buffer (Readv_bytes ''cd'') 0 = Inr (2, 0, b') \<and> content b' = ''abcd''"
  using readFd_spec [of demo_buffer "Readv_bytes ''cd''" 0]
  by auto

text \<open>A header put in front with \<open>prepend\<close> is what is read first, and
  retrieving it gives the original content back.\<close>

theorem prepend_retrive_roundtrip:
  assumes "buffer_inv b" and "length hdr \<le> prependableBytes b"
  shows "\<exists>b1 b2. prepend b hdr (length hdr) = Inr b1 \<and> content b1 = hdr @ content b \<and>
    retrive b1 (length hdr) = Inr b2 \<and> content b2 = content b"
proof -
  obtain b1 where b1: "prepend b hdr (length hdr) = Inr b1" "buffer_inv b1" "content b1 = hdr @ content b"
    using prepend_ok [OF assms, of hdr] by auto
  then show ?thesis using retrive_ok [OF b1(2), of "length hdr"] by auto
qed

theorem prepend_retrive_roundtrip_witness:
  "\<exists>b1 b2. prepend demo_buffer ''hh'' 2 = Inr b1 \<and> content b1 = ''hhab'' \<and>
    retrive b1 2 = Inr b2 \<and> content b2 = ''ab''"
  using prepend_retrive_roundtrip [of demo_buffer "''hh''"] by (simp add: numeral_2_eq_2)



end
