(* ===== verification/RN_TcpConnection.thy ===== *)
theory RN_TcpConnection
  imports RN_EventLoop RN_Buffer
begin

text \<open>
  RN/net/TcpConnection.h and TcpConnection.cpp, with the part of Socket.h and Socket.cpp it uses. A connection
  lives in its loop (RN_EventLoop): its channel is an object of the loop's poller, and what it hands to the loop goes
  through the loop's functor queue. The user's callbacks are functions on the connection's state (the argument \<open>cb\<close>);
  an empty \<open>std::function\<close> is None and calling it is the fault \<open>BadCall\<close>. The kernel's side of the socket is the list of
  its future answers to \<open>write\<close>, the bytes it has accepted (\<open>wire\<close>) and the points at which the write side was shut down.
\<close>

subsection \<open>State\<close>

datatype state_e = kConnecting | kConnected | kDisconnecting | kDisconnected

datatype conn_functor = SendInLoop string | ShutdownInLoop | WriteComplete | HighWaterMark nat | ConnectionDestroyed

datatype conn_callback = Conn_read | Conn_write | Conn_close | Conn_error

datatype write_answer = Wrote nat | Write_error int

record conn =
  c_loop :: "(conn_functor, conn_callback) evloop"
  c_name :: string
  c_state :: state_e
  c_fd :: int
  c_channel :: nat
  highWaterMark :: nat
  inputBuffer :: buffer
  outputBuffer :: buffer
  answers :: "write_answer list"
  wire :: string
  shut_at :: "nat list"

record conn_cbs =
  connectionCallback :: "(conn \<Rightarrow> conn result) option"
  messageCallback :: "(timestamp \<Rightarrow> conn \<Rightarrow> conn result) option"
  closeCallback_fn :: "(conn \<Rightarrow> conn result) option"
  writeCompleteCallback :: "(conn \<Rightarrow> conn result) option"
  highWaterMarkCallback :: "(nat \<Rightarrow> conn \<Rightarrow> conn result) option"

definition callback_fn :: "('s \<Rightarrow> 's result) option \<Rightarrow> 's \<Rightarrow> 's result" where
  "callback_fn f s = (case f of None \<Rightarrow> Inl BadCall | Some f \<Rightarrow> f s)"

subsection \<open>The loop and the kernel as the connection sees them\<close>

definition conn_ch :: "conn \<Rightarrow> conn_callback callback_of channel" where
  "conn_ch s = heap (el_poller (c_loop s)) (c_channel s)"

definition conn_update ::
  "(conn_callback callback_of channel \<Rightarrow> conn_callback callback_of channel) \<Rightarrow> int \<Rightarrow> conn \<Rightarrow> conn result" where
  "conn_update change tid s =
     rbind (loop_updateChannel change tid (c_channel s) (c_loop s)) (\<lambda>l. Inr (s\<lparr>c_loop := l\<rparr>))"

definition conn_assertInLoopThread :: "int \<Rightarrow> conn \<Rightarrow> conn result \<Rightarrow> conn result" where
  "conn_assertInLoopThread tid s k = (if isInLoopThread tid (c_loop s) then k else Inl Aborted)"

definition conn_runInLoop :: "int \<Rightarrow> conn_functor \<Rightarrow> (conn \<Rightarrow> conn result) \<Rightarrow> conn \<Rightarrow> conn result" where
  "conn_runInLoop tid f body s =
     (if isInLoopThread tid (c_loop s) then body s
      else Inr (s\<lparr>c_loop := queueInLoop tid (User_functor f) (c_loop s)\<rparr>))"

definition conn_queueInLoop :: "int \<Rightarrow> conn_functor \<Rightarrow> conn \<Rightarrow> conn" where
  "conn_queueInLoop tid f s = s\<lparr>c_loop := queueInLoop tid (User_functor f) (c_loop s)\<rparr>"

text \<open>\<open>write(2)\<close>: it accepts a prefix of the data or fails; with no answer left the socket would block.\<close>

definition sock_write :: "string \<Rightarrow> conn \<Rightarrow> int \<times> conn" where
  "sock_write dat s = (case answers s of
     [] \<Rightarrow> (-1, s)
   | Write_error e # as \<Rightarrow> (-1, s\<lparr>answers := as\<rparr>)
   | Wrote n # as \<Rightarrow> let k = min n (length dat)
       in (int k, s\<lparr>answers := as, wire := wire s @ take k dat\<rparr>))"

definition shutdownWrite :: "conn \<Rightarrow> conn" where
  "shutdownWrite s = s\<lparr>shut_at := shut_at s @ [length (wire s)]\<rparr>"

subsection \<open>Construction\<close>

definition conn_channel :: "nat \<Rightarrow> int \<Rightarrow> bool \<Rightarrow> conn_callback callback_of channel" where
  "conn_channel addr fd garbage =
     setErrorCallback (User_callback Conn_error)
    (setCloseCallback (User_callback Conn_close)
    (setWriteCallback (User_callback Conn_write)
    (setReadCallback (User_callback Conn_read) (Channel_new addr fd garbage))))"

definition TcpConnection_new ::
  "(conn_functor, conn_callback) evloop \<Rightarrow> string \<Rightarrow> int \<Rightarrow> nat \<Rightarrow> bool \<Rightarrow> write_answer list \<Rightarrow> conn" where
  "TcpConnection_new l nm fd c garbage as =
     \<lparr>c_loop = store_channel c (conn_channel (el_addr l) fd garbage) l, c_name = nm, c_state = kConnecting, c_fd = fd,
      c_channel = c, highWaterMark = 64 * 1024 * 1024, inputBuffer = Buffer_new, outputBuffer = Buffer_new,
      answers = as, wire = [], shut_at = []\<rparr>"

definition setState :: "state_e \<Rightarrow> conn \<Rightarrow> conn" where
  "setState st s = s\<lparr>c_state := st\<rparr>"

definition connected :: "conn \<Rightarrow> bool" where
  "connected s \<longleftrightarrow> c_state s = kConnected"

definition set_connectionCallback :: "(conn \<Rightarrow> conn result) option \<Rightarrow> conn_cbs \<Rightarrow> conn_cbs" where
  "set_connectionCallback f cb = cb\<lparr>connectionCallback := f\<rparr>"

definition set_messageCallback :: "(timestamp \<Rightarrow> conn \<Rightarrow> conn result) option \<Rightarrow> conn_cbs \<Rightarrow> conn_cbs" where
  "set_messageCallback f cb = cb\<lparr>messageCallback := f\<rparr>"

definition set_closeCallback :: "(conn \<Rightarrow> conn result) option \<Rightarrow> conn_cbs \<Rightarrow> conn_cbs" where
  "set_closeCallback f cb = cb\<lparr>closeCallback_fn := f\<rparr>"

definition set_highWaterMarkCallback :: "(nat \<Rightarrow> conn \<Rightarrow> conn result) option \<Rightarrow> conn_cbs \<Rightarrow> conn_cbs" where
  "set_highWaterMarkCallback f cb = cb\<lparr>highWaterMarkCallback := f\<rparr>"

definition set_writeCompleteCallback :: "(conn \<Rightarrow> conn result) option \<Rightarrow> conn_cbs \<Rightarrow> conn_cbs" where
  "set_writeCompleteCallback f cb = cb\<lparr>writeCompleteCallback := f\<rparr>"

subsection \<open>Sending\<close>

definition run_writeComplete :: "conn_cbs \<Rightarrow> int \<Rightarrow> conn \<Rightarrow> conn result" where
  "run_writeComplete cb tid s =
     (if writeCompleteCallback cb = None then Inr s
      else conn_runInLoop tid WriteComplete (callback_fn (writeCompleteCallback cb)) s)"

definition sendInLoop :: "conn_cbs \<Rightarrow> int \<Rightarrow> string \<Rightarrow> conn \<Rightarrow> conn result" where
  "sendInLoop cb tid message s =
     conn_assertInLoopThread tid s
     (rbind
       (if \<not> isWriting (conn_ch s) \<and> readableBytes (outputBuffer s) = 0 then
          (let (nwrote, s) = sock_write message s in
           if nwrote < 0 then Inr (0, s)
           else if nat nwrote < length message then Inr (nwrote, s)
           else rbind (run_writeComplete cb tid s) (\<lambda>s. Inr (nwrote, s)))
        else Inr (0, s))
       (\<lambda>(nwrote, s).
        rassert (0 \<le> nwrote)
        (let remaining = length message - nat nwrote in
         if 0 < remaining then
           (let alreadInBuffer = readableBytes (outputBuffer s);
                s = (if alreadInBuffer < highWaterMark s \<and> highWaterMark s \<le> alreadInBuffer + remaining
                     then conn_queueInLoop tid (HighWaterMark (alreadInBuffer + remaining)) s else s)
            in rbind (append_bytes (outputBuffer s) (drop (nat nwrote) message) (length message - nat nwrote)) (\<lambda>b.
               let s = s\<lparr>outputBuffer := b\<rparr>
               in if \<not> isWriting (conn_ch s) then conn_update enableWriting tid s else Inr s))
         else Inr s)))"

definition send :: "conn_cbs \<Rightarrow> int \<Rightarrow> string \<Rightarrow> conn \<Rightarrow> conn result" where
  "send cb tid message s =
     (if c_state s = kConnected then
        (if isInLoopThread tid (c_loop s) then sendInLoop cb tid message s
         else conn_runInLoop tid (SendInLoop message) (sendInLoop cb tid message) s)
      else Inr s)"

subsection \<open>Closing\<close>

definition shutdonwInLoop :: "int \<Rightarrow> conn \<Rightarrow> conn result" where
  "shutdonwInLoop tid s =
     conn_assertInLoopThread tid s (if \<not> isWriting (conn_ch s) then Inr (shutdownWrite s) else Inr s)"

definition shutdown :: "int \<Rightarrow> conn \<Rightarrow> conn result" where
  "shutdown tid s =
     (if c_state s = kConnected
      then conn_runInLoop tid ShutdownInLoop (shutdonwInLoop tid) (setState kDisconnecting s)
      else Inr s)"

text \<open>
  The assertion of \<open>handleClose\<close> is the assignment \<open>state_ = kConnected\<close>: its value is 1, so it passes, and in the
  Debug build the state changes; the Release build drops it.
\<close>

definition handleClose :: "build \<Rightarrow> conn_cbs \<Rightarrow> int \<Rightarrow> conn \<Rightarrow> conn result" where
  "handleClose bld cb tid s =
     conn_assertInLoopThread tid s
     (rbind (conn_update disableAll tid (case bld of Debug \<Rightarrow> s\<lparr>c_state := kConnected\<rparr> | Release \<Rightarrow> s)) (\<lambda>s.
      callback_fn (closeCallback_fn cb) s))"

text \<open>\<open>handleError\<close> reads and logs the socket's pending error.\<close>

definition handleError :: "conn \<Rightarrow> conn result" where
  "handleError s = Inr s"

subsection \<open>Handlers\<close>

definition conn_handleRead :: "build \<Rightarrow> conn_cbs \<Rightarrow> int \<Rightarrow> readv_result \<Rightarrow> timestamp \<Rightarrow> conn \<Rightarrow> conn result" where
  "conn_handleRead bld cb tid r receivedTime s =
     rbind (readFd (inputBuffer s) r 0) (\<lambda>(n, savedErrno, b).
     let s = s\<lparr>inputBuffer := b\<rparr> in
     if 0 < n then callback_fn (map_option (\<lambda>f. f receivedTime) (messageCallback cb)) s
     else if n = 0 then handleClose bld cb tid s
     else handleError s)"

definition conn_handleWrite :: "conn_cbs \<Rightarrow> int \<Rightarrow> conn \<Rightarrow> conn result" where
  "conn_handleWrite cb tid s =
     conn_assertInLoopThread tid s
     (if isWriting (conn_ch s) then
        (let (n, s) = sock_write (take (readableBytes (outputBuffer s)) (peek (outputBuffer s))) s in
         if 0 < n then
           rbind (retrive (outputBuffer s) (nat n)) (\<lambda>b.
           let s = s\<lparr>outputBuffer := b\<rparr> in
           if readableBytes (outputBuffer s) = 0 then
             rbind (conn_update disableWriting tid s) (\<lambda>s.
             rbind (run_writeComplete cb tid s) (\<lambda>s.
             if c_state s = kDisconnecting then shutdonwInLoop tid s else Inr s))
           else Inr s)
         else Inr s)
      else Inr s)"

definition connectionEstablished :: "build \<Rightarrow> conn_cbs \<Rightarrow> int \<Rightarrow> conn \<Rightarrow> conn result" where
  "connectionEstablished bld cb tid s =
     conn_assertInLoopThread tid s
     (rassert (bld = Debug \<longrightarrow> c_state s = kConnecting)
     (rbind (conn_update enableReading tid (setState kConnected s)) (\<lambda>s.
      callback_fn (connectionCallback cb) s)))"

definition connectionDestroyed :: "build \<Rightarrow> conn_cbs \<Rightarrow> int \<Rightarrow> conn \<Rightarrow> conn result" where
  "connectionDestroyed bld cb tid s =
     rassert (bld = Debug \<longrightarrow> c_state s = kConnected)
     (rbind (conn_update disableAll tid (setState kDisconnected s)) (\<lambda>s.
      rbind (callback_fn (connectionCallback cb) s) (\<lambda>s.
      rbind (loop_removeChannel tid (c_channel s) (c_loop s)) (\<lambda>l. Inr (s\<lparr>c_loop := l\<rparr>)))))"

text \<open>The functors the connection hands to its loop, and the dispatch of its channel's events.\<close>

definition run_conn_functor :: "build \<Rightarrow> conn_cbs \<Rightarrow> int \<Rightarrow> conn_functor \<Rightarrow> conn \<Rightarrow> conn result" where
  "run_conn_functor bld cb tid f s = (case f of
     SendInLoop m \<Rightarrow> sendInLoop cb tid m s
   | ShutdownInLoop \<Rightarrow> shutdonwInLoop tid s
   | WriteComplete \<Rightarrow> callback_fn (writeCompleteCallback cb) s
   | HighWaterMark n \<Rightarrow> callback_fn (map_option (\<lambda>g. g n) (highWaterMarkCallback cb)) s
   | ConnectionDestroyed \<Rightarrow> connectionDestroyed bld cb tid s)"

definition conn_event :: "build \<Rightarrow> conn_cbs \<Rightarrow> int \<Rightarrow> readv_result \<Rightarrow> conn_callback invocation \<Rightarrow> conn \<Rightarrow> conn result" where
  "conn_event bld cb tid r call s = (case call of
     Call_read c t \<Rightarrow> conn_handleRead bld cb tid r t s
   | Call_write c \<Rightarrow> conn_handleWrite cb tid s
   | Call_close c \<Rightarrow> handleClose bld cb tid s
   | Call_error c \<Rightarrow> handleError s)"

subsection \<open>Invariant\<close>

text \<open>
  The channel is registered with the loop's poller, and it asks for writability exactly while there is output
  the kernel has not taken.
\<close>

definition conn_wired :: "conn \<Rightarrow> bool" where
  "conn_wired s \<longleftrightarrow> poller_inv (el_poller (c_loop s)) \<and> threadId (el_poller (c_loop s)) = tq_thread (c_loop s) \<and>
     registered (el_poller (c_loop s)) (c_channel s) \<and> ownerLoop (conn_ch s) = el_addr (c_loop s)"

definition conn_inv :: "conn \<Rightarrow> bool" where
  "conn_inv s \<longleftrightarrow> conn_wired s \<and> buffer_inv (outputBuffer s) \<and>
     (isWriting (conn_ch s) \<longleftrightarrow> content (outputBuffer s) \<noteq> [])"

definition in_loop :: "int \<Rightarrow> conn \<Rightarrow> bool" where
  "in_loop tid s \<longleftrightarrow> tq_thread (c_loop s) = tid"

definition same_but_loop :: "conn \<Rightarrow> conn \<Rightarrow> bool" where
  "same_but_loop s t \<longleftrightarrow> (\<exists>p. t = s\<lparr>c_loop := (c_loop s)\<lparr>el_poller := p\<rparr>\<rparr>)"

lemma same_but_loopD:
  assumes "same_but_loop s t"
  shows "wire t = wire s" "outputBuffer t = outputBuffer s" "inputBuffer t = inputBuffer s" "c_state t = c_state s"
    "answers t = answers s" "shut_at t = shut_at s" "c_channel t = c_channel s" "highWaterMark t = highWaterMark s"
    "pendingFunctors (c_loop t) = pendingFunctors (c_loop s)" "in_loop tid t = in_loop tid s" "c_fd t = c_fd s"
    "tq_thread (c_loop t) = tq_thread (c_loop s)" "el_addr (c_loop t) = el_addr (c_loop s)"
    "callingPendingFunctors (c_loop t) = callingPendingFunctors (c_loop s)"
  using assms by (auto simp: same_but_loop_def in_loop_def)

lemma interest_change_owner: "interest_change f \<Longrightarrow> ownerLoop (f ch) = ownerLoop ch"
  by (auto simp: interest_change_def interest_defs)

lemma conn_update_ok:
  assumes "interest_change f" and "conn_wired s" and "in_loop tid s"
  shows "\<exists>t. conn_update f tid s = Inr t \<and> conn_wired t \<and> same_but_loop s t \<and> conn_ch t = f (conn_ch s)"
proof -
  let ?p = "el_poller (c_loop s)"
  have w: "poller_inv ?p" "threadId ?p = tid" "registered ?p (c_channel s)" "ownerLoop (heap ?p (c_channel s)) = el_addr (c_loop s)"
    "tq_thread (c_loop s) = tid"
    using assms(2,3) by (simp_all add: conn_wired_def conn_ch_def in_loop_def)
  obtain q where q: "channel_update f ?p tid (c_channel s) = Inr q" "poller_inv q" "channels q = channels ?p"
    "heap q = (heap ?p)(c_channel s := f (heap ?p (c_channel s)))" "threadId q = tid"
    using channel_update_registered [OF assms(1) w(1,3,2)] by blast
  let ?t = "s\<lparr>c_loop := (c_loop s)\<lparr>el_poller := q\<rparr>\<rparr>"
  have reg: "registered q (c_channel s)"
    using w(3) q(3,4) interest_change_frame [OF assms(1)] by (simp add: registered_def)
  have "conn_update f tid s = Inr ?t" using q(1) w(4) by (simp add: conn_update_def loop_updateChannel_def)
  moreover have "conn_ch ?t = f (conn_ch s)" using q(4) by (simp add: conn_ch_def)
  moreover have "ownerLoop (conn_ch ?t) = el_addr (c_loop s)"
    using q(4) w(4) interest_change_owner [OF assms(1)] by (simp add: conn_ch_def)
  moreover have "conn_wired ?t" using q reg w calculation(3) by (simp add: conn_wired_def)
  moreover have "same_but_loop s ?t" unfolding same_but_loop_def by blast
  ultimately show ?thesis by (intro exI [of _ ?t]) blast
qed

lemma interest_changes [simp]:
  "interest_change enableReading" "interest_change enableWriting" "interest_change disableWriting" "interest_change disableAll"
  by (simp_all add: interest_change_def)

lemma conn_ch_frame [simp]:
  "conn_ch (s\<lparr>outputBuffer := b\<rparr>) = conn_ch s" "conn_ch (s\<lparr>inputBuffer := b\<rparr>) = conn_ch s" "conn_ch (setState st s) = conn_ch s"
  "conn_ch (s\<lparr>answers := as\<rparr>) = conn_ch s" "conn_ch (s\<lparr>answers := as, wire := w\<rparr>) = conn_ch s" "conn_ch (shutdownWrite s) = conn_ch s"
  "conn_ch (s\<lparr>c_state := st\<rparr>) = conn_ch s"
  by (simp_all add: conn_ch_def setState_def shutdownWrite_def)

lemma conn_wired_frame [simp]:
  "conn_wired (s\<lparr>outputBuffer := b\<rparr>) = conn_wired s" "conn_wired (s\<lparr>inputBuffer := b\<rparr>) = conn_wired s"
  "conn_wired (setState st s) = conn_wired s" "conn_wired (s\<lparr>answers := as\<rparr>) = conn_wired s"
  "conn_wired (s\<lparr>answers := as, wire := w\<rparr>) = conn_wired s" "conn_wired (shutdownWrite s) = conn_wired s"
  "conn_wired (s\<lparr>c_state := st\<rparr>) = conn_wired s"
  by (simp_all add: conn_wired_def conn_ch_def setState_def shutdownWrite_def)

lemma queue_frame [simp]:
  "conn_ch (conn_queueInLoop tid f s) = conn_ch s" "conn_wired (conn_queueInLoop tid f s) = conn_wired s"
  "outputBuffer (conn_queueInLoop tid f s) = outputBuffer s" "wire (conn_queueInLoop tid f s) = wire s"
  "in_loop t (conn_queueInLoop tid f s) = in_loop t s" "c_state (conn_queueInLoop tid f s) = c_state s"
  "shut_at (conn_queueInLoop tid f s) = shut_at s" "answers (conn_queueInLoop tid f s) = answers s"
  "pendingFunctors (c_loop (conn_queueInLoop tid f s)) = pendingFunctors (c_loop s) @ [User_functor f]"
  "c_channel (conn_queueInLoop tid f s) = c_channel s" "highWaterMark (conn_queueInLoop tid f s) = highWaterMark s"
  by (simp_all add: conn_queueInLoop_def queueInLoop_def push_functor_def wakeup_def conn_ch_def conn_wired_def in_loop_def Let_def)

text \<open>What an interest change and a queued functor leave of the connection's socket: its channel, its descriptor, whether it reads,
  and the table of descriptors of the poller.\<close>

definition same_socket :: "conn \<Rightarrow> conn \<Rightarrow> bool" where
  "same_socket s t \<longleftrightarrow> c_channel t = c_channel s \<and> chfd (conn_ch t) = chfd (conn_ch s) \<and>
     events (conn_ch t) AND kReadEvent = events (conn_ch s) AND kReadEvent \<and>
     map_of (channels (el_poller (c_loop t))) = map_of (channels (el_poller (c_loop s)))"

lemma same_socket_refl [simp]: "same_socket s s"
  by (simp add: same_socket_def)

lemma same_socket_trans: "same_socket s t \<Longrightarrow> same_socket t u \<Longrightarrow> same_socket s u"
  by (simp add: same_socket_def)

lemma reads_simps:
  "events (enableWriting ch) AND kReadEvent = events ch AND kReadEvent"
  "events (disableWriting ch) AND kReadEvent = events ch AND kReadEvent"
proof -
  have "kWriteEvent AND kReadEvent = 0" by (simp add: event_flags)
  then have disjoint: "\<not> (bit kWriteEvent n \<and> bit kReadEvent n)" for n by (metis bit_and_iff bit_0_eq bot_apply bot_bool_def)
  show "events (enableWriting ch) AND kReadEvent = events ch AND kReadEvent"
    "events (disableWriting ch) AND kReadEvent = events ch AND kReadEvent"
    using disjoint by (auto simp: enableWriting_def disableWriting_def bit_eq_iff bit_simps)
qed

lemma conn_update_socket:
  assumes "f = enableWriting \<or> f = disableWriting" and "conn_wired s" and "in_loop tid s" and "conn_update f tid s = Inr t"
  shows "same_socket s t"
proof -
  let ?p = "el_poller (c_loop s)"
  have w: "poller_inv ?p" "threadId ?p = tid" "registered ?p (c_channel s)"
    using assms(2,3) by (simp_all add: conn_wired_def in_loop_def)
  have "interest_change f" using assms(1) by auto
  from channel_update_registered [OF this w(1,3,2)] obtain q where q: "channel_update f ?p tid (c_channel s) = Inr q"
    "channels q = channels ?p" "heap q = (heap ?p)(c_channel s := f (heap ?p (c_channel s)))" by blast
  have "t = s\<lparr>c_loop := (c_loop s)\<lparr>el_poller := q\<rparr>\<rparr>"
    using assms(4) q(1) by (auto simp: conn_update_def loop_updateChannel_def rbind_eq_Inr_iff rassert_eq_Inr_iff)
  then show ?thesis using q assms(1) by (auto simp: same_socket_def conn_ch_def reads_simps)
qed

lemma same_socket_frame [simp]:
  "same_socket s (conn_queueInLoop tid f t) = same_socket s t" "same_socket s (t\<lparr>outputBuffer := b\<rparr>) = same_socket s t"
  "same_socket s (setState st t) = same_socket s t" "same_socket s (shutdownWrite t) = same_socket s t"
  "same_socket s (t\<lparr>answers := as\<rparr>) = same_socket s t" "same_socket s (t\<lparr>answers := as, wire := w\<rparr>) = same_socket s t"
  "same_socket s (t\<lparr>answers := as, wire := w, outputBuffer := b\<rparr>) = same_socket s t"
  by (simp_all add: same_socket_def setState_def shutdownWrite_def conn_queueInLoop_def queueInLoop_def push_functor_def wakeup_def
    conn_ch_def Let_def)

text \<open>What \<open>write\<close> does, whatever the kernel answers.\<close>

lemma sock_write_cases:
  obtains (failed) t where "sock_write dat s = (-1, t)" "t = s \<or> (\<exists>as. t = s\<lparr>answers := as\<rparr>)"
    | (accepted) k as where "k \<le> length dat" "sock_write dat s = (int k, s\<lparr>answers := as, wire := wire s @ take k dat\<rparr>)"
proof (cases "answers s")
  case (Cons a as)
  then show thesis
  proof (cases a)
    case (Wrote n)
    then show thesis using Cons accepted [of "min n (length dat)" as] by (simp add: sock_write_def Let_def)
  qed (use Cons failed in \<open>auto simp: sock_write_def\<close>)
qed (use failed in \<open>auto simp: sock_write_def\<close>)

lemma sock_write_Wrote:
  "sock_write dat s = (n, t) \<Longrightarrow> answers s = Wrote k # as \<Longrightarrow> n = int (min k (length dat)) \<and> answers t = as"
  by (auto simp: sock_write_def Let_def)

subsection \<open>Sending, by cases\<close>

text \<open>The tail of \<open>sendInLoop\<close>: what the kernel did not take is stored and writability asked for.\<close>

definition crosses_mark :: "nat \<Rightarrow> conn \<Rightarrow> bool" where
  "crosses_mark k s \<longleftrightarrow> readableBytes (outputBuffer s) < highWaterMark s \<and>
     highWaterMark s \<le> readableBytes (outputBuffer s) + k"

definition notify_mark :: "int \<Rightarrow> nat \<Rightarrow> conn \<Rightarrow> conn" where
  "notify_mark tid k s =
     (if crosses_mark k s then conn_queueInLoop tid (HighWaterMark (readableBytes (outputBuffer s) + k)) s else s)"

definition store_rest :: "int \<Rightarrow> string \<Rightarrow> conn \<Rightarrow> conn result" where
  "store_rest tid rest s =
     (if rest = [] then Inr s
      else rbind (append_bytes (outputBuffer s) rest (length rest)) (\<lambda>b.
        let s = (notify_mark tid (length rest) s)\<lparr>outputBuffer := b\<rparr>
        in if \<not> isWriting (conn_ch s) then conn_update enableWriting tid s else Inr s))"

lemma store_rest_eq:
  "(let remaining = length message - n in
         if 0 < remaining then
           (let alreadInBuffer = readableBytes (outputBuffer s);
                s = (if alreadInBuffer < highWaterMark s \<and> highWaterMark s \<le> alreadInBuffer + remaining
                     then conn_queueInLoop tid (HighWaterMark (alreadInBuffer + remaining)) s else s)
            in rbind (append_bytes (outputBuffer s) (drop n message) (length message - n)) (\<lambda>b.
               let s = s\<lparr>outputBuffer := b\<rparr>
               in if \<not> isWriting (conn_ch s) then conn_update enableWriting tid s else Inr s))
         else Inr s) = store_rest tid (drop n message) s"
  by (simp add: store_rest_def notify_mark_def crosses_mark_def Let_def del: conn_ch_frame)

lemma sendInLoop_unfold:
  "in_loop tid s \<Longrightarrow> sendInLoop cb tid message s =
     rbind
       (if \<not> isWriting (conn_ch s) \<and> readableBytes (outputBuffer s) = 0 then
          (let (nwrote, s) = sock_write message s in
           if nwrote < 0 then Inr (0, s)
           else if nat nwrote < length message then Inr (nwrote, s)
           else rbind (run_writeComplete cb tid s) (\<lambda>s. Inr (nwrote, s)))
        else Inr (0, s))
       (\<lambda>(nwrote, s). rassert (0 \<le> nwrote) (store_rest tid (drop (nat nwrote) message) s))"
  unfolding sendInLoop_def store_rest_eq
  by (simp add: conn_assertInLoopThread_def in_loop_def isInLoopThread_def)

lemma notify_mark_frame [simp]:
  "conn_ch (notify_mark tid k s) = conn_ch s" "conn_wired (notify_mark tid k s) = conn_wired s"
  "outputBuffer (notify_mark tid k s) = outputBuffer s" "wire (notify_mark tid k s) = wire s"
  "in_loop t (notify_mark tid k s) = in_loop t s" "c_state (notify_mark tid k s) = c_state s"
  "shut_at (notify_mark tid k s) = shut_at s" "highWaterMark (notify_mark tid k s) = highWaterMark s"
  "tq_thread (c_loop (notify_mark tid k s)) = tq_thread (c_loop s)"
  "pendingFunctors (c_loop (notify_mark tid k s)) = pendingFunctors (c_loop s) @
     (if crosses_mark k s then [User_functor (HighWaterMark (readableBytes (outputBuffer s) + k))] else [])"
  by (simp_all add: notify_mark_def conn_queueInLoop_def queueInLoop_def Let_def push_functor_def wakeup_def)
     (simp_all add: conn_ch_def conn_wired_def in_loop_def)

lemma notify_mark_socket [simp]: "same_socket s0 (notify_mark tid k s) = same_socket s0 s"
  by (simp add: notify_mark_def)

text \<open>The fields of a connection that sending leaves alone.\<close>

definition same_ends :: "conn \<Rightarrow> conn \<Rightarrow> bool" where
  "same_ends s t \<longleftrightarrow> c_state t = c_state s \<and> shut_at t = shut_at s \<and> highWaterMark t = highWaterMark s \<and>
     tq_thread (c_loop t) = tq_thread (c_loop s) \<and> same_socket s t"

lemma same_ends_trans: "same_ends s t \<Longrightarrow> same_ends t u \<Longrightarrow> same_ends s u"
  by (auto simp: same_ends_def intro: same_socket_trans)

lemma store_rest_ok:
  assumes wired: "conn_wired s" and tid: "in_loop tid s" and inv: "buffer_inv (outputBuffer s)"
    and writing: "isWriting (conn_ch s) \<longleftrightarrow> content (outputBuffer s) \<noteq> []"
  shows "\<exists>t stale. store_rest tid rest s = Inr t \<and> conn_inv t \<and> in_loop tid t \<and> same_ends s t \<and> wire t = wire s \<and>
    content (outputBuffer t) = rest @ drop (length rest) (content (outputBuffer s)) @ stale \<and>
    length stale = min (length rest) (length (content (outputBuffer s))) \<and>
    pendingFunctors (c_loop t) = pendingFunctors (c_loop s) @
      (if rest \<noteq> [] \<and> crosses_mark (length rest) s
       then [User_functor (HighWaterMark (readableBytes (outputBuffer s) + length rest))] else [])"
proof (cases "rest = []")
  case True
  then show ?thesis using assms by (intro exI [of _ s]) (simp add: store_rest_def conn_inv_def same_ends_def)
next
  case False
  obtain b stale where b: "append_bytes (outputBuffer s) rest (length rest) = Inr b" "buffer_inv b"
    "length stale = min (length rest) (readableBytes (outputBuffer s))"
    "content b = rest @ drop (length rest) (content (outputBuffer s)) @ stale"
    using append_bytes_ok [OF inv, of "length rest" rest] by auto
  define s1 where "s1 = (notify_mark tid (length rest) s)\<lparr>outputBuffer := b\<rparr>"
  have s1: "conn_wired s1" "in_loop tid s1" "outputBuffer s1 = b" "conn_ch s1 = conn_ch s" "same_ends s s1" "wire s1 = wire s"
    "pendingFunctors (c_loop s1) = pendingFunctors (c_loop s) @
      (if crosses_mark (length rest) s then [User_functor (HighWaterMark (readableBytes (outputBuffer s) + length rest))] else [])"
    using wired tid by (simp_all add: s1_def same_ends_def) (simp_all add: in_loop_def)
  have nonempty: "content b \<noteq> []" using False b(4) by simp
  have stale: "length stale = min (length rest) (length (content (outputBuffer s)))"
    using b(3) length_content [OF inv] by simp
  show ?thesis
  proof (cases "isWriting (conn_ch s)")
    case True
    then have "store_rest tid rest s = Inr s1" using False b(1) s1(4) by (simp add: store_rest_def Let_def s1_def)
    moreover have "conn_inv s1" using s1 b nonempty True by (simp add: conn_inv_def)
    ultimately show ?thesis using s1 b(4) stale False by (intro exI [of _ s1] exI [of _ stale]) simp
  next
    case not_writing: False
    obtain t where t: "conn_update enableWriting tid s1 = Inr t" "conn_wired t" "same_but_loop s1 t"
      "conn_ch t = enableWriting (conn_ch s1)"
      using conn_update_ok [OF interest_changes(2) s1(1,2)] by blast
    note f = same_but_loopD [OF t(3)]
    have "store_rest tid rest s = Inr t"
      using False not_writing b(1) s1(4) t(1) by (simp add: store_rest_def Let_def s1_def)
    moreover have "conn_inv t" using t s1 b nonempty f by (simp add: conn_inv_def)
    moreover have "same_ends s t"
      using s1(5) f conn_update_socket [OF _ s1(1,2) t(1)] by (auto simp: same_ends_def intro: same_socket_trans)
    ultimately show ?thesis using s1 b(4) stale f False by (intro exI [of _ t] exI [of _ stale]) simp
  qed
qed

lemma store_rest_empty:
  assumes "conn_inv s" and "in_loop tid s" and "content (outputBuffer s) = []"
  shows "\<exists>t. store_rest tid rest s = Inr t \<and> conn_inv t \<and> in_loop tid t \<and> same_ends s t \<and> wire t = wire s \<and>
    content (outputBuffer t) = rest"
  using store_rest_ok [of s tid rest] assms by (auto simp: conn_inv_def)

text \<open>Storing is skipped by a full write; then the completion callback runs on the state \<open>t\<close>.\<close>

lemma sendInLoop_empty:
  assumes inv: "conn_inv s" and tid: "in_loop tid s" and empty: "content (outputBuffer s) = []"
  shows "\<exists>t. conn_inv t \<and> in_loop tid t \<and> same_ends s t \<and> wire t @ content (outputBuffer t) = wire s @ m \<and>
    (sendInLoop cb tid m s = Inr t \<or>
     sendInLoop cb tid m s = run_writeComplete cb tid t \<and> content (outputBuffer t) = [])"
proof -
  have b: "buffer_inv (outputBuffer s)" using inv by (simp add: conn_inv_def)
  have direct: "\<not> isWriting (conn_ch s)" "readableBytes (outputBuffer s) = 0"
    using inv empty content_empty_iff [OF b] by (simp_all add: conn_inv_def)
  show ?thesis
  proof (rule sock_write_cases [of m s])
    fix t assume w: "sock_write m s = (-1, t)" and t: "t = s \<or> (\<exists>as. t = s\<lparr>answers := as\<rparr>)"
    have t': "conn_inv t" "in_loop tid t" "content (outputBuffer t) = []" "same_ends s t" "wire t = wire s"
      using t inv tid empty by (auto simp: conn_inv_def in_loop_def same_ends_def)
    obtain u where u: "store_rest tid m t = Inr u" "conn_inv u" "in_loop tid u" "same_ends t u" "wire u = wire t"
      "content (outputBuffer u) = m"
      using store_rest_empty [OF t'(1-3)] by blast
    have "sendInLoop cb tid m s = Inr u"
      using u(1) direct w by (simp add: sendInLoop_unfold [OF tid])
    then show ?thesis using u t' same_ends_trans by (intro exI [of _ u]) simp
  next
    fix k as assume k: "k \<le> length m" and w: "sock_write m s = (int k, s\<lparr>answers := as, wire := wire s @ take k m\<rparr>)"
    define t where "t = s\<lparr>answers := as, wire := wire s @ take k m\<rparr>"
    have t': "conn_inv t" "in_loop tid t" "content (outputBuffer t) = []" "same_ends s t" "wire t = wire s @ take k m"
      using inv tid empty by (simp_all add: t_def conn_inv_def in_loop_def same_ends_def)
    show ?thesis
    proof (cases "k < length m")
      case True
      obtain u where u: "store_rest tid (drop k m) t = Inr u" "conn_inv u" "in_loop tid u" "same_ends t u" "wire u = wire t"
        "content (outputBuffer u) = drop k m"
        using store_rest_empty [OF t'(1-3)] by blast
      have "sendInLoop cb tid m s = Inr u"
        using u(1) direct w True by (simp add: sendInLoop_unfold [OF tid] t_def)
      then show ?thesis using u t' same_ends_trans by (intro exI [of _ u]) simp
    next
      case False
      have "store_rest tid [] = Inr" "rbind r Inr = r" for r :: "conn result"
        by (simp_all add: store_rest_def fun_eq_iff rbind_def split: sum.split)
      then have "sendInLoop cb tid m s = run_writeComplete cb tid t"
        using direct w [folded t_def] k False by (simp add: sendInLoop_unfold [OF tid] rbind_assoc)
      then show ?thesis using t' False k by (intro exI [of _ t]) simp
    qed
  qed
qed

lemma sendInLoop_pending:
  assumes inv: "conn_inv s" and tid: "in_loop tid s" and pend: "content (outputBuffer s) \<noteq> []"
  shows "sendInLoop cb tid m s = store_rest tid m s"
proof -
  have "isWriting (conn_ch s)" using inv pend by (simp add: conn_inv_def)
  then show ?thesis by (simp add: sendInLoop_unfold [OF tid])
qed

subsection \<open>Writing out, by cases\<close>

text \<open>A pass of \<open>handleWrite\<close>: an error or a partial write leaves the rest; a full one stops watching for
  writability, and hands over to the completion callback and the half-close on the state \<open>t\<close>.\<close>

definition drained :: "conn_cbs \<Rightarrow> int \<Rightarrow> conn \<Rightarrow> conn result" where
  "drained cb tid t = rbind (run_writeComplete cb tid t)
     (\<lambda>s. if c_state s = kDisconnecting then shutdonwInLoop tid s else Inr s)"

text \<open>What a write event on pending output leads to: the state \<open>t\<close> after the write, from which the end of the output goes on.\<close>

definition write_event :: "conn_cbs \<Rightarrow> int \<Rightarrow> conn \<Rightarrow> conn \<Rightarrow> bool" where
  "write_event cb tid s t \<longleftrightarrow> conn_inv t \<and> in_loop tid t \<and> same_ends s t \<and>
    wire t @ content (outputBuffer t) = wire s @ content (outputBuffer s) \<and>
    pendingFunctors (c_loop t) = pendingFunctors (c_loop s) \<and>
    (\<forall>k as. answers s = Wrote k # as \<longrightarrow> answers t = as \<and> content (outputBuffer t) = drop k (content (outputBuffer s))) \<and>
    (content (outputBuffer t) \<noteq> [] \<longrightarrow> c_loop t = c_loop s \<and> c_channel t = c_channel s) \<and>
    conn_handleWrite cb tid s = (if content (outputBuffer t) = [] then drained cb tid t else Inr t)"

lemma take_peek: "take (readableBytes b) (peek b) = content b"
  by (simp add: content_def)

text \<open>The write fails, takes nothing, or takes \<open>k\<close> bytes of the output.\<close>

lemma write_event_failed:
  assumes inv: "conn_inv s" and tid: "in_loop tid s" and pend: "content (outputBuffer s) \<noteq> []"
    and w: "sock_write (content (outputBuffer s)) s = (-1, t)" and t: "t = s \<or> (\<exists>as. t = s\<lparr>answers := as\<rparr>)"
  shows "write_event cb tid s t"
proof -
  have "conn_handleWrite cb tid s = Inr t"
    using tid inv pend w by (simp add: conn_handleWrite_def conn_assertInLoopThread_def take_peek in_loop_def isInLoopThread_def conn_inv_def)
  moreover have "\<forall>k as. answers s \<noteq> Wrote k # as" using sock_write_Wrote [OF w] by fastforce
  ultimately show ?thesis using t inv tid pend by (auto simp: write_event_def conn_inv_def in_loop_def same_ends_def)
qed

lemma write_event_nothing:
  assumes inv: "conn_inv s" and tid: "in_loop tid s" and pend: "content (outputBuffer s) \<noteq> []"
    and w: "sock_write (content (outputBuffer s)) s = (0, s\<lparr>answers := as, wire := wire s\<rparr>)"
  shows "write_event cb tid s (s\<lparr>answers := as, wire := wire s\<rparr>)" (is "write_event cb tid s ?t")
proof -
  have "conn_handleWrite cb tid s = Inr ?t"
    using tid inv pend w by (simp add: conn_handleWrite_def conn_assertInLoopThread_def take_peek in_loop_def isInLoopThread_def conn_inv_def)
  moreover have "\<forall>k as'. answers s = Wrote k # as' \<longrightarrow> as = as' \<and> drop k (content (outputBuffer s)) = content (outputBuffer s)"
    using sock_write_Wrote [OF w] pend by (auto simp: min_def split: if_splits)
  ultimately show ?thesis using inv tid pend by (simp add: write_event_def conn_inv_def in_loop_def same_ends_def)
qed

lemma write_event_taken:
  assumes inv: "conn_inv s" and tid: "in_loop tid s" and pend: "content (outputBuffer s) \<noteq> []"
    and k: "0 < k" "k \<le> length (content (outputBuffer s))"
    and w: "sock_write (content (outputBuffer s)) s = (int k, s\<lparr>answers := as, wire := wire s @ take k (content (outputBuffer s))\<rparr>)"
  shows "\<exists>t. write_event cb tid s t"
proof -
  have b: "buffer_inv (outputBuffer s)" and wired: "conn_wired s" and writing: "isWriting (conn_ch s)"
    using inv pend by (simp_all add: conn_inv_def)
  have loop: "isInLoopThread tid (c_loop s)" using tid by (simp add: in_loop_def isInLoopThread_def)
  have ans: "\<forall>k' as'. answers s = Wrote k' # as' \<longrightarrow> as = as' \<and> drop k (content (outputBuffer s)) = drop k' (content (outputBuffer s))"
    using sock_write_Wrote [OF w] by (auto simp: min_def split: if_splits)
  obtain b' where b': "retrive (outputBuffer s) k = Inr b'" "buffer_inv b'" "content b' = drop k (content (outputBuffer s))"
    using out_buffer.consume_view [OF b k(2)] by blast
  define u where "u = s\<lparr>answers := as, wire := wire s @ take k (content (outputBuffer s)), outputBuffer := b'\<rparr>"
  have u: "conn_wired u" "in_loop tid u" "same_ends s u" "conn_ch u = conn_ch s" "outputBuffer u = b'"
    "wire u @ content b' = wire s @ content (outputBuffer s)" "pendingFunctors (c_loop u) = pendingFunctors (c_loop s)"
    using wired tid b'(3) by (simp_all add: u_def same_ends_def in_loop_def)
  show ?thesis
  proof (cases "k = length (content (outputBuffer s))")
    case False
    then have rest: "content b' \<noteq> []" using b'(3) k by simp
    have "conn_inv u" using u rest b'(2) writing by (simp add: conn_inv_def)
    moreover have "conn_handleWrite cb tid s = Inr u"
      using loop writing w k(1) b'(1,2) rest content_empty_iff [OF b'(2)]
      by (simp add: conn_handleWrite_def conn_assertInLoopThread_def take_peek u_def)
    moreover have "answers u = as" "c_loop u = c_loop s" "c_channel u = c_channel s" by (simp_all add: u_def)
    ultimately have "write_event cb tid s u" using u rest ans b'(3) by (simp add: write_event_def)
    then show ?thesis ..
  next
    case True
    then have all: "content b' = []" using b'(3) by simp
    obtain t where t: "conn_update disableWriting tid u = Inr t" "conn_wired t" "same_but_loop u t"
      "conn_ch t = disableWriting (conn_ch u)"
      using conn_update_ok [OF interest_changes(3) u(1,2)] by blast
    note f = same_but_loopD [OF t(3)]
    have "conn_handleWrite cb tid s = drained cb tid t"
      using loop writing w k(1) b'(1,2) all content_empty_iff [OF b'(2)] t(1)
      by (simp add: conn_handleWrite_def conn_assertInLoopThread_def take_peek u_def drained_def)
    moreover have "conn_inv t" using t f u all b'(2) by (simp add: conn_inv_def)
    moreover have "same_ends s t"
      using u(3) f conn_update_socket [OF _ u(1,2) t(1)] by (auto simp: same_ends_def intro: same_socket_trans)
    moreover have "answers t = as" using f by (simp add: u_def)
    ultimately have "write_event cb tid s t" using u f all ans b'(3) by (simp add: write_event_def)
    then show ?thesis ..
  qed
qed

lemma handleWrite_cases:
  assumes "conn_inv s" and "in_loop tid s" and "content (outputBuffer s) \<noteq> []"
  shows "\<exists>t. conn_inv t \<and> in_loop tid t \<and> same_ends s t \<and>
    wire t @ content (outputBuffer t) = wire s @ content (outputBuffer s) \<and>
    pendingFunctors (c_loop t) = pendingFunctors (c_loop s) \<and>
    (\<forall>k as. answers s = Wrote k # as \<longrightarrow> answers t = as \<and> content (outputBuffer t) = drop k (content (outputBuffer s))) \<and>
    (content (outputBuffer t) \<noteq> [] \<longrightarrow> c_loop t = c_loop s \<and> c_channel t = c_channel s) \<and>
    conn_handleWrite cb tid s = (if content (outputBuffer t) = [] then drained cb tid t else Inr t)"
proof (rule sock_write_cases [of "content (outputBuffer s)" s])
  fix t assume "sock_write (content (outputBuffer s)) s = (-1, t)" "t = s \<or> (\<exists>as. t = s\<lparr>answers := as\<rparr>)"
  from write_event_failed [OF assms this] show ?thesis unfolding write_event_def ..
next
  fix k as assume w: "k \<le> length (content (outputBuffer s))"
    "sock_write (content (outputBuffer s)) s = (int k, s\<lparr>answers := as, wire := wire s @ take k (content (outputBuffer s))\<rparr>)"
  show ?thesis
  proof (cases "k = 0")
    case True
    then have "sock_write (content (outputBuffer s)) s = (0, s\<lparr>answers := as, wire := wire s\<rparr>)" using w(2) by simp
    from write_event_nothing [OF assms this] show ?thesis unfolding write_event_def ..
  next
    case False
    with write_event_taken [OF assms _ w] show ?thesis by (simp add: write_event_def)
  qed
qed

lemma handleWrite_idle:
  "conn_inv s \<Longrightarrow> in_loop tid s \<Longrightarrow> content (outputBuffer s) = [] \<Longrightarrow> conn_handleWrite cb tid s = Inr s"
  by (simp add: conn_handleWrite_def conn_assertInLoopThread_def conn_inv_def in_loop_def isInLoopThread_def)

lemma shutdonwInLoop_eq:
  "in_loop tid s \<Longrightarrow> conn_inv s \<Longrightarrow>
     shutdonwInLoop tid s = Inr (if content (outputBuffer s) = [] then shutdownWrite s else s)"
  by (simp add: shutdonwInLoop_def conn_assertInLoopThread_def in_loop_def isInLoopThread_def conn_inv_def)

lemma shutdown_eq:
  "in_loop tid s \<Longrightarrow> conn_inv s \<Longrightarrow> shutdown tid s =
     (if c_state s = kConnected
      then Inr (if content (outputBuffer s) = [] then shutdownWrite (setState kDisconnecting s) else setState kDisconnecting s)
      else Inr s)"
  by (simp add: shutdown_def conn_runInLoop_def shutdonwInLoop_def conn_assertInLoopThread_def in_loop_def isInLoopThread_def
    conn_inv_def setState_def)

subsection \<open>Runs of a connection in its loop\<close>

datatype conn_op = Send string | Writable | Shutdown

fun conn_exec :: "conn_cbs \<Rightarrow> int \<Rightarrow> conn_op \<Rightarrow> conn \<Rightarrow> conn result" where
  "conn_exec cb tid (Send m) s = send cb tid m s"
| "conn_exec cb tid Writable s = conn_handleWrite cb tid s"
| "conn_exec cb tid Shutdown s = shutdown tid s"

text \<open>Messages are sent one at a time: only when the output of the previous one is gone.\<close>

fun one_at_a_time :: "conn_cbs \<Rightarrow> int \<Rightarrow> conn_op list \<Rightarrow> conn \<Rightarrow> bool" where
  "one_at_a_time cb tid [] s = True"
| "one_at_a_time cb tid (p # ps) s =
     ((\<forall>m. p = Send m \<longrightarrow> content (outputBuffer s) = []) \<and>
      (case conn_exec cb tid p s of Inl e \<Rightarrow> True | Inr t \<Rightarrow> one_at_a_time cb tid ps t))"

text \<open>The messages that were sent while the connection was in the state \<open>kConnected\<close>.\<close>

fun sent_text :: "conn_cbs \<Rightarrow> int \<Rightarrow> conn_op list \<Rightarrow> conn \<Rightarrow> string" where
  "sent_text cb tid [] s = []"
| "sent_text cb tid (p # ps) s =
     (case p of Send m \<Rightarrow> (if c_state s = kConnected then m else []) | _ \<Rightarrow> []) @
     (case conn_exec cb tid p s of Inl e \<Rightarrow> [] | Inr t \<Rightarrow> sent_text cb tid ps t)"

text \<open>Once half-closed, the connection is not \<open>kConnected\<close>, nothing is waiting, and nothing has been written since.\<close>

definition half_close_inv :: "conn \<Rightarrow> bool" where
  "half_close_inv s \<longleftrightarrow> conn_inv s \<and> c_state s \<in> {kConnected, kDisconnecting} \<and>
     (c_state s = kConnected \<longrightarrow> shut_at s = []) \<and>
     (shut_at s \<noteq> [] \<longrightarrow> content (outputBuffer s) = [] \<and> shut_at s = [length (wire s)]) \<and>
     (c_state s = kDisconnecting \<and> content (outputBuffer s) = [] \<longrightarrow> shut_at s \<noteq> [])"

lemma shutdownWrite_inv [simp]:
  "conn_inv (shutdownWrite s) = conn_inv s" "conn_inv (setState st s) = conn_inv s" "in_loop tid (shutdownWrite s) = in_loop tid s"
  "in_loop tid (setState st s) = in_loop tid s" "wire (shutdownWrite s) = wire s" "outputBuffer (shutdownWrite s) = outputBuffer s"
  "wire (setState st s) = wire s" "outputBuffer (setState st s) = outputBuffer s" "c_state (shutdownWrite s) = c_state s"
  "c_state (setState st s) = st" "shut_at (setState st s) = shut_at s" "shut_at (shutdownWrite s) = shut_at s @ [length (wire s)]"
  by (simp_all add: conn_inv_def in_loop_def) (simp_all add: shutdownWrite_def setState_def)

lemma send_in_loop: "in_loop tid s \<Longrightarrow> send cb tid m s = (if c_state s = kConnected then sendInLoop cb tid m s else Inr s)"
  by (simp add: send_def in_loop_def isInLoopThread_def)

text \<open>User callbacks that may queue functors, schedule timers and take the input, but leave the poller, the state and the output alone.\<close>

definition keeps :: "conn \<Rightarrow> conn \<Rightarrow> bool" where
  "keeps s t \<longleftrightarrow> el_poller (c_loop t) = el_poller (c_loop s) \<and> tq_thread (c_loop t) = tq_thread (c_loop s) \<and>
     el_addr (c_loop t) = el_addr (c_loop s) \<and> c_channel t = c_channel s \<and> c_state t = c_state s \<and>
     outputBuffer t = outputBuffer s \<and> shut_at t = shut_at s \<and> wire t = wire s"

definition keeping :: "(conn \<Rightarrow> conn result) option \<Rightarrow> bool" where
  "keeping cb \<longleftrightarrow> (\<exists>f. cb = Some f \<and> (\<forall>s. \<exists>t. f s = Inr t \<and> keeps s t))"

text \<open>Completion callbacks that are unset or leave the connection alone altogether, and those that are unset or of the kind above.\<close>

definition quiet_complete :: "conn_cbs \<Rightarrow> bool" where
  "quiet_complete cb \<longleftrightarrow> (\<forall>f s. writeCompleteCallback cb = Some f \<longrightarrow> f s = Inr s)"

definition discreet_complete :: "conn_cbs \<Rightarrow> bool" where
  "discreet_complete cb \<longleftrightarrow> (\<forall>f s. writeCompleteCallback cb = Some f \<longrightarrow> (\<exists>t. f s = Inr t \<and> keeps s t))"

lemma keeps_refl [simp]: "keeps s s"
  by (simp add: keeps_def)

lemma quiet_discreet: "quiet_complete cb \<Longrightarrow> discreet_complete cb"
  by (auto simp: quiet_complete_def discreet_complete_def)

lemma keeps_inv:
  assumes "keeps s t"
  shows "conn_inv t = conn_inv s" "in_loop tid t = in_loop tid s" "half_close_inv t = half_close_inv s" "same_socket s t"
    "c_state t = c_state s" "outputBuffer t = outputBuffer s" "wire t = wire s" "shut_at t = shut_at s" "conn_wired t = conn_wired s"
proof -
  have "conn_ch t = conn_ch s" using assms by (simp add: keeps_def conn_ch_def)
  then show *: "conn_inv t = conn_inv s" "in_loop tid t = in_loop tid s" "same_socket s t" "conn_wired t = conn_wired s"
    using assms by (simp_all add: keeps_def conn_inv_def conn_wired_def in_loop_def same_socket_def)
  then show "half_close_inv t = half_close_inv s" using assms by (simp add: half_close_inv_def keeps_def)
qed (use assms in \<open>simp_all add: keeps_def\<close>)

lemma run_writeComplete_discreet:
  "discreet_complete cb \<Longrightarrow> in_loop tid s \<Longrightarrow> \<exists>t. run_writeComplete cb tid s = Inr t \<and> keeps s t"
  by (cases "writeCompleteCallback cb")
    (auto simp: run_writeComplete_def conn_runInLoop_def in_loop_def isInLoopThread_def callback_fn_def discreet_complete_def)

lemma drained_discreet:
  assumes "discreet_complete cb" and "in_loop tid s" and "conn_inv s" and "content (outputBuffer s) = []"
  shows "\<exists>t. keeps s t \<and> drained cb tid s = Inr (if c_state s = kDisconnecting then shutdownWrite t else t)"
proof -
  obtain t where t: "run_writeComplete cb tid s = Inr t" "keeps s t" using run_writeComplete_discreet [OF assms(1,2)] by blast
  then show ?thesis using assms keeps_inv [OF t(2)] by (intro exI [of _ t]) (simp add: drained_def shutdonwInLoop_eq)
qed

lemma run_writeComplete_quiet: "quiet_complete cb \<Longrightarrow> in_loop tid s \<Longrightarrow> run_writeComplete cb tid s = Inr s"
  by (auto simp: run_writeComplete_def conn_runInLoop_def in_loop_def isInLoopThread_def callback_fn_def quiet_complete_def)

lemma drained_quiet:
  "quiet_complete cb \<Longrightarrow> in_loop tid s \<Longrightarrow> conn_inv s \<Longrightarrow> content (outputBuffer s) = [] \<Longrightarrow>
     drained cb tid s = Inr (if c_state s = kDisconnecting then shutdownWrite s else s)"
  by (simp add: drained_def run_writeComplete_quiet shutdonwInLoop_eq)

definition new_text :: "conn_op \<Rightarrow> conn \<Rightarrow> string" where
  "new_text p s = (case p of Send m \<Rightarrow> (if c_state s = kConnected then m else []) | _ \<Rightarrow> [])"

definition exec_result :: "int \<Rightarrow> conn_op \<Rightarrow> conn \<Rightarrow> conn \<Rightarrow> bool" where
  "exec_result tid p s t \<longleftrightarrow> conn_inv t \<and> in_loop tid t \<and> (half_close_inv s \<longrightarrow> half_close_inv t) \<and> same_socket s t \<and>
     c_state t \<in> {c_state s, kDisconnecting} \<and>
     ((\<forall>m. p = Send m \<longrightarrow> content (outputBuffer s) = []) \<longrightarrow>
        wire t @ content (outputBuffer t) = wire s @ content (outputBuffer s) @ new_text p s)"

lemma exec_result_keeps:
  assumes "exec_result tid p s t" and "keeps t u"
  shows "exec_result tid p s u"
  using assms keeps_inv [OF assms(2)] same_socket_trans [of s t u] by (auto simp: exec_result_def)

lemma exec_send:
  assumes inv: "conn_inv s" and tid: "in_loop tid s" and quiet: "discreet_complete cb"
  shows "\<exists>t. conn_exec cb tid (Send m) s = Inr t \<and> exec_result tid (Send m) s t"
proof (cases "c_state s = kConnected")
  case True
  show ?thesis
  proof (cases "content (outputBuffer s) = []")
    case empty: True
    obtain t where t: "conn_inv t" "in_loop tid t" "same_ends s t" "wire t @ content (outputBuffer t) = wire s @ m"
      "sendInLoop cb tid m s = Inr t \<or> sendInLoop cb tid m s = run_writeComplete cb tid t \<and> content (outputBuffer t) = []"
      using sendInLoop_empty [OF inv tid empty] by blast
    have r: "exec_result tid (Send m) s t" using t(1-4) True empty
      by (simp add: exec_result_def new_text_def half_close_inv_def same_ends_def)
    obtain u where "sendInLoop cb tid m s = Inr u" "keeps t u"
      using t(5) run_writeComplete_discreet [OF quiet t(2)] keeps_refl by metis
    then show ?thesis using exec_result_keeps [OF r] True tid by (auto simp: send_in_loop)
  next
    case False
    obtain t where t: "store_rest tid m s = Inr t" "conn_inv t" "in_loop tid t" "same_ends s t" "wire t = wire s"
      using store_rest_ok [of s tid m] inv tid by (auto simp: conn_inv_def)
    then show ?thesis using False True sendInLoop_pending [OF inv tid False]
      by (intro exI [of _ t]) (simp add: send_in_loop [OF tid] exec_result_def half_close_inv_def same_ends_def)
  qed
next
  case False
  then show ?thesis using inv tid by (simp add: send_in_loop exec_result_def new_text_def)
qed

lemma exec_writable:
  assumes inv: "conn_inv s" and tid: "in_loop tid s" and quiet: "discreet_complete cb"
  shows "\<exists>t. conn_exec cb tid Writable s = Inr t \<and> exec_result tid Writable s t"
proof (cases "content (outputBuffer s) = []")
  case True
  then show ?thesis using handleWrite_idle [OF inv tid True] inv tid
    by (simp add: exec_result_def new_text_def)
next
  case False
  obtain t where t: "conn_inv t" "in_loop tid t" "same_ends s t" "wire t @ content (outputBuffer t) = wire s @ content (outputBuffer s)"
    "conn_handleWrite cb tid s = (if content (outputBuffer t) = [] then drained cb tid t else Inr t)"
    using handleWrite_cases [OF inv tid False] by blast
  show ?thesis
  proof (cases "content (outputBuffer t) = []")
    case True
    obtain u where u: "keeps t u" "drained cb tid t = Inr (if c_state t = kDisconnecting then shutdownWrite u else u)"
      using drained_discreet [OF quiet t(2,1) True] by blast
    let ?u = "if c_state t = kDisconnecting then shutdownWrite u else u"
    note k = keeps_inv [OF u(1)]
    have "half_close_inv s \<longrightarrow> half_close_inv ?u"
    proof
      assume h: "half_close_inv s"
      then have sh: "shut_at u = []" "c_state u = c_state s" using t(3) k(5,8) False by (auto simp: half_close_inv_def same_ends_def)
      show "half_close_inv ?u"
        using h t(1,3) sh k(1,5-7) True by (cases "c_state s") (simp_all add: half_close_inv_def same_ends_def)
    qed
    then have "exec_result tid Writable s ?u"
      using t(1-4) k(1,2,4-8) same_socket_trans [of s t u] by (simp add: exec_result_def new_text_def same_ends_def)
    then show ?thesis using u(2) t(5) True by auto
  next
    case pend: False
    have "half_close_inv s \<longrightarrow> half_close_inv t"
      using t(1,3) False pend by (auto simp: half_close_inv_def same_ends_def)
    then show ?thesis using t pend by (intro exI [of _ t]) (simp add: exec_result_def new_text_def same_ends_def)
  qed
qed

lemma exec_shutdown:
  assumes inv: "conn_inv s" and tid: "in_loop tid s"
  shows "\<exists>t. conn_exec cb tid Shutdown s = Inr t \<and> exec_result tid Shutdown s t"
proof -
  let ?t = "if c_state s = kConnected
      then (if content (outputBuffer s) = [] then shutdownWrite (setState kDisconnecting s) else setState kDisconnecting s)
      else s"
  have "conn_exec cb tid Shutdown s = Inr ?t" using shutdown_eq [OF tid inv] by auto
  then show ?thesis using inv tid
    by (intro exI [of _ ?t]) (auto simp: exec_result_def new_text_def half_close_inv_def)
qed

lemma conn_exec_ok:
  assumes "conn_inv s" and "in_loop tid s" and "discreet_complete cb"
  shows "\<exists>t. conn_exec cb tid p s = Inr t \<and> exec_result tid p s t"
  using assms exec_send exec_writable exec_shutdown by (cases p) blast+

lemma conn_runs:
  assumes "conn_inv s" and "in_loop tid s" and "discreet_complete cb"
  shows "\<exists>t. rfold (conn_exec cb tid) ps s = Inr t \<and> conn_inv t \<and> in_loop tid t \<and> (half_close_inv s \<longrightarrow> half_close_inv t) \<and>
    same_socket s t \<and>
    (one_at_a_time cb tid ps s \<longrightarrow>
      wire t @ content (outputBuffer t) = wire s @ content (outputBuffer s) @ sent_text cb tid ps s)"
  using assms(1,2)
proof (induction ps arbitrary: s)
  case (Cons p ps)
  obtain u where u: "conn_exec cb tid p s = Inr u" "exec_result tid p s u"
    using conn_exec_ok [OF Cons.prems assms(3)] by blast
  then obtain t where "rfold (conn_exec cb tid) ps u = Inr t" "conn_inv t" "in_loop tid t" "half_close_inv u \<longrightarrow> half_close_inv t"
    "same_socket u t" "one_at_a_time cb tid ps u \<longrightarrow>
      wire t @ content (outputBuffer t) = wire u @ content (outputBuffer u) @ sent_text cb tid ps u"
    using Cons.IH [of u] by (auto simp: exec_result_def)
  then show ?case using u by (auto simp: exec_result_def new_text_def intro: same_socket_trans)
qed simp

subsection \<open>The life of a connection\<close>

text \<open>A connection that has been constructed and not yet registered with its poller.\<close>

definition conn_fresh :: "conn \<Rightarrow> bool" where
  "conn_fresh s \<longleftrightarrow> poller_inv (el_poller (c_loop s)) \<and> threadId (el_poller (c_loop s)) = tq_thread (c_loop s) \<and>
     ownerLoop (conn_ch s) = el_addr (c_loop s) \<and> index (conn_ch s) < 0 \<and> 0 \<le> chfd (conn_ch s) \<and>
     map_of (channels (el_poller (c_loop s))) (chfd (conn_ch s)) = None \<and> events (conn_ch s) = 0 \<and>
     buffer_inv (outputBuffer s) \<and> content (outputBuffer s) = [] \<and> c_state s = kConnecting \<and> shut_at s = [] \<and> wire s = []"

lemma keepingE:
  assumes "keeping cb"
  obtains t where "callback_fn cb s = Inr t" "keeps s t" "conn_ch t = conn_ch s" "conn_wired t = conn_wired s"
    "in_loop tid t = in_loop tid s"
proof -
  obtain t where t: "callback_fn cb s = Inr t" "keeps s t" using assms by (fastforce simp: keeping_def callback_fn_def)
  moreover have "conn_ch t = conn_ch s" "conn_wired t = conn_wired s" "in_loop tid t = in_loop tid s"
    using t(2) by (simp_all add: keeps_def conn_ch_def conn_wired_def in_loop_def)
  ultimately show thesis using that by blast
qed

text \<open>Connection callbacks that may also send and shut down while the connection is up, and are of the kind above when it is down.\<close>

definition behaving :: "int \<Rightarrow> (conn \<Rightarrow> conn result) option \<Rightarrow> bool" where
  "behaving tid cb \<longleftrightarrow> (\<exists>f. cb = Some f \<and>
     (\<forall>s. conn_inv s \<and> in_loop tid s \<and> c_state s = kConnected \<longrightarrow>
        (\<exists>t. f s = Inr t \<and> conn_inv t \<and> in_loop tid t \<and> same_socket s t \<and> c_state t \<in> {kConnected, kDisconnecting})) \<and>
     (\<forall>s. c_state s = kDisconnected \<longrightarrow> (\<exists>t. f s = Inr t \<and> keeps s t)))"

lemma keeping_behaving:
  assumes "keeping cb"
  shows "behaving tid cb"
proof -
  obtain f where f: "cb = Some f" "\<forall>s. \<exists>t. f s = Inr t \<and> keeps s t" using assms by (auto simp: keeping_def)
  show ?thesis
    unfolding behaving_def
  proof (intro exI [of _ f] conjI allI impI)
    fix s assume s: "conn_inv s \<and> in_loop tid s \<and> c_state s = kConnected"
    obtain t where t: "f s = Inr t" "keeps s t" using f(2) by blast
    then show "\<exists>t. f s = Inr t \<and> conn_inv t \<and> in_loop tid t \<and> same_socket s t \<and> c_state t \<in> {kConnected, kDisconnecting}"
      using s keeps_inv [OF t(2)] by (intro exI [of _ t]) simp
  qed (use f in auto)
qed

lemma poller_inv_spare:
  "poller_inv p \<Longrightarrow> (\<And>fd. map_of (channels p) fd \<noteq> Some c) \<Longrightarrow> poller_inv (p\<lparr>heap := (heap p)(c := ch)\<rparr>)"
  by (auto simp: poller_inv_def slot_owned_def split: option.splits)

lemma TcpConnection_new_fresh:
  assumes "poller_inv (el_poller l)" and "threadId (el_poller l) = tq_thread l" and "0 \<le> fd"
    and "\<And>g. map_of (channels (el_poller l)) g \<noteq> Some c" and "map_of (channels (el_poller l)) fd = None"
  shows "conn_fresh (TcpConnection_new l nm fd c garbage as)" "in_loop (tq_thread l) (TcpConnection_new l nm fd c garbage as)"
  using poller_inv_spare [OF assms(1,4)] assms buffer_inv_new
  by (auto simp: conn_fresh_def TcpConnection_new_def store_channel_def conn_ch_def conn_channel_def setErrorCallback_def
    setCloseCallback_def setWriteCallback_def setReadCallback_def Channel_new_def in_loop_def)

text \<open>Establishing registers the channel for reading; what follows is the user's connection callback on the state \<open>u\<close>.\<close>

lemma connectionEstablished_calls:
  assumes fresh: "conn_fresh s" and tid: "in_loop tid s"
  shows "\<exists>u. connectionEstablished bld cb tid s = callback_fn (connectionCallback cb) u \<and> conn_inv u \<and> in_loop tid u \<and>
    c_state u = kConnected \<and> events (conn_ch u) = kReadEvent \<and> chfd (conn_ch u) = chfd (conn_ch s) \<and> outputBuffer u = outputBuffer s \<and>
    shut_at u = [] \<and> wire u = [] \<and> answers u = answers s \<and> c_channel u = c_channel s \<and>
    map_of (channels (el_poller (c_loop u))) = (map_of (channels (el_poller (c_loop s))))(chfd (conn_ch s) \<mapsto> c_channel s)"
proof -
  let ?p = "el_poller (c_loop s)" and ?c = "c_channel s"
  have f: "poller_inv ?p" "threadId ?p = tid" "tq_thread (c_loop s) = tid" "ownerLoop (heap ?p ?c) = el_addr (c_loop s)"
    "index (heap ?p ?c) < 0" "0 \<le> chfd (heap ?p ?c)" "map_of (channels ?p) (chfd (heap ?p ?c)) = None" "events (heap ?p ?c) = 0"
    using fresh tid by (simp_all add: conn_fresh_def conn_ch_def in_loop_def)
  obtain q where q: "channel_update enableReading ?p tid ?c = Inr q" "poller_inv q" "registered q ?c" "threadId q = tid"
    "map_of (channels q) = (map_of (channels ?p))(chfd (heap ?p ?c) \<mapsto> ?c)"
    "heap q = (heap ?p)(?c := set_index (int (length (pollfds ?p))) (enableReading (heap ?p ?c)))"
    using channel_update_fresh [OF interest_changes(1) f(1,2,5-7)] by blast
  define u where "u = (setState kConnected s)\<lparr>c_loop := (c_loop s)\<lparr>el_poller := q\<rparr>\<rparr>"
  have u: "conn_update enableReading tid (setState kConnected s) = Inr u"
    using q(1) f(4) by (simp add: conn_update_def loop_updateChannel_def u_def setState_def)
  have ch: "conn_ch u = set_index (int (length (pollfds ?p))) (enableReading (conn_ch s))"
    using q(6) by (simp add: u_def conn_ch_def setState_def)
  have "conn_wired u" using q f ch by (simp add: conn_wired_def u_def setState_def conn_ch_def set_index_def enableReading_def)
  moreover have "in_loop tid u" using f(3) by (simp add: in_loop_def u_def setState_def)
  moreover have "events (conn_ch u) = kReadEvent" "chfd (conn_ch u) = chfd (conn_ch s)" "\<not> isWriting (conn_ch u)"
    using fresh by (simp_all add: ch conn_fresh_def set_index_def enableReading_def isWriting_def event_flags)
  moreover have "connectionEstablished bld cb tid s = callback_fn (connectionCallback cb) u"
    using u fresh f(3) by (simp add: connectionEstablished_def conn_assertInLoopThread_def isInLoopThread_def conn_fresh_def)
  ultimately show ?thesis
    using fresh q(5) by (intro exI [of _ u]) (simp add: conn_inv_def u_def setState_def conn_fresh_def conn_ch_def)
qed

lemma connectionEstablished_ok:
  assumes fresh: "conn_fresh s" and tid: "in_loop tid s" and cb: "behaving tid (connectionCallback cb)"
  shows "\<exists>t. connectionEstablished bld cb tid s = Inr t \<and> conn_inv t \<and> in_loop tid t \<and> c_state t \<in> {kConnected, kDisconnecting} \<and>
    events (conn_ch t) AND kReadEvent = kReadEvent \<and> chfd (conn_ch t) = chfd (conn_ch s) \<and> c_channel t = c_channel s \<and>
    map_of (channels (el_poller (c_loop t))) = (map_of (channels (el_poller (c_loop s))))(chfd (conn_ch s) \<mapsto> c_channel s)"
proof -
  obtain u where u: "connectionEstablished bld cb tid s = callback_fn (connectionCallback cb) u" "conn_inv u" "in_loop tid u"
    "c_state u = kConnected" "events (conn_ch u) = kReadEvent" "chfd (conn_ch u) = chfd (conn_ch s)" "c_channel u = c_channel s"
    "map_of (channels (el_poller (c_loop u))) = (map_of (channels (el_poller (c_loop s))))(chfd (conn_ch s) \<mapsto> c_channel s)"
    using connectionEstablished_calls [OF fresh tid] by blast
  obtain t where "callback_fn (connectionCallback cb) u = Inr t" "conn_inv t" "in_loop tid t" "same_socket u t"
    "c_state t \<in> {kConnected, kDisconnecting}"
    using cb u(2-4) by (fastforce simp: behaving_def callback_fn_def)
  then show ?thesis using u by (intro exI [of _ t]) (simp add: same_socket_def)
qed

lemma handleClose_ok:
  assumes wired: "conn_wired s" and tid: "in_loop tid s" and cb: "keeping (closeCallback_fn cb)"
  shows "\<exists>t. handleClose bld cb tid s = Inr t \<and> conn_wired t \<and> in_loop tid t \<and> conn_ch t = disableAll (conn_ch s) \<and>
    c_state t = (if bld = Debug then kConnected else c_state s) \<and> shut_at t = shut_at s \<and> wire t = wire s \<and>
    outputBuffer t = outputBuffer s \<and> c_channel t = c_channel s \<and>
    map_of (channels (el_poller (c_loop t))) (chfd (conn_ch s)) = Some (c_channel s)"
proof -
  define s1 where "s1 = (case bld of Debug \<Rightarrow> s\<lparr>c_state := kConnected\<rparr> | Release \<Rightarrow> s)"
  have s1: "conn_wired s1" "in_loop tid s1" "conn_ch s1 = conn_ch s"
    "c_state s1 = (if bld = Debug then kConnected else c_state s)" "shut_at s1 = shut_at s" "wire s1 = wire s"
    "outputBuffer s1 = outputBuffer s" "c_channel s1 = c_channel s"
    using wired tid by (cases bld; simp add: s1_def in_loop_def)+
  obtain u where u: "conn_update disableAll tid s1 = Inr u" "conn_wired u" "same_but_loop s1 u" "conn_ch u = disableAll (conn_ch s1)"
    using conn_update_ok [OF interest_changes(4) s1(1,2)] by blast
  note f = same_but_loopD [OF u(3)]
  obtain t where t: "callback_fn (closeCallback_fn cb) u = Inr t" "keeps u t" "conn_ch t = conn_ch u"
    "conn_wired t = conn_wired u" "in_loop tid t = in_loop tid u"
    using keepingE [OF cb] by blast
  have "handleClose bld cb tid s = Inr t"
    using u(1) t(1) tid by (simp add: handleClose_def conn_assertInLoopThread_def in_loop_def isInLoopThread_def s1_def)
  moreover have "map_of (channels (el_poller (c_loop t))) (chfd (conn_ch s)) = Some (c_channel s)"
  proof -
    have "registered (el_poller (c_loop t)) (c_channel t)" "chfd (conn_ch t) = chfd (conn_ch s)" "c_channel t = c_channel s"
      using t u s1 f by (simp_all add: conn_wired_def keeps_def disableAll_def)
    then show ?thesis by (simp add: registered_def conn_ch_def)
  qed
  ultimately show ?thesis using t u s1 f by (intro exI [of _ t]) (simp add: keeps_def)
qed

lemma connectionDestroyed_ok:
  assumes wired: "conn_wired s" and tid: "in_loop tid s" and cb: "behaving tid (connectionCallback cb)"
    and st: "bld = Debug \<longrightarrow> c_state s = kConnected"
  shows "\<exists>t. connectionDestroyed bld cb tid s = Inr t \<and> c_state t = kDisconnected \<and> poller_inv (el_poller (c_loop t)) \<and>
    map_of (channels (el_poller (c_loop t))) (chfd (conn_ch s)) = None \<and> isNoneEvent (conn_ch t)"
proof -
  have "conn_wired (setState kDisconnected s)" "in_loop tid (setState kDisconnected s)" using wired tid by simp_all
  from conn_update_ok [OF interest_changes(4) this] obtain u where u: "conn_update disableAll tid (setState kDisconnected s) = Inr u"
    "conn_wired u" "same_but_loop (setState kDisconnected s) u" "conn_ch u = disableAll (conn_ch s)" by auto
  note f = same_but_loopD [OF u(3)]
  have "c_state u = kDisconnected" using f(4) by simp
  then obtain t where kt: "callback_fn (connectionCallback cb) u = Inr t" "keeps u t"
    using cb by (fastforce simp: behaving_def callback_fn_def)
  then have t: "callback_fn (connectionCallback cb) u = Inr t" "keeps u t" "conn_ch t = conn_ch u"
    "conn_wired t = conn_wired u" "in_loop tid t = in_loop tid u"
    using keeps_inv [OF kt(2)] by (simp_all add: keeps_def conn_ch_def)
  let ?p = "el_poller (c_loop t)" and ?c = "c_channel t"
  have w: "poller_inv ?p" "registered ?p ?c" "threadId ?p = tid" "ownerLoop (heap ?p ?c) = el_addr (c_loop t)"
    using t(4,5) u(2) f(10) [of tid] tid by (simp_all add: conn_wired_def conn_ch_def) (simp_all add: in_loop_def)
  have ch: "heap ?p ?c = disableAll (conn_ch s)" using t(3) u(4) by (simp add: conn_ch_def)
  then have none: "isNoneEvent (heap ?p ?c)" by (simp add: isNoneEvent_def disableAll_def)
  obtain q where q: "removeChannel ?p tid ?c = Inr q" "poller_inv q"
    "map_of (channels q) = (map_of (channels ?p))(chfd (heap ?p ?c) := None)" "events (heap q ?c) = events (heap ?p ?c)"
    using removeChannel_ok [OF w(1,2,3) none] by blast
  have "c_state t = kDisconnected" using t(2) f(4) by (simp add: keeps_def)
  moreover have "connectionDestroyed bld cb tid s = Inr (t\<lparr>c_loop := (c_loop t)\<lparr>el_poller := q\<rparr>\<rparr>)"
    using st u(1) t(1) q(1) w(4) by (simp add: connectionDestroyed_def loop_removeChannel_def)
  ultimately show ?thesis using q none ch
    by (intro exI [of _ "t\<lparr>c_loop := (c_loop t)\<lparr>el_poller := q\<rparr>\<rparr>"]) (simp add: conn_ch_def isNoneEvent_def disableAll_def)
qed

subsection \<open>A connection to evaluate on\<close>

text \<open>Descriptor 9, channel at address 5 of the loop at address 100 of thread 1, with the given unsent output.\<close>

definition demo_cloop :: "(conn_functor, conn_callback) evloop" where
  "demo_cloop = EventLoop_members 1 100 (\<lambda>a. Channel_new 100 0 False) (\<lambda>a. Timer_new WriteComplete 0 0)"

definition demo_conn :: "string \<Rightarrow> nat \<Rightarrow> write_answer list \<Rightarrow> conn" where
  "demo_conn out mark as =
     (TcpConnection_new demo_cloop ''c'' 9 5 False as)
       \<lparr>c_loop := demo_cloop\<lparr>el_poller :=
          \<lparr>threadId = 1, pollfds = [\<lparr>pfd_fd = 9, pfd_events = (if out = [] then 3 else 7), pfd_revents = 0\<rparr>], channels = [(9, 5)],
           heap = (\<lambda>a. (conn_channel 100 9 False)\<lparr>events := (if out = [] then 3 else 7), index := 0\<rparr>)\<rparr>\<rparr>,
        c_state := kConnected, highWaterMark := mark,
        outputBuffer := \<lparr>buf = replicate 8 (CHR 0x00) @ out @ replicate 16 (CHR 0x00), writerIndex = 8 + length out, readerIndex = 8\<rparr>\<rparr>"

lemma demo_cloop_simps [simp]:
  "tq_thread demo_cloop = 1" "el_addr demo_cloop = 100" "pendingFunctors demo_cloop = []" "callingPendingFunctors demo_cloop = False"
  "channels (el_poller demo_cloop) = []" "threadId (el_poller demo_cloop) = 1" "poller_inv (el_poller demo_cloop)"
  using poller_inv_new
  by (simp_all add: demo_cloop_def EventLoop_members_def tqueue.extend_def evloop.fields_def TimerQueue_new_def Poller_new_def)

lemma demo_conn_content [simp]: "content (outputBuffer (demo_conn out mark as)) = out"
  by (simp add: demo_conn_def content_eq)

lemma demo_conn_buffer [simp]:
  "buffer_inv (outputBuffer (demo_conn out mark as))" "readableBytes (outputBuffer (demo_conn out mark as)) = length out"
  by (simp_all add: demo_conn_def buffer_inv_def readableBytes_def)

lemma demo_conn_simps [simp]:
  "in_loop 1 (demo_conn out mark as)" "c_state (demo_conn out mark as) = kConnected" "wire (demo_conn out mark as) = []"
  "shut_at (demo_conn out mark as) = []" "highWaterMark (demo_conn out mark as) = mark" "answers (demo_conn out mark as) = as"
  "pendingFunctors (c_loop (demo_conn out mark as)) = []"
  by (simp_all add: demo_conn_def in_loop_def TcpConnection_new_def)

lemma demo_conn_inv [simp]: "conn_inv (demo_conn out mark as)" "half_close_inv (demo_conn out mark as)"
proof -
  let ?s = "demo_conn out mark as"
  have "isWriting (conn_ch ?s) \<longleftrightarrow> out \<noteq> []"
    by (simp add: demo_conn_def conn_ch_def TcpConnection_new_def isWriting_def kWriteEvent_def POLLOUT_def)
  moreover have "conn_wired ?s"
    by (simp add: demo_conn_def conn_wired_def conn_ch_def TcpConnection_new_def poller_inv_def slot_fd_def slot_owned_def
      registered_def conn_channel_def setErrorCallback_def setCloseCallback_def setWriteCallback_def setReadCallback_def Channel_new_def)
  ultimately show "conn_inv ?s" by (simp add: conn_inv_def)
  then show "half_close_inv ?s" by (simp add: half_close_inv_def)
qed

definition demo_cbs :: conn_cbs where
  "demo_cbs = \<lparr>connectionCallback = Some Inr, messageCallback = None, closeCallback_fn = Some Inr,
     writeCompleteCallback = None, highWaterMarkCallback = None\<rparr>"

lemma demo_cbs_simps [simp]:
  "quiet_complete demo_cbs" "discreet_complete demo_cbs" "behaving tid (connectionCallback demo_cbs)" "keeping (closeCallback_fn demo_cbs)"
  "highWaterMarkCallback demo_cbs = None"
  using keeping_behaving [of "Some Inr" tid]
  by (simp_all add: demo_cbs_def quiet_complete_def discreet_complete_def keeping_def keeps_def)

subsection \<open>Properties\<close>

text \<open>C3: messages sent one at a time are delivered in order. For a connection in a well-formed state, in its loop, whose completion callback is unset or
  leaves the poller, the state and the output of the connection alone (so not one that sends again, as testCharGen.cpp's does): for every sequence
  of sends (each when the output of the one before is gone), writability events and shutdowns, and whatever the kernel accepts of each
  \<open>write\<close> (all, part, nothing, an error), no operation faults, and what the kernel has taken followed by what is still buffered is
  exactly the text sent while the connection was up.\<close>

theorem messages_delivered_in_order:
  assumes "conn_inv s" and "in_loop tid s" and "discreet_complete cb" and "one_at_a_time cb tid ps s"
  shows "\<exists>t. rfold (conn_exec cb tid) ps s = Inr t \<and>
    wire t @ content (outputBuffer t) = wire s @ content (outputBuffer s) @ sent_text cb tid ps s"
  using conn_runs [OF assms(1-3), of ps] assms(4) by blast

theorem messages_delivered_in_order_witness:
  "\<exists>t. rfold (conn_exec demo_cbs 1) [Send ''abc'', Writable, Writable, Shutdown] (demo_conn [] 100 [Wrote 1, Write_error 11, Wrote 9]) = Inr t \<and>
     wire t @ content (outputBuffer t) = ''abc''"
proof -
  let ?s = "demo_conn [] 100 [Wrote 1, Write_error 11, Wrote 9]"
  have o: "one_at_a_time demo_cbs 1 [Send ''abc'', Writable, Writable, Shutdown] ?s"
    by (simp split: sum.split)
  have "sent_text cb 1 [Writable, Writable, Shutdown] u = []" for cb u
    by (auto split: sum.split)
  then have "sent_text demo_cbs 1 [Send ''abc'', Writable, Writable, Shutdown] ?s = ''abc''"
    using conn_exec_ok [of ?s 1 demo_cbs "Send ''abc''"] by (fastforce split: sum.split)
  with messages_delivered_in_order [OF demo_conn_inv(1) _ _ o] show ?thesis by simp
qed

text \<open>A second message sent while output is pending destroys it: nothing is written, and the new message takes the place
  of the oldest unsent bytes; what is left to send is the new message, the old output past its length, and stale bytes.\<close>

theorem send_while_pending_overwrites:
  assumes "conn_inv s" and "in_loop tid s" and "c_state s = kConnected" and "content (outputBuffer s) \<noteq> []"
  shows "\<exists>t stale. send cb tid m s = Inr t \<and> conn_inv t \<and> wire t = wire s \<and> length stale = min (length m) (length (content (outputBuffer s))) \<and>
    content (outputBuffer t) = m @ drop (length m) (content (outputBuffer s)) @ stale"
proof -
  have "send cb tid m s = store_rest tid m s"
    using assms(3) sendInLoop_pending [OF assms(1,2,4)] by (simp add: send_in_loop [OF assms(2)])
  then show ?thesis using store_rest_ok [of s tid m] assms(1,2) by (auto simp: conn_inv_def)
qed

theorem send_while_pending_overwrites_witness:
  "\<exists>t stale. send demo_cbs 1 ''XY'' (demo_conn ''abc'' 100 []) = Inr t \<and> length stale = 2 \<and>
     content (outputBuffer t) = ''XYc'' @ stale"
  using send_while_pending_overwrites [of "demo_conn ''abc'' 100 []" 1 demo_cbs "''XY''"] by auto

text \<open>C8: the half-close is graceful. For a connection in its loop whose completion callback is unset or leaves the poller, the state and the output of
  the connection alone: for any sequence of sends, writability events and shutdowns, from a state where it holds (as a new connection's), no
  operation faults, the write side is shut down at most once, only after all output has been taken by the kernel, and nothing is written after
  it; and once a shutdown was asked for and no output is pending, it has happened.\<close>

theorem half_close_after_output:
  assumes "half_close_inv s" and "in_loop tid s" and "discreet_complete cb"
  shows "\<exists>t. rfold (conn_exec cb tid) ps s = Inr t \<and>
    (shut_at t = [] \<or> shut_at t = [length (wire t)] \<and> content (outputBuffer t) = [] \<and> c_state t = kDisconnecting) \<and>
    (c_state t = kDisconnecting \<and> content (outputBuffer t) = [] \<longrightarrow> shut_at t = [length (wire t)])"
proof -
  have "conn_inv s" using assms(1) by (simp add: half_close_inv_def)
  then obtain t where "rfold (conn_exec cb tid) ps s = Inr t" "half_close_inv t"
    using conn_runs [OF _ assms(2,3)] assms(1) by blast
  then show ?thesis by (auto simp: half_close_inv_def)
qed

theorem half_close_after_output_witness:
  "\<exists>t. rfold (conn_exec demo_cbs 1) [Send ''abc'', Shutdown, Writable, Send ''d''] (demo_conn [] 100 [Wrote 1, Wrote 9]) = Inr t \<and>
     (c_state t = kDisconnecting \<and> content (outputBuffer t) = [] \<longrightarrow> shut_at t = [length (wire t)])"
  using half_close_after_output [OF demo_conn_inv(2) [where out = "[]" and mark = 100 and as = "[Wrote 1, Wrote 9]"]
      demo_conn_simps(1) demo_cbs_simps(2), of "[Send ''abc'', Shutdown, Writable, Send ''d'']"] by blast

text \<open>The high-water mark: a send on a connection with pending output queues the notification exactly when the pending output crosses the mark
  upwards, with the new size; and since it is bound without a test, running it when no callback was set calls an empty function.\<close>

theorem high_water_mark_crossing:
  assumes "conn_inv s" and "in_loop tid s" and "c_state s = kConnected" and "content (outputBuffer s) \<noteq> []" and "m \<noteq> []"
  defines "k \<equiv> length (content (outputBuffer s))"
  shows "\<exists>t. send cb tid m s = Inr t \<and> length (content (outputBuffer t)) = k + length m \<and>
    pendingFunctors (c_loop t) = pendingFunctors (c_loop s) @
      (if k < highWaterMark s \<and> highWaterMark s \<le> k + length m then [User_functor (HighWaterMark (k + length m))] else []) \<and>
    (highWaterMarkCallback cb = None \<longrightarrow> run_conn_functor bld cb tid (HighWaterMark (k + length m)) t = Inl BadCall)"
proof -
  have b: "buffer_inv (outputBuffer s)" using assms(1) by (simp add: conn_inv_def)
  have r: "readableBytes (outputBuffer s) = k" using length_content [OF b] by (simp add: k_def)
  have "send cb tid m s = store_rest tid m s"
    using assms(3) sendInLoop_pending [OF assms(1,2,4)] by (simp add: send_in_loop [OF assms(2)])
  moreover obtain t stale where "store_rest tid m s = Inr t" "length stale = min (length m) k"
    "content (outputBuffer t) = m @ drop (length m) (content (outputBuffer s)) @ stale"
    "pendingFunctors (c_loop t) = pendingFunctors (c_loop s) @
      (if m \<noteq> [] \<and> crosses_mark (length m) s then [User_functor (HighWaterMark (readableBytes (outputBuffer s) + length m))] else [])"
    using store_rest_ok [of s tid m] assms(1,2) by (auto simp: conn_inv_def k_def)
  ultimately show ?thesis using assms(5) r
    by (intro exI [of _ t]) (auto simp: crosses_mark_def run_conn_functor_def callback_fn_def k_def)
qed

theorem high_water_mark_crossing_witness:
  "\<exists>t. send demo_cbs 1 ''XY'' (demo_conn ''abc'' 4 []) = Inr t \<and> pendingFunctors (c_loop t) = [User_functor (HighWaterMark 5)] \<and>
     run_conn_functor Debug demo_cbs 1 (HighWaterMark 5) t = Inl BadCall"
  using high_water_mark_crossing [of "demo_conn ''abc'' 4 []" 1 "''XY''" demo_cbs Debug] by (auto simp: eval_nat_numeral)

text \<open>C6: the life of a connection, in either build. Its connection callback may queue functors, take the input, send and shut down, as long as it returns and leaves
  the connection well-formed, and does none of the last two when the connection is down (as testConnection.cpp's); its close callback and its
  completion callback, if set, leave the poller, the state and the output alone. Then a connection constructed on a well-formed loop for an unused
  descriptor is established (registered for reading); after any sequence of sends, writability events and shutdowns it can be closed by its peer
  and is then destroyed without a fault, its descriptor gone from the poller. In the Debug build the close leaves the state
  \<open>kConnected\<close>, also when the connection was shut down locally.\<close>

theorem connection_life:
  assumes "poller_inv (el_poller l)" and "threadId (el_poller l) = tq_thread l" and "0 \<le> fd"
    and "\<And>g. map_of (channels (el_poller l)) g \<noteq> Some c" and "map_of (channels (el_poller l)) fd = None"
    and "behaving (tq_thread l) (connectionCallback cb)" and "keeping (closeCallback_fn cb)" and "discreet_complete cb"
  shows "\<exists>s1. connectionEstablished bld cb (tq_thread l) (TcpConnection_new l nm fd c garbage as) = Inr s1 \<and>
    c_state s1 \<in> {kConnected, kDisconnecting} \<and> conn_inv s1 \<and> events (conn_ch s1) AND kReadEvent = kReadEvent \<and>
    map_of (channels (el_poller (c_loop s1))) fd = Some c \<and>
    (\<forall>ps. \<exists>s2 s3 s4. rfold (conn_exec cb (tq_thread l)) ps s1 = Inr s2 \<and>
      handleClose bld cb (tq_thread l) s2 = Inr s3 \<and> isNoneEvent (conn_ch s3) \<and>
      c_state s3 = (if bld = Debug then kConnected else c_state s2) \<and> wire s3 = wire s2 \<and>
      connectionDestroyed bld cb (tq_thread l) s3 = Inr s4 \<and> c_state s4 = kDisconnected \<and>
      map_of (channels (el_poller (c_loop s4))) fd = None)"
proof -
  define s0 where "s0 = TcpConnection_new l nm fd c garbage as"
  have s0: "conn_fresh s0" "in_loop (tq_thread l) s0" "chfd (conn_ch s0) = fd" "c_channel s0 = c"
    using TcpConnection_new_fresh [OF assms(1-5)] by (simp_all add: s0_def)
      (simp_all add: TcpConnection_new_def store_channel_def conn_ch_def conn_channel_def setErrorCallback_def
        setCloseCallback_def setWriteCallback_def setReadCallback_def Channel_new_def)
  obtain s1 where s1: "connectionEstablished bld cb (tq_thread l) s0 = Inr s1" "conn_inv s1" "in_loop (tq_thread l) s1"
    "c_state s1 \<in> {kConnected, kDisconnecting}" "events (conn_ch s1) AND kReadEvent = kReadEvent" "chfd (conn_ch s1) = fd"
    "map_of (channels (el_poller (c_loop s1))) fd = Some c"
    using connectionEstablished_ok [OF s0(1,2) assms(6), of bld] s0(3,4) by auto
  have "\<exists>s2 s3 s4. rfold (conn_exec cb (tq_thread l)) ps s1 = Inr s2 \<and>
      handleClose bld cb (tq_thread l) s2 = Inr s3 \<and> isNoneEvent (conn_ch s3) \<and>
      c_state s3 = (if bld = Debug then kConnected else c_state s2) \<and> wire s3 = wire s2 \<and>
      connectionDestroyed bld cb (tq_thread l) s3 = Inr s4 \<and> c_state s4 = kDisconnected \<and>
      map_of (channels (el_poller (c_loop s4))) fd = None" for ps
  proof -
    obtain s2 where s2: "rfold (conn_exec cb (tq_thread l)) ps s1 = Inr s2" "conn_inv s2" "in_loop (tq_thread l) s2" "same_socket s1 s2"
      using conn_runs [OF s1(2,3) assms(8)] by blast
    have "conn_wired s2" "chfd (conn_ch s2) = fd" using s2 s1(6) by (simp_all add: conn_inv_def same_socket_def)
    with handleClose_ok [OF _ s2(3) assms(7), of bld] obtain s3 where s3: "handleClose bld cb (tq_thread l) s2 = Inr s3" "conn_wired s3"
      "in_loop (tq_thread l) s3" "conn_ch s3 = disableAll (conn_ch s2)" "c_state s3 = (if bld = Debug then kConnected else c_state s2)"
      "wire s3 = wire s2" "chfd (conn_ch s2) = fd" by blast
    then have "bld = Debug \<longrightarrow> c_state s3 = kConnected" "chfd (conn_ch s3) = fd" by (simp_all add: disableAll_def)
    then obtain s4 where s4: "connectionDestroyed bld cb (tq_thread l) s3 = Inr s4" "c_state s4 = kDisconnected"
      "map_of (channels (el_poller (c_loop s4))) fd = None"
      using connectionDestroyed_ok [OF s3(2,3) assms(6), of bld] by auto
    have "isNoneEvent (conn_ch s3)" using s3(4) by (simp add: isNoneEvent_def disableAll_def)
    then show ?thesis using s2(1) s3(1,5,6) s4 by blast
  qed
  then show ?thesis using s1 unfolding s0_def by blast
qed

theorem connection_life_witness:
  "\<exists>s1 s2 s3 s4. connectionEstablished Debug demo_cbs 1 (TcpConnection_new demo_cloop ''c'' 9 5 False []) = Inr s1 \<and>
     rfold (conn_exec demo_cbs 1) [Send ''hi'', Shutdown] s1 = Inr s2 \<and> handleClose Debug demo_cbs 1 s2 = Inr s3 \<and> connected s3 \<and>
     connectionDestroyed Debug demo_cbs 1 s3 = Inr s4"
proof -
  have k: "keeping (closeCallback_fn demo_cbs)" by simp
  obtain s1 where s1: "connectionEstablished Debug demo_cbs 1 (TcpConnection_new demo_cloop ''c'' 9 5 False []) = Inr s1"
    "\<forall>ps. \<exists>s2 s3 s4. rfold (conn_exec demo_cbs 1) ps s1 = Inr s2 \<and> handleClose Debug demo_cbs 1 s2 = Inr s3 \<and>
      c_state s3 = kConnected \<and> connectionDestroyed Debug demo_cbs 1 s3 = Inr s4"
    using connection_life [of demo_cloop 9 5 demo_cbs Debug "''c''" False "[]", OF _ _ _ _ _ _ k] by (simp del: rfold.simps) blast
  then obtain s2 s3 s4 where "rfold (conn_exec demo_cbs 1) [Send ''hi'', Shutdown] s1 = Inr s2" "handleClose Debug demo_cbs 1 s2 = Inr s3"
      "c_state s3 = kConnected" "connectionDestroyed Debug demo_cbs 1 s3 = Inr s4" by blast
  then show ?thesis using s1(1) unfolding connected_def by blast
qed

end
