(* ===== verification/RN_CrossThread.thy ===== *)
theory RN_CrossThread
  imports RN_TcpConnection
begin

text \<open>
  The connection (RN/net/TcpConnection.cpp) used from a thread that is not its loop's: \<open>send\<close> and \<open>shutdown\<close> hand their work to the loop as functors, which
  the loop runs later, after or between the events of the connection.
\<close>

lemma other_thread: "in_loop tid s \<Longrightarrow> tid' \<noteq> tid \<Longrightarrow> \<not> isInLoopThread tid' (c_loop s)"
  by (simp add: in_loop_def isInLoopThread_def)

lemma send_other:
  "in_loop tid s \<Longrightarrow> tid' \<noteq> tid \<Longrightarrow> c_state s = kConnected \<Longrightarrow> send cb tid' m s = Inr (conn_queueInLoop tid' (SendInLoop m) s)"
  using other_thread [of tid s tid'] by (simp add: send_def conn_runInLoop_def conn_queueInLoop_def)

lemma shutdown_other:
  assumes "in_loop tid s" and "tid' \<noteq> tid" and "c_state s = kConnected"
  shows "shutdown tid' s = Inr (conn_queueInLoop tid' ShutdownInLoop (setState kDisconnecting s))"
proof -
  have "\<not> isInLoopThread tid' (c_loop (setState kDisconnecting s))" using other_thread [OF assms(1,2)] by (simp add: setState_def)
  then show ?thesis using assms(3) by (simp add: shutdown_def conn_runInLoop_def conn_queueInLoop_def)
qed

lemma queue_other_wakes:
  "in_loop tid s \<Longrightarrow> tid' \<noteq> tid \<Longrightarrow> 0 < wakeupfd (c_loop (conn_queueInLoop tid' f s))"
  using other_thread [of tid s tid'] by (simp add: conn_queueInLoop_def queueInLoop_def isInLoopThread_def push_functor_def)

lemma conn_inv_queue [simp]: "conn_inv (conn_queueInLoop tid f s) = conn_inv s"
  by (simp add: conn_inv_def)

lemma loop_shutdownWrite [simp]: "c_loop (shutdownWrite s) = c_loop s" "c_loop (setState st s) = c_loop s"
  by (simp_all add: shutdownWrite_def setState_def)

text \<open>
  C23: Sending from another thread: nothing is written by that thread; one functor is queued behind those pending and the loop is woken; and when the loop
  runs it, in any later state of the connection in which it is still connected, the effect is exactly that of a \<open>send\<close> in the loop.
\<close>

theorem cross_thread_send:
  assumes "in_loop tid s" and "tid' \<noteq> tid" and "c_state s = kConnected"
  shows "\<exists>q. send cb tid' m s = Inr q \<and> wire q = wire s \<and> outputBuffer q = outputBuffer s \<and> answers q = answers s \<and>
    pendingFunctors (c_loop q) = pendingFunctors (c_loop s) @ [User_functor (SendInLoop m)] \<and> 0 < wakeupfd (c_loop q) \<and>
    (\<forall>u. in_loop tid u \<and> c_state u = kConnected \<longrightarrow> run_conn_functor bld cb tid (SendInLoop m) u = send cb tid m u)"
  using send_other [OF assms] queue_other_wakes [OF assms(1,2), of "SendInLoop m"]
  by (auto simp: run_conn_functor_def send_in_loop)

lemma cross_thread_send_witness:
  "\<exists>q. send demo_cbs 2 ''hi'' (demo_conn [] 100 []) = Inr q \<and> wire q = [] \<and> pendingFunctors (c_loop q) = [User_functor (SendInLoop ''hi'')]"
  using cross_thread_send [of 1 "demo_conn [] 100 []" 2 demo_cbs "''hi''" Debug] by auto

text \<open>
  A shutdown can overtake a message. Another thread sends and then shuts down while earlier output is pending: the state changes at once but the message is
  only queued, so the writability event that drains the earlier output shuts the write side down; when the loop then runs its functors the message
  is still in the queue, behind a half-closed connection.
\<close>

theorem shutdown_overtakes_send:
  assumes inv: "conn_inv s" and tid: "in_loop tid s" and "tid' \<noteq> tid" and "c_state s = kConnected" and pend: "content (outputBuffer s) \<noteq> []"
    and "quiet_complete cb" and "shut_at s = []"
  shows "\<exists>s1 s2 s3. send cb tid' m s = Inr s1 \<and> shutdown tid' s1 = Inr s2 \<and> conn_handleWrite cb tid s2 = Inr s3 \<and>
    wire s3 @ content (outputBuffer s3) = wire s @ content (outputBuffer s) \<and>
    pendingFunctors (c_loop s3) = pendingFunctors (c_loop s) @ [User_functor (SendInLoop m), User_functor ShutdownInLoop] \<and>
    (content (outputBuffer s3) = [] \<longrightarrow> shut_at s3 = [length (wire s3)])"
proof -
  define s1 where "s1 = conn_queueInLoop tid' (SendInLoop m) s"
  have s1: "send cb tid' m s = Inr s1" "conn_inv s1" "in_loop tid s1" "c_state s1 = kConnected" "outputBuffer s1 = outputBuffer s" "wire s1 = wire s"
      "shut_at s1 = []" "pendingFunctors (c_loop s1) = pendingFunctors (c_loop s) @ [User_functor (SendInLoop m)]"
    using assms send_other by (simp_all add: s1_def)
  define s2 where "s2 = conn_queueInLoop tid' ShutdownInLoop (setState kDisconnecting s1)"
  have s2: "shutdown tid' s1 = Inr s2" "conn_inv s2" "in_loop tid s2" "c_state s2 = kDisconnecting" "outputBuffer s2 = outputBuffer s" "wire s2 = wire s"
      "shut_at s2 = []" "pendingFunctors (c_loop s2) = pendingFunctors (c_loop s) @ [User_functor (SendInLoop m), User_functor ShutdownInLoop]"
    using s1 assms(3) shutdown_other by (simp_all add: s2_def)
  obtain t where t: "conn_inv t" "in_loop tid t" "same_ends s2 t" "wire t @ content (outputBuffer t) = wire s2 @ content (outputBuffer s2)"
      "pendingFunctors (c_loop t) = pendingFunctors (c_loop s2)"
      "conn_handleWrite cb tid s2 = (if content (outputBuffer t) = [] then drained cb tid t else Inr t)"
    using handleWrite_cases [OF s2(2,3), of cb] pend s2(5) by auto
  define s3 where "s3 = (if content (outputBuffer t) = [] then shutdownWrite t else t)"
  have "conn_handleWrite cb tid s2 = Inr s3"
    using t(3,6) drained_quiet [OF assms(6) t(2,1)] s2(4) by (simp add: s3_def same_ends_def)
  then show ?thesis
    using s1(1) s2 t by (intro exI [of _ s1] exI [of _ s2] exI [of _ s3]) (auto simp: s3_def same_ends_def)
qed

lemma shutdown_overtakes_send_witness:
  "\<exists>s1 s2 s3. send demo_cbs 2 ''XY'' (demo_conn ''abc'' 100 [Wrote 3]) = Inr s1 \<and> shutdown 2 s1 = Inr s2 \<and> conn_handleWrite demo_cbs 1 s2 = Inr s3 \<and>
     pendingFunctors (c_loop s3) = [User_functor (SendInLoop ''XY''), User_functor ShutdownInLoop]"
  using shutdown_overtakes_send [OF demo_conn_inv(1) demo_conn_simps(1), of 2 "''abc''" 100 "[Wrote 3]" demo_cbs "''XY''"] by auto

end
