(* ===== verification/RN_Sockets.thy ===== *)
theory RN_Sockets
  imports RN_Printf "HOL-Library.Word"
begin

text \<open>
  RN/net/SocketsOps.h and SocketsOps.cpp, InetAddress.h and Socket.h/.cpp. The host is little-endian (the byte-order functions
  swap). System calls are arguments: their results (a descriptor, or a negative value and an errno). \<open>inet_ntop\<close> and
  \<open>inet_pton\<close> are arguments too. \<open>LOG_SYSFATAL\<close> and \<open>LOG_FATAL\<close> abort when their temporary \<open>Logger\<close> is destroyed at the end
  of the statement (RN_Logging).
\<close>

unbundle bit_operations_syntax

subsection \<open>Byte order\<close>

definition hostToNetwork16 :: "16 word \<Rightarrow> 16 word" where
  "hostToNetwork16 x = push_bit 8 x OR drop_bit 8 x"

definition networkToHost16 :: "16 word \<Rightarrow> 16 word" where
  "networkToHost16 x = push_bit 8 x OR drop_bit 8 x"

definition byte_swap32 :: "32 word \<Rightarrow> 32 word" where
  "byte_swap32 x = push_bit 16 (ucast (hostToNetwork16 (ucast x))) OR ucast (hostToNetwork16 (ucast (drop_bit 16 x)))"

definition hostToNetwork32 :: "32 word \<Rightarrow> 32 word" where
  "hostToNetwork32 x = byte_swap32 x"

definition networkToHost32 :: "32 word \<Rightarrow> 32 word" where
  "networkToHost32 x = byte_swap32 x"

definition byte_swap64 :: "64 word \<Rightarrow> 64 word" where
  "byte_swap64 x = push_bit 32 (ucast (byte_swap32 (ucast x))) OR ucast (byte_swap32 (ucast (drop_bit 32 x)))"

definition hostToNetwork64 :: "64 word \<Rightarrow> 64 word" where
  "hostToNetwork64 x = byte_swap64 x"

definition networkToHost64 :: "64 word \<Rightarrow> 64 word" where
  "networkToHost64 x = byte_swap64 x"

lemma swap16: "networkToHost16 (hostToNetwork16 x) = x"
  by (rule bit_word_eqI) (auto simp: networkToHost16_def hostToNetwork16_def bit_simps)

lemma halves32:
  fixes a b :: "16 word" and z :: "32 word"
  shows "ucast (push_bit 16 (ucast a) OR ucast b :: 32 word) = b"
    and "ucast (drop_bit 16 (push_bit 16 (ucast a) OR ucast b :: 32 word)) = a"
    and "push_bit 16 (ucast (ucast (drop_bit 16 z) :: 16 word)) OR ucast (ucast z :: 16 word) = z"
  by (rule bit_word_eqI; auto simp: bit_simps dest: bit_imp_le_length)+

lemma swap32: "byte_swap32 (byte_swap32 x) = x"
  unfolding byte_swap32_def halves32(1,2) swap16 [unfolded networkToHost16_def hostToNetwork16_def [symmetric]]
  by (rule halves32(3))

lemma halves64:
  fixes a b :: "32 word" and z :: "64 word"
  shows "ucast (push_bit 32 (ucast a) OR ucast b :: 64 word) = b"
    and "ucast (drop_bit 32 (push_bit 32 (ucast a) OR ucast b :: 64 word)) = a"
    and "push_bit 32 (ucast (ucast (drop_bit 32 z) :: 32 word)) OR ucast (ucast z :: 32 word) = z"
  by (rule bit_word_eqI; auto simp: bit_simps dest: bit_imp_le_length)+

lemma swap64: "byte_swap64 (byte_swap64 x) = x"
  unfolding byte_swap64_def halves64(1,2) swap32 by (rule halves64(3))

subsection \<open>Addresses\<close>

record sockaddr_in =
  sin_family :: int
  sin_port :: "16 word"
  s_addr :: "32 word"

definition AF_INET :: int where
  "AF_INET = 2"

text \<open>\<open>bzero\<close> clears the family, which only the numeric constructor and a successful conversion set.\<close>

definition InetAddress_any :: "16 word \<Rightarrow> sockaddr_in" where
  "InetAddress_any port = \<lparr>sin_family = AF_INET, sin_port = hostToNetwork16 port, s_addr = hostToNetwork32 0\<rparr>"

definition fromHostPort :: "(string \<Rightarrow> 32 word option) \<Rightarrow> string \<Rightarrow> 16 word \<Rightarrow> sockaddr_in \<Rightarrow> sockaddr_in" where
  "fromHostPort pton ip port addr =
     (let addr = addr\<lparr>sin_family := AF_INET, sin_port := hostToNetwork16 port\<rparr>
      in case pton ip of None \<Rightarrow> addr | Some a \<Rightarrow> addr\<lparr>s_addr := a\<rparr>)"

definition InetAddress_of :: "(string \<Rightarrow> 32 word option) \<Rightarrow> string \<Rightarrow> 16 word \<Rightarrow> sockaddr_in" where
  "InetAddress_of pton ip port = fromHostPort pton ip port \<lparr>sin_family = 0, sin_port = 0, s_addr = 0\<rparr>"

definition sockets_toHostPort :: "(32 word \<Rightarrow> string option) \<Rightarrow> nat \<Rightarrow> sockaddr_in \<Rightarrow> string" where
  "sockets_toHostPort ntop bufsize addr =
     (let host = (case ntop (s_addr addr) of None \<Rightarrow> ''INVALID'' | Some h \<Rightarrow> h);
          port = networkToHost16 (sin_port addr)
      in snprintf_text bufsize (host @ '':'' @ dec (unat port)))"

definition InetAddress_toHostPort :: "(32 word \<Rightarrow> string option) \<Rightarrow> sockaddr_in \<Rightarrow> string" where
  "InetAddress_toHostPort ntop addr = sockets_toHostPort ntop 32 addr"

subsection \<open>Socket calls\<close>

text \<open>The result of a system call: its value, or the errno it failed with.\<close>

datatype syscall = Sys_ok int | Sys_error int

definition log_sysfatal :: "'a result" where
  "log_sysfatal = Inl Aborted"

definition createNonblockingOrDie :: "syscall \<Rightarrow> int result" where
  "createNonblockingOrDie r = (case r of Sys_error e \<Rightarrow> log_sysfatal | Sys_ok fd \<Rightarrow> Inr fd)"

definition bindOrDie :: "syscall \<Rightarrow> unit result" where
  "bindOrDie r = (case r of Sys_error e \<Rightarrow> log_sysfatal | Sys_ok n \<Rightarrow> Inr ())"

definition listenOrDie :: "syscall \<Rightarrow> unit result" where
  "listenOrDie r = (case r of Sys_error e \<Rightarrow> log_sysfatal | Sys_ok n \<Rightarrow> Inr ())"

definition Socket_bindAddress :: "syscall \<Rightarrow> unit result" where
  "Socket_bindAddress r = bindOrDie r"

definition Socket_listen :: "syscall \<Rightarrow> unit result" where
  "Socket_listen r = listenOrDie r"

text \<open>A failure of \<open>close\<close> or of \<open>shutdown\<close> is only logged.\<close>

definition sockets_close :: "syscall \<Rightarrow> unit result" where
  "sockets_close r = (case r of Sys_error e \<Rightarrow> Inr () | Sys_ok n \<Rightarrow> Inr ())"

definition sockets_shutdownWrite :: "syscall \<Rightarrow> unit result" where
  "sockets_shutdownWrite r = (case r of Sys_error e \<Rightarrow> Inr () | Sys_ok n \<Rightarrow> Inr ())"

text \<open>\<open>fcntl\<close> flags: the results of the calls are ignored.\<close>

definition setNonBlockingAndCloseOnExec :: "(int \<Rightarrow> int) \<Rightarrow> int \<Rightarrow> int \<Rightarrow> int" where
  "setNonBlockingAndCloseOnExec getfl O_NONBLOCK_O_CLOEXEC sockfd = getfl sockfd OR O_NONBLOCK_O_CLOEXEC"

text \<open>The errno classes of \<open>accept\<close>: EPERM, EINTR, EAGAIN, EMFILE, EPROTO, ECONNABORTED are expected.\<close>

definition expected_errno :: "int \<Rightarrow> bool" where
  "expected_errno e \<longleftrightarrow> e \<in> set [1, 4, 11, 24, 71, 103]"

definition sockets_accept :: "syscall \<Rightarrow> int result" where
  "sockets_accept r = (case r of
     Sys_ok connfd \<Rightarrow> Inr connfd
   | Sys_error savedErrno \<Rightarrow>
       rbind (log_sysfatal :: unit result) (\<lambda>u.
         if expected_errno savedErrno then Inr (-1) else Inl Aborted))"

definition Socket_accept :: "syscall \<Rightarrow> sockaddr_in \<Rightarrow> sockaddr_in \<Rightarrow> (int \<times> sockaddr_in) result" where
  "Socket_accept r kernel_addr peeraddr =
     rbind (sockets_accept r) (\<lambda>connfd. Inr (connfd, if 0 \<le> connfd then kernel_addr else peeraddr))"

definition getSocketError :: "int \<Rightarrow> syscall \<Rightarrow> int" where
  "getSocketError optval r = (case r of Sys_error e \<Rightarrow> e | Sys_ok n \<Rightarrow> optval)"

text \<open>The option value that \<open>setReuseAddr\<close>, \<open>setTcpNoDelay\<close> and \<open>setKeepAlive\<close> pass on.\<close>

definition socket_option :: "bool \<Rightarrow> int" where
  "socket_option on = (if on then 1 else 0)"

subsection \<open>Properties\<close>

text \<open>Network byte order: converting to it and back is the identity at all three widths, so distinct values stay distinct.\<close>

theorem byte_order_roundtrip:
  "networkToHost16 (hostToNetwork16 x) = x \<and> networkToHost32 (hostToNetwork32 y) = y \<and> networkToHost64 (hostToNetwork64 z) = z"
  by (simp add: swap16 swap32 swap64 hostToNetwork32_def networkToHost32_def hostToNetwork64_def networkToHost64_def)

text \<open>An address built from a textual IP and a port prints as \<open>ip:port\<close>, untruncated, when the text is the canonical one of the address.\<close>

theorem toHostPort_roundtrip:
  assumes "pton ip = Some a" and "ntop a = Some ip" and "length ip \<le> 15"
  shows "InetAddress_toHostPort ntop (InetAddress_of pton ip port) = ip @ '':'' @ dec (unat port)"
proof -
  have "unat port < 2 ^ 16" using unsigned_less [of port] by simp
  then have "unat port < 10 ^ 5" by simp
  then have "length (dec (unat port)) \<le> 5" by (rule length_dec) simp
  then show ?thesis
    using assms by (simp add: InetAddress_toHostPort_def sockets_toHostPort_def InetAddress_of_def fromHostPort_def swap16)
qed

theorem toHostPort_roundtrip_witness:
  "InetAddress_toHostPort (\<lambda>a. if a = 0x0100007F then Some ''127.0.0.1'' else None)
     (InetAddress_of (\<lambda>s. if s = ''127.0.0.1'' then Some 0x0100007F else None) ''127.0.0.1'' 8080) = ''127.0.0.1:8080''"
proof -
  have "dec 8080 = ''8080''" by (simp add: dec_numeral digit_numerals)
  then show ?thesis
    using toHostPort_roundtrip [of "\<lambda>s. if s = ''127.0.0.1'' then Some 0x0100007F else None" "''127.0.0.1''" "0x0100007F"
      "\<lambda>a. if a = 0x0100007F then Some ''127.0.0.1'' else None" 8080] by simp
qed

text \<open>Every failure of \<open>accept\<close> ends the process: the fatal log statement comes before the classification of the errno, so the branch that
  returns -1 for the expected errors (a connection aborted in the queue, a signal, no free descriptor) is never reached.\<close>

theorem accept_error_aborts:
  "Socket_accept (Sys_error e) kernel_addr peer = Inl Aborted \<and>
   (\<forall>fd. 0 \<le> fd \<longrightarrow> Socket_accept (Sys_ok fd) kernel_addr peer = Inr (fd, kernel_addr))"
  by (simp add: Socket_accept_def sockets_accept_def log_sysfatal_def)

theorem accept_error_aborts_witness:
  "expected_errno 11 \<and> Socket_accept (Sys_error 11) (InetAddress_any 80) (InetAddress_any 0) = Inl Aborted \<and>
   Socket_accept (Sys_ok 7) (InetAddress_any 80) (InetAddress_any 0) = Inr (7, InetAddress_any 80)"
  using accept_error_aborts [of 11 "InetAddress_any 80" "InetAddress_any 0"] by (simp add: expected_errno_def)

end
