(* ===== verification/RN_TcpServer.thy ===== *)
theory RN_TcpServer
  imports RN_Sockets
begin

text \<open>
  RN/net/EventLoopThreadPool.h/.cpp, EventLoopThread.cpp, Acceptor.h/.cpp and TcpServer.h. Loops and connections are named by
  addresses. A functor handed to a loop is run at once when the calling thread is that loop's, otherwise it joins the loop's queue
  (\<open>posted\<close>, in order; RN_EventLoop shows what happens to it there). What establishing and destroying a connection does is the
  argument \<open>act\<close> (RN_TcpConnection).
\<close>

subsection \<open>The pool of loops\<close>

record pool =
  baseLoop :: nat
  base_thread :: int
  pool_started :: bool
  numOfThreads :: int
  pool_next :: nat
  pool_loops :: "nat list"

definition EventLoopThreadPool_new :: "nat \<Rightarrow> int \<Rightarrow> int \<Rightarrow> pool" where
  "EventLoopThreadPool_new base tid n =
     \<lparr>baseLoop = base, base_thread = tid, pool_started = False, numOfThreads = n, pool_next = 0, pool_loops = []\<rparr>"

definition pool_setNumOfThreads :: "int \<Rightarrow> pool \<Rightarrow> pool" where
  "pool_setNumOfThreads n p = p\<lparr>numOfThreads := n\<rparr>"

text \<open>\<open>ioLoop i\<close> is the loop that the \<open>i\<close>-th EventLoopThread's \<open>startLoop\<close> returns.\<close>

definition pool_start :: "int \<Rightarrow> (nat \<Rightarrow> nat) \<Rightarrow> pool \<Rightarrow> pool result" where
  "pool_start tid ioLoop p =
     (if base_thread p \<noteq> tid then Inl Aborted
      else rassert (\<not> pool_started p)
        (Inr (p\<lparr>pool_started := True, pool_loops := pool_loops p @ map ioLoop [0 ..< nat (numOfThreads p)]\<rparr>)))"

definition getNextLoop :: "int \<Rightarrow> pool \<Rightarrow> (nat \<times> pool) result" where
  "getNextLoop tid p =
     (if base_thread p \<noteq> tid then Inl Aborted
      else if pool_loops p \<noteq> [] then
        (if pool_next p < length (pool_loops p) then
           (let loop = pool_loops p ! pool_next p;
                n = pool_next p + 1;
                n = (if length (pool_loops p) \<le> n then 0 else n)
            in Inr (loop, p\<lparr>pool_next := n\<rparr>))
         else Inl OutOfRange)
      else Inr (baseLoop p, p))"

fun getNextLoops :: "nat \<Rightarrow> int \<Rightarrow> pool \<Rightarrow> (nat list \<times> pool) result" where
  "getNextLoops 0 tid p = Inr ([], p)"
| "getNextLoops (Suc k) tid p =
     rbind (getNextLoop tid p) (\<lambda>(l, p). rbind (getNextLoops k tid p) (\<lambda>(ls, p). Inr (l # ls, p)))"

definition pool_inv :: "pool \<Rightarrow> bool" where
  "pool_inv p \<longleftrightarrow> (pool_loops p \<noteq> [] \<longrightarrow> pool_next p < length (pool_loops p))"

lemma getNextLoop_ok:
  assumes "pool_inv p" and "base_thread p = tid" and "pool_loops p \<noteq> []"
  shows "getNextLoop tid p = Inr (pool_loops p ! pool_next p, p\<lparr>pool_next := (pool_next p + 1) mod length (pool_loops p)\<rparr>)"
  using assms by (auto simp: getNextLoop_def pool_inv_def Let_def not_le dest: le_antisym)

lemma getNextLoops_ok:
  assumes "pool_inv p" and "base_thread p = tid" and "pool_loops p \<noteq> []"
  shows "getNextLoops k tid p =
    Inr (map (\<lambda>i. pool_loops p ! ((pool_next p + i) mod length (pool_loops p))) [0 ..< k],
         p\<lparr>pool_next := (pool_next p + k) mod length (pool_loops p)\<rparr>)"
  using assms
proof (induction k arbitrary: p)
  case 0
  then show ?case by (simp add: pool_inv_def)
next
  case (Suc k)
  define q where "q = p\<lparr>pool_next := (pool_next p + 1) mod length (pool_loops p)\<rparr>"
  have q: "pool_inv q" "base_thread q = tid" "pool_loops q \<noteq> []" "pool_loops q = pool_loops p"
    "pool_next q = (pool_next p + 1) mod length (pool_loops p)"
    using Suc.prems by (simp_all add: q_def pool_inv_def)
  have shift: "(pool_next q + i) mod length (pool_loops p) = (pool_next p + Suc i) mod length (pool_loops p)" for i
    unfolding q(5) by (simp add: mod_add_left_eq)
  have first: "pool_next p mod length (pool_loops p) = pool_next p" using Suc.prems by (simp add: pool_inv_def)
  have "getNextLoops (Suc k) tid p = Inr (pool_loops p ! pool_next p #
      map (\<lambda>i. pool_loops p ! ((pool_next p + Suc i) mod length (pool_loops p))) [0 ..< k],
      q\<lparr>pool_next := (pool_next p + Suc k) mod length (pool_loops p)\<rparr>)"
    using getNextLoop_ok [OF Suc.prems, folded q_def] Suc.IH [OF q(1-3)] by (simp add: q(4) shift)
  also have "pool_loops p ! pool_next p # map (\<lambda>i. pool_loops p ! ((pool_next p + Suc i) mod length (pool_loops p))) [0 ..< k] =
      map (\<lambda>i. pool_loops p ! ((pool_next p + i) mod length (pool_loops p))) [0 ..< Suc k]"
    by (subst upt_conv_Cons) (simp_all add: first map_Suc_upt [symmetric] o_def del: upt_Suc)
  finally show ?case by (simp add: q_def)
qed

subsection \<open>The acceptor\<close>

text \<open>
  What the acceptor does to the rest of the program \<open>w\<close>: the callback for a new connection, closing a descriptor, enabling the channel.
\<close>

record 'w acceptor =
  acc_thread :: int
  acceptSocket :: int
  listennning :: bool
  acc_reading :: bool
  newConnectionCallback :: "(int \<Rightarrow> sockaddr_in \<Rightarrow> 'w \<Rightarrow> 'w result) option"

definition Acceptor_new :: "int \<Rightarrow> syscall \<Rightarrow> syscall \<Rightarrow> 'w acceptor result" where
  "Acceptor_new tid sock bind_r =
     rbind (createNonblockingOrDie sock) (\<lambda>fd.
     rbind (bindOrDie bind_r) (\<lambda>u.
     Inr \<lparr>acc_thread = tid, acceptSocket = fd, listennning = False, acc_reading = False, newConnectionCallback = None\<rparr>))"

definition setNewConnectionCallback :: "(int \<Rightarrow> sockaddr_in \<Rightarrow> 'w \<Rightarrow> 'w result) \<Rightarrow> 'w acceptor \<Rightarrow> 'w acceptor" where
  "setNewConnectionCallback cb a = a\<lparr>newConnectionCallback := Some cb\<rparr>"

definition Acceptor_listen :: "int \<Rightarrow> syscall \<Rightarrow> 'w acceptor \<Rightarrow> 'w acceptor result" where
  "Acceptor_listen tid r a =
     (if acc_thread a \<noteq> tid then Inl Aborted
      else rbind (listenOrDie r) (\<lambda>u. Inr (a\<lparr>listennning := True, acc_reading := True\<rparr>)))"

definition Acceptor_handleRead ::
  "int \<Rightarrow> syscall \<Rightarrow> sockaddr_in \<Rightarrow> (int \<Rightarrow> 'w \<Rightarrow> 'w) \<Rightarrow> 'w acceptor \<Rightarrow> 'w \<Rightarrow> 'w result" where
  "Acceptor_handleRead tid r kernel_addr close_fd a w =
     (if acc_thread a \<noteq> tid then Inl Aborted
      else rbind (Socket_accept r kernel_addr (InetAddress_any 0)) (\<lambda>(connfd, peerAddr).
        if 0 \<le> connfd then
          (case newConnectionCallback a of
             Some cb \<Rightarrow> cb connfd peerAddr w
           | None \<Rightarrow> Inr (close_fd connfd w))
        else Inr w))"

subsection \<open>The server\<close>

text \<open>The callbacks a server holds and gives to each connection it creates. A user's function is named by a number.\<close>

datatype close_callback = Server_removeConnection | User_close nat

record server_cbs =
  cb_message :: "nat option"
  cb_connection :: "nat option"
  cb_close :: "close_callback option"
  cb_writeComplete :: "nat option"
  cb_highWaterMark :: "nat option"

record conn_obj =
  co_name :: string
  co_loop :: nat
  co_fd :: int
  co_peer :: sockaddr_in
  co_cbs :: server_cbs

datatype server_functor = ConnectionEstablished nat | ConnectionDestroyed nat | RemoveConnectionInLoop nat | AcceptorListen

record server =
  sv_name :: string
  sv_loop :: nat
  thread_of :: "nat \<Rightarrow> int"
  sv_numOfThreads :: int
  threadPool :: pool
  nextConnectionId :: int
  connections :: "string \<rightharpoonup> nat"
  conn_objs :: "nat \<Rightarrow> conn_obj"
  sv_started :: bool
  sv_listening :: bool
  sv_cbs :: server_cbs
  posted :: "(nat \<times> server_functor) list"

definition setCloseCallback_server :: "close_callback \<Rightarrow> server \<Rightarrow> server" where
  "setCloseCallback_server f s = s\<lparr>sv_cbs := (sv_cbs s)\<lparr>cb_close := Some f\<rparr>\<rparr>"

definition setMessageCallback_server :: "nat \<Rightarrow> server \<Rightarrow> server" where
  "setMessageCallback_server f s = s\<lparr>sv_cbs := (sv_cbs s)\<lparr>cb_message := Some f\<rparr>\<rparr>"

definition setConnectionCallback_server :: "nat \<Rightarrow> server \<Rightarrow> server" where
  "setConnectionCallback_server f s = s\<lparr>sv_cbs := (sv_cbs s)\<lparr>cb_connection := Some f\<rparr>\<rparr>"

definition setHighWaterMarkCallback_server :: "nat \<Rightarrow> server \<Rightarrow> server" where
  "setHighWaterMarkCallback_server f s = s\<lparr>sv_cbs := (sv_cbs s)\<lparr>cb_highWaterMark := Some f\<rparr>\<rparr>"

definition setWriteCompleteCallback_server :: "nat \<Rightarrow> server \<Rightarrow> server" where
  "setWriteCompleteCallback_server f s = s\<lparr>sv_cbs := (sv_cbs s)\<lparr>cb_writeComplete := Some f\<rparr>\<rparr>"

text \<open>The constructor makes \<open>removeConnection\<close> the callback of a close.\<close>

definition TcpServer_new :: "string \<Rightarrow> nat \<Rightarrow> (nat \<Rightarrow> int) \<Rightarrow> (nat \<Rightarrow> conn_obj) \<Rightarrow> server" where
  "TcpServer_new nm loop threads objs =
     setCloseCallback_server Server_removeConnection
       \<lparr>sv_name = nm, sv_loop = loop, thread_of = threads, sv_numOfThreads = 0,
        threadPool = EventLoopThreadPool_new loop (threads loop) 0, nextConnectionId = 1, connections = Map.empty, conn_objs = objs,
        sv_started = False, sv_listening = False,
        sv_cbs = \<lparr>cb_message = None, cb_connection = None, cb_close = None, cb_writeComplete = None, cb_highWaterMark = None\<rparr>, posted = []\<rparr>"

definition sv_setNumOfThreads :: "int \<Rightarrow> server \<Rightarrow> server" where
  "sv_setNumOfThreads n s = s\<lparr>sv_numOfThreads := n\<rparr>"

text \<open>\<open>snprintf\<close> into 32 bytes of \<open>%s#%d\<close>; the name ends at its first null character.\<close>

definition c_str :: "string \<Rightarrow> string" where
  "c_str s = takeWhile (\<lambda>c. c \<noteq> CHR 0x00) s"

definition getConnectionName :: "server \<Rightarrow> string" where
  "getConnectionName s = snprintf_text 32 (c_str (sv_name s) @ ''#'' @ fmt_d (nextConnectionId s))"

definition post :: "nat \<Rightarrow> server_functor \<Rightarrow> server \<Rightarrow> server" where
  "post l f s = s\<lparr>posted := posted s @ [(l, f)]\<rparr>"

definition removeConnectionInLoop :: "int \<Rightarrow> nat \<Rightarrow> server \<Rightarrow> server result" where
  "removeConnectionInLoop tid c s =
     (if thread_of s (sv_loop s) \<noteq> tid then Inl Aborted
      else
        let s = s\<lparr>connections := (connections s)(co_name (conn_objs s c) := None)\<rparr>;
            ioLoop = co_loop (conn_objs s c)
        in Inr (post ioLoop (ConnectionDestroyed c) s))"

definition run_server_functor ::
  "(server_functor \<Rightarrow> server \<Rightarrow> server result) \<Rightarrow> int \<Rightarrow> server_functor \<Rightarrow> server \<Rightarrow> server result" where
  "run_server_functor act tid f s = (case f of
     RemoveConnectionInLoop c \<Rightarrow> removeConnectionInLoop tid c s
   | AcceptorListen \<Rightarrow> Inr (s\<lparr>sv_listening := True\<rparr>)
   | _ \<Rightarrow> act f s)"

definition server_runInLoop ::
  "(server_functor \<Rightarrow> server \<Rightarrow> server result) \<Rightarrow> int \<Rightarrow> nat \<Rightarrow> server_functor \<Rightarrow> server \<Rightarrow> server result" where
  "server_runInLoop act tid l f s =
     (if thread_of s l = tid then run_server_functor act tid f s else Inr (post l f s))"

definition server_start ::
  "(server_functor \<Rightarrow> server \<Rightarrow> server result) \<Rightarrow> int \<Rightarrow> (nat \<Rightarrow> nat) \<Rightarrow> server \<Rightarrow> server result" where
  "server_start act tid ioLoop s =
     (let s = (if \<not> sv_started s then s\<lparr>sv_started := True\<rparr> else s) in
      rbind (if \<not> pool_started (threadPool s)
             then rbind (pool_start tid ioLoop (threadPool s)) (\<lambda>p. Inr (s\<lparr>threadPool := p\<rparr>)) else Inr s) (\<lambda>s.
      if \<not> sv_listening s then server_runInLoop act tid (sv_loop s) AcceptorListen s else Inr s))"

text \<open>The new connection object is allocated at the fresh address \<open>c\<close>.\<close>

definition createNewConneciton ::
  "(server_functor \<Rightarrow> server \<Rightarrow> server result) \<Rightarrow> int \<Rightarrow> nat \<Rightarrow> int \<Rightarrow> sockaddr_in \<Rightarrow> server \<Rightarrow> server result" where
  "createNewConneciton act tid c connfd peerAddr s =
     (if thread_of s (sv_loop s) \<noteq> tid then Inl Aborted
      else
        let connName = getConnectionName s in
        rbind (getNextLoop tid (threadPool s)) (\<lambda>(ioLoop, p).
        let obj = \<lparr>co_name = connName, co_loop = ioLoop, co_fd = connfd, co_peer = peerAddr, co_cbs = sv_cbs s\<rparr>;
            s = s\<lparr>threadPool := p, conn_objs := (conn_objs s)(c := obj), connections := (connections s)(connName \<mapsto> c),
                  nextConnectionId := nextConnectionId s + 1\<rparr>
        in server_runInLoop act tid ioLoop (ConnectionEstablished c) s))"

definition removeConnection ::
  "(server_functor \<Rightarrow> server \<Rightarrow> server result) \<Rightarrow> int \<Rightarrow> nat \<Rightarrow> server \<Rightarrow> server result" where
  "removeConnection act tid c s = server_runInLoop act tid (sv_loop s) (RemoveConnectionInLoop c) s"

text \<open>What the close of the connection \<open>c\<close> calls: \<open>closeCallback_(shared_from_this())\<close>; \<open>user\<close> is what a user's callback does.\<close>

definition report_close ::
  "(server_functor \<Rightarrow> server \<Rightarrow> server result) \<Rightarrow> (nat \<Rightarrow> nat \<Rightarrow> server \<Rightarrow> server result) \<Rightarrow> int \<Rightarrow> nat \<Rightarrow> server \<Rightarrow> server result" where
  "report_close act user tid c s = (case cb_close (co_cbs (conn_objs s c)) of
     None \<Rightarrow> Inl BadCall
   | Some Server_removeConnection \<Rightarrow> removeConnection act tid c s
   | Some (User_close f) \<Rightarrow> user f c s)"

text \<open>The server's destructor tells its loop to quit.\<close>

definition TcpServer_destroy :: "server \<Rightarrow> nat" where
  "TcpServer_destroy s = sv_loop s"

lemma pool_start_new:
  "pool_start tid ioLoop (EventLoopThreadPool_new base tid n) =
     Inr \<lparr>baseLoop = base, base_thread = tid, pool_started = True, numOfThreads = n, pool_next = 0,
          pool_loops = map ioLoop [0 ..< nat n]\<rparr>"
  by (simp add: pool_start_def EventLoopThreadPool_new_def)

lemma getNextLoops_base: "base_thread p = tid \<Longrightarrow> pool_loops p = [] \<Longrightarrow> getNextLoops k tid p = Inr (replicate k (baseLoop p), p)"
  by (induction k) (simp_all add: getNextLoop_def)

lemma name_short:
  "length (c_str nm) + 1 + length (fmt_d i) < 32 \<Longrightarrow> getConnectionName (s\<lparr>sv_name := nm, nextConnectionId := i\<rparr>) = c_str nm @ ''#'' @ fmt_d i"
  by (simp add: getConnectionName_def)

lemma name_long:
  "31 \<le> length (c_str nm) \<Longrightarrow> getConnectionName (s\<lparr>sv_name := nm, nextConnectionId := i\<rparr>) = take 31 (c_str nm)"
  by (simp add: getConnectionName_def snprintf_text_def)

text \<open>What establishing and destroying a connection leaves alone in the server.\<close>

definition act_keeps :: "(server_functor \<Rightarrow> server \<Rightarrow> server result) \<Rightarrow> bool" where
  "act_keeps act \<longleftrightarrow> (\<forall>f s. \<exists>t. act f s = Inr t \<and> connections t = connections s \<and> conn_objs t = conn_objs s \<and>
     thread_of t = thread_of s \<and> sv_loop t = sv_loop s \<and> sv_name t = sv_name s \<and> threadPool t = threadPool s \<and>
     nextConnectionId t = nextConnectionId s \<and> sv_cbs t = sv_cbs s \<and> posted t = posted s)"

lemma getNextLoop_total:
  assumes "pool_inv p" and "base_thread p = tid"
  shows "\<exists>io q. getNextLoop tid p = Inr (io, q) \<and> pool_inv q \<and> base_thread q = tid"
  using assms getNextLoop_ok [OF assms] by (cases "pool_loops p = []") (auto simp: getNextLoop_def pool_inv_def)

lemma create_ok:
  assumes "thread_of s (sv_loop s) = tid" and "pool_inv (threadPool s)" and "base_thread (threadPool s) = tid" and "act_keeps act"
  shows "\<exists>s1 io. createNewConneciton act tid c fd addr s = Inr s1 \<and> getNextLoop tid (threadPool s) = Inr (io, threadPool s1) \<and>
    pool_inv (threadPool s1) \<and> base_thread (threadPool s1) = tid \<and>
    connections s1 = (connections s)(getConnectionName s \<mapsto> c) \<and> nextConnectionId s1 = nextConnectionId s + 1 \<and>
    sv_name s1 = sv_name s \<and> sv_loop s1 = sv_loop s \<and> thread_of s1 = thread_of s \<and> sv_cbs s1 = sv_cbs s \<and>
    conn_objs s1 = (conn_objs s)(c := \<lparr>co_name = getConnectionName s, co_loop = io, co_fd = fd, co_peer = addr, co_cbs = sv_cbs s\<rparr>) \<and>
    posted s1 = posted s @ (if thread_of s io = tid then [] else [(io, ConnectionEstablished c)])"
proof -
  obtain io q where q: "getNextLoop tid (threadPool s) = Inr (io, q)" "pool_inv q" "base_thread q = tid"
    using getNextLoop_total [OF assms(2,3)] by blast
  define u where "u = s\<lparr>threadPool := q,
    conn_objs := (conn_objs s)(c := \<lparr>co_name = getConnectionName s, co_loop = io, co_fd = fd, co_peer = addr, co_cbs = sv_cbs s\<rparr>),
    connections := (connections s)(getConnectionName s \<mapsto> c), nextConnectionId := nextConnectionId s + 1\<rparr>"
  have c: "createNewConneciton act tid c fd addr s = server_runInLoop act tid io (ConnectionEstablished c) u"
    using assms(1) q(1) by (simp add: createNewConneciton_def Let_def u_def)
  obtain t where t: "act (ConnectionEstablished c) u = Inr t" "connections t = connections u" "conn_objs t = conn_objs u"
     "thread_of t = thread_of u" "sv_loop t = sv_loop u" "sv_name t = sv_name u" "threadPool t = threadPool u"
     "nextConnectionId t = nextConnectionId u" "sv_cbs t = sv_cbs u" "posted t = posted u"
    using assms(4) unfolding act_keeps_def by metis
  show ?thesis
  proof (cases "thread_of s io = tid")
    case True
    then have "createNewConneciton act tid c fd addr s = Inr t"
      using c t(1) by (simp add: server_runInLoop_def run_server_functor_def u_def)
    then show ?thesis using t q True by (intro exI [of _ t] exI [of _ io]) (simp add: u_def)
  next
    case False
    then have "createNewConneciton act tid c fd addr s = Inr (post io (ConnectionEstablished c) u)"
      using c by (simp add: server_runInLoop_def u_def)
    then show ?thesis using q False by (intro exI [of _ "post io (ConnectionEstablished c) u"] exI [of _ io]) (simp add: u_def post_def)
  qed
qed

definition demo_server :: server where
  "demo_server = (TcpServer_new ''srv'' 1 (\<lambda>l. int l) (\<lambda>a. \<lparr>co_name = [], co_loop = 0, co_fd = 0, co_peer = InetAddress_any 0,
       co_cbs = \<lparr>cb_message = None, cb_connection = None, cb_close = None, cb_writeComplete = None, cb_highWaterMark = None\<rparr>\<rparr>))
     \<lparr>threadPool := \<lparr>baseLoop = 1, base_thread = 1, pool_started = True, numOfThreads = 2, pool_next = 0, pool_loops = [2, 3]\<rparr>\<rparr>"

subsection \<open>Properties\<close>

text \<open>The pool deals connections out in turn: after it has been started with \<open>n\<close> threads, any number of requests gets the loops
  in cyclic order, without an access out of range; with no threads every request gets the base loop.\<close>

theorem getNextLoop_round_robin:
  "\<exists>p q. pool_start tid ioLoop (EventLoopThreadPool_new base tid n) = Inr p \<and>
     getNextLoops k tid p = Inr (if n \<le> 0 then replicate k base else map (\<lambda>i. ioLoop (i mod nat n)) [0 ..< k], q)"
proof (cases "n \<le> 0")
  case True
  then show ?thesis using getNextLoops_base by (simp add: pool_start_new)
next
  case False
  define p where "p = \<lparr>baseLoop = base, base_thread = tid, pool_started = True, numOfThreads = n, pool_next = 0,
          pool_loops = map ioLoop [0 ..< nat n]\<rparr>"
  have "pool_inv p" "base_thread p = tid" "pool_loops p \<noteq> []" using False by (simp_all add: p_def pool_inv_def)
  from getNextLoops_ok [OF this, of k] show ?thesis
    using False pool_start_new [of tid ioLoop base n] by (auto simp: p_def)
qed

text \<open>The number of threads given to a server is ignored: \<open>setNumOfThreads\<close> sets a member that the pool never sees, so a server
  started after it has no I/O loops and every connection is served by the base loop.\<close>

theorem setNumOfThreads_has_no_effect:
  assumes "threads loop = tid"
  shows "\<exists>s. server_start act tid ioLoop (sv_setNumOfThreads n (TcpServer_new nm loop threads objs)) = Inr s \<and>
    sv_listening s \<and> pool_loops (threadPool s) = [] \<and> getNextLoop tid (threadPool s) = Inr (loop, threadPool s)"
  using assms
  by (simp add: server_start_def TcpServer_new_def setCloseCallback_server_def sv_setNumOfThreads_def pool_start_def EventLoopThreadPool_new_def
    server_runInLoop_def run_server_functor_def getNextLoop_def Let_def)

theorem setNumOfThreads_has_no_effect_witness:
  "\<exists>s. server_start (\<lambda>f s. Inr s) 1 (\<lambda>i. i + 2) (sv_setNumOfThreads 4 (TcpServer_new ''srv'' 1 int (conn_objs demo_server))) = Inr s \<and>
     pool_loops (threadPool s) = []"
  using setNumOfThreads_has_no_effect [of int 1 1 "\<lambda>f s. Inr s" "\<lambda>i. i + 2" 4 "''srv''" "conn_objs demo_server"] by auto

text \<open>Connection names. As long as the name, the separator and the number fit the 32-byte array, different connection numbers give
  different names; with a server name of 31 characters or more all connections get one name, and a second connection takes the first one's
  place in the map, dropping the server's reference to a connection that is still open.\<close>

theorem connection_names:
  assumes "thread_of s (sv_loop s) = tid" and "pool_inv (threadPool s)" and "base_thread (threadPool s) = tid" and "act_keeps act" and "c \<noteq> d"
  shows "(length (c_str (sv_name s)) + 1 + length (fmt_d i) < 32 \<and> length (c_str (sv_name s)) + 1 + length (fmt_d j) < 32 \<longrightarrow>
      (getConnectionName (s\<lparr>nextConnectionId := i\<rparr>) = getConnectionName (s\<lparr>nextConnectionId := j\<rparr>) \<longleftrightarrow> i = j)) \<and>
    (31 \<le> length (c_str (sv_name s)) \<longrightarrow> (\<exists>s1 s2. createNewConneciton act tid c fd1 a1 s = Inr s1 \<and>
       connections s1 (getConnectionName s) = Some c \<and> createNewConneciton act tid d fd2 a2 s1 = Inr s2 \<and>
       connections s2 (getConnectionName s) = Some d \<and> co_name (conn_objs s2 c) = co_name (conn_objs s2 d)))"
proof (intro conjI impI)
  assume short: "length (c_str (sv_name s)) + 1 + length (fmt_d i) < 32 \<and> length (c_str (sv_name s)) + 1 + length (fmt_d j) < 32"
  have "getConnectionName (s\<lparr>nextConnectionId := i\<rparr>) = c_str (sv_name s) @ ''#'' @ fmt_d i"
    "getConnectionName (s\<lparr>nextConnectionId := j\<rparr>) = c_str (sv_name s) @ ''#'' @ fmt_d j"
    using short by (simp_all add: getConnectionName_def)
  then show "getConnectionName (s\<lparr>nextConnectionId := i\<rparr>) = getConnectionName (s\<lparr>nextConnectionId := j\<rparr>) \<longleftrightarrow> i = j"
    by (simp add: fmt_d_inject)
next
  assume long: "31 \<le> length (c_str (sv_name s))"
  obtain s1 where s1: "createNewConneciton act tid c fd1 a1 s = Inr s1" "connections s1 = (connections s)(getConnectionName s \<mapsto> c)"
    "thread_of s1 (sv_loop s1) = tid" "pool_inv (threadPool s1)" "base_thread (threadPool s1) = tid" "sv_name s1 = sv_name s"
    "co_name (conn_objs s1 c) = getConnectionName s"
    using create_ok [OF assms(1-4), of c fd1 a1] assms(1) by auto
  have same: "getConnectionName s1 = getConnectionName s"
    using long s1(6) by (simp add: getConnectionName_def snprintf_text_def)
  obtain s2 where "createNewConneciton act tid d fd2 a2 s1 = Inr s2" "connections s2 = (connections s1)(getConnectionName s1 \<mapsto> d)"
    "co_name (conn_objs s2 d) = getConnectionName s1" "conn_objs s2 c = conn_objs s1 c"
    using create_ok [OF s1(3-5) assms(4), of d fd2 a2] assms(5) by auto
  then show "\<exists>s1 s2. createNewConneciton act tid c fd1 a1 s = Inr s1 \<and>
       connections s1 (getConnectionName s) = Some c \<and> createNewConneciton act tid d fd2 a2 s1 = Inr s2 \<and>
       connections s2 (getConnectionName s) = Some d \<and> co_name (conn_objs s2 c) = co_name (conn_objs s2 d)"
    using s1 same by auto
qed

lemma act_keeps_Inr: "act_keeps (\<lambda>f s. Inr s)"
  by (simp add: act_keeps_def)

lemma demo_server_ok: "thread_of demo_server (sv_loop demo_server) = 1" "pool_inv (threadPool demo_server)"
  "base_thread (threadPool demo_server) = 1" "connections demo_server = Map.empty" "sv_name demo_server = ''srv''"
  by (simp_all add: demo_server_def TcpServer_new_def setCloseCallback_server_def pool_inv_def)

theorem connection_names_witness:
  "getConnectionName (demo_server\<lparr>nextConnectionId := 7\<rparr>) \<noteq> getConnectionName (demo_server\<lparr>nextConnectionId := 70\<rparr>)"
proof -
  have "length (c_str (sv_name demo_server)) = 3" by (simp add: demo_server_ok(5) c_str_def)
  moreover have "length (fmt_d 7) = 1" "length (fmt_d 70) = 2" by (simp_all add: fmt_d_def dec_numeral)
  ultimately show ?thesis
    using connection_names [OF demo_server_ok(1-3) act_keeps_Inr, of 1 2 7 70] by simp
qed



text \<open>
  What a connection calls when it closes is fixed when it is accepted, and a user's close callback takes the place of the server's own: as
  long as the user sets none, the close runs \<open>removeConnection\<close>, whatever callbacks are set later; a connection accepted after the user has set one is never
  taken out of the map by its close, and its destruction is not posted: the server keeps it, with its registered channel, for ever.\<close>

theorem close_callback_replaced:
  assumes "thread_of s (sv_loop s) = tid" and "pool_inv (threadPool s)" and "base_thread (threadPool s) = tid" and "act_keeps act"
    and user: "\<And>f t. \<exists>u. user f c t = Inr u \<and> connections u = connections t \<and> posted u = posted t"
  shows "(cb_close (sv_cbs s) = Some Server_removeConnection \<longrightarrow>
      (\<exists>t. createNewConneciton act tid c fd addr s = Inr t \<and>
        report_close act user tid' c (setCloseCallback_server (User_close f) t) = removeConnection act tid' c (setCloseCallback_server (User_close f) t))) \<and>
    (\<exists>t u. createNewConneciton act tid c fd addr (setCloseCallback_server (User_close f) s) = Inr t \<and>
      report_close act user tid' c t = Inr u \<and> connections u (getConnectionName s) = Some c \<and> posted u = posted t)"
proof -
  let ?s = "setCloseCallback_server (User_close f) s"
  have pre: "thread_of ?s (sv_loop ?s) = tid" "pool_inv (threadPool ?s)" "base_thread (threadPool ?s) = tid"
    "getConnectionName ?s = getConnectionName s" "cb_close (sv_cbs ?s) = Some (User_close f)"
    using assms(1-3) by (simp_all add: setCloseCallback_server_def getConnectionName_def)
  obtain t where t: "createNewConneciton act tid c fd addr ?s = Inr t" "connections t (getConnectionName s) = Some c"
    "cb_close (co_cbs (conn_objs t c)) = Some (User_close f)"
    using create_ok [OF pre(1-3) assms(4), of c fd addr] pre(4,5) by auto
  obtain u where "user f c t = Inr u" "connections u = connections t" "posted u = posted t" using user by blast
  with t have taken: "\<exists>t u. createNewConneciton act tid c fd addr ?s = Inr t \<and>
      report_close act user tid' c t = Inr u \<and> connections u (getConnectionName s) = Some c \<and> posted u = posted t"
    by (intro exI [of _ t] exI [of _ u]) (simp add: report_close_def)
  obtain v where "createNewConneciton act tid c fd addr s = Inr v" "co_cbs (conn_objs v c) = sv_cbs s"
    using create_ok [OF assms(1-4), of c fd addr] by auto
  then show ?thesis using taken by (auto simp: report_close_def setCloseCallback_server_def)
qed

theorem close_callback_replaced_witness:
  "\<exists>t u. createNewConneciton (\<lambda>f s. Inr s) 1 40 9 (InetAddress_any 0) (setCloseCallback_server (User_close 5) demo_server) = Inr t \<and>
     report_close (\<lambda>f s. Inr s) (\<lambda>f c s. Inr s) 2 40 t = Inr u \<and> connections u (getConnectionName demo_server) = Some 40 \<and> posted u = posted t"
  using close_callback_replaced [OF demo_server_ok(1-3) act_keeps_Inr, of "\<lambda>f c s. Inr s" 40 9 "InetAddress_any 0" 2 5] by simp

end
