(* ===== verification/RN_TestServers.thy ===== *)
theory RN_TestServers
  imports RN_TcpConnection RN_TcpServer
begin

text \<open>
  How pending output drains, and two servers of the repository on top of a connection: RN/net/testConnection.cpp, which sends two messages and shuts
  down, and RN/net/testCharGen.cpp, which sends its message again whenever it has been written. What they print is left out.
\<close>

subsection \<open>Draining\<close>

lemma writable_idle:
  assumes "conn_inv s" and "in_loop tid s" and "content (outputBuffer s) = []"
  shows "rfold (conn_exec cb tid) (replicate n Writable) s = Inr s"
  using handleWrite_idle [OF assms] by (induction n) simp_all

lemma drain_run:
  assumes "conn_inv s" and "in_loop tid s" and "quiet_complete cb" and "answers s = map Wrote ks @ as"
    and "length (content (outputBuffer s)) \<le> sum_list ks"
  shows "\<exists>t. rfold (conn_exec cb tid) (replicate (length ks) Writable) s = Inr t \<and> conn_inv t \<and> in_loop tid t \<and>
    content (outputBuffer t) = [] \<and> wire t = wire s @ content (outputBuffer s) \<and> c_state t = c_state s \<and>
    shut_at t = shut_at s @ (if content (outputBuffer s) \<noteq> [] \<and> c_state s = kDisconnecting then [length (wire t)] else [])"
  using assms(1,2,4,5)
proof (induction ks arbitrary: s)
  case (Cons k ks)
  show ?case
  proof (cases "content (outputBuffer s) = []")
    case True
    then show ?thesis using writable_idle [OF Cons.prems(1,2) True, of cb "length (k # ks)"] Cons.prems(1,2)
      by (intro exI [of _ s]) simp
  next
    case pend: False
    obtain t where t: "conn_inv t" "in_loop tid t" "same_ends s t"
        "wire t @ content (outputBuffer t) = wire s @ content (outputBuffer s)"
        "\<forall>k as. answers s = Wrote k # as \<longrightarrow> answers t = as \<and> content (outputBuffer t) = drop k (content (outputBuffer s))"
        "conn_handleWrite cb tid s = (if content (outputBuffer t) = [] then drained cb tid t else Inr t)"
      using handleWrite_cases [OF Cons.prems(1,2) pend, of cb] by blast
    have step: "answers t = map Wrote ks @ as" "content (outputBuffer t) = drop k (content (outputBuffer s))"
      using t(5) Cons.prems(3) by auto
    show ?thesis
    proof (cases "content (outputBuffer t) = []")
      case True
      define u where "u = (if c_state t = kDisconnecting then shutdownWrite t else t)"
      have u: "conn_inv u" "in_loop tid u" "content (outputBuffer u) = []" "wire u = wire t" "c_state u = c_state s"
          "shut_at u = shut_at s @ (if c_state s = kDisconnecting then [length (wire t)] else [])"
        using t(1-3) True by (simp_all add: u_def same_ends_def)
      have "conn_handleWrite cb tid s = Inr u"
        using t(6) True drained_quiet [OF assms(3) t(2,1) True] by (simp add: u_def)
      then show ?thesis using u t(4) True pend writable_idle [OF u(1-3), of cb "length ks"] by (intro exI [of _ u]) simp
    next
      case False
      have "length (content (outputBuffer t)) \<le> sum_list ks" using step(2) Cons.prems(4) by simp
      from Cons.IH [OF t(1,2) step(1) this] t(3,4,6) False pend show ?thesis by (auto simp: same_ends_def)
    qed
  qed
qed (use assms in \<open>auto intro!: exI [of _ s]\<close>)

subsection \<open>A send on an idle connection, by what the kernel takes\<close>

lemma idle_direct:
  assumes "conn_inv s" and "content (outputBuffer s) = []"
  shows "\<not> isWriting (conn_ch s)" "readableBytes (outputBuffer s) = 0"
  using assms content_empty_iff [of "outputBuffer s"] by (simp_all add: conn_inv_def)

definition accept_all :: "string \<Rightarrow> write_answer list \<Rightarrow> conn \<Rightarrow> conn" where
  "accept_all m as s = s\<lparr>answers := as, wire := wire s @ m\<rparr>"

lemma accept_all_keeps [simp]:
  "conn_inv (accept_all m as s) = conn_inv s" "in_loop tid (accept_all m as s) = in_loop tid s" "same_ends s (accept_all m as s)"
  "outputBuffer (accept_all m as s) = outputBuffer s" "wire (accept_all m as s) = wire s @ m" "answers (accept_all m as s) = as"
  "c_state (accept_all m as s) = c_state s" "shut_at (accept_all m as s) = shut_at s"
  by (simp_all add: accept_all_def conn_inv_def in_loop_def same_ends_def)

lemma store_rest_answers: "store_rest tid rest s = Inr t \<Longrightarrow> answers t = answers s"
  by (auto simp: store_rest_def Let_def rbind_eq_Inr_iff conn_update_def loop_updateChannel_def rassert_eq_Inr_iff notify_mark_def
    split: if_splits)

lemma send_taken:
  assumes "conn_inv s" and "in_loop tid s" and "c_state s = kConnected" and "content (outputBuffer s) = []"
    and "answers s = Wrote n # as" and "length m \<le> n"
  shows "send cb tid m s = run_writeComplete cb tid (accept_all m as s)"
proof -
  have w: "sock_write m s = (int (length m), accept_all m as s)" using assms(5,6) by (simp add: sock_write_def accept_all_def)
  have "store_rest tid [] = Inr" "rbind r Inr = r" for r :: "conn result"
    by (simp_all add: store_rest_def fun_eq_iff rbind_def split: sum.split)
  then show ?thesis
    using w assms(3) idle_direct [OF assms(1,4)]
    by (simp add: send_in_loop [OF assms(2)] sendInLoop_unfold [OF assms(2)] rbind_assoc)
qed

lemma send_cut:
  assumes "conn_inv s" and "in_loop tid s" and "c_state s = kConnected" and "content (outputBuffer s) = []"
    and "answers s = Wrote n # as" and "n < length m"
  shows "\<exists>t. send cb tid m s = Inr t \<and> conn_inv t \<and> in_loop tid t \<and> same_ends s t \<and> wire t = wire s @ take n m \<and>
    content (outputBuffer t) = drop n m \<and> answers t = as"
proof -
  define u where "u = accept_all (take n m) as s"
  have w: "sock_write m s = (int n, u)" using assms(5,6) by (simp add: sock_write_def accept_all_def u_def Let_def)
  have u: "conn_inv u" "in_loop tid u" "content (outputBuffer u) = []" "same_ends s u" "wire u = wire s @ take n m"
    using assms(1,2,4) by (simp_all add: u_def)
  obtain t where t: "store_rest tid (drop n m) u = Inr t" "conn_inv t" "in_loop tid t" "same_ends u t" "wire t = wire u"
      "content (outputBuffer t) = drop n m"
    using store_rest_empty [OF u(1-3)] by blast
  have "send cb tid m s = Inr t"
    using w t(1) assms(3,6) idle_direct [OF assms(1,4)] by (simp add: send_in_loop [OF assms(2)] sendInLoop_unfold [OF assms(2)])
  moreover have "answers t = as" using store_rest_answers [OF t(1)] by (simp add: u_def)
  ultimately show ?thesis using t u(4,5) same_ends_trans by (intro exI [of _ t]) simp
qed

lemma send_blocked:
  assumes "conn_inv s" and "in_loop tid s" and "c_state s = kConnected" and "content (outputBuffer s) = []" and "answers s = []"
  shows "\<exists>t. send cb tid m s = Inr t \<and> conn_inv t \<and> in_loop tid t \<and> same_ends s t \<and> wire t = wire s \<and> content (outputBuffer t) = m"
proof -
  obtain t where t: "store_rest tid m s = Inr t" "conn_inv t" "in_loop tid t" "same_ends s t" "wire t = wire s" "content (outputBuffer t) = m"
    using store_rest_empty [OF assms(1,2,4)] by blast
  then show ?thesis
    using assms(3,5) idle_direct [OF assms(1,4)]
    by (intro exI [of _ t]) (simp add: send_in_loop [OF assms(2)] sendInLoop_unfold [OF assms(2)] sock_write_def)
qed

subsection \<open>testConnection.cpp\<close>

definition message1 :: string where
  "message1 = replicate 100 (CHR ''A'')"

definition message2 :: string where
  "message2 = replicate 200 (CHR ''B'')"

text \<open>The callbacks of a connection of the server; \<open>close\<close> is what the server sets as the close callback.\<close>

definition tc_onConnection :: "conn_cbs \<Rightarrow> int \<Rightarrow> conn \<Rightarrow> conn result" where
  "tc_onConnection cb tid s =
     (if connected s then rbind (send cb tid message1 s) (\<lambda>s. rbind (send cb tid message2 s) (shutdown tid)) else Inr s)"

definition tc_onMessage :: "timestamp \<Rightarrow> conn \<Rightarrow> conn result" where
  "tc_onMessage receivedTime s = Inr (s\<lparr>inputBuffer := snd (retirveAllAsString (inputBuffer s))\<rparr>)"

definition tc_base :: "(conn \<Rightarrow> conn result) \<Rightarrow> conn_cbs" where
  "tc_base close = \<lparr>connectionCallback = None, messageCallback = Some tc_onMessage, closeCallback_fn = Some close,
     writeCompleteCallback = None, highWaterMarkCallback = None\<rparr>"

definition tc_cbs :: "(conn \<Rightarrow> conn result) \<Rightarrow> int \<Rightarrow> conn_cbs" where
  "tc_cbs close tid = set_connectionCallback (Some (tc_onConnection (tc_base close) tid)) (tc_base close)"

lemma tc_quiet [simp]: "quiet_complete (tc_base close)" "quiet_complete (tc_cbs close tid)"
  by (simp_all add: quiet_complete_def tc_base_def tc_cbs_def set_connectionCallback_def)

subsection \<open>testCharGen.cpp\<close>

definition chargen_line :: string where
  "chargen_line = (let line = map (\<lambda>i. char_of (i :: nat)) [33 ..< 127] in line @ line)"

definition chargen_message :: string where
  "chargen_message = concat (map (\<lambda>i. take 72 (drop i chargen_line) @ [CHR 0x0A]) [0 ..< 127 - 33])"

text \<open>
  \<open>onWriteComplete\<close> sends the message again, and a send whose message is written at once calls it from within. \<open>depth\<close> bounds the
  calls of \<open>onWriteComplete\<close> that the stack has room for.
\<close>

fun chargen_cbs :: "nat \<Rightarrow> int \<Rightarrow> (conn \<Rightarrow> conn result) \<Rightarrow> conn_cbs" where
  "chargen_cbs 0 tid close = set_writeCompleteCallback (Some (\<lambda>s. Inl StackOverflow)) (tc_base close)"
| "chargen_cbs (Suc depth) tid close =
     set_writeCompleteCallback (Some (\<lambda>s. send (chargen_cbs depth tid close) tid chargen_message s)) (tc_base close)"

definition chargen_onConnection :: "nat \<Rightarrow> int \<Rightarrow> (conn \<Rightarrow> conn result) \<Rightarrow> conn \<Rightarrow> conn result" where
  "chargen_onConnection depth tid close s =
     (if connected s then send (chargen_cbs depth tid close) tid chargen_message s else Inr s)"

lemma chargen_complete:
  "in_loop tid s \<Longrightarrow> run_writeComplete (chargen_cbs depth tid close) tid s =
     (case depth of 0 \<Rightarrow> Inl StackOverflow | Suc d \<Rightarrow> send (chargen_cbs d tid close) tid chargen_message s)"
  by (cases depth) (simp_all add: run_writeComplete_def set_writeCompleteCallback_def conn_runInLoop_def callback_fn_def in_loop_def isInLoopThread_def)

lemma chargen_nested:
  assumes "conn_inv s" and "in_loop tid s" and "c_state s = kConnected" and "content (outputBuffer s) = []"
    and "answers s = map Wrote ns" and "\<forall>n\<in>set ns. length chargen_message \<le> n"
  shows "if depth < length ns then send (chargen_cbs depth tid close) tid chargen_message s = Inl StackOverflow
    else \<exists>t. send (chargen_cbs depth tid close) tid chargen_message s = Inr t \<and>
      wire t = wire s @ concat (replicate (length ns) chargen_message) \<and> content (outputBuffer t) = chargen_message"
  using assms
proof (induction ns arbitrary: depth s)
  case Nil
  then show ?case using send_blocked [OF Nil.prems(1-4), of "chargen_cbs depth tid close" chargen_message] by auto
next
  case (Cons n ns)
  define u where "u = accept_all chargen_message (map Wrote ns) s"
  have u: "conn_inv u" "in_loop tid u" "c_state u = kConnected" "content (outputBuffer u) = []" "answers u = map Wrote ns"
      "wire u = wire s @ chargen_message"
    using Cons.prems by (simp_all add: u_def)
  have r: "send (chargen_cbs depth tid close) tid chargen_message s =
      (case depth of 0 \<Rightarrow> Inl StackOverflow | Suc d \<Rightarrow> send (chargen_cbs d tid close) tid chargen_message u)"
    using send_taken [OF Cons.prems(1-4), of n "map Wrote ns" chargen_message] Cons.prems(5,6) chargen_complete [OF u(2)]
    by (simp add: u_def)
  show ?case
  proof (cases depth)
    case (Suc d)
    then show ?thesis using Cons.IH [OF u(1-5), of d] Cons.prems(6) r u(6) by (auto split: if_splits)
  qed (use r in simp)
qed

lemma tc_established:
  assumes "conn_fresh s" and "in_loop tid s"
  shows "\<exists>u. connectionEstablished bld (tc_cbs close tid) tid s =
      rbind (send (tc_base close) tid message1 u) (\<lambda>s. rbind (send (tc_base close) tid message2 s) (shutdown tid)) \<and>
    conn_inv u \<and> half_close_inv u \<and> in_loop tid u \<and> c_state u = kConnected \<and> content (outputBuffer u) = [] \<and> wire u = [] \<and>
    shut_at u = [] \<and> answers u = answers s"
proof -
  obtain u where u: "connectionEstablished bld (tc_cbs close tid) tid s = callback_fn (connectionCallback (tc_cbs close tid)) u" "conn_inv u"
      "in_loop tid u" "c_state u = kConnected" "outputBuffer u = outputBuffer s" "shut_at u = []" "wire u = []" "answers u = answers s"
    using connectionEstablished_calls [OF assms] by blast
  have "content (outputBuffer u) = []" using u(5) assms(1) by (simp add: conn_fresh_def)
  then show ?thesis using u
    by (intro exI [of _ u])
      (simp add: tc_cbs_def set_connectionCallback_def callback_fn_def tc_onConnection_def connected_def half_close_inv_def)
qed

subsection \<open>The set-up of the servers\<close>

text \<open>
  The two programs make a \<open>TcpServer\<close> on a loop of their own thread, give it their functions (1 is \<open>onConnection\<close>, 2 \<open>onMessage\<close>, 3
  \<open>onWriteComplete\<close>) and start it.
\<close>

definition test_connection_main ::
  "(server_functor \<Rightarrow> server \<Rightarrow> server result) \<Rightarrow> int \<Rightarrow> (nat \<Rightarrow> nat) \<Rightarrow> (nat \<Rightarrow> conn_obj) \<Rightarrow> server result" where
  "test_connection_main act tid ioLoop objs =
     server_start act tid ioLoop
       (setConnectionCallback_server 1 (setMessageCallback_server 2 (TcpServer_new ''TestConnection'' 0 (\<lambda>l. tid) objs)))"

definition test_chargen_main ::
  "(server_functor \<Rightarrow> server \<Rightarrow> server result) \<Rightarrow> int \<Rightarrow> (nat \<Rightarrow> nat) \<Rightarrow> (nat \<Rightarrow> conn_obj) \<Rightarrow> server result" where
  "test_chargen_main act tid ioLoop objs =
     server_start act tid ioLoop
       (setWriteCompleteCallback_server 3 (setConnectionCallback_server 1 (setMessageCallback_server 2
         (TcpServer_new ''TestConnection'' 0 (\<lambda>l. tid) objs))))"

text \<open>Started, the server listens at once; a connection it creates runs on the same loop, and carries the program's functions and the server's own close.\<close>

lemma test_servers_ready:
  assumes main: "test_connection_main act tid ioLoop objs = Inr s \<and> cb3 = None \<or> test_chargen_main act tid ioLoop objs = Inr s \<and> cb3 = Some 3"
    and act: "act_keeps act"
  shows "sv_listening s \<and> (\<exists>t. createNewConneciton act tid c fd addr s = Inr t \<and> connections t = [''TestConnection#1'' \<mapsto> c] \<and> posted t = [] \<and>
    co_loop (conn_objs t c) = 0 \<and>
    co_cbs (conn_objs t c) = \<lparr>cb_message = Some 2, cb_connection = Some 1, cb_close = Some Server_removeConnection, cb_writeComplete = cb3,
      cb_highWaterMark = None\<rparr>)"
proof -
  have s: "sv_listening s" "thread_of s = (\<lambda>l. tid)" "sv_loop s = 0" "pool_loops (threadPool s) = []" "base_thread (threadPool s) = tid"
      "baseLoop (threadPool s) = 0" "sv_name s = ''TestConnection''" "nextConnectionId s = 1" "connections s = Map.empty" "posted s = []"
      "sv_cbs s = \<lparr>cb_message = Some 2, cb_connection = Some 1, cb_close = Some Server_removeConnection, cb_writeComplete = cb3, cb_highWaterMark = None\<rparr>"
    using main
    by (auto simp: test_connection_main_def test_chargen_main_def server_start_def TcpServer_new_def setCloseCallback_server_def setMessageCallback_server_def
        setConnectionCallback_server_def setWriteCompleteCallback_server_def pool_start_def server_runInLoop_def run_server_functor_def EventLoopThreadPool_new_def)
  have name: "getConnectionName s = ''TestConnection#1''"
    by (simp add: getConnectionName_def s RN_TcpServer.c_str_def snprintf_text_def fmt_d_def dec.simps digit_numerals)
  have pool: "thread_of s (sv_loop s) = tid" "pool_inv (threadPool s)" "base_thread (threadPool s) = tid" "getNextLoop tid (threadPool s) = Inr (0, threadPool s)"
    using s(2-6) by (simp_all add: pool_inv_def getNextLoop_def)
  obtain t io where t: "createNewConneciton act tid c fd addr s = Inr t" "getNextLoop tid (threadPool s) = Inr (io, threadPool t)"
      "connections t = (connections s)(getConnectionName s \<mapsto> c)"
      "conn_objs t = (conn_objs s)(c := \<lparr>co_name = getConnectionName s, co_loop = io, co_fd = fd, co_peer = addr, co_cbs = sv_cbs s\<rparr>)"
      "posted t = posted s @ (if thread_of s io = tid then [] else [(io, ConnectionEstablished c)])"
    using create_ok [OF pool(1-3) act, of c fd addr] by blast
  have "io = 0" using t(2) pool(4) by simp
  then show ?thesis using t(1,3-5) s(1,2,9-11) by (intro conjI exI [of _ t]) (simp_all only: name, simp_all)
qed

subsection \<open>Properties\<close>

text \<open>
  Pending output drains: when the answers of the kernel to the coming writes cover what is pending, as many writability events put all of it on the
  wire, in order and with nothing else, after which the loop no longer watches for writability; and a connection that is shutting down half-closes exactly
  once, right after the last byte.
\<close>

theorem output_drains:
  assumes "conn_inv s" and "in_loop tid s" and "quiet_complete cb" and "answers s = map Wrote ks @ as"
    and "length (content (outputBuffer s)) \<le> sum_list ks"
  shows "\<exists>t. rfold (conn_exec cb tid) (replicate (length ks) Writable) s = Inr t \<and>
    content (outputBuffer t) = [] \<and> \<not> isWriting (conn_ch t) \<and> wire t = wire s @ content (outputBuffer s) \<and> c_state t = c_state s \<and>
    shut_at t = shut_at s @ (if content (outputBuffer s) \<noteq> [] \<and> c_state s = kDisconnecting then [length (wire t)] else [])"
  using drain_run [OF assms] by (auto simp: conn_inv_def)

lemma output_drains_witness:
  "\<exists>t. rfold (conn_exec demo_cbs 1) (replicate 3 Writable) (demo_conn ''abc'' 100 [Wrote 1, Wrote 0, Wrote 9]) = Inr t \<and> wire t = ''abc''"
  using output_drains [of "demo_conn ''abc'' 100 [Wrote 1, Wrote 0, Wrote 9]" 1 demo_cbs "[1, 0, 9]" "[]"] by (auto simp: numeral_3_eq_3)

text \<open>The two messages of \<open>onConnection\<close> and its \<open>shutdown\<close>, when the first is taken whole and when it is cut.\<close>

lemma message2_sent:
  assumes v: "conn_inv v" "in_loop tid v" "c_state v = kConnected" "content (outputBuffer v) = []" and ans: "answers v = Wrote k # as"
  shows "\<exists>w. send (tc_base close) tid message2 v = Inr w \<and> conn_inv w \<and> in_loop tid w \<and> same_ends v w \<and> answers w = as \<and>
    wire w @ content (outputBuffer w) = wire v @ message2 \<and> length (content (outputBuffer w)) = 200 - k"
proof (cases "200 \<le> k")
  case True
  have "in_loop tid (accept_all message2 as v)" using v(2) by simp
  then have "send (tc_base close) tid message2 v = Inr (accept_all message2 as v)"
    using send_taken [OF v ans, of message2 "tc_base close"] run_writeComplete_quiet [OF tc_quiet(1)] True by (simp add: message2_def)
  then show ?thesis using v True by (intro exI [of _ "accept_all message2 as v"]) simp
next
  case False
  then have "k < length message2" by (simp add: message2_def)
  from send_cut [OF v ans this, of "tc_base close"] obtain w where "send (tc_base close) tid message2 v = Inr w" "conn_inv w" "in_loop tid w"
    "same_ends v w" "wire w = wire v @ take k message2" "content (outputBuffer w) = drop k message2" "answers w = as" by blast
  moreover have "length message2 = 200" by (simp add: message2_def)
  ultimately show ?thesis by (intro exI [of _ w]) simp
qed

lemma both_messages_sent:
  assumes u: "conn_inv u" "in_loop tid u" "c_state u = kConnected" "content (outputBuffer u) = []" "wire u = []" "shut_at u = []"
    and ans: "answers u = Wrote n # Wrote k # as" "100 \<le> n"
  shows "\<exists>v w t. send (tc_base close) tid message1 u = Inr v \<and> send (tc_base close) tid message2 v = Inr w \<and> shutdown tid w = Inr t \<and>
    conn_inv t \<and> in_loop tid t \<and> wire t @ content (outputBuffer t) = message1 @ message2 \<and> length (content (outputBuffer t)) = 200 - k \<and>
    answers t = as \<and> c_state t = kDisconnecting \<and> shut_at t = (if content (outputBuffer t) = [] then [300] else [])"
proof -
  define v where "v = accept_all message1 (Wrote k # as) u"
  have v: "conn_inv v" "in_loop tid v" "c_state v = kConnected" "content (outputBuffer v) = []" "wire v = message1" "shut_at v = []"
      "answers v = Wrote k # as"
    using u by (simp_all add: v_def)
  have s1: "send (tc_base close) tid message1 u = Inr v"
    using send_taken [OF u(1-4) ans(1)] ans(2) run_writeComplete_quiet [OF tc_quiet(1) v(2)] by (simp add: v_def message1_def)
  obtain w where w: "send (tc_base close) tid message2 v = Inr w" "conn_inv w" "in_loop tid w" "same_ends v w" "answers w = as"
      "wire w @ content (outputBuffer w) = message1 @ message2" "length (content (outputBuffer w)) = 200 - k"
    using message2_sent [OF v(1-4,7), of close] v(5) by auto
  define t where "t = (if content (outputBuffer w) = [] then shutdownWrite (setState kDisconnecting w) else setState kDisconnecting w)"
  have "c_state w = kConnected" "shut_at w = []" using w(4) v(3,6) by (simp_all add: same_ends_def)
  then have "shutdown tid w = Inr t" using shutdown_eq [OF w(3,2)] by (simp add: t_def)
  moreover have "content (outputBuffer w) = [] \<Longrightarrow> length (wire w) = 300" using w(6) by (simp add: message1_def message2_def)
  moreover have "answers (shutdownWrite (setState kDisconnecting w)) = answers w" "answers (setState kDisconnecting w) = answers w"
    by (simp_all add: shutdownWrite_def setState_def)
  ultimately show ?thesis using s1 w \<open>shut_at w = []\<close> by (intro exI [of _ v] exI [of _ w] exI [of _ t]) (auto simp: t_def)
qed

lemma first_message_cut:
  assumes u: "conn_inv u" "in_loop tid u" "c_state u = kConnected" "content (outputBuffer u) = []" "wire u = []" "shut_at u = []"
    and ans: "answers u = Wrote n # as" "n < 100"
  shows "\<exists>v w t stale. send (tc_base close) tid message1 u = Inr v \<and> send (tc_base close) tid message2 v = Inr w \<and> shutdown tid w = Inr t \<and>
    conn_inv t \<and> in_loop tid t \<and> answers t = as \<and>
    wire t = take n message1 \<and> content (outputBuffer t) = message2 @ stale \<and> length stale = 100 - n \<and> c_state t = kDisconnecting \<and> shut_at t = []"
proof -
  have cut: "n < length message1" using ans(2) by (simp add: message1_def)
  obtain v where v: "send (tc_base close) tid message1 u = Inr v" "conn_inv v" "in_loop tid v" "same_ends u v" "wire v = take n message1"
      "content (outputBuffer v) = drop n message1" "answers v = as"
    using send_cut [OF u(1-4) ans(1) cut, of "tc_base close"] u(5) by auto
  have pend: "content (outputBuffer v) \<noteq> []" using cut v(6) by simp
  have vi: "conn_wired v" "buffer_inv (outputBuffer v)" "isWriting (conn_ch v) \<longleftrightarrow> content (outputBuffer v) \<noteq> []"
    using v(2) by (simp_all add: conn_inv_def)
  obtain w stale where w: "store_rest tid message2 v = Inr w" "conn_inv w" "in_loop tid w" "same_ends v w" "wire w = wire v"
      "content (outputBuffer w) = message2 @ drop (length message2) (content (outputBuffer v)) @ stale"
      "length stale = min (length message2) (length (content (outputBuffer v)))"
    using store_rest_ok [OF vi(1) v(3) vi(2,3), of message2] by blast
  have s2: "send (tc_base close) tid message2 v = Inr w"
    using w(1) sendInLoop_pending [OF v(2,3) pend] v(4) u(3) by (simp add: send_in_loop [OF v(3)] same_ends_def)
  have sizes: "content (outputBuffer w) = message2 @ stale" "length stale = 100 - n"
    using w(6,7) v(6) ans(2) by (simp_all add: message1_def message2_def)
  have "shutdown tid w = Inr (setState kDisconnecting w)"
    using shutdown_eq [OF w(3,2)] w(4) v(4) u(3) sizes(1) by (simp add: same_ends_def message2_def)
  moreover have "answers (setState kDisconnecting w) = as" using store_rest_answers [OF w(1)] v(7) by (simp add: setState_def)
  ultimately show ?thesis using u(6) v(1,4,5) s2 w(2-5) sizes
    by (intro exI [of _ v] exI [of _ w] exI [of _ "setState kDisconnecting w"] exI [of _ stale]) (simp add: same_ends_def)
qed

text \<open>\<open>onConnection\<close> is a callback of the kind a connection's life allows.\<close>

lemma tc_behaves: "behaving tid (connectionCallback (tc_cbs close tid))"
proof -
  let ?f = "tc_onConnection (tc_base close) tid"
  note quiet = quiet_discreet [OF tc_quiet(1)]
  have up: "\<exists>t. ?f s = Inr t \<and> conn_inv t \<and> in_loop tid t \<and> same_socket s t \<and> c_state t \<in> {kConnected, kDisconnecting}"
    if s: "conn_inv s \<and> in_loop tid s \<and> c_state s = kConnected" for s
  proof -
    obtain v where v: "send (tc_base close) tid message1 s = Inr v" "exec_result tid (Send message1) s v"
      using exec_send [OF _ _ quiet, of s tid] s by auto
    obtain w where w: "send (tc_base close) tid message2 v = Inr w" "exec_result tid (Send message2) v w"
      using exec_send [OF _ _ quiet, of v tid] v(2) by (auto simp: exec_result_def)
    obtain t where t: "shutdown tid w = Inr t" "exec_result tid Shutdown w t"
      using exec_shutdown [of w tid "tc_base close"] w(2) by (auto simp: exec_result_def)
    have "same_socket s t" using v(2) w(2) t(2) same_socket_trans unfolding exec_result_def by blast
    then show ?thesis using s v w t by (intro exI [of _ t]) (auto simp: tc_onConnection_def connected_def exec_result_def)
  qed
  have down: "?f s = Inr s" if "c_state s = kDisconnected" for s
    using that by (simp add: tc_onConnection_def connected_def)
  show ?thesis
    unfolding behaving_def using up down by (auto simp: tc_cbs_def set_connectionCallback_def)
qed

text \<open>
  C36: the server of testConnection.cpp, for a kernel that accepts \<open>n\<close> bytes at the first write and, over the writes that follow (\<open>ks\<close>), 300 more. A
  new connection is sent the two messages and shut down by \<open>onConnection\<close>; after at most as many writability events as \<open>ks\<close> has writes, nothing is
  pending, the loop no longer watches for writability, and the write side has been shut down once, after exactly 300 bytes. When the
  first write took the whole first message, those bytes are the two messages; when it took only a part, the second message has overwritten the rest of the
  first, and the peer gets stale bytes after it.
\<close>

theorem test_connection_serves:
  assumes "conn_fresh s" and "in_loop tid s" and "answers s = Wrote n # map Wrote ks @ as" and "300 \<le> sum_list ks"
  shows "\<exists>t m u. connectionEstablished bld (tc_cbs close tid) tid s = Inr t \<and> c_state t = kDisconnecting \<and>
    shut_at t = (if content (outputBuffer t) = [] then [300] else []) \<and>
    m \<le> length ks \<and> rfold (conn_exec (tc_cbs close tid) tid) (replicate m Writable) t = Inr u \<and>
    content (outputBuffer u) = [] \<and> \<not> isWriting (conn_ch u) \<and> shut_at u = [300] \<and>
    (if 100 \<le> n then wire u = message1 @ message2 else \<exists>stale. length stale = 100 - n \<and> wire u = take n message1 @ message2 @ stale)"
proof -
  obtain u0 where u0: "connectionEstablished bld (tc_cbs close tid) tid s =
      rbind (send (tc_base close) tid message1 u0) (\<lambda>s. rbind (send (tc_base close) tid message2 s) (shutdown tid))"
      "conn_inv u0" "in_loop tid u0" "c_state u0 = kConnected" "content (outputBuffer u0) = []" "wire u0 = []" "shut_at u0 = []"
      "answers u0 = Wrote n # map Wrote ks @ as"
    using tc_established [OF assms(1,2), of bld close] assms(3) by auto
  obtain k rest where ks: "ks = k # rest" using assms(4) by (cases ks) auto
  obtain t qs where t: "connectionEstablished bld (tc_cbs close tid) tid s = Inr t" "conn_inv t" "in_loop tid t" "c_state t = kDisconnecting"
      "shut_at t = (if content (outputBuffer t) = [] then [300] else [])" "answers t = map Wrote qs @ as"
      "length qs \<le> length ks" "length (content (outputBuffer t)) \<le> sum_list qs"
      "length (wire t @ content (outputBuffer t)) = 300"
      "if 100 \<le> n then wire t @ content (outputBuffer t) = message1 @ message2
       else \<exists>stale. length stale = 100 - n \<and> wire t @ content (outputBuffer t) = take n message1 @ message2 @ stale"
  proof (cases "100 \<le> n")
    case True
    have ans: "answers u0 = Wrote n # Wrote k # map Wrote rest @ as" using u0(8) ks by simp
    from both_messages_sent [OF u0(2-7) ans True, of close] u0(1) obtain t where
      t: "connectionEstablished bld (tc_cbs close tid) tid s = Inr t" "conn_inv t" "in_loop tid t"
        "wire t @ content (outputBuffer t) = message1 @ message2" "length (content (outputBuffer t)) = 200 - k"
        "answers t = map Wrote rest @ as" "c_state t = kDisconnecting" "shut_at t = (if content (outputBuffer t) = [] then [300] else [])"
      by force
    have "length (wire t @ content (outputBuffer t)) = 300" using t(4) by (simp add: message1_def message2_def)
    then show thesis by (intro that [of t rest]) (use t True ks assms(4) in simp_all)
  next
    case False
    with first_message_cut [OF u0(2-8), of close] u0(1) obtain t stale where
      t: "connectionEstablished bld (tc_cbs close tid) tid s = Inr t" "conn_inv t" "in_loop tid t" "answers t = map Wrote ks @ as"
        "wire t = take n message1" "content (outputBuffer t) = message2 @ stale" "length stale = 100 - n" "c_state t = kDisconnecting" "shut_at t = []"
      by force
    have "length (wire t @ content (outputBuffer t)) = 300" using t(5-7) False by (simp add: message1_def message2_def)
    moreover have "content (outputBuffer t) \<noteq> []" using t(6) by (simp add: message2_def)
    ultimately show thesis by (intro that [of t ks]) (use t False assms(4) in \<open>auto simp: message2_def\<close>)
  qed
  obtain u where u: "rfold (conn_exec (tc_cbs close tid) tid) (replicate (length qs) Writable) t = Inr u" "conn_inv u"
      "content (outputBuffer u) = []" "wire u = wire t @ content (outputBuffer t)"
      "shut_at u = shut_at t @ (if content (outputBuffer t) \<noteq> [] \<and> c_state t = kDisconnecting then [length (wire u)] else [])"
    using drain_run [OF t(2,3) tc_quiet(2) t(6,8)] by blast
  have "\<not> isWriting (conn_ch u)" using u(2,3) by (simp add: conn_inv_def)
  moreover have "shut_at u = [300]" using u(4,5) t(4,5,9) by auto
  ultimately show ?thesis
    using t(1,4,5,7,10) u(1,3,4) by (intro exI [of _ t] exI [of _ "length qs"] exI [of _ u]) simp
qed

lemma test_connection_serves_witness:
  "\<exists>t m u stale. connectionEstablished Debug (tc_cbs Inr 1) 1 (TcpConnection_new demo_cloop ''c'' 9 5 False [Wrote 60, Wrote 250, Wrote 90]) = Inr t \<and>
     rfold (conn_exec (tc_cbs Inr 1) 1) (replicate m Writable) t = Inr u \<and> shut_at u = [300] \<and> length stale = 40 \<and>
     wire u = replicate 60 (CHR ''A'') @ message2 @ stale"
proof -
  let ?s = "TcpConnection_new demo_cloop ''c'' 9 5 False [Wrote 60, Wrote 250, Wrote 90]"
  have "conn_fresh ?s" "in_loop 1 ?s" using TcpConnection_new_fresh [of demo_cloop 9 5] by simp_all
  from test_connection_serves [OF this, of 60 "[250, 90]" "[]" Debug Inr] obtain t m u where
    "connectionEstablished Debug (tc_cbs Inr 1) 1 ?s = Inr t" "rfold (conn_exec (tc_cbs Inr 1) 1) (replicate m Writable) t = Inr u"
    "shut_at u = [300]" "\<exists>stale. length stale = 40 \<and> wire u = take 60 message1 @ message2 @ stale"
    by (auto simp: TcpConnection_new_def)
  moreover have "take 60 message1 = replicate 60 (CHR ''A'')" by (simp add: message1_def)
  ultimately show ?thesis by auto
qed

text \<open>
  The completion callback is called inside the send: with the server of testCharGen.cpp, as long as the kernel takes each message at once, every send
  is a call deeper in the stack than the one before. A stack with room for \<open>depth\<close> calls overflows exactly when the kernel takes more messages
  than that before it blocks; otherwise all these messages are on the wire and one more is buffered.
\<close>

theorem chargen_recursion:
  assumes "conn_inv s" and "in_loop tid s" and "c_state s = kConnected" and "content (outputBuffer s) = []"
    and "answers s = map Wrote ns" and "\<forall>n\<in>set ns. length chargen_message \<le> n"
  shows "(chargen_onConnection depth tid close s = Inl StackOverflow \<longleftrightarrow> depth < length ns) \<and>
    (length ns \<le> depth \<longrightarrow> (\<exists>t. chargen_onConnection depth tid close s = Inr t \<and>
      wire t = wire s @ concat (replicate (length ns) chargen_message) \<and> content (outputBuffer t) = chargen_message))"
  using chargen_nested [OF assms, of depth close] assms(3)
  by (auto simp: chargen_onConnection_def connected_def split: if_splits)

lemma chargen_recursion_witness:
  "chargen_onConnection 2 1 Inr (demo_conn [] 100 [Wrote 6862, Wrote 6862, Wrote 6862]) = Inl StackOverflow"
proof -
  have "length chargen_line = 188" by (simp add: chargen_line_def Let_def)
  then have "length chargen_message = 6862"
    by (simp add: chargen_message_def length_concat comp_def upt_rec)
  then show ?thesis
    using chargen_recursion [of "demo_conn [] 100 [Wrote 6862, Wrote 6862, Wrote 6862]" 1 "[6862, 6862, 6862]" 2 Inr] by simp
qed

end
