(* ===== verification/RN_ConnectionLoop.thy ===== *)
theory RN_ConnectionLoop
  imports RN_TestServers
begin

text \<open>
  A connection driven by its loop: one iteration of \<open>EventLoop::loop\<close> (RN/net/EventLoop.cpp) for a loop whose poller holds the connection's channel,
  from what the kernel marks through \<open>Poller::poll\<close> and \<open>Channel::handleEvent\<close> to the handlers of RN/net/TcpConnection.cpp and the functors they leave.
  The state is the connection with its loop; what the channels of others do is the argument \<open>other\<close>.
\<close>

subsection \<open>One iteration\<close>

text \<open>The callbacks that the constructor of the connection bound to its channel.\<close>

definition conn_invoke ::
  "build \<Rightarrow> conn_cbs \<Rightarrow> int \<Rightarrow> readv_result \<Rightarrow> conn_callback callback_of invocation \<Rightarrow> conn \<Rightarrow> conn result" where
  "conn_invoke bld cb tid r call s = (case call of
     Call_read (User_callback Conn_read) t \<Rightarrow> conn_handleRead bld cb tid r t s
   | Call_write (User_callback Conn_write) \<Rightarrow> conn_handleWrite cb tid s
   | Call_close (User_callback Conn_close) \<Rightarrow> handleClose bld cb tid s
   | Call_error (User_callback Conn_error) \<Rightarrow> handleError s
   | _ \<Rightarrow> Inl BadCall)"

definition conn_store :: "conn_callback callback_of channel \<Rightarrow> conn \<Rightarrow> conn" where
  "conn_store ch s = s\<lparr>c_loop := store_channel (c_channel s) ch (c_loop s)\<rparr>"

definition conn_handleEvent :: "build \<Rightarrow> conn_cbs \<Rightarrow> int \<Rightarrow> readv_result \<Rightarrow> timestamp \<Rightarrow> conn \<Rightarrow> conn result" where
  "conn_handleEvent bld cb tid r receivedTime s =
     rbind (handleEvent (\<lambda>call (ch, s). rbind (conn_invoke bld cb tid r call (conn_store ch s)) (\<lambda>s. Inr (conn_ch s, s)))
             receivedTime (conn_ch s, s))
       (\<lambda>(ch, s). Inr (conn_store ch s))"

definition run_loop_functor :: "build \<Rightarrow> conn_cbs \<Rightarrow> int \<Rightarrow> timestamp \<Rightarrow> conn_functor loop_functor \<Rightarrow> conn \<Rightarrow> conn result" where
  "run_loop_functor bld cb tid clk f s = (case f of
     User_functor u \<Rightarrow> run_conn_functor bld cb tid u s
   | AddTimer a \<Rightarrow> rbind (addTimerInLoop (tq_thread (c_loop s)) clk a (c_loop s)) (\<lambda>l. Inr (s\<lparr>c_loop := l\<rparr>)))"

definition conn_doPendingFunctors :: "build \<Rightarrow> conn_cbs \<Rightarrow> int \<Rightarrow> timestamp \<Rightarrow> conn \<Rightarrow> conn result" where
  "conn_doPendingFunctors bld cb tid clk s =
     (let (functors, l) = swap_functors ((c_loop s)\<lparr>callingPendingFunctors := True\<rparr>)
      in rbind (rfold (run_loop_functor bld cb tid clk) functors (s\<lparr>c_loop := l\<rparr>))
           (\<lambda>s. Inr (s\<lparr>c_loop := (c_loop s)\<lparr>callingPendingFunctors := False\<rparr>\<rparr>)))"

definition conn_iteration ::
  "build \<Rightarrow> conn_cbs \<Rightarrow> int \<Rightarrow> (nat \<Rightarrow> conn \<Rightarrow> conn result) \<Rightarrow> readv_result \<Rightarrow> poll_result \<Rightarrow> timestamp \<Rightarrow> timestamp \<Rightarrow> conn \<Rightarrow> conn result" where
  "conn_iteration bld cb tid other r polled receivedTime clk s =
     rbind (poll_channels \<lparr>in_poll = polled, in_time = receivedTime, in_timer_now = 0, in_timer_read = 0, in_timer_clock = clk\<rparr>
             ((c_loop s)\<lparr>activeChannels := []\<rparr>)) (\<lambda>l.
     rbind (rfold (\<lambda>c s. if c = c_channel s then conn_handleEvent bld cb tid r receivedTime s else other c s)
             (activeChannels l) (s\<lparr>c_loop := l\<rparr>)) (\<lambda>s.
     conn_doPendingFunctors bld cb tid clk s))"

subsection \<open>A poll that marks one channel\<close>

text \<open>The kernel marks slot \<open>i\<close> with the events \<open>rv\<close> and no other.\<close>

definition marks :: "nat \<Rightarrow> 16 word \<Rightarrow> 'c poller \<Rightarrow> poll_result" where
  "marks i rv p = Poll_ok 1 ((replicate (length (pollfds p)) 0)[i := rv])"

lemma filter_single:
  "i < n \<Longrightarrow> rv \<noteq> 0 \<Longrightarrow> filter (\<lambda>r. r \<noteq> 0) ((replicate n 0)[i := rv]) = [rv :: 16 word]"
proof -
  assume i: "i < n" and rv: "rv \<noteq> 0"
  have "(replicate n 0)[i := rv] = replicate i 0 @ rv # replicate (n - Suc i) (0 :: 16 word)"
    using i by (simp add: upd_conv_take_nth_drop)
  then show ?thesis using rv by simp
qed

lemma poll_one:
  assumes inv: "poller_inv p" and i: "i < length (pollfds p)" and fd: "pfd_fd (pollfds p ! i) = chfd (heap p c)" and reg: "registered p c"
    and rv: "rv \<noteq> 0" "0 \<le> sint rv"
  shows "\<exists>t. Poller_poll p (marks i rv p) [] = Inr (t, [c]) \<and> poller_inv t \<and> channels t = channels p \<and> threadId t = threadId p \<and>
    heap t = (heap p)(c := set_revents (scast rv) (heap p c)) \<and> map pfd_fd (pollfds t) = map pfd_fd (pollfds p)"
proof -
  let ?rs = "(replicate (length (pollfds p)) 0)[i := rv]"
  have nonneg: "0 \<le> pfd_fd (pollfds p ! i)" using registered_fd_nonneg [OF inv reg] fd by simp
  have contract: "poll_contract (pollfds p) 1 ?rs"
    using i rv nonneg filter_single [OF i rv(1)] by (auto simp: poll_contract_def list_all2_conv_all_nth nth_list_update)
  define qs where "qs = filter ready (store_revents (pollfds p) ?rs)"
  define t where "t = store_events (p\<lparr>pollfds := store_revents (pollfds p) ?rs\<rparr>) qs"
  have poll: "Poller_poll p (marks i rv p) [] = Inr (t, map (owner p) qs)"
    using poll_ok [OF inv contract, of "[]"] by (simp add: marks_def qs_def t_def)
  have "length qs = 1" using poll_contract_ready(1) [OF contract] by (simp add: qs_def)
  moreover define q where "q = (pollfds p ! i)\<lparr>pfd_revents := rv\<rparr>"
  have "i < length (store_revents (pollfds p) ?rs)" "store_revents (pollfds p) ?rs ! i = q"
    using i by (simp_all add: store_revents_zip q_def)
  then have mem: "q \<in> set (store_revents (pollfds p) ?rs)" by (metis nth_mem)
  have "q \<in> set qs" using mem poll_contract_ready(3) [OF contract mem] rv(1) by (simp add: qs_def q_def)
  ultimately have qs: "qs = [q]" by (cases qs) auto
  have "owner p q = c" using reg fd by (simp add: owner_def registered_def q_def)
  moreover have "pfd_revents q = rv" by (simp add: q_def)
  moreover have "owner (p\<lparr>pollfds := store_revents (pollfds p) ?rs\<rparr>) q = owner p q" by (simp add: owner_def)
  ultimately have "map (owner p) qs = [c]" "heap t = (heap p)(c := set_revents (scast rv) (heap p c))"
    by (simp_all add: qs t_def)
  moreover have "poller_step (threadId p) p t" by (rule poller_step.poll [OF contract poll [unfolded marks_def]])
  from poller_step_inv [OF this inv refl] have "poller_inv t" by (rule conjunct1)
  moreover have "map pfd_fd (pollfds t) = map pfd_fd (pollfds p)"
    using map_fd_store_revents [of ?rs "pollfds p"] by (simp add: t_def)
  ultimately show ?thesis using poll by (intro exI [of _ t]) (simp add: t_def)
qed

subsection \<open>The writability event\<close>

text \<open>The connection's slot is \<open>i\<close>, not masked, and its write callback is the one the constructor set.\<close>

definition conn_live :: "nat \<Rightarrow> conn \<Rightarrow> bool" where
  "conn_live i s \<longleftrightarrow> i < length (pollfds (el_poller (c_loop s))) \<and> pfd_fd (pollfds (el_poller (c_loop s)) ! i) = chfd (conn_ch s) \<and>
     writeCallback (conn_ch s) = Some (User_callback Conn_write)"

lemma conn_store_simps [simp]:
  "conn_ch (conn_store ch s) = ch" "c_channel (conn_store ch s) = c_channel s" "outputBuffer (conn_store ch s) = outputBuffer s"
  "wire (conn_store ch s) = wire s" "answers (conn_store ch s) = answers s" "c_state (conn_store ch s) = c_state s"
  "shut_at (conn_store ch s) = shut_at s" "in_loop tid (conn_store ch s) = in_loop tid s"
  "pendingFunctors (c_loop (conn_store ch s)) = pendingFunctors (c_loop s)"
  "pollfds (el_poller (c_loop (conn_store ch s))) = pollfds (el_poller (c_loop s))"
  by (simp_all add: conn_store_def store_channel_def conn_ch_def in_loop_def)

text \<open>Fields of a channel that an event changes do not matter to the connection.\<close>

definition same_channel :: "'c channel \<Rightarrow> 'c channel \<Rightarrow> bool" where
  "same_channel a b \<longleftrightarrow> chfd a = chfd b \<and> events a = events b \<and> index a = index b \<and> ownerLoop a = ownerLoop b \<and>
     writeCallback a = writeCallback b"

lemma conn_store_wired:
  assumes "conn_wired s" and "same_channel ch (conn_ch s)"
  shows "conn_wired (conn_store ch s)"
proof -
  have "poller_inv ((el_poller (c_loop s))\<lparr>heap := (heap (el_poller (c_loop s)))(c_channel s := ch)\<rparr>)"
    by (rule poller_inv_frame [of "el_poller (c_loop s)"])
      (use assms in \<open>auto simp: conn_wired_def same_channel_def conn_ch_def\<close>)
  then show ?thesis
    using assms by (auto simp: conn_wired_def conn_store_def store_channel_def registered_def same_channel_def conn_ch_def)
qed

lemma conn_store_inv:
  assumes "conn_inv s" and "same_channel ch (conn_ch s)"
  shows "conn_inv (conn_store ch s)"
  using assms conn_store_wired [of s ch] by (simp add: conn_inv_def) (simp add: same_channel_def isWriting_def)

text \<open>An event with the flag POLLOUT alone calls the write callback once.\<close>

lemma handleEvent_write:
  assumes "revents ch = POLLOUT" and "writeCallback ch = Some c"
  shows "handleEvent run t (ch, w) =
    rbind (run (Call_write c) (ch\<lparr>eventHandling := True\<rparr>, w)) (\<lambda>s. Inr ((fst s)\<lparr>eventHandling := False\<rparr>, snd s))"
proof -
  have "error_calls ch = []" "close_calls (ch\<lparr>eventHandling := True\<rparr>) = []" "read_calls t (ch\<lparr>eventHandling := True\<rparr>) = []"
    "write_calls (ch\<lparr>eventHandling := True\<rparr>) = [Call_write c]"
    using assms by (simp_all add: dispatch_defs when_set_def has_flag_def poll_flags)
  then show ?thesis by (simp add: handleEvent_stages rbind_assoc)
qed

text \<open>A pass of \<open>handleWrite\<close> with callbacks that do nothing: what the next lemma needs of it.\<close>

lemma handleWrite_pass:
  assumes inv: "conn_inv s" and tid: "in_loop tid s" and quiet: "quiet_complete cb" and pend: "content (outputBuffer s) \<noteq> []"
  shows "\<exists>u. conn_handleWrite cb tid s = Inr u \<and> conn_inv u \<and> in_loop tid u \<and> c_state u = c_state s \<and>
    wire u @ content (outputBuffer u) = wire s @ content (outputBuffer s) \<and> pendingFunctors (c_loop u) = pendingFunctors (c_loop s) \<and>
    (\<forall>k as. answers s = Wrote k # as \<longrightarrow> answers u = as \<and> content (outputBuffer u) = drop k (content (outputBuffer s))) \<and>
    (content (outputBuffer u) \<noteq> [] \<longrightarrow> c_loop u = c_loop s \<and> c_channel u = c_channel s) \<and>
    shut_at u = shut_at s @ (if content (outputBuffer u) = [] \<and> c_state s = kDisconnecting then [length (wire u)] else [])"
proof -
  obtain t where t: "conn_inv t" "in_loop tid t" "same_ends s t" "wire t @ content (outputBuffer t) = wire s @ content (outputBuffer s)"
      "pendingFunctors (c_loop t) = pendingFunctors (c_loop s)"
      "\<forall>k as. answers s = Wrote k # as \<longrightarrow> answers t = as \<and> content (outputBuffer t) = drop k (content (outputBuffer s))"
      "content (outputBuffer t) \<noteq> [] \<longrightarrow> c_loop t = c_loop s \<and> c_channel t = c_channel s"
      "conn_handleWrite cb tid s = (if content (outputBuffer t) = [] then drained cb tid t else Inr t)"
    using handleWrite_cases [OF inv tid pend, of cb] by blast
  show ?thesis
  proof (cases "content (outputBuffer t) = [] \<and> c_state t = kDisconnecting")
    case True
    have "answers (shutdownWrite t) = answers t" "c_loop (shutdownWrite t) = c_loop t" by (simp_all add: shutdownWrite_def)
    moreover have "conn_handleWrite cb tid s = Inr (shutdownWrite t)"
      using t(8) True drained_quiet [OF quiet t(2,1)] by simp
    ultimately show ?thesis using t(1-7) True
      by (intro exI [of _ "shutdownWrite t"]) (auto simp: same_ends_def)
  next
    case False
    then have "conn_handleWrite cb tid s = Inr t" using t(8) drained_quiet [OF quiet t(2,1)] by auto
    then show ?thesis using t(1-7) False by (intro exI [of _ t]) (auto simp: same_ends_def)
  qed
qed

lemma handleEvent_pass:
  assumes inv: "conn_inv s" and tid: "in_loop tid s" and quiet: "quiet_complete cb" and pend: "content (outputBuffer s) \<noteq> []"
    and ch: "revents (conn_ch s) = POLLOUT" "writeCallback (conn_ch s) = Some (User_callback Conn_write)"
  shows "\<exists>u. conn_handleEvent bld cb tid r now s = Inr u \<and> conn_inv u \<and> in_loop tid u \<and> c_state u = c_state s \<and>
    wire u @ content (outputBuffer u) = wire s @ content (outputBuffer s) \<and> pendingFunctors (c_loop u) = pendingFunctors (c_loop s) \<and>
    (\<forall>k as. answers s = Wrote k # as \<longrightarrow> answers u = as \<and> content (outputBuffer u) = drop k (content (outputBuffer s))) \<and>
    (content (outputBuffer u) \<noteq> [] \<longrightarrow> pollfds (el_poller (c_loop u)) = pollfds (el_poller (c_loop s)) \<and>
       chfd (conn_ch u) = chfd (conn_ch s) \<and> writeCallback (conn_ch u) = writeCallback (conn_ch s)) \<and>
    shut_at u = shut_at s @ (if content (outputBuffer u) = [] \<and> c_state s = kDisconnecting then [length (wire u)] else [])"
proof -
  define s2 where "s2 = conn_store ((conn_ch s)\<lparr>eventHandling := True\<rparr>) s"
  have s2: "conn_inv s2" "in_loop tid s2" "content (outputBuffer s2) \<noteq> []"
    using conn_store_inv [OF inv] tid pend by (simp_all add: s2_def same_channel_def)
  obtain v where v: "conn_handleWrite cb tid s2 = Inr v" "conn_inv v" "in_loop tid v" "c_state v = c_state s"
      "wire v @ content (outputBuffer v) = wire s @ content (outputBuffer s)" "pendingFunctors (c_loop v) = pendingFunctors (c_loop s)"
      "\<forall>k as. answers s = Wrote k # as \<longrightarrow> answers v = as \<and> content (outputBuffer v) = drop k (content (outputBuffer s))"
      "content (outputBuffer v) \<noteq> [] \<longrightarrow> c_loop v = c_loop s2 \<and> c_channel v = c_channel s2"
      "shut_at v = shut_at s @ (if content (outputBuffer v) = [] \<and> c_state s = kDisconnecting then [length (wire v)] else [])"
    using handleWrite_pass [OF s2(1,2) quiet s2(3)] by (auto simp: s2_def)
  define u where "u = conn_store ((conn_ch v)\<lparr>eventHandling := False\<rparr>) v"
  have "conn_handleEvent bld cb tid r now s = Inr u"
    using v(1) by (simp add: conn_handleEvent_def handleEvent_write [OF ch] conn_invoke_def s2_def u_def)
  moreover have "conn_inv u" using conn_store_inv [OF v(2)] by (simp add: u_def same_channel_def)
  moreover have "content (outputBuffer u) \<noteq> [] \<longrightarrow> pollfds (el_poller (c_loop u)) = pollfds (el_poller (c_loop s)) \<and>
       chfd (conn_ch u) = chfd (conn_ch s) \<and> writeCallback (conn_ch u) = writeCallback (conn_ch s)"
  proof
    assume "content (outputBuffer u) \<noteq> []"
    then have "c_loop v = c_loop s2" "c_channel v = c_channel s2" using v(8) by (simp_all add: u_def)
    then have "conn_ch v = conn_ch s2" by (simp add: conn_ch_def)
    then show "pollfds (el_poller (c_loop u)) = pollfds (el_poller (c_loop s)) \<and>
       chfd (conn_ch u) = chfd (conn_ch s) \<and> writeCallback (conn_ch u) = writeCallback (conn_ch s)"
      using \<open>c_loop v = c_loop s2\<close> by (simp add: u_def) (simp add: s2_def)
  qed
  ultimately show ?thesis using v(3-7,9) by (intro exI [of _ u]) (simp add: u_def)
qed

text \<open>An iteration whose poll marks the connection, and only it, writable.\<close>

lemma writable_iteration:
  assumes inv: "conn_inv s" and tid: "in_loop tid s" and quiet: "quiet_complete cb" and pend: "content (outputBuffer s) \<noteq> []"
    and none: "pendingFunctors (c_loop s) = []" and live: "conn_live i s"
  shows "\<exists>t. conn_iteration bld cb tid other r (marks i 4 (el_poller (c_loop s))) now clk s = Inr t \<and>
    conn_inv t \<and> in_loop tid t \<and> pendingFunctors (c_loop t) = [] \<and> c_state t = c_state s \<and>
    wire t @ content (outputBuffer t) = wire s @ content (outputBuffer s) \<and>
    (\<forall>k as. answers s = Wrote k # as \<longrightarrow> answers t = as \<and> content (outputBuffer t) = drop k (content (outputBuffer s))) \<and>
    (content (outputBuffer t) \<noteq> [] \<longrightarrow> conn_live i t) \<and>
    shut_at t = shut_at s @ (if content (outputBuffer t) = [] \<and> c_state s = kDisconnecting then [length (wire t)] else [])"
proof -
  let ?p = "el_poller (c_loop s)" and ?c = "c_channel s"
  have w: "poller_inv ?p" "registered ?p ?c" "heap ?p ?c = conn_ch s"
    using inv by (simp_all add: conn_inv_def conn_wired_def) (simp add: conn_ch_def)
  obtain q where q: "Poller_poll ?p (marks i 4 ?p) [] = Inr (q, [?c])" "poller_inv q" "channels q = channels ?p" "threadId q = threadId ?p"
      "heap q = (heap ?p)(?c := set_revents (scast (4 :: 16 word)) (heap ?p ?c))" "map pfd_fd (pollfds q) = map pfd_fd (pollfds ?p)"
    using poll_one [OF w(1) _ _ w(2), of i 4] live w(3) by (auto simp: conn_live_def)
  define s1 where "s1 = s\<lparr>c_loop := (c_loop s)\<lparr>el_poller := q, activeChannels := [?c]\<rparr>\<rparr>"
  have ch1: "conn_ch s1 = set_revents POLLOUT (conn_ch s)" using q(5) by (simp add: s1_def conn_ch_def POLLOUT_def)
  have frame: "outputBuffer s1 = outputBuffer s" "wire s1 = wire s" "answers s1 = answers s" "c_state s1 = c_state s" "shut_at s1 = shut_at s"
      "in_loop tid s1" "pendingFunctors (c_loop s1) = []" "c_channel s1 = ?c" "pollfds (el_poller (c_loop s1)) = pollfds q"
    using tid none by (simp_all add: s1_def in_loop_def)
  have el1: "el_poller (c_loop s1) = q" "tq_thread (c_loop s1) = tq_thread (c_loop s)" "el_addr (c_loop s1) = el_addr (c_loop s)"
    by (simp_all add: s1_def)
  have ch1': "chfd (conn_ch s1) = chfd (conn_ch s)" "ownerLoop (conn_ch s1) = ownerLoop (conn_ch s)" "isWriting (conn_ch s1) = isWriting (conn_ch s)"
    by (simp_all add: ch1 set_revents_def isWriting_def)
  have "registered q ?c" using w(2,3) q(3,5) by (simp add: registered_def set_revents_def)
  then have inv1: "conn_inv s1"
    using inv q(2,4) by (simp add: conn_inv_def conn_wired_def el1 ch1' frame)
  have pend1: "content (outputBuffer s1) \<noteq> []" using pend frame(1) by simp
  have ev: "revents (conn_ch s1) = POLLOUT" "writeCallback (conn_ch s1) = Some (User_callback Conn_write)" "chfd (conn_ch s1) = chfd (conn_ch s)"
    using live by (simp_all add: ch1 set_revents_def conn_live_def)
  obtain u where u: "conn_handleEvent bld cb tid r now s1 = Inr u" "conn_inv u" "in_loop tid u" "c_state u = c_state s"
      "wire u @ content (outputBuffer u) = wire s @ content (outputBuffer s)" "pendingFunctors (c_loop u) = []"
      "\<forall>k as. answers s = Wrote k # as \<longrightarrow> answers u = as \<and> content (outputBuffer u) = drop k (content (outputBuffer s))"
      "content (outputBuffer u) \<noteq> [] \<longrightarrow> pollfds (el_poller (c_loop u)) = pollfds q \<and> chfd (conn_ch u) = chfd (conn_ch s) \<and>
         writeCallback (conn_ch u) = Some (User_callback Conn_write)"
      "shut_at u = shut_at s @ (if content (outputBuffer u) = [] \<and> c_state s = kDisconnecting then [length (wire u)] else [])"
    using handleEvent_pass [OF inv1 frame(6) quiet pend1 ev(1,2), of bld r now, unfolded frame ev] by blast
  define t where "t = u\<lparr>c_loop := (c_loop u)\<lparr>pendingFunctors := [], callingPendingFunctors := False\<rparr>\<rparr>"
  have ft: "outputBuffer t = outputBuffer u" "wire t = wire u" "answers t = answers u" "c_state t = c_state u" "shut_at t = shut_at u"
      "conn_ch t = conn_ch u" "pollfds (el_poller (c_loop t)) = pollfds (el_poller (c_loop u))" "in_loop tid t" "pendingFunctors (c_loop t) = []"
    using u(3) by (simp_all add: t_def conn_ch_def in_loop_def)
  have "conn_inv t" using u(2) ft(1,6) by (simp add: conn_inv_def conn_wired_def t_def)
  moreover have "conn_iteration bld cb tid other r (marks i 4 ?p) now clk s = Inr t"
    using q(1) u(1,6)
    by (simp add: conn_iteration_def poll_channels_def conn_doPendingFunctors_def swap_functors_def Let_def flip: s1_def)
      (simp add: t_def frame(8))
  moreover have "content (outputBuffer t) \<noteq> [] \<longrightarrow> conn_live i t"
  proof
    assume "content (outputBuffer t) \<noteq> []"
    then have "pollfds (el_poller (c_loop t)) = pollfds q" "chfd (conn_ch t) = chfd (conn_ch s)"
        "writeCallback (conn_ch t) = Some (User_callback Conn_write)"
      using u(8) ft by simp_all
    moreover have "length (pollfds q) = length (pollfds ?p)" using q(6) by (metis length_map)
    moreover have "pfd_fd (pollfds q ! i) = pfd_fd (pollfds ?p ! i)" using q(6) live calculation(4) by (metis conn_live_def nth_map)
    ultimately show "conn_live i t" using live by (simp add: conn_live_def)
  qed
  ultimately show ?thesis using u(4,5,7,9) ft by (intro exI [of _ t]) simp
qed

text \<open>Iterations as long as the loop watches for writability.\<close>

definition writable_iterations ::
  "build \<Rightarrow> conn_cbs \<Rightarrow> int \<Rightarrow> (nat \<Rightarrow> conn \<Rightarrow> conn result) \<Rightarrow> nat \<Rightarrow> timestamp \<Rightarrow> nat \<Rightarrow> conn \<Rightarrow> conn result" where
  "writable_iterations bld cb tid other i now n s =
     rfold (\<lambda>_ s. if isWriting (conn_ch s) then conn_iteration bld cb tid other (Readv_bytes []) (marks i 4 (el_poller (c_loop s))) now now s
                  else Inr s) (replicate n ()) s"

lemma iterations_idle: "\<not> isWriting (conn_ch s) \<Longrightarrow> writable_iterations bld cb tid other i now n s = Inr s"
  by (induction n) (simp_all add: writable_iterations_def)

lemma iterations_drain:
  assumes "conn_inv s" and "in_loop tid s" and "quiet_complete cb" and "pendingFunctors (c_loop s) = []"
    and "content (outputBuffer s) \<noteq> [] \<longrightarrow> conn_live i s" and "answers s = map Wrote ks @ as" and "length (content (outputBuffer s)) \<le> sum_list ks"
  shows "\<exists>t. writable_iterations bld cb tid other i now (length ks) s = Inr t \<and> conn_inv t \<and>
    content (outputBuffer t) = [] \<and> wire t = wire s @ content (outputBuffer s) \<and> c_state t = c_state s \<and>
    shut_at t = shut_at s @ (if content (outputBuffer s) \<noteq> [] \<and> c_state s = kDisconnecting then [length (wire t)] else [])"
  using assms(1,2,4-7)
proof (induction ks arbitrary: s)
  case (Cons k ks)
  show ?case
  proof (cases "content (outputBuffer s) = []")
    case True
    then have "\<not> isWriting (conn_ch s)" using Cons.prems(1) by (simp add: conn_inv_def)
    from iterations_idle [OF this] True Cons.prems(1) show ?thesis by (intro exI [of _ s]) simp
  next
    case pend: False
    then have wr: "isWriting (conn_ch s)" and live: "conn_live i s" using Cons.prems(1,4) by (simp_all add: conn_inv_def)
    obtain t where t: "conn_iteration bld cb tid other (Readv_bytes []) (marks i 4 (el_poller (c_loop s))) now now s = Inr t"
        "conn_inv t" "in_loop tid t" "pendingFunctors (c_loop t) = []" "c_state t = c_state s"
        "wire t @ content (outputBuffer t) = wire s @ content (outputBuffer s)"
        "\<forall>k as. answers s = Wrote k # as \<longrightarrow> answers t = as \<and> content (outputBuffer t) = drop k (content (outputBuffer s))"
        "content (outputBuffer t) \<noteq> [] \<longrightarrow> conn_live i t"
        "shut_at t = shut_at s @ (if content (outputBuffer t) = [] \<and> c_state s = kDisconnecting then [length (wire t)] else [])"
      using writable_iteration [OF Cons.prems(1,2) assms(3) pend Cons.prems(3) live] by blast
    have step: "answers t = map Wrote ks @ as" "length (content (outputBuffer t)) \<le> sum_list ks"
      using t(7) Cons.prems(5,6) by auto
    have first: "writable_iterations bld cb tid other i now (length (k # ks)) s = writable_iterations bld cb tid other i now (length ks) t"
      using t(1) wr by (simp add: writable_iterations_def)
    from Cons.IH [OF t(2,3,4,8) step] first t(5,6,9) pend show ?thesis by (auto split: if_splits)
  qed
qed (auto simp: writable_iterations_def)

subsection \<open>The end of a connection in one event\<close>

text \<open>
  The poll that ends a connection once: end of file at a read without a hang-up that is handled on its own, or a hang-up with nothing to read. With
  both, a hang-up without POLLIN but with POLLPRI or POLLRDHUP, the dispatch runs the close and the read callback.
\<close>

definition hung_up :: "int32 \<Rightarrow> bool" where
  "hung_up rv \<longleftrightarrow> has_flag rv POLLHUP \<and> \<not> has_flag rv POLLIN"

definition readable :: "int32 \<Rightarrow> bool" where
  "readable rv \<longleftrightarrow> has_flag rv (POLLIN OR POLLPRI OR POLLRDHUP)"

definition ends_connection :: "int32 \<Rightarrow> readv_result \<Rightarrow> bool" where
  "ends_connection rv r \<longleftrightarrow> (readable rv \<and> r = Readv_bytes [] \<longleftrightarrow> \<not> hung_up rv) \<and> (hung_up rv \<longrightarrow> \<not> readable rv)"

definition own_callbacks :: "conn_callback callback_of channel \<Rightarrow> bool" where
  "own_callbacks ch \<longleftrightarrow> readCallback ch = Some (User_callback Conn_read) \<and> writeCallback ch = Some (User_callback Conn_write) \<and>
     closeCallback ch = Some (User_callback Conn_close) \<and> errorCallback ch = Some (User_callback Conn_error)"

lemma conn_store_self: "conn_store (conn_ch s) s = s"
  by (simp add: conn_store_def store_channel_def conn_ch_def)

lemma handleWrite_unwatched: "in_loop tid s \<Longrightarrow> \<not> isWriting (conn_ch s) \<Longrightarrow> conn_handleWrite cb tid s = Inr s"
  by (simp add: conn_handleWrite_def conn_assertInLoopThread_def in_loop_def isInLoopThread_def)

text \<open>Reading the end of the file is a close.\<close>

lemma handleRead_eof:
  assumes "buffer_inv (inputBuffer s)"
  shows "conn_handleRead bld cb tid (Readv_bytes []) now s = handleClose bld cb tid s"
proof -
  have "readFd (inputBuffer s) (Readv_bytes []) 0 = Inr (0, 0, inputBuffer s)"
    using assms by (simp add: readFd_def Let_def blit_def)
  then show ?thesis by (simp add: conn_handleRead_def)
qed

text \<open>The stages of the dispatch for a connection's channel: an error is only logged, so the close and the read callback start from the state that
  the event found; what they leave, if it watches for nothing, is left alone by the write callback.\<close>

abbreviation conn_call ::
  "build \<Rightarrow> conn_cbs \<Rightarrow> int \<Rightarrow> readv_result \<Rightarrow> conn_callback callback_of invocation \<Rightarrow>
     conn_callback callback_of channel \<times> conn \<Rightarrow> (conn_callback callback_of channel \<times> conn) result" where
  "conn_call bld cb tid r \<equiv> (\<lambda>call (ch, s). rbind (conn_invoke bld cb tid r call (conn_store ch s)) (\<lambda>s. Inr (conn_ch s, s)))"

lemma conn_store_twice [simp]: "conn_store ch (conn_store ch' s) = conn_store ch s"
  by (simp add: conn_store_def store_channel_def)

lemma error_stage:
  assumes "own_callbacks (conn_ch s)"
  shows "\<exists>u. rfold (conn_call bld cb tid r) (error_calls (conn_ch s)) (ch, s) = Inr (ch, u) \<and> conn_store ch u = conn_store ch s"
  using assms by (auto simp: error_calls_def when_set_def own_callbacks_def conn_invoke_def handleError_def)

lemma write_stage:
  assumes "in_loop tid v" and "\<not> isWriting (conn_ch v)" and "own_callbacks (conn_ch v)"
  shows "rfold (conn_call bld cb tid r) (write_calls (conn_ch v)) (conn_ch v, v) = Inr (conn_ch v, v)"
  using assms handleWrite_unwatched [OF assms(1,2)]
  by (auto simp: write_calls_def when_set_def own_callbacks_def conn_invoke_def conn_store_self)

text \<open>The event runs \<open>handleClose\<close> once, from either callback.\<close>

lemma close_event:
  assumes wired: "conn_wired s" and tid: "in_loop tid s" and cb: "keeping (closeCallback_fn cb)" and own: "own_callbacks (conn_ch s)"
    and inp: "buffer_inv (inputBuffer s)" and ends: "ends_connection (revents (conn_ch s)) r"
  shows "\<exists>v. handleClose bld cb tid (conn_store ((conn_ch s)\<lparr>eventHandling := True\<rparr>) s) = Inr v \<and>
    conn_handleEvent bld cb tid r now s = Inr (conn_store ((conn_ch v)\<lparr>eventHandling := False\<rparr>) v) \<and>
    conn_ch v = (disableAll (conn_ch s))\<lparr>eventHandling := True\<rparr> \<and> c_state v = (if bld = Debug then kConnected else c_state s) \<and>
    shut_at v = shut_at s \<and> wire v = wire s \<and> outputBuffer v = outputBuffer s"
proof -
  let ?ch = "(conn_ch s)\<lparr>eventHandling := True\<rparr>"
  define s2 where "s2 = conn_store ?ch s"
  have s2: "conn_wired s2" "in_loop tid s2" "conn_ch s2 = ?ch" "inputBuffer s2 = inputBuffer s"
    using conn_store_wired [OF wired, of ?ch] tid by (simp_all add: s2_def same_channel_def) (simp add: conn_store_def)
  obtain v where v: "handleClose bld cb tid s2 = Inr v" "in_loop tid v" "conn_ch v = disableAll ?ch"
      "c_state v = (if bld = Debug then kConnected else c_state s)" "shut_at v = shut_at s" "wire v = wire s" "outputBuffer v = outputBuffer s"
    using handleClose_ok [OF s2(1,2) cb, of bld] s2(3) by (auto simp: s2_def)
  let ?run = "conn_call bld cb tid r"
  obtain u where u: "rfold ?run (error_calls (conn_ch s)) (?ch, s) = Inr (?ch, u)" "conn_store ?ch u = s2"
    using error_stage [OF own, of bld cb tid r ?ch] by (auto simp: s2_def)
  have close: "?run (Call_close (User_callback Conn_close)) (?ch, u) = Inr (conn_ch v, v)"
    using v(1) u(2) by (simp add: conn_invoke_def)
  have eof: "?run (Call_read (User_callback Conn_read) now) (?ch, u) = Inr (conn_ch v, v)" if "r = Readv_bytes []"
    using v(1) handleRead_eof [of s2 bld cb tid now] inp s2(4) that u(2) by (simp add: conn_invoke_def)
  have late: "rfold ?run (write_calls (conn_ch v)) (conn_ch v, v) = Inr (conn_ch v, v)"
    by (rule write_stage) (use v(2,3) own in \<open>simp_all add: own_callbacks_def disableAll_def isWriting_def kNoneEvent_def\<close>)
  have calls: "close_calls ?ch = [Call_close (User_callback Conn_close)] \<and> read_calls now (conn_ch v) = [] \<or>
       close_calls ?ch = [] \<and> read_calls now ?ch = [Call_read (User_callback Conn_read) now] \<and> r = Readv_bytes []"
    using ends own v(3)
    by (auto simp: ends_connection_def hung_up_def readable_def own_callbacks_def close_calls_def read_calls_def when_set_def disableAll_def)
  have "handleEvent ?run now (conn_ch s, s) = Inr ((conn_ch v)\<lparr>eventHandling := False\<rparr>, v)"
    using calls close eof late unfolding handleEvent_stages u(1) by auto
  then have "conn_handleEvent bld cb tid r now s = Inr (conn_store ((conn_ch v)\<lparr>eventHandling := False\<rparr>) v)"
    by (simp add: conn_handleEvent_def)
  then show ?thesis using v(1,3-7) by (auto simp: s2_def disableAll_def)
qed

subsection \<open>Properties\<close>

text \<open>
  C13: the loop delivers the output of a connection. For a connection in its loop whose completion callback is unset or does nothing, while no functor is
  queued in the loop (so no further message), and with its slot in the poller not masked: whatever is pending, as long as the poll marks the
  connection's channel, and no other, writable, and the kernel takes \<open>ks ! j\<close> bytes at the \<open>j\<close>-th write, enough bytes in all, the iterations of the loop
  (poll, event dispatch, write callback, queued functors) write exactly the pending output, leave the loop not watching for writability, and
  shut the write side down after the last byte if and only if a shutdown was asked for.\<close>

theorem loop_drains_connection:
  assumes "conn_inv s" and "in_loop tid s" and "quiet_complete cb" and "pendingFunctors (c_loop s) = []"
    and "content (outputBuffer s) \<noteq> [] \<longrightarrow> conn_live i s" and "answers s = map Wrote ks @ as" and "length (content (outputBuffer s)) \<le> sum_list ks"
  shows "\<exists>t. writable_iterations bld cb tid other i now (length ks) s = Inr t \<and> conn_inv t \<and>
    content (outputBuffer t) = [] \<and> \<not> isWriting (conn_ch t) \<and> wire t = wire s @ content (outputBuffer s) \<and> c_state t = c_state s \<and>
    shut_at t = shut_at s @ (if content (outputBuffer s) \<noteq> [] \<and> c_state s = kDisconnecting then [length (wire t)] else [])"
  using iterations_drain [OF assms, of bld other now] by (auto simp: conn_inv_def)

theorem loop_drains_connection_witness:
  "\<exists>t. writable_iterations Debug demo_cbs 1 (\<lambda>_. Inr) 0 7 3 (demo_conn ''abc'' 100 [Wrote 1, Wrote 0, Wrote 9]) = Inr t \<and>
     content (outputBuffer t) = [] \<and> \<not> isWriting (conn_ch t) \<and> wire t = ''abc'' \<and> shut_at t = []"
proof -
  let ?s = "demo_conn ''abc'' 100 [Wrote 1, Wrote 0, Wrote 9]"
  have "conn_live 0 ?s"
    by (simp add: conn_live_def demo_conn_def conn_ch_def TcpConnection_new_def conn_channel_def setErrorCallback_def setCloseCallback_def
      setWriteCallback_def setReadCallback_def Channel_new_def)
  then show ?thesis
    using loop_drains_connection [of ?s 1 demo_cbs 0 "[1, 0, 9]" "[]" Debug "\<lambda>_. Inr" 7] by (auto simp: numeral_3_eq_3)
qed

text \<open>
  C14: one event ends the connection once. For a channel with the four callbacks of the constructor, an input buffer in order and a close callback that leaves
  the poller, the state and the output of the connection alone: when the poll reports either the end of the peer's stream (a readable flag, and a
  read that finds nothing) or a hang-up with nothing to read (POLLHUP without POLLIN, POLLPRI and POLLRDHUP), with or without errors and
  writability, the event runs \<open>handleClose\<close> exactly once and then nothing: the channel watches for nothing, no byte is written and no half-close
  happens after it, and output that was still pending is left in the buffer unsent. (With POLLHUP and POLLPRI or POLLRDHUP, but without POLLIN, it
  is run twice: \<open>hangup_closes_twice\<close>.)\<close>

theorem event_closes_once:
  assumes "conn_wired s" and "in_loop tid s" and "keeping (closeCallback_fn cb)" and "own_callbacks (conn_ch s)"
    and "buffer_inv (inputBuffer s)" and "ends_connection (revents (conn_ch s)) r"
  shows "\<exists>v t. handleClose bld cb tid (conn_store ((conn_ch s)\<lparr>eventHandling := True\<rparr>) s) = Inr v \<and>
    conn_handleEvent bld cb tid r now s = Inr t \<and> t = conn_store ((conn_ch v)\<lparr>eventHandling := False\<rparr>) v \<and>
    isNoneEvent (conn_ch t) \<and> \<not> eventHandling (conn_ch t) \<and> c_state t = (if bld = Debug then kConnected else c_state s) \<and>
    shut_at t = shut_at s \<and> wire t = wire s \<and> outputBuffer t = outputBuffer s"
proof -
  obtain v where v: "handleClose bld cb tid (conn_store ((conn_ch s)\<lparr>eventHandling := True\<rparr>) s) = Inr v"
      "conn_handleEvent bld cb tid r now s = Inr (conn_store ((conn_ch v)\<lparr>eventHandling := False\<rparr>) v)"
      "conn_ch v = (disableAll (conn_ch s))\<lparr>eventHandling := True\<rparr>" "c_state v = (if bld = Debug then kConnected else c_state s)"
      "shut_at v = shut_at s" "wire v = wire s" "outputBuffer v = outputBuffer s"
    using close_event [OF assms, of bld now] by blast
  then show ?thesis
    by (intro exI [of _ v] exI [of _ "conn_store ((conn_ch v)\<lparr>eventHandling := False\<rparr>) v"])
      (simp add: isNoneEvent_def disableAll_def)
qed

text \<open>A connection with pending output whose peer has gone: readable, writable and hung up.\<close>

definition gone_conn :: conn where
  "gone_conn = conn_store (set_revents (POLLIN OR POLLOUT OR POLLHUP) (conn_ch (demo_conn ''abc'' 100 [Wrote 9]))) (demo_conn ''abc'' 100 [Wrote 9])"

theorem event_closes_once_witness:
  "\<exists>t. conn_handleEvent Debug demo_cbs 1 (Readv_bytes []) 7 gone_conn = Inr t \<and> isNoneEvent (conn_ch t) \<and> c_state t = kConnected \<and>
     wire t = [] \<and> content (outputBuffer t) = ''abc''"
proof -
  let ?d = "demo_conn ''abc'' 100 [Wrote 9]"
  have "conn_wired ?d" using demo_conn_inv(1) [of "''abc''" 100 "[Wrote 9]"] by (simp add: conn_inv_def)
  then have wired: "conn_wired gone_conn"
    unfolding gone_conn_def by (rule conn_store_wired) (simp add: same_channel_def set_revents_def)
  have own: "own_callbacks (conn_ch ?d)" and keep: "keeping (closeCallback_fn demo_cbs)"
    by (simp_all add: own_callbacks_def demo_conn_def conn_ch_def TcpConnection_new_def conn_channel_def setErrorCallback_def setCloseCallback_def
      setWriteCallback_def setReadCallback_def Channel_new_def)
  have inp: "buffer_inv (inputBuffer gone_conn)"
    by (simp add: gone_conn_def conn_store_def demo_conn_def TcpConnection_new_def buffer_inv_new)
  have ends: "ends_connection (revents (conn_ch gone_conn)) (Readv_bytes [])"
    by (simp add: gone_conn_def set_revents_def ends_connection_def hung_up_def readable_def has_flag_def poll_flags)
  have "own_callbacks (conn_ch gone_conn)" "in_loop 1 gone_conn" "wire gone_conn = []" "content (outputBuffer gone_conn) = ''abc''"
    using own by (simp_all add: gone_conn_def own_callbacks_def set_revents_def)
  with event_closes_once [OF wired _ keep _ inp ends, of 1 Debug 7] show ?thesis by auto
qed

text \<open>
  A hang-up without POLLIN but with POLLPRI or POLLRDHUP, at the end of the stream: the event runs \<open>handleClose\<close> a second time, on the connection that
  the first one has closed, and so calls the close callback twice.\<close>

theorem hangup_closes_twice:
  assumes wired: "conn_wired s" and tid: "in_loop tid s" and cb: "closeCallback_fn cb = Some Inr" and own: "own_callbacks (conn_ch s)"
    and inp: "buffer_inv (inputBuffer s)" and twice: "hung_up (revents (conn_ch s))" "readable (revents (conn_ch s))"
  shows "\<exists>v w. handleClose bld cb tid (conn_store ((conn_ch s)\<lparr>eventHandling := True\<rparr>) s) = Inr v \<and> handleClose bld cb tid v = Inr w \<and>
    conn_handleEvent bld cb tid (Readv_bytes []) now s = Inr (conn_store ((conn_ch w)\<lparr>eventHandling := False\<rparr>) w)"
proof -
  let ?ch = "(conn_ch s)\<lparr>eventHandling := True\<rparr>" and ?run = "conn_call bld cb tid (Readv_bytes [])"
  have keep: "keeping (closeCallback_fn cb)" using cb by (simp add: keeping_def keeps_def)
  define s2 where "s2 = conn_store ?ch s"
  have s2: "conn_wired s2" "in_loop tid s2" "conn_ch s2 = ?ch" "inputBuffer s2 = inputBuffer s"
    using conn_store_wired [OF wired, of ?ch] tid by (simp_all add: s2_def same_channel_def) (simp add: conn_store_def)
  obtain v where v: "handleClose bld cb tid s2 = Inr v" "conn_wired v" "in_loop tid v" "conn_ch v = disableAll ?ch"
    using handleClose_ok [OF s2(1,2) keep, of bld] s2(3) by auto
  have "inputBuffer v = inputBuffer s2"
    using v(1) cb by (cases bld) (auto simp: handleClose_def conn_assertInLoopThread_def conn_update_def callback_fn_def rbind_eq_Inr_iff split: if_splits)
  then have inp_v: "buffer_inv (inputBuffer v)" using inp s2(4) by simp
  obtain w where w: "handleClose bld cb tid v = Inr w" "in_loop tid w" "conn_ch w = disableAll (conn_ch v)"
    using handleClose_ok [OF v(2,3) keep, of bld] by auto
  obtain u where u: "rfold ?run (error_calls (conn_ch s)) (?ch, s) = Inr (?ch, u)" "conn_store ?ch u = s2"
    using error_stage [OF own, of bld cb tid "Readv_bytes []" ?ch] by (auto simp: s2_def)
  have close: "rfold ?run (close_calls ?ch) (?ch, u) = Inr (conn_ch v, v)"
    using v(1) u(2) own twice(1) by (simp add: close_calls_def when_set_def own_callbacks_def hung_up_def conn_invoke_def)
  have read: "rfold ?run (read_calls now (conn_ch v)) (conn_ch v, v) = Inr (conn_ch w, w)"
  proof -
    have "read_calls now (conn_ch v) = [Call_read (User_callback Conn_read) now]"
      using own twice(2) v(4) by (simp add: read_calls_def when_set_def own_callbacks_def readable_def disableAll_def)
    then show ?thesis
      using w(1) handleRead_eof [OF inp_v, of bld cb tid now] by (simp add: conn_invoke_def conn_store_self)
  qed
  have late: "rfold ?run (write_calls (conn_ch w)) (conn_ch w, w) = Inr (conn_ch w, w)"
    by (rule write_stage) (use w(2,3) v(4) own in \<open>simp_all add: own_callbacks_def disableAll_def isWriting_def kNoneEvent_def\<close>)
  have "conn_handleEvent bld cb tid (Readv_bytes []) now s = Inr (conn_store ((conn_ch w)\<lparr>eventHandling := False\<rparr>) w)"
    using close read late by (simp add: conn_handleEvent_def handleEvent_stages u(1))
  then show ?thesis using v(1) w(1) by (auto simp: s2_def)
qed

theorem hangup_closes_twice_witness:
  "\<exists>v w. handleClose Debug demo_cbs 1 v = Inr w \<and>
     conn_handleEvent Debug demo_cbs 1 (Readv_bytes []) 7
       (conn_store (set_revents (POLLHUP OR POLLRDHUP) (conn_ch (demo_conn [] 100 []))) (demo_conn [] 100 [])) =
       Inr (conn_store ((conn_ch w)\<lparr>eventHandling := False\<rparr>) w)"
proof -
  let ?d = "demo_conn [] 100 []"
  let ?s = "conn_store (set_revents (POLLHUP OR POLLRDHUP) (conn_ch ?d)) ?d"
  have "conn_wired ?d" using demo_conn_inv(1) [of "[]" 100 "[]"] by (simp add: conn_inv_def)
  then have 1: "conn_wired ?s" by (rule conn_store_wired) (simp add: same_channel_def set_revents_def)
  have 2: "own_callbacks (conn_ch ?s)"
    by (simp add: own_callbacks_def demo_conn_def conn_ch_def TcpConnection_new_def conn_channel_def setErrorCallback_def setCloseCallback_def
      setWriteCallback_def setReadCallback_def Channel_new_def conn_store_def store_channel_def set_revents_def)
  have 3: "buffer_inv (inputBuffer ?s)" by (simp add: conn_store_def demo_conn_def TcpConnection_new_def buffer_inv_new)
  have 4: "hung_up (revents (conn_ch ?s))" "readable (revents (conn_ch ?s))"
    by (simp_all add: set_revents_def hung_up_def readable_def has_flag_def poll_flags)
  have "in_loop 1 ?s" "closeCallback_fn demo_cbs = Some Inr" by (simp, simp add: demo_cbs_def)
  from hangup_closes_twice [OF 1 this 2 3 4, of Debug 7] show ?thesis by blast
qed

text \<open>
  C15: a read delivers what the kernel hands over, as long as it fits: the message callback runs, with the time of the poll, on a connection whose
  input buffer holds the unread bytes followed by the new ones; nothing else has changed. Bytes past the free space of the buffer replace the
  oldest unread bytes instead of following them. The end of the stream closes the connection; an error leaves it as it was.\<close>

theorem read_delivers:
  assumes inp: "buffer_inv (inputBuffer s)" and cb: "messageCallback cb = Some f"
  shows "case r of
      Readv_bytes bs \<Rightarrow> if bs = [] then conn_handleRead bld cb tid r now s = handleClose bld cb tid s
        else \<exists>b stale. conn_handleRead bld cb tid r now s = f now (s\<lparr>inputBuffer := b\<rparr>) \<and> buffer_inv b \<and>
          (let w = writableBytes (inputBuffer s); old = content (inputBuffer s) in
            if length bs \<le> w then content b = old @ bs
            else content b = drop w bs @ drop (length bs - w) (old @ take w bs) @ stale \<and> length stale = min (length bs - w) (length old + w))
    | Readv_error e \<Rightarrow> conn_handleRead bld cb tid r now s = Inr s"
proof (cases r)
  case (Readv_error e)
  then show ?thesis by (simp add: conn_handleRead_def readFd_def handleError_def)
next
  case (Readv_bytes bs)
  have run: "conn_handleRead bld cb tid r now s = f now (s\<lparr>inputBuffer := b\<rparr>)"
    if "readFd (inputBuffer s) (Readv_bytes bs) 0 = Inr (int (length bs), 0, b)" "bs \<noteq> []" for b
    using that Readv_bytes cb by (simp add: conn_handleRead_def callback_fn_def)
  consider "bs = []" | "bs \<noteq> []" "length bs \<le> writableBytes (inputBuffer s)" | "bs \<noteq> []" "writableBytes (inputBuffer s) < length bs"
    by linarith
  then show ?thesis
  proof cases
    case 1
    then show ?thesis using handleRead_eof [OF inp] Readv_bytes by simp
  next
    case 2
    then show ?thesis using readFd_within [OF inp 2(2), of 0] run Readv_bytes by (auto simp: Let_def)
  next
    case 3
    then show ?thesis using readFd_beyond [OF inp 3(2), of 0] run Readv_bytes by (auto simp: Let_def)
  qed
qed

theorem read_delivers_witness:
  "\<exists>b. conn_handleRead Debug (demo_cbs\<lparr>messageCallback := Some (\<lambda>t. Inr)\<rparr>) 1 (Readv_bytes ''hi'') 7 (demo_conn [] 100 []) =
      Inr ((demo_conn [] 100 [])\<lparr>inputBuffer := b\<rparr>) \<and> content b = ''hi''"
proof -
  have b: "inputBuffer (demo_conn [] 100 []) = Buffer_new" by (simp add: demo_conn_def TcpConnection_new_def)
  have "writableBytes Buffer_new = 1024" by (simp add: writableBytes_def Buffer_new_def kCheapPrepend_def kInitialSize_def)
  then show ?thesis
    using read_delivers [where s = "demo_conn [] 100 []" and cb = "demo_cbs\<lparr>messageCallback := Some (\<lambda>t. Inr)\<rparr>" and f = "\<lambda>t. Inr"
        and r = "Readv_bytes ''hi''" and bld = Debug and tid = 1 and now = 7] b
    by (auto simp: buffer_inv_new Let_def)
qed

end
