(* ===== verification/RN_LogStream.thy ===== *)
theory RN_LogStream
  imports RN_Printf "HOL-Library.Word"
begin

text \<open>
  RN/base/LogStream.h and LogStream.cpp: the fixed-size buffer, the integer conversions and the insertion operators. A
  buffer is the text between \<open>data_\<close> and \<open>cur_\<close> with its capacity. The values of the integer types are integers; the
  digit loops divide them towards zero, so no operation leaves the type's range. A \<open>double\<close> enters as the text that
  \<open>%.12g\<close> gives for it.
\<close>

subsection \<open>The fixed buffer\<close>

definition kSmallBuffer :: nat where
  "kSmallBuffer = 4000"

definition kLargeBuffer :: nat where
  "kLargeBuffer = 4000 * 1000"

record fixed_buffer =
  fb_size :: nat
  fb_data :: string

definition FixedBuffer_new :: "nat \<Rightarrow> fixed_buffer" where
  "FixedBuffer_new n = \<lparr>fb_size = n, fb_data = []\<rparr>"

definition fb_length :: "fixed_buffer \<Rightarrow> nat" where
  "fb_length b = length (fb_data b)"

definition fb_avail :: "fixed_buffer \<Rightarrow> nat" where
  "fb_avail b = fb_size b - fb_length b"

definition fb_append :: "string \<Rightarrow> nat \<Rightarrow> fixed_buffer \<Rightarrow> fixed_buffer" where
  "fb_append s len b = (if len < fb_avail b then b\<lparr>fb_data := fb_data b @ take len s\<rparr> else b)"

text \<open>Writing at \<open>current()\<close> followed by \<open>add\<close>.\<close>

definition fb_add :: "string \<Rightarrow> fixed_buffer \<Rightarrow> fixed_buffer" where
  "fb_add s b = b\<lparr>fb_data := fb_data b @ s\<rparr>"

definition fb_reset :: "fixed_buffer \<Rightarrow> fixed_buffer" where
  "fb_reset b = b\<lparr>fb_data := []\<rparr>"

definition fb_toString :: "fixed_buffer \<Rightarrow> string" where
  "fb_toString b = take (fb_length b) (fb_data b)"

text \<open>\<open>bzero\<close> clears the bytes and leaves \<open>cur_\<close>; \<open>debugString\<close> puts the terminator at \<open>cur_\<close>, which has to be inside the array.\<close>

definition fb_bzero :: "fixed_buffer \<Rightarrow> fixed_buffer" where
  "fb_bzero b = b\<lparr>fb_data := replicate (fb_length b) (CHR 0x00)\<rparr>"

definition fb_debugString :: "fixed_buffer \<Rightarrow> string option" where
  "fb_debugString b = (if fb_length b < fb_size b then Some (takeWhile (\<lambda>c. c \<noteq> CHR 0x00) (fb_data b)) else None)"

subsection \<open>Integer conversion\<close>

definition digits :: string where
  "digits = ''9876543210123456789''"

definition zero_at :: "int \<Rightarrow> char" where
  "zero_at lsd = digits ! nat (9 + lsd)"

text \<open>The \<open>do ... while (i != 0)\<close> loop: the least significant digit first.\<close>

function convert_digits :: "int \<Rightarrow> string" where
  "convert_digits i =
     (let lsd = cmod i 10; i = cdiv i 10
      in zero_at lsd # (if i \<noteq> 0 then convert_digits i else []))"
  by auto

lemma cdiv_ten_decreases: "cdiv i 10 \<noteq> 0 \<Longrightarrow> \<bar>cdiv i 10\<bar> < \<bar>i\<bar>"
  using abs_cdiv_less [of i 10] by (cases "i = 0") (auto simp: cdiv_def)

termination convert_digits
  by (relation "measure (\<lambda>i. nat \<bar>i\<bar>)") (auto simp: cdiv_ten_decreases zless_nat_eq_int_zless)

declare convert_digits.simps [simp del]

definition convert :: "int \<Rightarrow> string" where
  "convert value = rev (convert_digits value @ (if value < 0 then ''-'' else []))"

definition digitsHex :: string where
  "digitsHex = ''0123456789ABCDEF''"

fun hex_digits :: "nat \<Rightarrow> string" where
  "hex_digits i =
     (let lsd = i mod 16; j = i div 16 in (digitsHex ! lsd) # (if j \<noteq> 0 then hex_digits j else []))"

declare hex_digits.simps [simp del]

definition convertHex :: "nat \<Rightarrow> string" where
  "convertHex value = rev (hex_digits value)"

subsection \<open>Insertion\<close>

definition kMaxNumericSize :: nat where
  "kMaxNumericSize = 32"

definition formatInteger :: "int \<Rightarrow> fixed_buffer \<Rightarrow> fixed_buffer" where
  "formatInteger v b = (if kMaxNumericSize \<le> fb_avail b then fb_add (convert v) b else b)"

definition log_bool :: "bool \<Rightarrow> fixed_buffer \<Rightarrow> fixed_buffer" where
  "log_bool v b = fb_append (if v then ''1'' else ''0'') 1 b"

definition log_char :: "char \<Rightarrow> fixed_buffer \<Rightarrow> fixed_buffer" where
  "log_char v b = fb_append [v] 1 b"

text \<open>A C string, or a null pointer.\<close>

definition log_cstr :: "string option \<Rightarrow> fixed_buffer \<Rightarrow> fixed_buffer" where
  "log_cstr s b = (case s of Some s \<Rightarrow> fb_append s (length s) b | None \<Rightarrow> fb_append ''(null)'' 6 b)"

definition log_string :: "string \<Rightarrow> fixed_buffer \<Rightarrow> fixed_buffer" where
  "log_string s b = fb_append s (length s) b"

definition log_append :: "string \<Rightarrow> nat \<Rightarrow> fixed_buffer \<Rightarrow> fixed_buffer" where
  "log_append s len b = fb_append s len b"

definition log_pointer :: "nat \<Rightarrow> fixed_buffer \<Rightarrow> fixed_buffer" where
  "log_pointer v b = (if kMaxNumericSize \<le> fb_avail b then fb_add (''0x'' @ convertHex v) b else b)"

text \<open>\<open>%.12g\<close> gives at most 19 characters, so \<open>snprintf\<close> stores all of the text \<open>t\<close>.\<close>

definition log_double :: "string \<Rightarrow> fixed_buffer \<Rightarrow> fixed_buffer" where
  "log_double t b = (if kMaxNumericSize \<le> fb_avail b
     then fb_add (snprintf_text kMaxNumericSize t) b else b)"

text \<open>
  The overloads, at the widths of the types of the platform (\<open>long\<close> has 64 bits): the short ones are promoted to \<open>int\<close>, a \<open>float\<close> to
  \<open>double\<close> (\<open>t\<close> is the text of the promoted value).
\<close>

definition log_int :: "32 word \<Rightarrow> fixed_buffer \<Rightarrow> fixed_buffer" where
  "log_int v = formatInteger (sint v)"

definition log_short :: "16 word \<Rightarrow> fixed_buffer \<Rightarrow> fixed_buffer" where
  "log_short v = log_int (scast v)"

definition log_ushort :: "16 word \<Rightarrow> fixed_buffer \<Rightarrow> fixed_buffer" where
  "log_ushort v = log_int (ucast v)"

definition log_uint :: "32 word \<Rightarrow> fixed_buffer \<Rightarrow> fixed_buffer" where
  "log_uint v = formatInteger (uint v)"

definition log_long :: "64 word \<Rightarrow> fixed_buffer \<Rightarrow> fixed_buffer" where
  "log_long v = formatInteger (sint v)"

definition log_longlong :: "64 word \<Rightarrow> fixed_buffer \<Rightarrow> fixed_buffer" where
  "log_longlong v = formatInteger (sint v)"

definition log_ulong :: "64 word \<Rightarrow> fixed_buffer \<Rightarrow> fixed_buffer" where
  "log_ulong v = formatInteger (uint v)"

definition log_ulonglong :: "64 word \<Rightarrow> fixed_buffer \<Rightarrow> fixed_buffer" where
  "log_ulonglong v = formatInteger (uint v)"

definition log_float :: "string \<Rightarrow> fixed_buffer \<Rightarrow> fixed_buffer" where
  "log_float t = log_double t"

definition log_ucstr :: "string option \<Rightarrow> fixed_buffer \<Rightarrow> fixed_buffer" where
  "log_ucstr s = log_cstr s"

definition log_std_string :: "string \<Rightarrow> fixed_buffer \<Rightarrow> fixed_buffer" where
  "log_std_string s b = fb_append s (length s) b"

text \<open>A string piece: its characters and its length.\<close>

definition log_piece :: "string \<Rightarrow> nat \<Rightarrow> fixed_buffer \<Rightarrow> fixed_buffer" where
  "log_piece ptr len b = fb_append ptr len b"

text \<open>Another stream's buffer goes through a string piece.\<close>

definition log_buffer :: "fixed_buffer \<Rightarrow> fixed_buffer \<Rightarrow> fixed_buffer" where
  "log_buffer v b = log_piece (fb_data v) (fb_length v) b"

definition resetBuffer :: "fixed_buffer \<Rightarrow> fixed_buffer" where
  "resetBuffer b = fb_reset b"

definition fb_toStringPiece :: "fixed_buffer \<Rightarrow> string \<times> nat" where
  "fb_toStringPiece b = (fb_data b, fb_length b)"

subsection \<open>Fmt\<close>

text \<open>\<open>length_\<close> is the length of the whole text, also when the 32-byte array holds less.\<close>

record fmt =
  fmt_buf :: string
  fmt_length :: nat

definition Fmt_new :: "string \<Rightarrow> fmt" where
  "Fmt_new t = \<lparr>fmt_buf = snprintf_text 32 t, fmt_length = length t\<rparr>"

definition log_fmt :: "fmt \<Rightarrow> fixed_buffer \<Rightarrow> fixed_buffer result" where
  "log_fmt f b =
     (if fmt_length f < fb_avail b \<and> 32 < fmt_length f then Inl OutOfRange
      else Inr (fb_append (fmt_buf f @ replicate (32 - length (fmt_buf f)) (CHR 0x00)) (fmt_length f) b))"

subsection \<open>Facts\<close>

definition fb_inv :: "fixed_buffer \<Rightarrow> bool" where
  "fb_inv b \<longleftrightarrow> fb_length b < fb_size b"

lemma zero_at_digit: "-10 < d \<Longrightarrow> d < 10 \<Longrightarrow> zero_at d = digit (nat \<bar>d\<bar>)"
proof -
  assume "-10 < d" "d < 10"
  then have "d \<in> {-9, -8, -7, -6, -5, -4, -3, -2, -1, 0, 1, 2, 3, 4, 5, 6, 7, 8, 9}"
    unfolding insert_iff empty_iff by presburger
  then show ?thesis by (auto simp: zero_at_def digits_def digit_numerals)
qed

lemma convert_digits_abs: "convert_digits i = rev (dec (nat \<bar>i\<bar>))"
proof (induction i rule: convert_digits.induct)
  case (1 i)
  have neg: "cmod i 10 = - ((- i) mod 10)" "cdiv i 10 = - ((- i) div 10)" if "i < 0"
    using that by (simp_all add: cmod_neg cdiv_neg)
  have m: "-10 < cmod i 10" "cmod i 10 < 10" "nat \<bar>cmod i 10\<bar> = nat \<bar>i\<bar> mod 10"
    using neg by (cases "i < 0"; simp add: nat_mod_distrib)+
  have d: "nat \<bar>cdiv i 10\<bar> = nat \<bar>i\<bar> div 10"
    using neg by (cases "i < 0") (simp_all add: nat_div_distrib)
  have z: "zero_at (cmod i 10) = digit (nat \<bar>i\<bar> mod 10)" using zero_at_digit [OF m(1,2)] m(3) by simp
  show ?case
  proof (cases "cdiv i 10 = 0")
    case True
    then have "nat \<bar>i\<bar> < 10" using d by simp
    then show ?thesis using True z by (simp add: convert_digits.simps [of i] dec.simps [of "nat \<bar>i\<bar>"])
  next
    case False
    then have "\<not> nat \<bar>i\<bar> < 10" using d by (metis abs_eq_0 div_less int_nat_eq nat_0_iff abs_ge_zero order_antisym)
    then show ?thesis using False 1 z d
      by (simp add: convert_digits.simps [of i] dec.simps [of "nat \<bar>i\<bar>"])
  qed
qed

lemma convert_eq: "convert v = fmt_d v"
  by (auto simp: convert_def convert_digits_abs fmt_d_def)

lemma length_convert: "- (2 ^ 63) \<le> v \<Longrightarrow> v < 2 ^ 64 \<Longrightarrow> length (convert v) \<le> 20"
proof -
  assume v: "- (2 ^ 63) \<le> v" "v < 2 ^ 64"
  show ?thesis
  proof (cases "v < 0")
    case True
    have "nat (- v) < 10 ^ 19" using v by simp
    then have "length (dec (nat (- v))) \<le> 19" by (rule length_dec) simp
    then show ?thesis using True by (simp add: convert_eq fmt_d_def)
  next
    case False
    have "nat v < 10 ^ 20" using v by simp
    then have "length (dec (nat v)) \<le> 20" by (rule length_dec) simp
    then show ?thesis using False by (simp add: convert_eq fmt_d_def)
  qed
qed

definition hex_value :: "char \<Rightarrow> nat" where
  "hex_value c = (if of_char c < (65 :: nat) then of_char c - 48 else of_char c - 55)"

definition unhex :: "string \<Rightarrow> nat" where
  "unhex s = foldl (\<lambda>a c. a * 16 + hex_value c) 0 s"

lemma hex_value_digit: "d < 16 \<Longrightarrow> hex_value (digitsHex ! d) = d"
proof -
  assume "d < 16"
  then have "d \<in> {0, 1, 2, 3, 4, 5, 6, 7, 8, 9, 10, 11, 12, 13, 14, 15}"
    unfolding insert_iff empty_iff by presburger
  then show ?thesis by (auto simp: digitsHex_def hex_value_def)
qed

lemma unhex_snoc: "unhex (s @ [c]) = unhex s * 16 + hex_value c"
  by (simp add: unhex_def)

lemma unhex_convertHex: "unhex (convertHex v) = v"
  unfolding convertHex_def
proof (induction v rule: hex_digits.induct)
  case (1 i)
  have h: "hex_value (digitsHex ! (i mod 16)) = i mod 16" by (rule hex_value_digit) simp
  show ?case
  proof (cases "i div 16 = 0")
    case True
    then have "rev (hex_digits i) = [] @ [digitsHex ! (i mod 16)]" by (simp add: hex_digits.simps [of i] Let_def)
    then show ?thesis using True h unfolding unhex_snoc by (simp add: unhex_snoc unhex_def)
  next
    case False
    then have "rev (hex_digits i) = rev (hex_digits (i div 16)) @ [digitsHex ! (i mod 16)]"
      by (simp add: hex_digits.simps [of i] Let_def)
    then show ?thesis using 1 [OF refl refl False] h by (simp add: unhex_snoc)
  qed
qed

lemma length_hex_digits: "v < 16 ^ k \<Longrightarrow> 0 < k \<Longrightarrow> length (hex_digits v) \<le> k"
proof (induction v arbitrary: k rule: hex_digits.induct)
  case (1 i)
  show ?case
  proof (cases "i div 16 = 0")
    case True
    then show ?thesis using 1 by (simp add: hex_digits.simps [of i] Let_def)
  next
    case False
    then have k: "1 < k" using "1.prems" by (cases k) (auto simp: less_Suc_eq)
    then have "i div 16 < 16 ^ (k - 1)"
      using "1.prems"(1) by (intro less_mult_imp_div_less) (metis Suc_diff_1 "1.prems"(2) power_Suc2)
    then have "length (hex_digits (i div 16)) \<le> k - 1" using "1.IH" False k by simp
    then show ?thesis using False k by (simp add: hex_digits.simps [of i] Let_def)
  qed
qed

subsection \<open>Streams of insertions\<close>

datatype log_op = Put_bool bool | Put_char char | Put_int int | Put_pointer nat | Put_cstr "string option" | Put_string string | Put_double string

fun log_exec :: "log_op \<Rightarrow> fixed_buffer \<Rightarrow> fixed_buffer" where
  "log_exec (Put_bool v) b = log_bool v b"
| "log_exec (Put_char c) b = log_char c b"
| "log_exec (Put_int v) b = formatInteger v b"
| "log_exec (Put_pointer p) b = log_pointer p b"
| "log_exec (Put_cstr s) b = log_cstr s b"
| "log_exec (Put_string s) b = log_string s b"
| "log_exec (Put_double t) b = log_double t b"

text \<open>The text an insertion stands for.\<close>

fun log_text :: "log_op \<Rightarrow> string" where
  "log_text (Put_bool v) = (if v then ''1'' else ''0'')"
| "log_text (Put_char c) = [c]"
| "log_text (Put_int v) = fmt_d v"
| "log_text (Put_pointer p) = ''0x'' @ convertHex p"
| "log_text (Put_cstr s) = (case s of Some s \<Rightarrow> s | None \<Rightarrow> ''(null)'')"
| "log_text (Put_string s) = s"
| "log_text (Put_double t) = t"

fun log_op_ok :: "log_op \<Rightarrow> bool" where
  "log_op_ok (Put_int v) = (- (2 ^ 63) \<le> v \<and> v < 2 ^ 64)"
| "log_op_ok (Put_pointer p) = (p < 2 ^ 64)"
| "log_op_ok (Put_double t) = (length t \<le> 19)"
| "log_op_ok p = True"

lemma log_text_numeric:
  assumes "log_op_ok p" and "\<exists>v. p = Put_int v \<or> (\<exists>q. p = Put_pointer q) \<or> (\<exists>t. p = Put_double t)"
  shows "length (log_text p) < kMaxNumericSize"
proof -
  have "length (convertHex q) \<le> 16" if "q < 2 ^ 64" for q
    using that length_hex_digits [of q 16] by (simp add: convertHex_def)
  then show ?thesis
    using assms length_convert by (cases p) (fastforce simp: kMaxNumericSize_def convert_eq)+
qed

text \<open>An insertion stores its whole text or nothing; it is never refused while 32 bytes more than the text are free.\<close>

lemma log_exec_cases:
  assumes "log_op_ok p" and "fb_inv b"
  shows "fb_inv (log_exec p b) \<and> fb_size (log_exec p b) = fb_size b \<and>
    (log_exec p b = b \<or> fb_data (log_exec p b) = fb_data b @ log_text p) \<and>
    (length (log_text p) + kMaxNumericSize \<le> fb_avail b \<longrightarrow> fb_data (log_exec p b) = fb_data b @ log_text p)"
proof -
  have "length (log_text p) < kMaxNumericSize" if "\<exists>v. p = Put_int v \<or> (\<exists>q. p = Put_pointer q) \<or> (\<exists>t. p = Put_double t)"
    using log_text_numeric [OF assms(1) that] .
  then show ?thesis
    using assms(2)
    by (cases p) (auto simp: fb_append_def fb_avail_def fb_length_def fb_inv_def fb_add_def kMaxNumericSize_def
      formatInteger_def log_bool_def log_char_def log_cstr_def log_string_def log_pointer_def log_double_def convert_eq
      split: option.splits)
qed

lemma log_runs:
  assumes "\<forall>p \<in> set ps. log_op_ok p" and "fb_inv b"
  shows "fb_inv (fold log_exec ps b) \<and> fb_size (fold log_exec ps b) = fb_size b \<and>
    (\<exists>keep. fb_data (fold log_exec ps b) = fb_data b @ concat (map log_text (nths ps keep))) \<and>
    (length (concat (map log_text ps)) + kMaxNumericSize \<le> fb_avail b \<longrightarrow>
       fb_data (fold log_exec ps b) = fb_data b @ concat (map log_text ps))"
  using assms
proof (induction ps arbitrary: b)
  case (Cons p ps)
  let ?c = "log_exec p b"
  have step: "fb_inv ?c" "fb_size ?c = fb_size b" "?c = b \<or> fb_data ?c = fb_data b @ log_text p"
    "length (log_text p) + kMaxNumericSize \<le> fb_avail b \<longrightarrow> fb_data ?c = fb_data b @ log_text p"
    using log_exec_cases [of p b] Cons.prems by auto
  have IH: "fb_inv (fold log_exec ps ?c)" "fb_size (fold log_exec ps ?c) = fb_size ?c"
    "\<exists>keep. fb_data (fold log_exec ps ?c) = fb_data ?c @ concat (map log_text (nths ps keep))"
    "length (concat (map log_text ps)) + kMaxNumericSize \<le> fb_avail ?c \<longrightarrow>
       fb_data (fold log_exec ps ?c) = fb_data ?c @ concat (map log_text ps)"
    using Cons.IH [OF _ step(1)] Cons.prems(1) by auto
  obtain keep where keep: "fb_data (fold log_exec ps ?c) = fb_data ?c @ concat (map log_text (nths ps keep))" using IH(3) by blast
  have "\<exists>keep. fb_data (fold log_exec (p # ps) b) = fb_data b @ concat (map log_text (nths (p # ps) keep))"
  proof (cases "?c = b")
    case True
    have "nths (p # ps) (Suc ` keep) = nths ps keep" by (simp add: nths_Cons inj_image_mem_iff)
    then show ?thesis using keep True by (intro exI [of _ "Suc ` keep"]) simp
  next
    case False
    have "nths (p # ps) (insert 0 (Suc ` keep)) = p # nths ps keep" by (simp add: nths_Cons inj_image_mem_iff)
    then show ?thesis using keep step(3) False by (intro exI [of _ "insert 0 (Suc ` keep)"]) simp
  qed
  moreover have "fb_data (fold log_exec (p # ps) b) = fb_data b @ concat (map log_text (p # ps))"
    if "length (concat (map log_text (p # ps))) + kMaxNumericSize \<le> fb_avail b"
  proof -
    have 1: "fb_data ?c = fb_data b @ log_text p" using step(4) that by simp
    then have "length (concat (map log_text ps)) + kMaxNumericSize \<le> fb_avail ?c"
      using that step(2) by (simp add: fb_avail_def fb_length_def)
    then show ?thesis using IH(4) 1 by simp
  qed
  ultimately show ?case using IH(1,2) step(2) by auto
qed (auto intro: exI [of _ "{}"])

subsection \<open>Properties\<close>

text \<open>C37: the digit loops are correct: \<open>convert\<close> gives exactly the decimal text of every integer, negative ones and the
  most negative one of each type included, \<open>convertHex\<close> the hexadecimal text that reads back as the value, and for 64-bit values both stay below
  the 32 bytes \<open>formatInteger\<close> requires to be free.\<close>

theorem conversions_correct:
  "convert v = fmt_d v \<and> unhex (convertHex p) = p \<and>
   (- (2 ^ 63) \<le> v \<and> v < 2 ^ 64 \<longrightarrow> length (convert v) \<le> 20) \<and> (p < 2 ^ 64 \<longrightarrow> length (convertHex p) \<le> 16)"
  using convert_eq unhex_convertHex length_convert [of v] length_hex_digits [of p 16] by (simp add: convertHex_def)

theorem conversions_correct_witness:
  "convert (- 1205) = ''-1205'' \<and> length (convert (- 1205)) \<le> 20 \<and> length (convertHex 48879) \<le> 16"
  using conversions_correct [of "- 1205" 48879] by (simp add: fmt_d_def dec_numeral digit_numerals)

text \<open>A log line never overruns its buffer and is never garbled: after any sequence of insertions the text stays shorter than the buffer
  and is the concatenation of the whole texts of some of the insertions, in order; of all of them, if the buffer has 32 bytes to spare.\<close>

theorem log_stream_bounded:
  assumes "\<forall>p \<in> set ps. log_op_ok p" and "0 < n"
  defines "b \<equiv> fold log_exec ps (FixedBuffer_new n)"
  shows "length (fb_toString b) < n \<and> (\<exists>keep. fb_toString b = concat (map log_text (nths ps keep))) \<and>
    (length (concat (map log_text ps)) + 32 \<le> n \<longrightarrow> fb_toString b = concat (map log_text ps))"
  using log_runs [OF assms(1), of "FixedBuffer_new n"] assms(2)
  by (simp add: b_def fb_inv_def FixedBuffer_new_def fb_length_def fb_toString_def fb_avail_def kMaxNumericSize_def)

theorem log_stream_bounded_witness:
  "fb_toString (fold log_exec [Put_string ''n='', Put_int (- 42), Put_bool True, Put_cstr None] (FixedBuffer_new 4000)) = ''n=-421(null)''"
  using log_stream_bounded [of "[Put_string ''n='', Put_int (- 42), Put_bool True, Put_cstr None]" 4000]
  by (simp add: fmt_d_def dec_numeral digit_numerals)

text \<open>Inserting a \<open>Fmt\<close> stores its text when that fits the 32-byte array; when it does not, \<open>length_\<close> still holds the full length,
  and the insertion reads beyond the array.\<close>

theorem fmt_insertion:
  "(length t < 32 \<and> length t < fb_avail b \<longrightarrow> log_fmt (Fmt_new t) b = Inr (fb_add t b)) \<and>
   (32 < length t \<and> length t < fb_avail b \<longrightarrow> log_fmt (Fmt_new t) b = Inl OutOfRange)"
  by (auto simp: log_fmt_def Fmt_new_def fb_append_def fb_add_def)

theorem fmt_insertion_witness:
  "log_fmt (Fmt_new ''.000042Z '') (FixedBuffer_new 4000) = Inr (fb_add ''.000042Z '' (FixedBuffer_new 4000)) \<and>
   log_fmt (Fmt_new (replicate 40 (CHR ''7''))) (FixedBuffer_new 4000) = Inl OutOfRange"
  using fmt_insertion [of "''.000042Z ''" "FixedBuffer_new 4000"] fmt_insertion [of "replicate 40 (CHR ''7'')" "FixedBuffer_new 4000"]
  by (simp add: fb_avail_def fb_length_def FixedBuffer_new_def)

text \<open>
  Every integer overload prints the value of its argument: with 32 bytes free, the signed ones the signed value and the unsigned ones the unsigned
  value of the word, at all widths and for the extreme values too; with fewer bytes free none prints anything.
\<close>

theorem integer_overloads:
  "(32 \<le> fb_avail b \<longrightarrow>
      log_short s b = fb_add (fmt_d (sint s)) b \<and> log_ushort s b = fb_add (fmt_d (uint s)) b \<and>
      log_int i b = fb_add (fmt_d (sint i)) b \<and> log_uint i b = fb_add (fmt_d (uint i)) b \<and>
      log_long l b = fb_add (fmt_d (sint l)) b \<and> log_ulong l b = fb_add (fmt_d (uint l)) b \<and>
      log_longlong l b = log_long l b \<and> log_ulonglong l b = log_ulong l b) \<and>
   (fb_avail b < 32 \<longrightarrow> log_short s b = b \<and> log_ushort s b = b \<and> log_int i b = b \<and> log_uint i b = b \<and> log_long l b = b \<and> log_ulong l b = b)"
proof -
  have short: "sint (scast s :: 32 word) = sint (s :: 16 word)" by (simp add: sint_up_scast is_up)
  have ushort: "sint (ucast s :: 32 word) = uint (s :: 16 word)"
  proof -
    have "uint s < 2 ^ 16" using uint_lt2p [of s] by simp
    moreover have "0 \<le> uint s" by simp
    ultimately have "- (2 ^ 31) \<le> uint s" "uint s < 2 ^ 31" by simp_all (use \<open>0 \<le> uint s\<close> in linarith)
    then have "signed_take_bit 31 (uint s) = uint s" by (rule signed_take_bit_int_eq_self)
    then show ?thesis using \<open>uint s < 2 ^ 16\<close> by (simp add: sint_uint unsigned_ucast_eq take_bit_int_eq_self)
  qed
  show ?thesis
    using short ushort
    by (simp add: log_short_def log_ushort_def log_int_def log_uint_def log_long_def log_ulong_def log_longlong_def log_ulonglong_def
        formatInteger_def kMaxNumericSize_def convert_eq)
qed

lemma integer_overloads_witness:
  "log_short 0x8000 (FixedBuffer_new 4000) = fb_add (fmt_d (- 32768)) (FixedBuffer_new 4000) \<and>
   log_ushort 0x8000 (FixedBuffer_new 4000) = fb_add (fmt_d 32768) (FixedBuffer_new 4000)"
  using integer_overloads [of "FixedBuffer_new 4000" "0x8000"] by (simp add: fb_avail_def fb_length_def FixedBuffer_new_def)

end
