(* ===== verification/RN_LogStreamTest.thy ===== *)
theory RN_LogStreamTest
  imports RN_LogStream
begin

text \<open>
  RN/base/tests/LogStreamTest.cpp: the unit tests of the log stream, as lists of insertions and checks. They are executed on the model of the stream: its
  operations meet the expectations the authors wrote down. The text that \<open>%4.2f\<close> gives for \<open>1.2\<close> is an argument.
\<close>

datatype test_step = Do "fixed_buffer \<Rightarrow> fixed_buffer result" | Check_text string | Check_space nat nat

fun passes :: "test_step list \<Rightarrow> fixed_buffer \<Rightarrow> bool" where
  "passes [] b = True"
| "passes (Do f # ss) b = (case f b of Inl e \<Rightarrow> False | Inr b \<Rightarrow> passes ss b)"
| "passes (Check_text t # ss) b = (fb_toString b = t \<and> passes ss b)"
| "passes (Check_space len avail # ss) b = (fb_length b = len \<and> fb_avail b = avail \<and> passes ss b)"

text \<open>An insertion that cannot fail.\<close>

definition ins :: "(fixed_buffer \<Rightarrow> fixed_buffer) \<Rightarrow> test_step" where
  "ins f = Do (\<lambda>b. Inr (f b))"

text \<open>A test case starts with a stream of its own.\<close>

definition test_passes :: "test_step list \<Rightarrow> bool" where
  "test_passes ss = passes ss (FixedBuffer_new kSmallBuffer)"

subsection \<open>The test cases\<close>

definition testLogStreamBooleans :: "test_step list" where
  "testLogStreamBooleans =
     [Check_text [], ins (log_bool True), Check_text ''1'', ins (log_cstr (Some [CHR 0x0A])), Check_text (''1'' @ [CHR 0x0A]),
      ins (log_bool False), Check_text (''1'' @ [CHR 0x0A] @ ''0'')]"

definition testLogStreamIntegers :: "test_step list" where
  "testLogStreamIntegers =
     [Check_text [], ins (log_int 1), Check_text ''1'', ins (log_int 0), Check_text ''10'', ins (log_int (- 1)), Check_text ''10-1'',
      ins (log_int 123), Check_text ''10-1123'', ins resetBuffer,
      ins (log_int 0), ins (log_cstr (Some '' '')), ins (log_int 123), ins (log_char (CHR ''x'')), ins (log_int 0x64), Check_text ''0 123x100'']"

text \<open>The limits of the signed and the unsigned type of a width.\<close>

definition min_signed :: "'w::len word" where
  "min_signed = push_bit (LENGTH('w) - 1) 1"

definition max_signed :: "'w::len word" where
  "max_signed = not min_signed"

definition max_unsigned :: "'w::len word" where
  "max_unsigned = - 1"

definition testLogStreamIntegerLimits :: "test_step list" where
  "testLogStreamIntegerLimits =
     [ins (log_int (- 2147483647)), Check_text ''-2147483647'',
      ins (log_int (- 2147483647 - 1)), Check_text ''-2147483647-2147483648'', ins (log_char (CHR '' '')),
      ins (log_int 2147483647), Check_text ''-2147483647-2147483648 2147483647'', ins resetBuffer,
      ins (log_short min_signed), Check_text ''-32768'', ins resetBuffer,
      ins (log_short max_signed), Check_text ''32767'', ins resetBuffer,
      ins (log_ushort 0), Check_text ''0'', ins resetBuffer,
      ins (log_ushort max_unsigned), Check_text ''65535'', ins resetBuffer,
      ins (log_int min_signed), Check_text ''-2147483648'', ins resetBuffer,
      ins (log_int max_signed), Check_text ''2147483647'', ins resetBuffer,
      ins (log_uint 0), Check_text ''0'', ins resetBuffer,
      ins (log_uint max_unsigned), Check_text ''4294967295'', ins resetBuffer,
      ins (log_long min_signed), Check_text ''-9223372036854775808'', ins resetBuffer,
      ins (log_long max_signed), Check_text ''9223372036854775807'', ins resetBuffer,
      ins (log_ulong 0), Check_text ''0'', ins resetBuffer,
      ins (log_ulong max_unsigned), Check_text ''18446744073709551615'', ins resetBuffer,
      ins (log_short 0), ins (log_int 0), ins (log_long 0), Check_text ''000'']"

definition testLogStreamVoid :: "test_step list" where
  "testLogStreamVoid =
     [ins (log_pointer 0), Check_text ''0x0'', ins resetBuffer, ins (log_pointer 8888), Check_text ''0x22B8'', ins resetBuffer]"

definition testLogStreamStrings :: "test_step list" where
  "testLogStreamStrings =
     [ins (log_cstr (Some ''Hello '')), Check_text ''Hello '', ins (log_string ''Shuo Chen''), Check_text ''Hello Shuo Chen'']"

definition testLogStreamFmts :: "string \<Rightarrow> test_step list" where
  "testLogStreamFmts t =
     [Do (log_fmt (Fmt_new (fmt_wd 4 1))), Check_text ''   1'', ins resetBuffer, Do (log_fmt (Fmt_new t)), Check_text ''1.20'', ins resetBuffer,
      Do (log_fmt (Fmt_new t)), Do (log_fmt (Fmt_new (fmt_wd 4 43))), Check_text ''1.20  43'', ins resetBuffer]"

definition testLogStreamLong :: "test_step list" where
  "testLogStreamLong =
     concat (map (\<lambda>i. [ins (log_cstr (Some ''123456789 '')), Check_space (10 * (i + 1)) (4000 - 10 * (i + 1))]) [0 ..< 399]) @
     [ins (log_cstr (Some ''abcdefghi '')), Check_space 3990 10, ins (log_cstr (Some ''abcdefghi'')), Check_space 3999 1]"

subsection \<open>They pass\<close>

lemma passes_ins [simp]: "passes (ins f # ss) b = passes ss (f b)"
  by (simp add: ins_def)

lemma small_stream: "FixedBuffer_new kSmallBuffer = \<lparr>fb_size = 4000, fb_data = []\<rparr>"
  by (simp add: FixedBuffer_new_def kSmallBuffer_def)

lemma on_stream:
  "fb_toString \<lparr>fb_size = n, fb_data = d\<rparr> = d" "resetBuffer \<lparr>fb_size = n, fb_data = d\<rparr> = \<lparr>fb_size = n, fb_data = []\<rparr>"
  "length d + 32 \<le> n \<Longrightarrow> formatInteger v \<lparr>fb_size = n, fb_data = d\<rparr> = \<lparr>fb_size = n, fb_data = d @ fmt_d v\<rparr>"
  "length d + 32 \<le> n \<Longrightarrow> log_pointer p \<lparr>fb_size = n, fb_data = d\<rparr> = \<lparr>fb_size = n, fb_data = d @ ''0x'' @ convertHex p\<rparr>"
  "length d + length s < n \<Longrightarrow> log_cstr (Some s) \<lparr>fb_size = n, fb_data = d\<rparr> = \<lparr>fb_size = n, fb_data = d @ s\<rparr>"
  "length d + length s < n \<Longrightarrow> log_string s \<lparr>fb_size = n, fb_data = d\<rparr> = \<lparr>fb_size = n, fb_data = d @ s\<rparr>"
  "length d + 1 < n \<Longrightarrow> log_char c \<lparr>fb_size = n, fb_data = d\<rparr> = \<lparr>fb_size = n, fb_data = d @ [c]\<rparr>"
  "length d + 1 < n \<Longrightarrow> log_bool w \<lparr>fb_size = n, fb_data = d\<rparr> = \<lparr>fb_size = n, fb_data = d @ (if w then ''1'' else ''0'')\<rparr>"
  "length d + length t < n \<Longrightarrow> length t < 32 \<Longrightarrow> log_fmt (Fmt_new t) \<lparr>fb_size = n, fb_data = d\<rparr> = Inr \<lparr>fb_size = n, fb_data = d @ t\<rparr>"
  by (auto simp: fb_toString_def fb_length_def resetBuffer_def fb_reset_def formatInteger_def kMaxNumericSize_def fb_avail_def fb_add_def convert_eq
      log_pointer_def log_cstr_def log_string_def fb_append_def log_char_def log_bool_def log_fmt_def Fmt_new_def)

lemmas overload_defs = log_short_def log_ushort_def log_int_def log_uint_def log_long_def log_ulong_def

lemma booleans_pass: "test_passes testLogStreamBooleans"
  by (simp add: test_passes_def testLogStreamBooleans_def small_stream on_stream)

lemma integers_pass: "test_passes testLogStreamIntegers"
  by (simp add: test_passes_def testLogStreamIntegers_def small_stream on_stream overload_defs fmt_d_def dec_numeral digit_numerals)

lemma limit_words [simp]:
  "(min_signed :: 16 word) = 0x8000" "(max_signed :: 16 word) = 0x7FFF" "(min_signed :: 32 word) = 0x80000000"
  "(max_signed :: 32 word) = 0x7FFFFFFF" "(min_signed :: 64 word) = 0x8000000000000000" "(max_signed :: 64 word) = 0x7FFFFFFFFFFFFFFF"
  "(max_unsigned :: 16 word) = 0xFFFF" "(max_unsigned :: 32 word) = 0xFFFFFFFF" "(max_unsigned :: 64 word) = 0xFFFFFFFFFFFFFFFF"
  by (simp_all add: min_signed_def max_signed_def max_unsigned_def)

lemma limits_pass: "test_passes testLogStreamIntegerLimits"
  by (simp add: test_passes_def testLogStreamIntegerLimits_def small_stream on_stream overload_defs fmt_d_def dec_numeral digit_numerals)

lemma void_pass: "test_passes testLogStreamVoid"
  by (simp add: test_passes_def testLogStreamVoid_def small_stream on_stream convertHex_def hex_digits.simps digitsHex_def)

lemma strings_pass: "test_passes testLogStreamStrings"
  by (simp add: test_passes_def testLogStreamStrings_def small_stream on_stream)

lemma padded: "fmt_wd 4 1 = ''   1''" "fmt_wd 4 43 = ''  43''"
  by (simp_all add: fmt_wd_def pad_def fmt_d_def dec_numeral digit_numerals) (simp_all add: numeral_2_eq_2 numeral_3_eq_3)

lemma fmts_pass: "test_passes (testLogStreamFmts ''1.20'')"
  by (simp add: test_passes_def testLogStreamFmts_def small_stream on_stream padded)

lemma long_run:
  "i \<le> 399 \<Longrightarrow> length d = 10 * i \<Longrightarrow>
     passes (concat (map (\<lambda>i. [ins (log_cstr (Some ''123456789 '')), Check_space (10 * (i + 1)) (4000 - 10 * (i + 1))]) [i ..< 399]) @ ss)
       \<lparr>fb_size = 4000, fb_data = d\<rparr> =
     passes ss \<lparr>fb_size = 4000, fb_data = d @ concat (replicate (399 - i) ''123456789 '')\<rparr>"
proof (induction "399 - i" arbitrary: i d)
  case (Suc k)
  then have i: "i < 399" "k = 399 - Suc i" by simp_all
  have l: "length (d @ ''123456789 '') = 10 * Suc i" using Suc.prems by simp
  have c: "fb_length \<lparr>fb_size = 4000, fb_data = d @ ''123456789 ''\<rparr> = 10 * (i + 1) \<and>
      fb_avail \<lparr>fb_size = 4000, fb_data = d @ ''123456789 ''\<rparr> = 4000 - 10 * (i + 1)"
    using l by (simp add: fb_length_def fb_avail_def)
  have r: "concat (replicate (399 - i) ''123456789 '') = ''123456789 '' @ concat (replicate (399 - Suc i) ''123456789 '')"
    using i by (metis Suc_diff_Suc concat.simps(2) replicate_Suc)
  have "log_cstr (Some ''123456789 '') \<lparr>fb_size = 4000, fb_data = d\<rparr> = \<lparr>fb_size = 4000, fb_data = d @ ''123456789 ''\<rparr>"
    by (rule on_stream(5)) (use Suc.prems i in simp)
  moreover have "[i ..< 399] = i # [Suc i ..< 399]" using i(1) by (rule upt_conv_Cons)
  ultimately show ?case using Suc.hyps(1) [OF i(2) _ l] i(1) c r by (simp del: upt_Suc)
qed simp

lemma long_pass: "test_passes testLogStreamLong"
proof -
  define d where "d = concat (replicate 399 ''123456789 '')"
  have d: "length d = 3990" by (simp add: d_def length_concat sum_list_replicate)
  have "test_passes testLogStreamLong =
      passes [ins (log_cstr (Some ''abcdefghi '')), Check_space 3990 10, ins (log_cstr (Some ''abcdefghi'')), Check_space 3999 1]
        \<lparr>fb_size = 4000, fb_data = d\<rparr>"
    using long_run [of 0 "[]"] by (simp add: test_passes_def testLogStreamLong_def small_stream d_def)
  then show ?thesis using d by (simp add: log_cstr_def fb_append_def fb_avail_def fb_length_def)
qed

subsection \<open>Property\<close>

text \<open>
  The unit tests of the log stream pass: booleans, integers and their limits at every width, pointers, strings, formatted values, and a stream filled
  to its last byte, which refuses what does not fit and keeps the rest.
\<close>

theorem log_stream_tests_pass:
  assumes "t = ''1.20''"
  shows "list_all test_passes
    [testLogStreamBooleans, testLogStreamIntegers, testLogStreamIntegerLimits, testLogStreamVoid, testLogStreamStrings, testLogStreamFmts t,
     testLogStreamLong]"
  using booleans_pass integers_pass limits_pass void_pass strings_pass fmts_pass long_pass assms by simp

lemma log_stream_tests_pass_witness: "test_passes (testLogStreamFmts ''1.20'')"
  using log_stream_tests_pass [of "''1.20''"] by simp

end
