(* ===== verification/RN_Logging.thy ===== *)
theory RN_Logging
  imports RN_LogStream RN_Timestamp
begin

text \<open>
  RN/base/Logging.h and Logging.cpp: the composition of a log line in a stream, the per-thread cache of the formatted second, the
  output when the \<open>Logger\<close> is destroyed, and the abort of the fatal levels. The calendar, the error texts and the thread's id text are
  arguments. The levels are a linear order, which the macros compare.
\<close>

subsection \<open>Levels\<close>

datatype log_level = TRACE | DEBUG | INFO | WARN | ERROR | FATAL

fun level_index :: "log_level \<Rightarrow> nat" where
  "level_index TRACE = 0"
| "level_index DEBUG = 1"
| "level_index INFO = 2"
| "level_index WARN = 3"
| "level_index ERROR = 4"
| "level_index FATAL = 5"

instantiation log_level :: linorder
begin

definition less_eq_log_level :: "log_level \<Rightarrow> log_level \<Rightarrow> bool" where
  "less_eq_log_level a b \<longleftrightarrow> level_index a \<le> level_index b"

definition less_log_level :: "log_level \<Rightarrow> log_level \<Rightarrow> bool" where
  "less_log_level a b \<longleftrightarrow> level_index a < level_index b"

instance
proof
  fix a b :: log_level
  show "a \<le> b \<Longrightarrow> b \<le> a \<Longrightarrow> a = b" by (cases a; cases b) (simp_all add: less_eq_log_level_def)
qed (auto simp: less_eq_log_level_def less_log_level_def)

end

fun LogLevelName :: "log_level \<Rightarrow> string" where
  "LogLevelName TRACE = ''TRACE ''"
| "LogLevelName DEBUG = ''DEBUG ''"
| "LogLevelName INFO = ''INFO  ''"
| "LogLevelName WARN = ''WARN  ''"
| "LogLevelName ERROR = ''ERROR ''"
| "LogLevelName FATAL = ''FATAL ''"

text \<open>\<open>initLogLevel\<close>: which environment variables are set.\<close>

definition initLogLevel :: "bool \<Rightarrow> bool \<Rightarrow> log_level" where
  "initLogLevel rn_log_trace rn_log_debug = (if rn_log_trace then TRACE else if rn_log_debug then DEBUG else INFO)"

text \<open>The macros: the three lowest levels are tested against the global level, the others are not.\<close>

definition log_enabled :: "log_level \<Rightarrow> log_level \<Rightarrow> bool" where
  "log_enabled g_logLevel level \<longleftrightarrow> (case level of
     TRACE \<Rightarrow> g_logLevel \<le> TRACE
   | DEBUG \<Rightarrow> g_logLevel \<le> DEBUG
   | INFO \<Rightarrow> g_logLevel \<le> INFO
   | _ \<Rightarrow> True)"

subsection \<open>Composition\<close>

text \<open>The text after the last slash.\<close>

definition SourceFile_data :: "string \<Rightarrow> string" where
  "SourceFile_data filename = rev (takeWhile (\<lambda>c. c \<noteq> CHR ''/'') (rev filename))"

text \<open>The constructor for an array takes the length from its type: \<open>N - 1\<close> is that of a literal.\<close>

definition SourceFile_array :: "string \<Rightarrow> string \<times> int" where
  "SourceFile_array filename =
     (if CHR ''/'' \<in> set filename then
        (let data = SourceFile_data filename in (data, int (length filename) - int (length filename - length data)))
      else (filename, int (length filename)))"

text \<open>A \<open>LengthChecker\<close> asserts that the text has the length given with it; then it is inserted with that length.\<close>

definition LengthChecker_new :: "string \<Rightarrow> nat \<Rightarrow> (string \<times> nat) result" where
  "LengthChecker_new str len = rassert (length str = len) (Inr (str, len))"

definition log_LengthChecker :: "string \<times> nat \<Rightarrow> fixed_buffer \<Rightarrow> fixed_buffer" where
  "log_LengthChecker v b = log_append (fst v) (snd v) b"

definition put_checked :: "string \<Rightarrow> nat \<Rightarrow> fixed_buffer \<Rightarrow> fixed_buffer result" where
  "put_checked str len b = rbind (LengthChecker_new str len) (\<lambda>v. Inr (log_LengthChecker v b))"

definition log_SourceFile :: "string \<times> int \<Rightarrow> fixed_buffer \<Rightarrow> fixed_buffer" where
  "log_SourceFile v b = log_append (fst v) (nat (snd v)) b"

lemma put_checked_eq: "put_checked str len b = rassert (length str = len) (Inr (log_append str len b))"
  by (simp add: put_checked_def LengthChecker_new_def log_LengthChecker_def rassert_def)

text \<open>Both constructors give the base name and its length.\<close>

lemma SourceFile_array_eq: "SourceFile_array filename = (SourceFile_data filename, int (length (SourceFile_data filename)))"
proof -
  have "length (SourceFile_data filename) \<le> length filename"
    using length_takeWhile_le [of "\<lambda>c. c \<noteq> CHR ''/''" "rev filename"] by (simp add: SourceFile_data_def)
  moreover have "SourceFile_data filename = filename" if "CHR ''/'' \<notin> set filename"
  proof -
    have "takeWhile (\<lambda>c. c \<noteq> CHR ''/'') (rev filename) = rev filename" using that by (auto simp: takeWhile_eq_all_conv)
    then show ?thesis by (simp only: SourceFile_data_def rev_rev_ident)
  qed
  ultimately show ?thesis by (simp add: SourceFile_array_def Let_def)
qed

record time_cache =
  t_time :: string
  t_lastSecond :: int

definition formatTime ::
  "(int \<Rightarrow> tm) \<Rightarrow> timestamp \<Rightarrow> time_cache \<Rightarrow> fixed_buffer \<Rightarrow> (time_cache \<times> fixed_buffer) result" where
  "formatTime gmtime time tc stream =
     (let seconds = cdiv time kMicroSecondsPerSecond;
          microseconds = cmod time kMicroSecondsPerSecond;
          tc = (if seconds \<noteq> t_lastSecond tc
                then \<lparr>t_time = snprintf_text 64 (fmt_tm (gmtime seconds)), t_lastSecond = seconds\<rparr> else tc);
          us = Fmt_new (''.'' @ fmt_0d 6 microseconds @ ''Z '')
      in rbind (put_checked (t_time tc) 17 stream) (\<lambda>stream.
         rbind (put_checked (fmt_buf us) 9 stream) (\<lambda>stream. Inr (tc, stream))))"

record logger =
  lg_stream :: fixed_buffer
  lg_level :: log_level
  lg_line :: int
  lg_basename :: string

definition Logger_Impl ::
  "(int \<Rightarrow> tm) \<Rightarrow> (int \<Rightarrow> string) \<Rightarrow> string \<Rightarrow> nat \<Rightarrow> timestamp \<Rightarrow> log_level \<Rightarrow> int \<Rightarrow> string \<Rightarrow> int \<Rightarrow> time_cache \<Rightarrow>
     (time_cache \<times> logger) result" where
  "Logger_Impl gmtime strerror tidString tidStringLength time level savedError file line tc =
     rbind (formatTime gmtime time tc (FixedBuffer_new kSmallBuffer)) (\<lambda>(tc, stream).
     rbind (put_checked tidString tidStringLength stream) (\<lambda>stream.
     rbind (put_checked (LogLevelName level) 6 stream) (\<lambda>stream.
     let stream = (if savedError \<noteq> 0
           then log_cstr (Some '') '') (formatInteger savedError (log_cstr (Some ''(errno='') (log_cstr (Some (strerror savedError)) stream)))
           else stream)
     in Inr (tc, \<lparr>lg_stream = stream, lg_level = level, lg_line = line, lg_basename = SourceFile_data file\<rparr>))))"

text \<open>The constructors: with a level, with a function name besides, and from \<open>errno\<close> with or without abort.\<close>

definition Logger_plain where
  "Logger_plain gmtime strerror tid tidLen time level file line tc = Logger_Impl gmtime strerror tid tidLen time level 0 file line tc"

definition Logger_func where
  "Logger_func gmtime strerror tid tidLen time level file line func tc =
     rbind (Logger_Impl gmtime strerror tid tidLen time level 0 file line tc) (\<lambda>(tc, l).
     Inr (tc, l\<lparr>lg_stream := log_char (CHR '' '') (log_cstr (Some func) (lg_stream l))\<rparr>))"

definition Logger_errno where
  "Logger_errno gmtime strerror tid tidLen time errno toAbort file line tc =
     Logger_Impl gmtime strerror tid tidLen time (if toAbort then FATAL else ERROR) errno file line tc"

definition Logger_finish :: "logger \<Rightarrow> logger" where
  "Logger_finish l = l\<lparr>lg_stream :=
     log_char (CHR 0x0A) (formatInteger (lg_line l) (log_cstr (Some '':'') (log_append (lg_basename l) (length (lg_basename l))
       (log_cstr (Some '' - '') (lg_stream l)))))\<rparr>"

text \<open>What the destructor does: the output, whether it flushes, whether it aborts.\<close>

definition Logger_destroy :: "logger \<Rightarrow> string \<times> bool \<times> bool" where
  "Logger_destroy l = (let l = Logger_finish l in (fb_toString (lg_stream l), lg_level l = FATAL, lg_level l = FATAL))"

text \<open>
  The output function, the flush function and the level are global; \<open>'w\<close> is what the functions change. The destructor of a statement's logger with them:
  a fatal statement is output, flushed and aborts.
\<close>

record 'w log_globals =
  g_outputFunc :: "string \<Rightarrow> 'w \<Rightarrow> 'w result"
  g_flushFunc :: "'w \<Rightarrow> 'w result"
  g_logLevel :: log_level

definition setOutputFunc :: "(string \<Rightarrow> 'w \<Rightarrow> 'w result) \<Rightarrow> 'w log_globals \<Rightarrow> 'w log_globals" where
  "setOutputFunc func g = g\<lparr>g_outputFunc := func\<rparr>"

definition setFlushFunc :: "('w \<Rightarrow> 'w result) \<Rightarrow> 'w log_globals \<Rightarrow> 'w log_globals" where
  "setFlushFunc func g = g\<lparr>g_flushFunc := func\<rparr>"

definition logLevel :: "'w log_globals \<Rightarrow> log_level" where
  "logLevel g = g_logLevel g"

text \<open>The functions set at the start write to and flush the standard output.\<close>

definition defaultOutputFunc :: "string \<Rightarrow> string \<Rightarrow> string result" where
  "defaultOutputFunc msg stdout = Inr (stdout @ msg)"

definition defaultFlushFunc :: "string \<Rightarrow> string result" where
  "defaultFlushFunc stdout = Inr stdout"

definition log_globals_start :: "bool \<Rightarrow> bool \<Rightarrow> string log_globals" where
  "log_globals_start rn_log_trace rn_log_debug =
     \<lparr>g_outputFunc = defaultOutputFunc, g_flushFunc = defaultFlushFunc, g_logLevel = initLogLevel rn_log_trace rn_log_debug\<rparr>"

definition Logger_output :: "'w log_globals \<Rightarrow> logger \<Rightarrow> 'w \<Rightarrow> 'w result" where
  "Logger_output g l w =
     (let (text, flushes, aborts) = Logger_destroy l in
      rbind (g_outputFunc g text w) (\<lambda>w.
      rbind (if flushes then g_flushFunc g w else Inr w) (\<lambda>w.
      if aborts then Inl Aborted else Inr w)))"

subsection \<open>Facts\<close>

text \<open>The cache holds the text of its second; it starts with second 0 and no text.\<close>

definition cache_ok :: "(int \<Rightarrow> tm) \<Rightarrow> time_cache \<Rightarrow> bool" where
  "cache_ok gmtime tc \<longleftrightarrow> t_time tc = fmt_tm (gmtime (t_lastSecond tc)) \<or> t_lastSecond tc = 0"

definition time_text :: "(int \<Rightarrow> tm) \<Rightarrow> timestamp \<Rightarrow> string" where
  "time_text gmtime time = fmt_tm (gmtime (time div 1000000)) @ ''.'' @ fmt_0d 6 (time mod 1000000) @ ''Z ''"

lemma length_LogLevelName: "length (LogLevelName level) = 6"
  by (cases level) simp_all

lemma put_checked_fits:
  "length s = n \<Longrightarrow> n < fb_avail b \<Longrightarrow> put_checked s n b = Inr (b\<lparr>fb_data := fb_data b @ s\<rparr>)"
  by (simp add: put_checked_eq log_append_def fb_append_def)

lemma put_fits:
  "length d + length s < n \<Longrightarrow> fb_append s (length s) \<lparr>fb_size = n, fb_data = d\<rparr> = \<lparr>fb_size = n, fb_data = d @ s\<rparr>"
  by (auto simp: fb_append_def fb_avail_def fb_length_def)

lemma formatTime_ok:
  assumes "cache_ok gmtime tc" and "1000000 \<le> time" and "\<And>s. tm_ok (gmtime s)" and "26 < fb_avail b"
  shows "\<exists>tc'. formatTime gmtime time tc b = Inr (tc', b\<lparr>fb_data := fb_data b @ time_text gmtime time\<rparr>) \<and>
    cache_ok gmtime tc' \<and> t_lastSecond tc' = time div 1000000"
proof -
  define sec where "sec = time div 1000000"
  have sec: "0 < sec" using assms(2) by (simp add: sec_def pos_imp_zdiv_pos_iff)
  define tc' where "tc' = (if sec \<noteq> t_lastSecond tc
    then \<lparr>t_time = snprintf_text 64 (fmt_tm (gmtime sec)), t_lastSecond = sec\<rparr> else tc)"
  have len: "length (fmt_tm (gmtime sec)) = 17" using assms(3) by (rule length_fmt_tm)
  have tc': "t_time tc' = fmt_tm (gmtime sec)" "t_lastSecond tc' = sec"
    using assms(1) sec len by (auto simp: tc'_def cache_ok_def)
  have us: "length (fmt_0d 6 (time mod 1000000)) = 6" by (intro length_fmt_0d) simp_all
  have cd: "cdiv time kMicroSecondsPerSecond = sec" "cmod time kMicroSecondsPerSecond = time mod 1000000"
    using assms(2) by (simp_all add: kMicroSecondsPerSecond_def sec_def)
  define u where "u = ''.'' @ fmt_0d 6 (time mod 1000000) @ ''Z ''"
  have u: "fmt_buf (Fmt_new u) = u" "length u = 9" using us by (simp_all add: u_def Fmt_new_def)
  define b1 where "b1 = b\<lparr>fb_data := fb_data b @ t_time tc'\<rparr>"
  have b1: "put_checked (t_time tc') 17 b = Inr b1" "9 < fb_avail b1"
    using put_checked_fits [of "t_time tc'" 17 b] tc'(1) len assms(4) by (simp_all add: b1_def fb_avail_def fb_length_def)
  have "formatTime gmtime time tc b =
      rbind (put_checked (t_time tc') 17 b) (\<lambda>b. rbind (put_checked (fmt_buf (Fmt_new u)) 9 b) (\<lambda>b. Inr (tc', b)))"
    unfolding formatTime_def Let_def cd tc'_def u_def ..
  also have "\<dots> = Inr (tc', b1\<lparr>fb_data := fb_data b1 @ u\<rparr>)"
    using b1 u put_checked_fits [of u 9 b1] by simp
  also have "b1\<lparr>fb_data := fb_data b1 @ u\<rparr> = b\<lparr>fb_data := fb_data b @ time_text gmtime time\<rparr>"
    using tc'(1) by (simp add: b1_def u_def time_text_def sec_def)
  finally have "formatTime gmtime time tc b = Inr (tc', b\<lparr>fb_data := fb_data b @ time_text gmtime time\<rparr>)" .
  then show ?thesis using tc' by (auto simp: cache_ok_def sec_def)
qed

text \<open>Insertions that fit.\<close>

lemma fb_append_fits: "length s < fb_avail b \<Longrightarrow> fb_append s (length s) b = b\<lparr>fb_data := fb_data b @ s\<rparr>"
  by (simp add: fb_append_def)

definition log_prefix :: "(int \<Rightarrow> tm) \<Rightarrow> string \<Rightarrow> timestamp \<Rightarrow> log_level \<Rightarrow> string" where
  "log_prefix gmtime tid time level = time_text gmtime time @ tid @ LogLevelName level"

lemma length_time_text: "(\<And>s. tm_ok (gmtime s)) \<Longrightarrow> length (time_text gmtime time) = 26"
proof -
  assume "\<And>s. tm_ok (gmtime s)"
  moreover have "length (fmt_0d 6 (time mod 1000000)) = 6" by (intro length_fmt_0d) simp_all
  ultimately show ?thesis by (simp add: time_text_def length_fmt_tm)
qed

lemma Logger_Impl_ok:
  assumes "cache_ok gmtime tc" and "1000000 \<le> time" and "\<And>s. tm_ok (gmtime s)" and "length tid < 100"
  shows "\<exists>tc'. Logger_Impl gmtime strerror tid (length tid) time level 0 file line tc =
    Inr (tc', \<lparr>lg_stream = \<lparr>fb_size = 4000, fb_data = log_prefix gmtime tid time level\<rparr>, lg_level = level, lg_line = line,
               lg_basename = SourceFile_data file\<rparr>) \<and> cache_ok gmtime tc'"
proof -
  have "26 < fb_avail (FixedBuffer_new kSmallBuffer)" by (simp add: fb_avail_def fb_length_def FixedBuffer_new_def kSmallBuffer_def)
  then obtain tc' where tc': "formatTime gmtime time tc (FixedBuffer_new kSmallBuffer) =
      Inr (tc', (FixedBuffer_new kSmallBuffer)\<lparr>fb_data := fb_data (FixedBuffer_new kSmallBuffer) @ time_text gmtime time\<rparr>)"
    "cache_ok gmtime tc'"
    using formatTime_ok [OF assms(1-3)] by blast
  have tt: "length (time_text gmtime time) = 26" using assms(3) by (rule length_time_text)
  define d where "d = time_text gmtime time"
  have "put_checked tid (length tid) \<lparr>fb_size = 4000, fb_data = d\<rparr> = Inr \<lparr>fb_size = 4000, fb_data = d @ tid\<rparr>"
    "put_checked (LogLevelName level) 6 \<lparr>fb_size = 4000, fb_data = d @ tid\<rparr> = Inr \<lparr>fb_size = 4000, fb_data = (d @ tid) @ LogLevelName level\<rparr>"
    using put_checked_fits [of tid _ "\<lparr>fb_size = 4000, fb_data = d\<rparr>"]
      put_checked_fits [of "LogLevelName level" 6 "\<lparr>fb_size = 4000, fb_data = d @ tid\<rparr>"] tt assms(4) length_LogLevelName [of level]
    by (simp_all add: fb_avail_def fb_length_def d_def)
  moreover have "FixedBuffer_new kSmallBuffer = \<lparr>fb_size = 4000, fb_data = []\<rparr>" by (simp add: FixedBuffer_new_def kSmallBuffer_def)
  ultimately show ?thesis
    using tc' by (intro exI [of _ tc']) (simp add: Logger_Impl_def log_prefix_def d_def)
qed

subsection \<open>Properties\<close>

text \<open>Caching the formatted second is invisible: whatever the cache holds from earlier statements of the thread, the line starts with the
  time formatted afresh from the clock, and the cache is valid again afterwards, so this holds for every statement of a thread.\<close>

theorem time_cache_transparent:
  assumes "cache_ok gmtime tc" and "1000000 \<le> time" and "\<And>s. tm_ok (gmtime s)" and "26 < fb_avail b"
  shows "\<exists>tc'. formatTime gmtime time tc b = Inr (tc', b\<lparr>fb_data := fb_data b @ time_text gmtime time\<rparr>) \<and> cache_ok gmtime tc'"
  using formatTime_ok [OF assms] by blast

definition noon :: "int \<Rightarrow> tm" where
  "noon s = \<lparr>tm_year = 118, tm_mon = 6, tm_mday = 4, tm_hour = 12, tm_min = 0, tm_sec = s mod 60\<rparr>"

lemma noon_ok: "tm_ok (noon s)"
  using pos_mod_bound [of 60 s] by (simp add: tm_ok_def noon_def)

theorem time_cache_transparent_witness:
  "\<exists>tc'. formatTime noon 5000007 \<lparr>t_time = fmt_tm (noon 5), t_lastSecond = 5\<rparr> (FixedBuffer_new 4000) =
     Inr (tc', \<lparr>fb_size = 4000, fb_data = time_text noon 5000007\<rparr>)"
proof -
  have "cache_ok noon \<lparr>t_time = fmt_tm (noon 5), t_lastSecond = 5\<rparr>" by (simp add: cache_ok_def)
  moreover have "26 < fb_avail (FixedBuffer_new 4000)" by (simp add: fb_avail_def fb_length_def FixedBuffer_new_def)
  ultimately show ?thesis
    using time_cache_transparent [of noon _ 5000007 "FixedBuffer_new 4000"] noon_ok by (auto simp: FixedBuffer_new_def)
qed

text \<open>The line of a statement whose message fits.\<close>

lemma log_line_text:
  assumes "cache_ok gmtime tc" and "1000000 \<le> time" and "\<And>s. tm_ok (gmtime s)" and "length tid < 100"
    and "length msg + length (SourceFile_data file) < 3700" and "0 \<le> line" and "line < 2 ^ 31"
  shows "\<exists>tc' l. Logger_plain gmtime strerror tid (length tid) time level file line tc = Inr (tc', l) \<and>
    Logger_destroy (l\<lparr>lg_stream := log_string msg (lg_stream l)\<rparr>) =
      (log_prefix gmtime tid time level @ msg @ '' - '' @ SourceFile_data file @ '':'' @ fmt_d line @ [CHR 0x0A], level = FATAL, level = FATAL)"
proof -
  obtain tc' where 1: "Logger_Impl gmtime strerror tid (length tid) time level 0 file line tc =
    Inr (tc', \<lparr>lg_stream = \<lparr>fb_size = 4000, fb_data = log_prefix gmtime tid time level\<rparr>, lg_level = level, lg_line = line,
               lg_basename = SourceFile_data file\<rparr>)"
    using Logger_Impl_ok [OF assms(1-4)] by blast
  define P where "P = log_prefix gmtime tid time level"
  define F where "F = SourceFile_data file"
  have P: "length P < 132" using assms(4) length_time_text [OF assms(3)] length_LogLevelName by (simp add: P_def log_prefix_def)
  have F: "length msg + length F < 3700" using assms(5) by (simp add: F_def)
  have L: "length (fmt_d line) \<le> 20" using length_convert [of line] assms(6,7) by (simp add: convert_eq)
  let ?d0 = "P @ msg" let ?d1 = "?d0 @ '' - ''" let ?d2 = "?d1 @ F" let ?d3 = "?d2 @ '':''" let ?d4 = "?d3 @ fmt_d line"
  have s0: "log_string msg \<lparr>fb_size = 4000, fb_data = P\<rparr> = \<lparr>fb_size = 4000, fb_data = ?d0\<rparr>"
    unfolding log_string_def by (rule put_fits) (use P F in simp)
  have s1: "log_cstr (Some '' - '') \<lparr>fb_size = 4000, fb_data = ?d0\<rparr> = \<lparr>fb_size = 4000, fb_data = ?d1\<rparr>"
    unfolding log_cstr_def option.case by (rule put_fits) (use P F in simp)
  have s2: "log_append F (length F) \<lparr>fb_size = 4000, fb_data = ?d1\<rparr> = \<lparr>fb_size = 4000, fb_data = ?d2\<rparr>"
    unfolding log_append_def by (rule put_fits) (use P F in simp)
  have s3: "log_cstr (Some '':'') \<lparr>fb_size = 4000, fb_data = ?d2\<rparr> = \<lparr>fb_size = 4000, fb_data = ?d3\<rparr>"
    unfolding log_cstr_def option.case by (rule put_fits) (use P F in simp)
  have s4: "formatInteger line \<lparr>fb_size = 4000, fb_data = ?d3\<rparr> = \<lparr>fb_size = 4000, fb_data = ?d4\<rparr>"
    using P F by (auto simp: formatInteger_def fb_avail_def fb_length_def kMaxNumericSize_def fb_add_def convert_eq)
  have "fb_append [CHR 0x0A] (length [CHR 0x0A]) \<lparr>fb_size = 4000, fb_data = ?d4\<rparr> = \<lparr>fb_size = 4000, fb_data = ?d4 @ [CHR 0x0A]\<rparr>"
    by (rule put_fits) (use P F L in simp)
  then have s5: "log_char (CHR 0x0A) \<lparr>fb_size = 4000, fb_data = ?d4\<rparr> = \<lparr>fb_size = 4000, fb_data = ?d4 @ [CHR 0x0A]\<rparr>"
    unfolding log_char_def by (simp only: list.size) simp
  define l where "l = \<lparr>lg_stream = \<lparr>fb_size = 4000, fb_data = P\<rparr>, lg_level = level, lg_line = line, lg_basename = F\<rparr>"
  have "Logger_finish (l\<lparr>lg_stream := log_string msg (lg_stream l)\<rparr>) = l\<lparr>lg_stream := \<lparr>fb_size = 4000, fb_data = ?d4 @ [CHR 0x0A]\<rparr>\<rparr>"
    unfolding Logger_finish_def l_def by (simp only: logger.simps s0 s1 s2 s3 s4 s5)
  then have "Logger_destroy (l\<lparr>lg_stream := log_string msg (lg_stream l)\<rparr>) = (?d4 @ [CHR 0x0A], level = FATAL, level = FATAL)"
    by (simp add: Logger_destroy_def fb_toString_def fb_length_def l_def)
  moreover have "Logger_plain gmtime strerror tid (length tid) time level file line tc = Inr (tc', l)"
    using 1 by (simp add: Logger_plain_def l_def P_def F_def)
  ultimately show ?thesis by (intro exI [of _ tc'] exI [of _ l]) (simp add: P_def F_def)
qed

text \<open>What the insertions into the stream of a statement's logger, and its end, come to when there is room.\<close>

lemma Logger_finish_ops:
  "lg_stream (Logger_finish l) =
     fold log_exec [Put_cstr (Some '' - ''), Put_string (lg_basename l), Put_cstr (Some '':''), Put_int (lg_line l), Put_char (CHR 0x0A)] (lg_stream l)"
  by (simp add: Logger_finish_def log_append_def log_string_def)

lemma insertions_fit:
  assumes "\<forall>p \<in> set ps. log_op_ok p" and "length d + length (concat (map log_text ps)) + 32 \<le> 4000"
  shows "fold log_exec ps \<lparr>fb_size = 4000, fb_data = d\<rparr> = \<lparr>fb_size = 4000, fb_data = d @ concat (map log_text ps)\<rparr>"
proof -
  let ?b = "\<lparr>fb_size = 4000, fb_data = d\<rparr>"
  have "fb_inv ?b" using assms(2) by (simp add: fb_inv_def fb_length_def)
  then have "fb_data (fold log_exec ps ?b) = d @ concat (map log_text ps)" "fb_size (fold log_exec ps ?b) = 4000"
    using log_runs [OF assms(1), of ?b] assms(2) by (simp_all add: fb_avail_def fb_length_def kMaxNumericSize_def)
  then show ?thesis by simp
qed

text \<open>The whole line; \<open>extra\<close> is what the constructor puts before the message.\<close>

definition whole_line :: "(int \<Rightarrow> tm) \<Rightarrow> string \<Rightarrow> timestamp \<Rightarrow> log_level \<Rightarrow> string \<Rightarrow> string \<Rightarrow> string \<Rightarrow> int \<Rightarrow> string" where
  "whole_line gmtime tid time level extra msg file line =
     log_prefix gmtime tid time level @ extra @ msg @ '' - '' @ SourceFile_data file @ '':'' @ fmt_d line @ [CHR 0x0A]"

text \<open>What a statement does to the world: the line is output, and a fatal one is flushed and aborts.\<close>

definition delivered :: "'w log_globals \<Rightarrow> log_level \<Rightarrow> string \<Rightarrow> 'w \<Rightarrow> 'w result" where
  "delivered g level text w =
     rbind (g_outputFunc g text w) (\<lambda>w. if level = FATAL then rbind (g_flushFunc g w) (\<lambda>w. Inl Aborted) else Inr w)"

definition errno_ops :: "(int \<Rightarrow> string) \<Rightarrow> int \<Rightarrow> log_op list" where
  "errno_ops strerror errno =
     (if errno \<noteq> 0 then [Put_cstr (Some (strerror errno)), Put_cstr (Some ''(errno=''), Put_int errno, Put_cstr (Some '') '')] else [])"

definition errno_text :: "(int \<Rightarrow> string) \<Rightarrow> int \<Rightarrow> string" where
  "errno_text strerror errno = (if errno \<noteq> 0 then strerror errno @ ''(errno='' @ fmt_d errno @ '') '' else [])"

text \<open>The insertions of a statement, into the stream of its logger.\<close>

definition put_message :: "log_op list \<Rightarrow> logger \<Rightarrow> logger" where
  "put_message ps l = l\<lparr>lg_stream := fold log_exec ps (lg_stream l)\<rparr>"

lemma Logger_Impl_errno:
  "Logger_Impl gmtime strerror tid n time level errno file line tc =
     rbind (Logger_Impl gmtime strerror tid n time level 0 file line tc) (\<lambda>(tc, l).
       Inr (tc, l\<lparr>lg_stream := fold log_exec (errno_ops strerror errno) (lg_stream l)\<rparr>))"
  by (simp add: Logger_Impl_def errno_ops_def rbind_assoc case_prod_beta' Let_def)

lemma logger_delivers:
  fixes time :: timestamp and level :: log_level
  assumes "length tid < 100" and "\<And>s. tm_ok (gmtime s)" and "\<forall>p \<in> set (pre @ ps). log_op_ok p" and "0 \<le> line" and "line < 2 ^ 31"
    and "length (concat (map log_text (pre @ ps))) + length (SourceFile_data file) < 3750"
  defines "b \<equiv> \<lparr>fb_size = 4000, fb_data = log_prefix gmtime tid time level\<rparr>"
  shows "Logger_output g \<lparr>lg_stream = fold log_exec ps (fold log_exec pre b), lg_level = level, lg_line = line, lg_basename = SourceFile_data file\<rparr> w =
    delivered g level (whole_line gmtime tid time level (concat (map log_text pre)) (concat (map log_text ps)) file line) w"
proof -
  let ?l = "\<lparr>lg_stream = fold log_exec ps (fold log_exec pre b), lg_level = level, lg_line = line, lg_basename = SourceFile_data file\<rparr>"
  let ?tail = "[Put_cstr (Some '' - ''), Put_string (SourceFile_data file), Put_cstr (Some '':''), Put_int line, Put_char (CHR 0x0A)]"
  have stream_text: "fb_toString \<lparr>fb_size = n, fb_data = d\<rparr> = d" for n d by (simp add: fb_toString_def fb_length_def)
  have P: "length (log_prefix gmtime tid time level) < 132"
    using assms(1) length_time_text [OF assms(2)] length_LogLevelName by (simp add: log_prefix_def)
  have L: "length (fmt_d line) \<le> 20" using length_convert [of line] assms(4,5) by (simp add: convert_eq)
  have ok: "\<forall>p \<in> set ((pre @ ps) @ ?tail). log_op_ok p" using assms(3-5) by auto
  have "lg_stream (Logger_finish ?l) = fold log_exec ((pre @ ps) @ ?tail) b" by (simp only: Logger_finish_ops fold_append o_apply logger.simps)
  also have "\<dots> = \<lparr>fb_size = 4000, fb_data = log_prefix gmtime tid time level @ concat (map log_text ((pre @ ps) @ ?tail))\<rparr>"
    unfolding b_def by (rule insertions_fit [OF ok]) (use P L assms(6) in simp)
  finally have s: "fb_toString (lg_stream (Logger_finish ?l)) =
      whole_line gmtime tid time level (concat (map log_text pre)) (concat (map log_text ps)) file line"
    by (simp only: stream_text) (simp add: whole_line_def)
  have "lg_level (Logger_finish ?l) = level" by (simp add: Logger_finish_def)
  then show ?thesis using s
    by (cases "level = FATAL") (simp_all add: Logger_output_def Logger_destroy_def Let_def delivered_def rbind_assoc)
qed

text \<open>
  C29: a log statement writes one complete line, whichever constructor its macro uses: time, thread, level, then the function's name (TRACE, DEBUG, INFO) or the text and
  number of \<open>errno\<close> when it is not 0 (LOG_SYSERR, LOG_SYSFATAL), the inserted values one after the other, the file's base name and the line number. It goes to the
  output function in one piece; only then, and for the level FATAL alone, the flush function is called and the process aborts. No assertion fails, and the
  thread's cache stays valid for the next statement. The parts that vary must have less than 3700 characters together and the thread's id text less
  than 100 (a piece that does not fit the 4000 bytes is dropped), the values fit 64 bits, and the clock is past the first second of 1970.\<close>

theorem log_line_complete:
  assumes "cache_ok gmtime tc" and "1000000 \<le> time" and "\<And>s. tm_ok (gmtime s)" and "length tid < 100"
    and "length (concat (map log_text ps)) + length func + length (strerror errno) + length (SourceFile_data path) < 3700"
    and "\<forall>p \<in> set ps. log_op_ok p" and "- (2 ^ 31) \<le> errno" and "errno < 2 ^ 31" and "0 \<le> line" and "line < 2 ^ 31"
  shows "(\<exists>tc' l. Logger_plain gmtime strerror tid (length tid) time level path line tc = Inr (tc', l) \<and> cache_ok gmtime tc' \<and>
      Logger_output g (put_message ps l) w =
        delivered g level (whole_line gmtime tid time level [] (concat (map log_text ps)) path line) w) \<and>
    (\<exists>tc' l. Logger_func gmtime strerror tid (length tid) time level path line func tc = Inr (tc', l) \<and> cache_ok gmtime tc' \<and>
      Logger_output g (put_message ps l) w =
        delivered g level (whole_line gmtime tid time level (func @ '' '') (concat (map log_text ps)) path line) w) \<and>
    (\<exists>tc' l. Logger_errno gmtime strerror tid (length tid) time errno toAbort path line tc = Inr (tc', l) \<and> cache_ok gmtime tc' \<and>
      Logger_output g (put_message ps l) w = delivered g (if toAbort then FATAL else ERROR)
        (whole_line gmtime tid time (if toAbort then FATAL else ERROR) (errno_text strerror errno) (concat (map log_text ps)) path line) w)"
proof (intro conjI)
  let ?impl = "\<lambda>level. \<lparr>lg_stream = \<lparr>fb_size = 4000, fb_data = log_prefix gmtime tid time level\<rparr>, lg_level = level, lg_line = line,
    lg_basename = SourceFile_data path\<rparr>"
  have impl: "\<exists>tc'. Logger_Impl gmtime strerror tid (length tid) time level 0 path line tc = Inr (tc', ?impl level) \<and> cache_ok gmtime tc'" for level
    using Logger_Impl_ok [OF assms(1-4)] .
  have out: "Logger_output g (put_message ps ((?impl level)\<lparr>lg_stream := fold log_exec pre (lg_stream (?impl level))\<rparr>)) w =
      delivered g level (whole_line gmtime tid time level (concat (map log_text pre)) (concat (map log_text ps)) path line) w"
    if "\<forall>p \<in> set pre. log_op_ok p" "length (concat (map log_text pre)) \<le> length func + length (strerror errno) + 32" for level pre
    unfolding put_message_def logger.simps
    by (rule logger_delivers) (use assms(3-6,9,10) that in auto)
  show "\<exists>tc' l. Logger_plain gmtime strerror tid (length tid) time level path line tc = Inr (tc', l) \<and> cache_ok gmtime tc' \<and>
      Logger_output g (put_message ps l) w = delivered g level (whole_line gmtime tid time level [] (concat (map log_text ps)) path line) w"
    using impl [of level] out [of "[]" level] by (auto simp: Logger_plain_def)
  show "\<exists>tc' l. Logger_func gmtime strerror tid (length tid) time level path line func tc = Inr (tc', l) \<and> cache_ok gmtime tc' \<and>
      Logger_output g (put_message ps l) w = delivered g level (whole_line gmtime tid time level (func @ '' '') (concat (map log_text ps)) path line) w"
    using impl [of level] out [of "[Put_cstr (Some func), Put_char (CHR '' '')]" level] by (auto simp: Logger_func_def)
  have "length (fmt_d errno) \<le> 20" using length_convert [of errno] assms(7,8) by (simp add: convert_eq)
  moreover have "concat (map log_text (errno_ops strerror errno)) = errno_text strerror errno" by (simp add: errno_ops_def errno_text_def)
  ultimately show "\<exists>tc' l. Logger_errno gmtime strerror tid (length tid) time errno toAbort path line tc = Inr (tc', l) \<and> cache_ok gmtime tc' \<and>
      Logger_output g (put_message ps l) w = delivered g (if toAbort then FATAL else ERROR)
        (whole_line gmtime tid time (if toAbort then FATAL else ERROR) (errno_text strerror errno) (concat (map log_text ps)) path line) w"
    using impl [of "if toAbort then FATAL else ERROR"] out [of "errno_ops strerror errno" "if toAbort then FATAL else ERROR"] assms(7,8)
    by (fastforce simp: Logger_errno_def Logger_Impl_errno [of _ _ _ _ _ _ errno] errno_ops_def errno_text_def)
qed

theorem log_line_complete_witness:
  "\<exists>tc' l. Logger_errno noon (\<lambda>e. ''Bad file descriptor'') ''  123 '' 6 5000007 9 True ''src/RN/net/Poller.cpp'' 34 \<lparr>t_time = [], t_lastSecond = 0\<rparr> = Inr (tc', l) \<and>
     Logger_output \<lparr>g_outputFunc = defaultOutputFunc, g_flushFunc = defaultFlushFunc, g_logLevel = INFO\<rparr>
       (put_message [Put_cstr (Some ''poll ''), Put_int 3] l) [] = Inl Aborted"
proof -
  have "cache_ok noon \<lparr>t_time = [], t_lastSecond = 0\<rparr>" by (simp add: cache_ok_def)
  moreover have "SourceFile_data ''src/RN/net/Poller.cpp'' = ''Poller.cpp''" by (simp add: SourceFile_data_def)
  moreover have len: "length ''  123 '' = 6" by simp
  moreover have "fmt_d 3 = ''3''" by (simp add: fmt_d_def dec_numeral digit_numerals)
  ultimately show ?thesis
    using log_line_complete [where gmtime = noon and tc = "\<lparr>t_time = [], t_lastSecond = 0\<rparr>" and time = 5000007 and tid = "''  123 ''"
        and ps = "[Put_cstr (Some ''poll ''), Put_int 3]" and func = "[]" and strerror = "\<lambda>e. ''Bad file descriptor''" and errno = 9
        and level = WARN and path = "''src/RN/net/Poller.cpp''" and line = 34 and toAbort = True
        and g = "\<lparr>g_outputFunc = defaultOutputFunc, g_flushFunc = defaultFlushFunc, g_logLevel = INFO\<rparr>" and w = "[]"]
      noon_ok unfolding len by (auto simp: delivered_def defaultOutputFunc_def defaultFlushFunc_def)
qed

end
