(* ===== verification/RN_FileUtil.thy ===== *)
theory RN_FileUtil
  imports RN_Prelude "HOL-Library.Sublist"
begin

text \<open>
  RN/base/FileUtil.h and FileUtil.cpp. A file is its content. What the C library and the kernel do on each call is an argument: how many
  bytes \<open>fwrite\<close> takes, how many \<open>read\<close> gives. Loops that could go on for ever return an option: None when the answers given so far do not
  make them return.
\<close>

subsection \<open>Appending\<close>

text \<open>
  Of the stream \<open>fp_\<close>: everything it was given, what of it is in the file for good, and what the C library still holds in \<open>buffer_\<close>. (The library may write
  out more than that on its own; it need not.)
\<close>

record append_file =
  af_data :: string
  af_disk :: string
  af_buffer :: string
  writeenBytes :: int

definition AppendFile_new :: "bool \<Rightarrow> append_file result" where
  "AppendFile_new opened = rassert opened (Inr \<lparr>af_data = [], af_disk = [], af_buffer = [], writeenBytes = 0\<rparr>)"

text \<open>
  What \<open>fflush\<close> and \<open>fclose\<close> answer. On an error some of the bytes held are out, and the library keeps the others or drops them. The code looks at neither
  result.
\<close>

datatype flush_answer = Written_out | Write_error nat bool

fun AppendFile_flush :: "flush_answer \<Rightarrow> append_file \<Rightarrow> append_file" where
  "AppendFile_flush Written_out f = f\<lparr>af_disk := af_disk f @ af_buffer f, af_buffer := []\<rparr>"
| "AppendFile_flush (Write_error n keeps) f =
     f\<lparr>af_disk := af_disk f @ take n (af_buffer f), af_buffer := (if keeps then drop n (af_buffer f) else [])\<rparr>"

definition AppendFile_destroy :: "flush_answer \<Rightarrow> append_file \<Rightarrow> append_file" where
  "AppendFile_destroy a f = (AppendFile_flush a f)\<lparr>af_buffer := []\<rparr>"

definition writtenBytes :: "append_file \<Rightarrow> int" where
  "writtenBytes f = writeenBytes f"

text \<open>\<open>fwrite_unlocked\<close> takes \<open>x\<close> bytes, at most those given.\<close>

definition file_write :: "nat \<Rightarrow> string \<Rightarrow> append_file \<Rightarrow> append_file" where
  "file_write x s f = f\<lparr>af_data := af_data f @ take x s, af_buffer := af_buffer f @ take x s\<rparr>"

text \<open>The retry loop: a write that takes nothing is reported and tried again.\<close>

fun append_loop :: "nat list \<Rightarrow> string \<Rightarrow> append_file \<Rightarrow> (append_file \<times> nat list) option" where
  "append_loop [] rest f = (if rest = [] then Some (f, []) else None)"
| "append_loop (x # xs) rest f =
     (if rest = [] then Some (f, x # xs) else append_loop xs (drop x rest) (file_write x rest f))"

definition AppendFile_append :: "nat list \<Rightarrow> string \<Rightarrow> append_file \<Rightarrow> (append_file \<times> nat list) option" where
  "AppendFile_append answers logLine f =
     (case answers of
        [] \<Rightarrow> None
      | n # xs \<Rightarrow>
          (case append_loop xs (drop n logLine) (file_write n logLine f) of
             None \<Rightarrow> None
           | Some (f, ys) \<Rightarrow> Some (f\<lparr>writeenBytes := writeenBytes f + int (length logLine)\<rparr>, ys)))"

subsection \<open>Reading\<close>

definition kBufferSize :: nat where
  "kBufferSize = 64 * 1024"

record small_file =
  rs_fd :: int
  rs_err :: int
  rs_buf :: string

definition ReadSmallFile_new :: "int \<Rightarrow> int \<Rightarrow> small_file" where
  "ReadSmallFile_new fd errno = \<lparr>rs_fd = fd, rs_err = (if fd < 0 then errno else 0), rs_buf = []\<rparr>"

text \<open>The destructor: the results and errnos of successive calls of \<open>close\<close>; it returns the number of calls.\<close>

fun close_loop :: "(int \<times> int) list \<Rightarrow> nat option" where
  "close_loop [] = None"
| "close_loop ((r, errno) # rs) =
     (if r = 0 \<and> errno = 4 then map_option Suc (close_loop rs) else Some 1)"

definition ReadSmallFile_destroy :: "(int \<times> int) list \<Rightarrow> small_file \<Rightarrow> nat option" where
  "ReadSmallFile_destroy rs f = (if 0 < rs_fd f then close_loop rs else Some 0)"

datatype read_answer = Read_upto nat | Read_error int

definition readToBuffer :: "read_answer \<Rightarrow> string \<Rightarrow> small_file \<Rightarrow> int \<times> int option \<times> small_file" where
  "readToBuffer a file f =
     (if 0 \<le> rs_fd f then
        (case a of
           Read_upto k \<Rightarrow> (let bs = take (min k (kBufferSize - 1)) file
             in (rs_err f, Some (int (length bs)), f\<lparr>rs_buf := bs\<rparr>))
         | Read_error e \<Rightarrow> (e, None, f))
      else (rs_err f, None, f))"

text \<open>
  The loop of \<open>readToString\<close>: \<open>rest\<close> is what the file still holds; a read gives at most the bytes asked for and those the answer allows (all
  of them, when no answer is left).
\<close>

function read_loop :: "nat \<Rightarrow> read_answer list \<Rightarrow> string \<Rightarrow> string \<Rightarrow> int \<Rightarrow> int \<times> string" where
  "read_loop maxSize answers rest content err =
     (if length content < maxSize then
        (let toRead = min (maxSize - length content) kBufferSize in
         case answers of
           Read_error e # as \<Rightarrow> (e, content)
         | _ \<Rightarrow>
             (let k = (case answers of Read_upto k # as \<Rightarrow> min k toRead | _ \<Rightarrow> toRead);
                  chunk = take k rest
              in if chunk \<noteq> [] then read_loop maxSize (tl answers) (drop k rest) (content @ chunk) err else (err, content)))
      else (err, content))"
  by auto

termination read_loop
  by (relation "measure (\<lambda>(m, as, rest, c, e). m - length c)") (auto simp: length_greater_0_conv [symmetric] simp del: length_greater_0_conv)

declare read_loop.simps [simp del]

text \<open>What \<open>fstat\<close> fills in (None when it fails), and which of the out parameters the caller passed.\<close>

datatype file_kind = Regular | Directory | Other_file

record file_stat =
  st_kind :: file_kind
  st_size :: int
  st_mtime :: int
  st_ctime :: int

record stat_wants =
  want_size :: bool
  want_mtime :: bool
  want_ctime :: bool

definition EISDIR :: int where
  "EISDIR = 21"

text \<open>The result: the error code, the content and the out parameters that were written.\<close>

record read_result =
  rr_err :: int
  rr_content :: string
  rr_size :: "int option"
  rr_mtime :: "int option"
  rr_ctime :: "int option"

definition stat_step :: "stat_wants \<Rightarrow> file_stat option \<Rightarrow> int \<Rightarrow> int \<Rightarrow> read_result" where
  "stat_step w st errno err =
     (if want_size w then
        (case st of
           None \<Rightarrow> \<lparr>rr_err = err, rr_content = [], rr_size = None, rr_mtime = None, rr_ctime = None\<rparr>
         | Some st \<Rightarrow>
             \<lparr>rr_err = (if st_kind st = Directory then EISDIR else err), rr_content = [],
              rr_size = (if st_kind st = Regular then Some (st_size st) else None),
              rr_mtime = (if want_mtime w then Some (st_mtime st) else None),
              rr_ctime = (if want_ctime w then Some (st_ctime st) else None)\<rparr>)
      else \<lparr>rr_err = errno, rr_content = [], rr_size = None, rr_mtime = None, rr_ctime = None\<rparr>)"

definition readToString ::
  "nat \<Rightarrow> stat_wants \<Rightarrow> file_stat option \<Rightarrow> int \<Rightarrow> read_answer list \<Rightarrow> string \<Rightarrow> small_file \<Rightarrow> read_result" where
  "readToString maxSize w st errno answers file f =
     (if 0 \<le> rs_fd f then
        (let r = stat_step w st errno (rs_err f);
             (err, content) = read_loop maxSize answers file [] (rr_err r)
         in r\<lparr>rr_err := err, rr_content := content\<rparr>)
      else \<lparr>rr_err = rs_err f, rr_content = [], rr_size = None, rr_mtime = None, rr_ctime = None\<rparr>)"

definition readFile ::
  "int \<Rightarrow> int \<Rightarrow> nat \<Rightarrow> stat_wants \<Rightarrow> file_stat option \<Rightarrow> int \<Rightarrow> read_answer list \<Rightarrow> string \<Rightarrow> read_result" where
  "readFile fd open_errno maxSize w st errno answers file =
     readToString maxSize w st errno answers file (ReadSmallFile_new fd open_errno)"

subsection \<open>Facts\<close>

lemma append_loop_some:
  "append_loop xs rest f = Some (g, ys) \<Longrightarrow> g = f\<lparr>af_data := af_data f @ rest, af_buffer := af_buffer f @ rest\<rparr>"
proof (induction xs rest f rule: append_loop.induct)
  case (2 x xs rest f)
  then show ?case by (auto simp: file_write_def split: if_splits)
qed (auto split: if_splits)

lemma append_loop_enough: "length rest \<le> sum_list xs \<Longrightarrow> \<exists>r. append_loop xs rest f = Some r"
  by (induction xs rest f rule: append_loop.induct) auto

lemma append_loop_short: "sum_list xs < length rest \<Longrightarrow> append_loop xs rest f = None"
  by (induction xs rest f rule: append_loop.induct) auto

definition progresses :: "read_answer \<Rightarrow> bool" where
  "progresses a \<longleftrightarrow> (\<exists>k. a = Read_upto k \<and> 0 < k)"

lemma read_loop_all:
  "list_all progresses answers \<Longrightarrow>
     read_loop maxSize answers rest content err = (err, content @ take (maxSize - length content) rest)"
proof (induction maxSize answers rest content err rule: read_loop.induct)
  case (1 maxSize answers rest content err)
  show ?case
  proof (cases "length content < maxSize")
    case False
    then show ?thesis by (simp add: read_loop.simps [of maxSize answers rest content err])
  next
    case True
    define toRead where "toRead = min (maxSize - length content) kBufferSize"
    define k where "k = (case answers of Read_upto k # as \<Rightarrow> min k toRead | _ \<Rightarrow> toRead)"
    have pos: "0 < toRead" using True by (simp add: toRead_def kBufferSize_def)
    have k: "0 < k" "k \<le> maxSize - length content"
      using "1.prems" pos by (auto simp: k_def toRead_def progresses_def split: list.split read_answer.split)
    have unfold: "read_loop maxSize answers rest content err =
        (if take k rest \<noteq> [] then read_loop maxSize (tl answers) (drop k rest) (content @ take k rest) err else (err, content))"
      using True "1.prems" unfolding read_loop.simps [of maxSize answers rest content err]
      by (auto simp: Let_def k_def toRead_def progresses_def split: list.split read_answer.split)
    show ?thesis
    proof (cases "rest = []")
      case True
      then show ?thesis using unfold by simp
    next
      case False
      then have ne: "take k rest \<noteq> []" using k by simp
      have IH: "read_loop maxSize (tl answers) (drop k rest) (content @ take k rest) err =
          (err, (content @ take k rest) @ take (maxSize - length (content @ take k rest)) (drop k rest))"
      proof (cases answers)
        case Nil
        then show ?thesis using "1.IH"(1) [OF True toRead_def Nil] ne "1.prems" by (simp add: k_def)
      next
        case (Cons a as)
        then obtain j where "a = Read_upto j" using "1.prems" by (auto simp: progresses_def)
        then show ?thesis using "1.IH"(2) [OF True toRead_def, of a as] ne "1.prems" Cons by (simp add: k_def)
      qed
      have "take k rest @ take (maxSize - length (content @ take k rest)) (drop k rest) = take (maxSize - length content) rest"
      proof (cases "k \<le> length rest")
        case True
        then have "maxSize - length (content @ take k rest) = maxSize - length content - k" by simp
        then show ?thesis using k(2) by (metis le_add_diff_inverse take_add)
      qed (use k in simp)
      then show ?thesis using unfold ne IH by simp
    qed
  qed
qed

lemma AppendFile_append_some:
  "AppendFile_append answers logLine f = Some (g, ys) \<Longrightarrow>
     g = f\<lparr>af_data := af_data f @ logLine, af_buffer := af_buffer f @ logLine, writeenBytes := writeenBytes f + int (length logLine)\<rparr>"
  by (auto simp: AppendFile_append_def file_write_def split: list.splits option.splits dest!: append_loop_some)

lemma AppendFile_append_returns:
  "(\<exists>r. AppendFile_append answers logLine f = Some r) \<longleftrightarrow> answers \<noteq> [] \<and> length logLine \<le> sum_list answers"
proof (cases answers)
  case (Cons n xs)
  show ?thesis
  proof (cases "length (drop n logLine) \<le> sum_list xs")
    case True
    then show ?thesis
      using append_loop_enough [OF True, of "file_write n logLine f"] Cons by (auto simp: AppendFile_append_def)
  next
    case False
    then show ?thesis
      using append_loop_short [of xs "drop n logLine" "file_write n logLine f"] Cons by (simp add: AppendFile_append_def)
  qed
qed (simp add: AppendFile_append_def)

text \<open>What a flush, or the close, does to the text held.\<close>

definition af_ok :: "append_file \<Rightarrow> bool" where
  "af_ok f \<longleftrightarrow> subseq (af_disk f @ af_buffer f) (af_data f)"

definition af_whole :: "append_file \<Rightarrow> bool" where
  "af_whole f \<longleftrightarrow> af_disk f @ af_buffer f = af_data f"

lemma AppendFile_flush_data [simp]: "af_data (AppendFile_flush a f) = af_data f" "af_data (AppendFile_destroy a f) = af_data f"
  "af_buffer (AppendFile_destroy a f) = []" "af_disk (AppendFile_destroy a f) = af_disk (AppendFile_flush a f)"
  by (cases a; simp add: AppendFile_destroy_def)+

lemma AppendFile_flush_disk: "prefix (af_disk f) (af_disk (AppendFile_flush a f))"
  by (cases a) simp_all

lemma AppendFile_flush_ok:
  assumes "af_ok f"
  shows "af_ok (AppendFile_flush a f)" and "af_ok (AppendFile_destroy a f)"
proof -
  have "subseq (af_disk (AppendFile_flush a f) @ af_buffer (AppendFile_flush a f)) (af_disk f @ af_buffer f)"
    by (cases a) (auto simp: subseq_append' take_is_prefix intro: prefix_imp_subseq)
  then show ok: "af_ok (AppendFile_flush a f)" using assms unfolding af_ok_def AppendFile_flush_data by (rule subseq_order.trans)
  then show "af_ok (AppendFile_destroy a f)"
    by (auto simp: af_ok_def intro: subseq_order.trans [rotated])
qed

subsection \<open>Properties\<close>

text \<open>
  C40: \<open>AppendFile::append\<close> returns exactly when the successive writes take enough bytes between them; then the whole line, and nothing else, is at
  the end of the file and the byte count has grown by its length. While every write takes nothing (a full disk) it never returns: for no number
  of such answers does it, unless the line was empty.
\<close>

theorem append_whole_or_never:
  "((\<exists>r. AppendFile_append answers logLine f = Some r) \<longleftrightarrow> answers \<noteq> [] \<and> length logLine \<le> sum_list answers) \<and>
   (\<forall>g ys. AppendFile_append answers logLine f = Some (g, ys) \<longrightarrow>
     af_data g = af_data f @ logLine \<and> writtenBytes g = writtenBytes f + int (length logLine)) \<and>
   (logLine \<noteq> [] \<longrightarrow> AppendFile_append (replicate n 0) logLine f = None)"
proof (intro conjI impI allI)
  show "(\<exists>r. AppendFile_append answers logLine f = Some r) \<longleftrightarrow> answers \<noteq> [] \<and> length logLine \<le> sum_list answers"
    by (rule AppendFile_append_returns)
  show "AppendFile_append (replicate n 0) logLine f = None" if "logLine \<noteq> []"
    using that AppendFile_append_returns [of "replicate n 0" logLine f] by (auto simp: sum_list_replicate simp flip: not_Some_eq)
qed (auto simp: writtenBytes_def dest!: AppendFile_append_some)

lemma append_whole_or_never_witness:
  "af_data (fst (the (AppendFile_append [2, 0, 3] ''hello'' \<lparr>af_data = ''a'', af_disk = [], af_buffer = ''a'', writeenBytes = 1\<rparr>))) = ''ahello''
   \<and> AppendFile_append (replicate 7 0) ''x'' \<lparr>af_data = [], af_disk = [], af_buffer = [], writeenBytes = 0\<rparr> = None"
proof
  have "AppendFile_append [2, 0, 3] ''hello'' \<lparr>af_data = ''a'', af_disk = [], af_buffer = ''a'', writeenBytes = 1\<rparr>
      = Some (\<lparr>af_data = ''ahello'', af_disk = [], af_buffer = ''ahello'', writeenBytes = 6\<rparr>, [])"
    by (simp add: AppendFile_append_def file_write_def)
  then show "af_data (fst (the (AppendFile_append [2, 0, 3] ''hello'' \<lparr>af_data = ''a'', af_disk = [], af_buffer = ''a'', writeenBytes = 1\<rparr>))) = ''ahello''"
    using append_whole_or_never [of "[2, 0, 3]" "''hello''" "\<lparr>af_data = ''a'', af_disk = [], af_buffer = ''a'', writeenBytes = 1\<rparr>"] by fastforce
  show "AppendFile_append (replicate 7 0) ''x'' \<lparr>af_data = [], af_disk = [], af_buffer = [], writeenBytes = 0\<rparr> = None"
    using append_whole_or_never [of "[]" "''x''" "\<lparr>af_data = [], af_disk = [], af_buffer = [], writeenBytes = 0\<rparr>" 7] by blast
qed

text \<open>
  \<open>readFile\<close>: an opened file is read up to \<open>maxSize\<close> bytes, whatever pieces the kernel gives it in and although the buffer holds at
  most 64 KiB at a time. A read error ends it with that errno and what was read before. The error code of a good read is 0 only when the caller asked for the
  file's size: otherwise whatever \<open>errno\<close> happened to hold is returned.
\<close>

theorem readFile_content:
  assumes "0 \<le> fd" and "list_all progresses answers"
  shows "(let r = readFile fd oe maxSize w st errno answers content in rr_content r = take maxSize content \<and> (\<not> want_size w \<longrightarrow> rr_err r = errno) \<and>
    (want_size w \<longrightarrow> (\<forall>i. st = Some i \<longrightarrow>
       (st_kind i = Regular \<longrightarrow> rr_err r = 0 \<and> rr_size r = Some (st_size i)) \<and> (st_kind i = Directory \<longrightarrow> rr_err r = EISDIR))) \<and>
    rr_err (readFile (- 1) oe maxSize w st errno answers content) = oe)"
  using assms by (auto simp: Let_def readFile_def readToString_def ReadSmallFile_new_def read_loop_all stat_step_def)

lemma readFile_content_witness:
  "rr_content (readFile 3 0 4 \<lparr>want_size = False, want_mtime = True, want_ctime = False\<rparr> None 2 [Read_upto 3, Read_upto 9] ''abcdef'') = ''abcd''
   \<and> rr_err (readFile 3 0 4 \<lparr>want_size = False, want_mtime = True, want_ctime = False\<rparr> None 2 [Read_upto 3, Read_upto 9] ''abcdef'') = 2
   \<and> rr_size (readFile 3 0 4 \<lparr>want_size = True, want_mtime = False, want_ctime = False\<rparr>
       (Some \<lparr>st_kind = Regular, st_size = 6, st_mtime = 10, st_ctime = 9\<rparr>) 2 [Read_upto 3, Read_upto 9] ''abcdef'') = Some 6"
  using readFile_content [of 3 "[Read_upto 3, Read_upto 9]" 0 4 "\<lparr>want_size = False, want_mtime = True, want_ctime = False\<rparr>" None 2 "''abcdef''"]
    readFile_content [of 3 "[Read_upto 3, Read_upto 9]" 0 4 "\<lparr>want_size = True, want_mtime = False, want_ctime = False\<rparr>"
      "Some \<lparr>st_kind = Regular, st_size = 6, st_mtime = 10, st_ctime = 9\<rparr>" 2 "''abcdef''"]
  by (simp add: progresses_def Let_def)

end
