(* ===== verification/RN_ProcessInfo.thy ===== *)
theory RN_ProcessInfo
  imports RN_Printf RN_Timestamp "HOL-Library.Word"
begin

text \<open>
  RN/base/ProcessInfo.cpp: the facts about the process that the logs use. Answers of the kernel are arguments; the operations the source leaves empty
  are modelled as they are. The parsing overload of \<open>procname\<close> is in RN_StringPiece.
\<close>

text \<open>The process as the kernel knows it: its answers to \<open>getpid\<close>, \<open>getuid\<close>, \<open>geteuid\<close> and \<open>sysconf\<close> (a long), and the time of the start.\<close>

record process =
  ps_pid :: int
  ps_uid :: int
  ps_euid :: int
  ps_start :: timestamp
  ps_clk_tck :: int
  ps_pagesize :: int

definition process_pid :: "process \<Rightarrow> int" where
  "process_pid p = ps_pid p"

definition process_uid :: "process \<Rightarrow> int" where
  "process_uid p = ps_uid p"

definition process_euid :: "process \<Rightarrow> int" where
  "process_euid p = ps_euid p"

definition startTIme :: "process \<Rightarrow> timestamp" where
  "startTIme p = ps_start p"

text \<open>The globals are the answers cast to int.\<close>

definition clockTicksPerSecond :: "process \<Rightarrow> int" where
  "clockTicksPerSecond p = sint (word_of_int (ps_clk_tck p) :: 32 word)"

definition pageSize :: "process \<Rightarrow> int" where
  "pageSize p = sint (word_of_int (ps_pagesize p) :: 32 word)"

definition pidString :: "int \<Rightarrow> string" where
  "pidString pid = snprintf_text 32 (fmt_d pid)"

definition username :: "string option \<Rightarrow> string" where
  "username pw_name = (case pw_name of Some name \<Rightarrow> name | None \<Rightarrow> ''UnknownUser'')"

definition c_str :: "string \<Rightarrow> string" where
  "c_str s = takeWhile (\<lambda>c. c \<noteq> CHR 0x00) s"

text \<open>What \<open>gethostname\<close> stored, or None for its failure.\<close>

definition hostname :: "string option \<Rightarrow> string" where
  "hostname answer = (case answer of Some s \<Rightarrow> c_str (take (256 - 1) s) | None \<Rightarrow> ''UnknownHost'')"

definition isDebugBuild :: "build \<Rightarrow> bool" where
  "isDebugBuild b = (case b of Release \<Rightarrow> False | Debug \<Rightarrow> True)"

definition procname_empty :: string where
  "procname_empty = []"

definition procStatus :: string where
  "procStatus = []"

definition procStat :: string where
  "procStat = []"

definition threadStat :: string where
  "threadStat = []"

definition exePath :: string where
  "exePath = []"

definition openedFiles :: int where
  "openedFiles = 0"

definition maxOpenFiles :: int where
  "maxOpenFiles = 0"

definition numThreads :: int where
  "numThreads = 0"

definition threads :: "int list" where
  "threads = []"

text \<open>The user's and the kernel's seconds, as \<open>CpuTime\<close> starts.\<close>

definition cpuTime :: "rat \<times> rat" where
  "cpuTime = (0, 0)"

lemma pidString_inject:
  assumes "- (2 ^ 31) \<le> p" "p < 2 ^ 31" "- (2 ^ 31) \<le> q" "q < 2 ^ 31"
  shows "pidString p = pidString q \<longleftrightarrow> p = q"
proof -
  have "length (fmt_d i) < 32" if "- (2 ^ 31) \<le> i" "i < 2 ^ 31" for i
    using length_fmt_d [of 10 i] that by simp
  then show ?thesis using assms by (simp add: pidString_def fmt_d_inject)
qed

lemma length_hostname: "length (hostname a) \<le> 255"
proof -
  have "length (takeWhile P (take 255 s)) \<le> 255" for P and s :: string
    using length_takeWhile_le [of P "take 255 s"] by simp
  then show ?thesis by (auto simp: hostname_def c_str_def split: option.split)
qed

end
