(* ===== verification/RN_LogFile.thy ===== *)
theory RN_LogFile
  imports RN_FileUtil RN_Timestamp RN_ProcessInfo "HOL-Library.Char_ord"
begin

text \<open>
  RN/base/LogFile.h and LogFile.cpp. The record has the class's fields; \<open>file_\<close> is the name and the stream of the open file, and \<open>lf_rolled\<close>
  (not in the code) the closed files, under the names used before. The answers of \<open>time\<close>, \<open>gmtime_r\<close>, \<open>fopen\<close>, \<open>fwrite\<close>, \<open>fflush\<close> and \<open>fclose\<close> are
  arguments (\<open>out\<close>: the answer of the \<open>fflush\<close> or \<open>fclose\<close>, if the operation makes one). A call
  that never returns is None; a failed assertion or the use of the null \<open>file_\<close> is a fault.
\<close>

definition kSecondsPerRoll :: int where
  "kSecondsPerRoll = 24 * 60 * 60"

record logfile =
  lf_basename :: string
  lf_rollSize :: int
  lf_threadSafe :: bool
  lf_flushInterval :: int
  lf_checkEveryN :: int
  lf_count :: int
  lf_startOfPeriod :: int
  lf_lastRoll :: int
  lf_lastFlush :: int
  lf_file :: "(string \<times> append_file) option"
  lf_rolled :: "(string \<times> append_file) list"

text \<open>\<open>gmtime_r\<close>, the host name and the process id.\<close>

record log_env =
  gmtime_r :: "int \<Rightarrow> tm"
  env_host :: "string option"
  env_pid :: int

definition strftime_log :: "tm \<Rightarrow> string" where
  "strftime_log t = ''.'' @ fmt_d (tm_year t + 1900) @ fmt_0d 2 (tm_mon t + 1) @ fmt_0d 2 (tm_mday t) @ ''-'' @
     fmt_0d 2 (tm_hour t) @ fmt_0d 2 (tm_min t) @ fmt_0d 2 (tm_sec t) @ ''.''"

definition getLogFileName :: "log_env \<Rightarrow> string \<Rightarrow> int \<Rightarrow> string" where
  "getLogFileName env basename now =
     basename @ snprintf_text 32 (strftime_log (gmtime_r env now)) @ hostname (env_host env) @
     snprintf_text 32 (''.'' @ fmt_d (env_pid env)) @ ''.log''"

definition closed_file :: "flush_answer \<Rightarrow> (string \<times> append_file) option \<Rightarrow> (string \<times> append_file) list" where
  "closed_file out f = (case f of None \<Rightarrow> [] | Some (name, g) \<Rightarrow> [(name, AppendFile_destroy out g)])"

definition file_reset :: "flush_answer \<Rightarrow> string \<times> append_file \<Rightarrow> logfile \<Rightarrow> logfile" where
  "file_reset out f lf = lf\<lparr>lf_file := Some f, lf_rolled := lf_rolled lf @ closed_file out (lf_file lf)\<rparr>"

definition rollFile :: "log_env \<Rightarrow> bool \<Rightarrow> flush_answer \<Rightarrow> int \<Rightarrow> logfile \<Rightarrow> (bool \<times> logfile) result" where
  "rollFile env opened out now lf =
     (let filename = getLogFileName env (lf_basename lf) now;
          start = cdiv now kSecondsPerRoll * kSecondsPerRoll
      in if lf_lastRoll lf < now then
           rbind (AppendFile_new opened) (\<lambda>f.
             Inr (True, file_reset out (filename, f) (lf\<lparr>lf_lastRoll := now, lf_lastFlush := now, lf_startOfPeriod := start\<rparr>)))
         else Inr (False, lf))"

definition LogFile_new :: "log_env \<Rightarrow> bool \<Rightarrow> int \<Rightarrow> string \<Rightarrow> int \<Rightarrow> bool \<Rightarrow> int \<Rightarrow> int \<Rightarrow> logfile result" where
  "LogFile_new env opened now basename rollSize threadSafe flushInterval checkEveryN =
     rassert (CHR ''/'' \<notin> set basename)
       (rbind (rollFile env opened Written_out now
          \<lparr>lf_basename = basename, lf_rollSize = rollSize, lf_threadSafe = threadSafe, lf_flushInterval = flushInterval,
           lf_checkEveryN = checkEveryN, lf_count = 0, lf_startOfPeriod = 0, lf_lastRoll = 0, lf_lastFlush = 0,
           lf_file = None, lf_rolled = []\<rparr>) (\<lambda>(_, lf). Inr lf))"

definition file_flush :: "flush_answer \<Rightarrow> logfile \<Rightarrow> logfile result" where
  "file_flush out lf =
     (case lf_file lf of None \<Rightarrow> Inl BadCall | Some (name, f) \<Rightarrow> Inr (lf\<lparr>lf_file := Some (name, AppendFile_flush out f)\<rparr>))"

definition LogFile_flush :: "flush_answer \<Rightarrow> logfile \<Rightarrow> logfile result" where
  "LogFile_flush out lf = (if lf_threadSafe lf then file_flush out lf else file_flush out lf)"

text \<open>The destructor of a log file destroys its \<open>AppendFile\<close>, which closes the stream.\<close>

definition LogFile_destroy :: "flush_answer \<Rightarrow> logfile \<Rightarrow> logfile" where
  "LogFile_destroy out lf = lf\<lparr>lf_file := None, lf_rolled := lf_rolled lf @ closed_file out (lf_file lf)\<rparr>"

text \<open>
  \<open>append_unlocked\<close>: \<open>t\<close> is the time its own call of \<open>time\<close> gives and \<open>now\<close> the one in \<open>rollFile\<close>. The comparison of the start of the day with
  \<open>lastRoll_\<close> (and not with \<open>startOfPeriod_\<close>) is the code's.
\<close>

definition maybe_roll :: "log_env \<Rightarrow> bool \<Rightarrow> flush_answer \<Rightarrow> int \<Rightarrow> int \<Rightarrow> int \<Rightarrow> logfile \<Rightarrow> logfile result" where
  "maybe_roll env opened out t now written lf =
     (if lf_rollSize lf < written then rbind (rollFile env opened out now lf) (\<lambda>(_, lf). Inr lf)
      else
        (let lf = lf\<lparr>lf_count := lf_count lf + 1\<rparr> in
         if lf_checkEveryN lf \<le> lf_count lf then
           (let lf = lf\<lparr>lf_count := 0\<rparr>; thisPeriodStart = cdiv t kSecondsPerRoll * kSecondsPerRoll in
            if thisPeriodStart \<noteq> lf_lastRoll lf then rbind (rollFile env opened out now lf) (\<lambda>(_, lf). Inr lf)
            else if lf_flushInterval lf < t - lf_lastFlush lf then file_flush out (lf\<lparr>lf_lastFlush := t\<rparr>)
            else Inr lf)
         else Inr lf))"

definition append_unlocked ::
  "log_env \<Rightarrow> nat list \<Rightarrow> bool \<Rightarrow> flush_answer \<Rightarrow> int \<Rightarrow> int \<Rightarrow> string \<Rightarrow> logfile \<Rightarrow> logfile result option" where
  "append_unlocked env answers opened out t now logLine lf =
     (case lf_file lf of
        None \<Rightarrow> Some (Inl BadCall)
      | Some (name, f) \<Rightarrow>
          (case AppendFile_append answers logLine f of
             None \<Rightarrow> None
           | Some (f, _) \<Rightarrow> Some (maybe_roll env opened out t now (writtenBytes f) (lf\<lparr>lf_file := Some (name, f)\<rparr>))))"

text \<open>The public operation: the same under the mutex, when there is one.\<close>

definition LogFile_append ::
  "log_env \<Rightarrow> nat list \<Rightarrow> bool \<Rightarrow> flush_answer \<Rightarrow> int \<Rightarrow> int \<Rightarrow> string \<Rightarrow> logfile \<Rightarrow> logfile result option" where
  "LogFile_append env answers opened out t now logLine lf =
     (if lf_threadSafe lf then append_unlocked env answers opened out t now logLine lf
      else append_unlocked env answers opened out t now logLine lf)"

subsection \<open>Text and names\<close>

definition lf_files :: "logfile \<Rightarrow> (string \<times> append_file) list" where
  "lf_files lf = lf_rolled lf @ (case lf_file lf of None \<Rightarrow> [] | Some f \<Rightarrow> [f])"

definition lf_text :: "logfile \<Rightarrow> string" where
  "lf_text lf = concat (map (\<lambda>(name, f). af_data f) (lf_files lf))"

definition lf_names :: "logfile \<Rightarrow> string list" where
  "lf_names lf = map fst (lf_files lf)"

text \<open>The log with a new file, opened at \<open>now\<close>.\<close>

definition reopened :: "log_env \<Rightarrow> flush_answer \<Rightarrow> int \<Rightarrow> logfile \<Rightarrow> logfile" where
  "reopened env out now lf =
     file_reset out (getLogFileName env (lf_basename lf) now, \<lparr>af_data = [], af_disk = [], af_buffer = [], writeenBytes = 0\<rparr>)
       (lf\<lparr>lf_lastRoll := now, lf_lastFlush := now, lf_startOfPeriod := cdiv now kSecondsPerRoll * kSecondsPerRoll\<rparr>)"

lemma rollFile_cases:
  "rollFile env opened out now lf = Inr (b, lf') \<Longrightarrow>
     (b \<and> opened \<and> lf_lastRoll lf < now \<and> lf' = reopened env out now lf) \<or> (\<not> b \<and> now \<le> lf_lastRoll lf \<and> lf' = lf)"
  by (auto simp: rollFile_def Let_def AppendFile_new_def reopened_def result_iffs split: if_splits)

lemma lf_files_reopened: "lf_files (reopened env out now lf) =
    lf_rolled lf @ closed_file out (lf_file lf) @
      [(getLogFileName env (lf_basename lf) now, \<lparr>af_data = [], af_disk = [], af_buffer = [], writeenBytes = 0\<rparr>)]"
  by (simp add: lf_files_def reopened_def file_reset_def)

lemma reopened_simps [simp]:
  "lf_text (reopened env out now lf) = lf_text lf"
  "lf_names (reopened env out now lf) = lf_names lf @ [getLogFileName env (lf_basename lf) now]"
  "lf_basename (reopened env out now lf) = lf_basename lf"
  "lf_lastRoll (reopened env out now lf) = now"
  "lf_lastFlush (reopened env out now lf) = now"
  "lf_file (reopened env out now lf) = Some (getLogFileName env (lf_basename lf) now, \<lparr>af_data = [], af_disk = [], af_buffer = [], writeenBytes = 0\<rparr>)"
  unfolding lf_text_def lf_names_def lf_files_reopened
  by (auto simp: reopened_def file_reset_def closed_file_def lf_files_def split: option.split)

text \<open>
  Every file was opened at a time of its own, the first after the epoch; the files on disk, oldest first, bear the names of those times. The bound
  is the one of the times given to \<open>gmtime_r\<close>.
\<close>

definition lf_inv :: "log_env \<Rightarrow> int \<Rightarrow> logfile \<Rightarrow> bool" where
  "lf_inv env horizon lf \<longleftrightarrow> lf_file lf \<noteq> None \<and>
     (\<exists>ts. sorted_wrt (<) ts \<and> ts \<noteq> [] \<and> set ts \<subseteq> {0<..<horizon} \<and> last ts = lf_lastRoll lf \<and>
        lf_names lf = map (getLogFileName env (lf_basename lf)) ts)"

lemma sorted_wrt_snoc: "sorted_wrt (<) (xs @ [x]) \<longleftrightarrow> sorted_wrt (<) xs \<and> (xs = [] \<or> last xs < (x :: int))"
proof (induction xs rule: rev_induct)
  case (snoc y ys)
  then show ?case by (auto simp: sorted_wrt_append)
qed simp

lemma lf_inv_reopened:
  assumes "lf_inv env horizon lf" and "lf_lastRoll lf < now" and "now < horizon"
  shows "lf_inv env horizon (reopened env out now lf)"
proof -
  obtain ts where ts: "sorted_wrt (<) ts" "ts \<noteq> []" "set ts \<subseteq> {0<..<horizon}" "last ts = lf_lastRoll lf"
      "lf_names lf = map (getLogFileName env (lf_basename lf)) ts"
    using assms(1) by (auto simp: lf_inv_def)
  then have "last ts \<in> {0<..<horizon}" using last_in_set by blast
  then have "sorted_wrt (<) (ts @ [now]) \<and> set (ts @ [now]) \<subseteq> {0<..<horizon}"
    using ts assms(2,3) by (simp add: sorted_wrt_snoc)
  then show ?thesis using ts by (auto simp: lf_inv_def intro!: exI [of _ "ts @ [now]"])
qed

text \<open>Updates that leave the text, the names and the time of the last roll alone.\<close>

lemma lf_frame [simp]:
  "lf_text (lf\<lparr>lf_count := n\<rparr>) = lf_text lf" "lf_names (lf\<lparr>lf_count := n\<rparr>) = lf_names lf"
  "lf_text (lf\<lparr>lf_lastFlush := t\<rparr>) = lf_text lf" "lf_names (lf\<lparr>lf_lastFlush := t\<rparr>) = lf_names lf"
  by (simp_all add: lf_text_def lf_names_def lf_files_def)

lemma lf_inv_frame [simp]:
  "lf_inv env h (lf\<lparr>lf_count := n\<rparr>) = lf_inv env h lf"
  "lf_inv env h (lf\<lparr>lf_lastFlush := t\<rparr>) = lf_inv env h lf"
  by (simp_all add: lf_inv_def)

lemma file_flush_keeps:
  assumes "file_flush out lf = Inr lf'"
  shows "lf_text lf' = lf_text lf \<and> lf_basename lf' = lf_basename lf \<and> lf_inv env horizon lf' = lf_inv env horizon lf"
proof -
  obtain name f where f: "lf_file lf = Some (name, f)" "lf' = lf\<lparr>lf_file := Some (name, AppendFile_flush out f)\<rparr>"
    using assms by (auto simp: file_flush_def split: option.splits)
  then have "lf_names lf' = lf_names lf" by (simp add: lf_names_def lf_files_def)
  then show ?thesis using f by (simp add: lf_text_def lf_files_def lf_inv_def)
qed

lemma maybe_roll_keeps:
  assumes "maybe_roll env opened out t now w lf = Inr lf'" and "lf_inv env horizon lf" and "now < horizon"
  shows "lf_inv env horizon lf' \<and> lf_text lf' = lf_text lf \<and> lf_basename lf' = lf_basename lf"
proof -
  have roll: "lf_inv env horizon s' \<and> lf_text s' = lf_text s \<and> lf_basename s' = lf_basename s"
    if "rollFile env opened out now s = Inr (b, s')" "lf_inv env horizon s" for b s s'
    using rollFile_cases [OF that(1)] that(2) assms(3) by (auto intro: lf_inv_reopened)
  have flush: "lf_inv env horizon s' \<and> lf_text s' = lf_text s \<and> lf_basename s' = lf_basename s"
    if "file_flush out s = Inr s'" "lf_inv env horizon s" for s s'
    using file_flush_keeps [OF that(1)] that(2) by simp
  show ?thesis
    using assms(1,2)
    by (auto simp: maybe_roll_def Let_def result_iffs split: if_splits dest!: roll flush)
qed

lemma append_unlocked_keeps:
  assumes "append_unlocked env answers opened out t now logLine lf = Some (Inr lf')" and "lf_inv env horizon lf" and "now < horizon"
  shows "lf_inv env horizon lf' \<and> lf_text lf' = lf_text lf @ logLine \<and> lf_basename lf' = lf_basename lf"
proof -
  obtain name f g ys where f: "lf_file lf = Some (name, f)" "AppendFile_append answers logLine f = Some (g, ys)"
      "maybe_roll env opened out t now (writtenBytes g) (lf\<lparr>lf_file := Some (name, g)\<rparr>) = Inr lf'"
    using assms(1) by (auto simp: append_unlocked_def split: option.splits)
  have "lf_inv env horizon (lf\<lparr>lf_file := Some (name, g)\<rparr>)"
    using assms(2) f(1) by (auto simp: lf_inv_def lf_names_def lf_files_def)
  moreover have "lf_text (lf\<lparr>lf_file := Some (name, g)\<rparr>) = lf_text lf @ logLine"
    using AppendFile_append_some [OF f(2)] f(1) by (simp add: lf_text_def lf_files_def)
  ultimately show ?thesis using maybe_roll_keeps [OF f(3) _ assms(3)] by simp
qed

lemma LogFile_append_unlocked: "LogFile_append = append_unlocked"
  by (intro ext) (simp add: LogFile_append_def)

lemma fmt_0d_eqD: "fmt_0d w a = fmt_0d w b \<Longrightarrow> 0 \<le> a \<Longrightarrow> 0 \<le> b \<Longrightarrow> a = b"
  using undec_fmt_0d [of a w] undec_fmt_0d [of b w] by simp

lemma length_year: "tm_ok t \<Longrightarrow> length (fmt_d (tm_year t + 1900)) = 4"
proof -
  assume "tm_ok t"
  then have y: "1000 \<le> tm_year t + 1900" "tm_year t + 1900 \<le> 9999" by (auto simp: tm_ok_def)
  define y where "y = nat (tm_year t + 1900)"
  have "length (dec y) = 4"
  proof -
    have "\<not> y < 10" "\<not> y div 10 < 10" "\<not> y div 10 div 10 < 10" "y div 10 div 10 div 10 < 10" using y by (auto simp: y_def)
    then show ?thesis by (simp add: dec.simps [of y] dec.simps [of "y div 10"] dec.simps [of "y div 10 div 10"] dec.simps [of "y div 10 div 10 div 10"])
  qed
  then show ?thesis using y by (simp add: fmt_d_def y_def)
qed

lemma length_strftime_log: "tm_ok t \<Longrightarrow> length (strftime_log t) = 17"
  by (simp add: strftime_log_def length_year length_fmt_0d tm_ok_def)

lemma strftime_log_inject:
  assumes "tm_ok t" "tm_ok u" "strftime_log t = strftime_log u"
  shows "t = u"
proof -
  have two: "length (fmt_0d 2 x) = 2" if "0 \<le> x" "x < 100" for x using length_fmt_0d [of x 2] that by simp
  have "fmt_d (tm_year t + 1900) = fmt_d (tm_year u + 1900)" "fmt_0d 2 (tm_mon t + 1) = fmt_0d 2 (tm_mon u + 1)"
    "fmt_0d 2 (tm_mday t) = fmt_0d 2 (tm_mday u)" "fmt_0d 2 (tm_hour t) = fmt_0d 2 (tm_hour u)"
    "fmt_0d 2 (tm_min t) = fmt_0d 2 (tm_min u)" "fmt_0d 2 (tm_sec t) = fmt_0d 2 (tm_sec u)"
    using assms two by (auto simp: strftime_log_def tm_ok_def length_year append_eq_append_conv)
  then show ?thesis using assms(1,2) by (auto simp: fmt_d_inject tm_ok_def intro!: tm.equality dest!: fmt_0d_eqD)
qed

lemma getLogFileName_inject:
  assumes "tm_ok (gmtime_r env a)" "tm_ok (gmtime_r env b)" "getLogFileName env base a = getLogFileName env base b"
  shows "gmtime_r env a = gmtime_r env b"
  using assms by (intro strftime_log_inject) (simp_all add: getLogFileName_def length_strftime_log)

text \<open>A run of appends: it ends when one does not return or faults.\<close>

type_synonym log_call = "nat list \<times> bool \<times> flush_answer \<times> int \<times> int \<times> string"

fun log_run :: "log_env \<Rightarrow> log_call list \<Rightarrow> logfile \<Rightarrow> logfile result option" where
  "log_run env [] lf = Some (Inr lf)"
| "log_run env ((answers, opened, out, t, now, logLine) # calls) lf =
     (case LogFile_append env answers opened out t now logLine lf of
        Some (Inr lf') \<Rightarrow> log_run env calls lf'
      | r \<Rightarrow> r)"

definition call_text :: "log_call \<Rightarrow> string" where
  "call_text c = snd (snd (snd (snd (snd c))))"

definition call_time :: "log_call \<Rightarrow> int" where
  "call_time c = fst (snd (snd (snd (snd c))))"

lemma log_run_keeps:
  "log_run env calls lf = Some (Inr lf') \<Longrightarrow> lf_inv env horizon lf \<Longrightarrow> \<forall>c\<in>set calls. call_time c < horizon \<Longrightarrow>
     lf_inv env horizon lf' \<and> lf_text lf' = lf_text lf @ concat (map call_text calls) \<and> lf_basename lf' = lf_basename lf"
proof (induction calls arbitrary: lf)
  case (Cons c calls)
  obtain answers opened out t now logLine where c: "c = (answers, opened, out, t, now, logLine)" by (cases c) blast
  obtain lf1 where lf1: "LogFile_append env answers opened out t now logLine lf = Some (Inr lf1)" "log_run env calls lf1 = Some (Inr lf')"
    using Cons.prems(1) c by (auto split: option.splits sum.splits)
  have "lf_inv env horizon lf1 \<and> lf_text lf1 = lf_text lf @ logLine \<and> lf_basename lf1 = lf_basename lf"
    using append_unlocked_keeps [of env answers opened out t now logLine lf lf1 horizon] lf1(1) Cons.prems(2,3) c
    by (simp add: LogFile_append_unlocked call_time_def)
  then show ?case using Cons.IH [OF lf1(2)] Cons.prems(3) c by (simp add: call_text_def)
qed simp

lemma LogFile_new_inv:
  assumes "LogFile_new env opened now base rs ts fi n = Inr lf" and "0 < now" and "now < horizon"
  shows "lf_inv env horizon lf \<and> lf_text lf = [] \<and> lf_basename lf = base"
proof -
  obtain b lf0 where r: "rollFile env opened Written_out now lf0 = Inr (b, lf)" "lf_lastRoll lf0 = 0" "lf_basename lf0 = base" "lf_text lf0 = []"
      "lf_names lf0 = []"
    using assms(1) by (fastforce simp: LogFile_new_def result_iffs lf_text_def lf_files_def lf_names_def)
  then have "lf = reopened env Written_out now lf0" using rollFile_cases assms(2) by fastforce
  then show ?thesis using r assms by (auto simp: lf_inv_def intro!: exI [of _ "[now]"])
qed

lemma lf_inv_names_distinct:
  assumes "lf_inv env horizon lf" and "inj_on (gmtime_r env) {0<..<horizon}" and "\<forall>x\<in>{0<..<horizon}. tm_ok (gmtime_r env x)"
  shows "distinct (lf_names lf)"
proof -
  obtain ts where ts: "sorted_wrt (<) ts" "set ts \<subseteq> {0<..<horizon}" "lf_names lf = map (getLogFileName env (lf_basename lf)) ts"
    using assms(1) by (auto simp: lf_inv_def)
  have "inj_on (getLogFileName env (lf_basename lf)) (set ts)"
    using ts(2) assms(2,3) getLogFileName_inject by (meson inj_on_def subset_iff)
  then show ?thesis using ts(1,3) by (simp add: distinct_map strict_sorted_iff)
qed

text \<open>
  The names are in the order of the times: the fields have fixed widths and come with the year first, so that the order of the texts (of \<open>ls\<close>) is the
  order of the broken-down times.
\<close>

definition tm_fields :: "tm \<Rightarrow> int list" where
  "tm_fields t = [tm_year t, tm_mon t, tm_mday t, tm_hour t, tm_min t, tm_sec t]"

definition tm_before :: "tm \<Rightarrow> tm \<Rightarrow> bool" where
  "tm_before t u \<longleftrightarrow> ord_class.lexordp (tm_fields t) (tm_fields u)"

lemma undec_Cons: "undec (c # s) = undigit c * 10 ^ length s + undec s"
proof (induction s rule: rev_induct)
  case (snoc d s)
  have "undec (c # s @ [d]) = undec (c # s) * 10 + undigit d" using undec_snoc [of "c # s" d] by simp
  then show ?case using snoc by (simp add: algebra_simps)
qed (simp add: undec_def)

lemma undec_bound: "list_all is_digit s \<Longrightarrow> undec s < 10 ^ length s"
proof (induction s)
  case (Cons c s)
  then have "undigit c \<le> 9" "undec s < 10 ^ length s" by (auto simp: is_digit_def undigit_def)
  then have "undigit c * 10 ^ length s + undec s < 9 * 10 ^ length s + 10 ^ length s" by (intro add_le_less_mono mult_right_mono) simp_all
  then show ?case by (simp add: undec_Cons)
qed (simp add: undec_def)

lemma numeral_order:
  "list_all is_digit s \<Longrightarrow> list_all is_digit t \<Longrightarrow> length s = length t \<Longrightarrow> undec s < undec t \<Longrightarrow> ord_class.lexordp (s @ x) (t @ y)"
proof (induction s arbitrary: t)
  case (Cons c s)
  then obtain d u where t: "t = d # u" "length u = length s" by (cases t) auto
  show ?case
  proof (cases "c = d")
    case True
    then show ?thesis using Cons t by (simp add: undec_Cons)
  next
    case False
    have "undigit c < undigit d"
    proof (rule ccontr)
      assume "\<not> ?thesis"
      moreover have digits: "is_digit c" "is_digit d" using Cons.prems t by simp_all
      then have "undigit c \<noteq> undigit d" using False by (auto simp: is_digit_def undigit_def) (metis char_of_char le_add_diff_inverse)
      ultimately have "Suc (undigit d) \<le> undigit c" by simp
      then have "Suc (undigit d) * 10 ^ length s \<le> undigit c * 10 ^ length s" by (rule mult_right_mono) simp
      moreover have "undec u < 10 ^ length s" using undec_bound [of u] Cons.prems(2) t by simp
      ultimately show False using Cons.prems(4) t by (simp add: undec_Cons)
    qed
    then have "c < d" by (auto simp: undigit_def less_char_def)
    then show ?thesis using t by simp
  qed
qed (simp add: undec_def)

lemma field_order: "0 \<le> a \<Longrightarrow> a < b \<Longrightarrow> b < 100 \<Longrightarrow> ord_class.lexordp (fmt_0d 2 a @ x) (fmt_0d 2 b @ y)"
  by (rule numeral_order) (simp_all add: digits_fmt_0d length_fmt_0d undec_fmt_0d nat_less_eq_zless)

lemma year_order: "tm_ok t \<Longrightarrow> tm_ok u \<Longrightarrow> tm_year t < tm_year u \<Longrightarrow>
    ord_class.lexordp (fmt_d (tm_year t + 1900) @ x) (fmt_d (tm_year u + 1900) @ y)"
  using length_year [of t] length_year [of u]
  by (intro numeral_order) (auto simp: fmt_d_def dec_digits tm_ok_def nat_less_eq_zless)

lemma tm_before_iff:
  "tm_before t u \<longleftrightarrow> tm_year t < tm_year u \<or> tm_year t = tm_year u \<and> (tm_mon t < tm_mon u \<or> tm_mon t = tm_mon u \<and> (tm_mday t < tm_mday u \<or>
     tm_mday t = tm_mday u \<and> (tm_hour t < tm_hour u \<or> tm_hour t = tm_hour u \<and> (tm_min t < tm_min u \<or> tm_min t = tm_min u \<and> tm_sec t < tm_sec u))))"
  by (auto simp: tm_before_def tm_fields_def)

lemma strftime_log_order:
  assumes "tm_ok t" "tm_ok u" "tm_before t u"
  shows "ord_class.lexordp (strftime_log t @ x) (strftime_log u @ y)"
  using assms(3) unfolding tm_before_iff strftime_log_def
  by (elim disjE conjE)
    (use assms(1,2) year_order [OF assms(1,2)] in \<open>auto simp: tm_ok_def intro!: lexordp_append_leftI field_order\<close>)

lemma getLogFileName_order:
  assumes "tm_ok (gmtime_r env a)" "tm_ok (gmtime_r env b)" "tm_before (gmtime_r env a) (gmtime_r env b)"
  shows "ord_class.lexordp (getLogFileName env base a) (getLogFileName env base b)"
  unfolding getLogFileName_def using assms by (auto simp: length_strftime_log intro!: lexordp_append_leftI strftime_log_order)

lemma lf_inv_names_sorted:
  assumes "lf_inv env horizon lf" and "\<forall>a b. 0 < a \<and> a < b \<and> b < horizon \<longrightarrow> tm_before (gmtime_r env a) (gmtime_r env b)"
    and "\<forall>x\<in>{0<..<horizon}. tm_ok (gmtime_r env x)"
  shows "sorted_wrt ord_class.lexordp (lf_names lf)"
proof -
  obtain ts where ts: "sorted_wrt (<) ts" "set ts \<subseteq> {0<..<horizon}" "lf_names lf = map (getLogFileName env (lf_basename lf)) ts"
    using assms(1) by (auto simp: lf_inv_def)
  have "sorted_wrt (\<lambda>a b. ord_class.lexordp (getLogFileName env (lf_basename lf) a) (getLogFileName env (lf_basename lf) b)) ts"
    using ts(1)
  proof (rule sorted_wrt_mono_rel [rotated])
    show "ord_class.lexordp (getLogFileName env (lf_basename lf) a) (getLogFileName env (lf_basename lf) b)" if "a \<in> set ts" "b \<in> set ts" "a < b" for a b
    proof -
      have "0 < a" "b < horizon" "a \<in> {0<..<horizon}" "b \<in> {0<..<horizon}" using that ts(2) by auto
      then show ?thesis using assms(2,3) that(3) by (intro getLogFileName_order) simp_all
    qed
  qed
  then show ?thesis by (simp add: ts(3) sorted_wrt_map)
qed

lemma sorted_lexordp_distinct: "sorted_wrt ord_class.lexordp xs \<Longrightarrow> distinct (xs :: string list)"
  using lexordp_irreflexive' by (induction xs) fastforce+

subsection \<open>Properties\<close>

text \<open>
  C10: a log file keeps everything: when a run of appends returns, the files it has given its text to, in the order of their names (as \<open>ls\<close> sorts them), hold the
  appended lines in the order of the calls and nothing else, however often it rolled; and every name is strictly greater than those before it, so that no file was
  overwritten or continued. It is assumed that the times are after 1970 and before a horizon, up to which \<open>gmtime_r\<close> gives four-digit years and fields in their
  ranges, and a later broken-down time for a later time, as it is documented to (UTC). What of the text is on disk for good is another property.
\<close>

theorem log_keeps_everything:
  assumes "LogFile_new env True start base rollSize safe interval n = Inr lf" and "0 < start" and "start < horizon"
    and "log_run env calls lf = Some (Inr lf')" and "\<forall>c\<in>set calls. call_time c < horizon"
    and "\<forall>a b. 0 < a \<and> a < b \<and> b < horizon \<longrightarrow> tm_before (gmtime_r env a) (gmtime_r env b)" and "\<forall>x\<in>{0<..<horizon}. tm_ok (gmtime_r env x)"
  shows "concat (map (\<lambda>(name, f). af_data f) (lf_files lf')) = concat (map call_text calls) \<and>
    sorted_wrt ord_class.lexordp (map fst (lf_files lf')) \<and> distinct (map fst (lf_files lf'))"
proof -
  have new: "lf_inv env horizon lf \<and> lf_text lf = [] \<and> lf_basename lf = base"
    using LogFile_new_inv [OF assms(1-3)] .
  then have run: "lf_inv env horizon lf' \<and> lf_text lf' = lf_text lf @ concat (map call_text calls)"
    using log_run_keeps [OF assms(4) _ assms(5)] by blast
  then have sorted: "sorted_wrt ord_class.lexordp (map fst (lf_files lf'))" using lf_inv_names_sorted [OF _ assms(6,7)] by (simp add: lf_names_def)
  then have "distinct (map fst (lf_files lf'))"
    by (rule sorted_lexordp_distinct)
  then show ?thesis using run new sorted by (simp add: lf_text_def)
qed

text \<open>The calendar of January 1970.\<close>

definition january :: "int \<Rightarrow> tm" where
  "january t = \<lparr>tm_year = 70, tm_mon = 0, tm_mday = 1 + t div 86400, tm_hour = t div 3600 mod 24,
     tm_min = t div 60 mod 60, tm_sec = t mod 60\<rparr>"

lemma january_inj: "inj_on january {0<..<2678400}"
proof (rule inj_onI)
  fix a b :: int
  assume "january a = january b"
  then have e: "a div 86400 = b div 86400" "a div 3600 mod 24 = b div 3600 mod 24" "a div 60 mod 60 = b div 60 mod 60" "a mod 60 = b mod 60"
    by (auto simp: january_def)
  have x: "x div 60 div 60 = x div 3600" "x div 3600 div 24 = x div 86400" for x :: int by (simp_all add: zdiv_zmult2_eq [symmetric])
  have "a div 3600 = b div 3600" using e(1,2) x(2) by (metis div_mult_mod_eq)
  then have "a div 60 = b div 60" using e(3) x(1) by (metis div_mult_mod_eq)
  then show "a = b" using e(4) by (metis div_mult_mod_eq)
qed

lemma january_ok: "\<forall>x\<in>{0<..<2678400}. tm_ok (january x)"
  by (auto simp: tm_ok_def january_def)

lemma radix_order: "(a :: int) < b \<Longrightarrow> 0 < n \<Longrightarrow> a div n < b div n \<or> a div n = b div n \<and> a mod n < b mod n"
proof -
  assume "a < b" "0 < n"
  then have "a div n \<le> b div n" by (simp add: zdiv_mono1)
  moreover have "a mod n < b mod n" if "a div n = b div n"
    using \<open>a < b\<close> that by (metis add_less_cancel_left div_mult_mod_eq)
  ultimately show ?thesis by force
qed

lemma january_order: "a < b \<Longrightarrow> tm_before (january a) (january b)"
proof -
  assume "a < b"
  have x: "x div 60 div 60 = x div 3600" "x div 3600 div 24 = x div 86400" for x :: int by (simp_all add: zdiv_zmult2_eq [symmetric])
  have "a div 60 < b div 60 \<or> a div 60 = b div 60 \<and> a mod 60 < b mod 60" using radix_order [OF \<open>a < b\<close>, of 60] by simp
  moreover have "a div 3600 < b div 3600 \<or> a div 3600 = b div 3600 \<and> a div 60 mod 60 < b div 60 mod 60" if "a div 60 < b div 60"
    using radix_order [OF that, of 60] by (simp add: x)
  moreover have "a div 86400 < b div 86400 \<or> a div 86400 = b div 86400 \<and> a div 3600 mod 24 < b div 3600 mod 24" if "a div 3600 < b div 3600"
    using radix_order [OF that, of 24] by (simp add: x)
  moreover have "a div 3600 = b div 3600" if "a div 60 = b div 60" using arg_cong [OF that, of "\<lambda>x. x div 60"] by (simp add: x)
  moreover have "a div 86400 = b div 86400" if "a div 3600 = b div 3600" using arg_cong [OF that, of "\<lambda>x. x div 24"] by (simp add: x)
  ultimately have "a div 86400 < b div 86400 \<or> a div 86400 = b div 86400 \<and> (a div 3600 mod 24 < b div 3600 mod 24 \<or> a div 3600 mod 24 = b div 3600 mod 24 \<and>
      (a div 60 mod 60 < b div 60 mod 60 \<or> a div 60 mod 60 = b div 60 mod 60 \<and> a mod 60 < b mod 60))" by metis
  then show ?thesis by (simp add: tm_before_iff january_def)
qed

definition january_env :: log_env where
  "january_env = \<lparr>gmtime_r = january, env_host = Some ''h'', env_pid = 7\<rparr>"

lemma log_keeps_everything_witness:
  "\<exists>lf lf'. LogFile_new january_env True 5 ''log'' 4 False 3 1024 = Inr lf
     \<and> log_run january_env [([5], True, Write_error 2 False, 6, 6, ''hello''), ([2], True, Written_out, 9, 9, ''yo'')] lf = Some (Inr lf')
     \<and> concat (map (\<lambda>(name, f). af_data f) (lf_files lf')) = ''helloyo'' \<and> sorted_wrt ord_class.lexordp (map fst (lf_files lf')) \<and> length (lf_files lf') = 2"
proof -
  obtain lf where lf: "LogFile_new january_env True 5 ''log'' 4 False 3 1024 = Inr lf"
    by (simp add: LogFile_new_def rollFile_def AppendFile_new_def)
  let ?calls = "[([5], True, Write_error 2 False, 6, 6, ''hello''), ([2], True, Written_out, 9, 9, ''yo'')]"
  obtain lf' where run: "log_run january_env ?calls lf = Some (Inr lf')"
      and two: "length (lf_files lf') = 2"
    using lf
    by (auto simp: LogFile_new_def rollFile_def AppendFile_new_def file_reset_def closed_file_def LogFile_append_unlocked append_unlocked_def
        lf_files_def AppendFile_append_def file_write_def maybe_roll_def writtenBytes_def Let_def)
  have "concat (map (\<lambda>(name, f). af_data f) (lf_files lf')) = concat (map call_text ?calls) \<and> sorted_wrt ord_class.lexordp (map fst (lf_files lf'))"
    using log_keeps_everything [OF lf _ _ run, of 2678400] january_order january_ok by (simp add: call_time_def january_env_def)
  then show ?thesis using lf run two by (auto simp: call_text_def)
qed

text \<open>
  What the comparison with \<open>lastRoll_\<close> makes of the periodic check. A file not opened exactly at midnight UTC is replaced at every
  \<open>checkEveryN_\<close>-th append made in a later second, whatever the day and the size; and an append that leaves the file open can reach the periodic
  flush only in a file that was opened exactly at midnight, so that otherwise \<open>flushInterval_\<close> has no effect.
\<close>

theorem check_rolls_instead_of_flushing:
  assumes "lf_file lf = Some (name, f)" and "AppendFile_append answers logLine f = Some (g, ys)"
    and "writtenBytes g \<le> lf_rollSize lf" and "0 \<le> t" and "lf_lastRoll lf mod kSecondsPerRoll \<noteq> 0"
  shows "(lf_checkEveryN lf \<le> lf_count lf + 1 \<and> lf_lastRoll lf < now \<longrightarrow>
      (\<exists>lf' f'. LogFile_append env answers True out t now logLine lf = Some (Inr lf') \<and> lf_lastRoll lf' = now
        \<and> lf_rolled lf' = lf_rolled lf @ [(name, AppendFile_destroy out g)] \<and> lf_file lf' = Some f' \<and> af_data (snd f') = [])) \<and>
      (\<exists>lf'. LogFile_append env answers True out t now logLine lf = Some (Inr lf') \<and>
        (lf_lastRoll lf' = lf_lastRoll lf \<longrightarrow> lf_lastFlush lf' = lf_lastFlush lf \<and> lf_file lf' = Some (name, g)))"
proof (intro conjI impI)
  have mid: "(t div kSecondsPerRoll * kSecondsPerRoll) \<noteq> lf_lastRoll lf" using assms(5) by (metis mod_mult_self2_is_0)
  have pos: "0 < kSecondsPerRoll" by (simp add: kSecondsPerRoll_def)
  show "\<exists>lf' f'. LogFile_append env answers True out t now logLine lf = Some (Inr lf') \<and> lf_lastRoll lf' = now
        \<and> lf_rolled lf' = lf_rolled lf @ [(name, AppendFile_destroy out g)] \<and> lf_file lf' = Some f' \<and> af_data (snd f') = []"
    if "lf_checkEveryN lf \<le> lf_count lf + 1 \<and> lf_lastRoll lf < now"
    using that assms(1-4) mid pos
    by (auto simp: LogFile_append_unlocked append_unlocked_def maybe_roll_def Let_def rollFile_def AppendFile_new_def file_reset_def closed_file_def)
  show "\<exists>lf'. LogFile_append env answers True out t now logLine lf = Some (Inr lf') \<and>
        (lf_lastRoll lf' = lf_lastRoll lf \<longrightarrow> lf_lastFlush lf' = lf_lastFlush lf \<and> lf_file lf' = Some (name, g))"
    using assms(1-4) mid pos
    by (auto simp: LogFile_append_unlocked append_unlocked_def maybe_roll_def Let_def rollFile_def AppendFile_new_def file_reset_def)
qed

lemma check_rolls_instead_of_flushing_witness:
  "\<exists>lf'. LogFile_append january_env [2] True Written_out 100 101 ''yo''
      \<lparr>lf_basename = ''log'', lf_rollSize = 1000, lf_threadSafe = True, lf_flushInterval = 3, lf_checkEveryN = 2, lf_count = 1,
       lf_startOfPeriod = 0, lf_lastRoll = 5, lf_lastFlush = 5,
       lf_file = Some (''n'', \<lparr>af_data = ''a'', af_disk = [], af_buffer = ''a'', writeenBytes = 1\<rparr>), lf_rolled = []\<rparr> = Some (Inr lf') \<and>
     lf_lastRoll lf' = 101 \<and> lf_rolled lf' = [(''n'', \<lparr>af_data = ''ayo'', af_disk = ''ayo'', af_buffer = [], writeenBytes = 3\<rparr>)]"
proof -
  let ?lf = "\<lparr>lf_basename = ''log'', lf_rollSize = 1000, lf_threadSafe = True, lf_flushInterval = 3, lf_checkEveryN = 2, lf_count = 1,
       lf_startOfPeriod = 0, lf_lastRoll = 5, lf_lastFlush = 5,
       lf_file = Some (''n'', \<lparr>af_data = ''a'', af_disk = [], af_buffer = ''a'', writeenBytes = 1\<rparr>), lf_rolled = []\<rparr>"
  let ?g = "\<lparr>af_data = ''ayo'', af_disk = [], af_buffer = ''ayo'', writeenBytes = 3\<rparr>"
  have "AppendFile_append [2] ''yo'' \<lparr>af_data = ''a'', af_disk = [], af_buffer = ''a'', writeenBytes = 1\<rparr> = Some (?g, [])"
    by (simp add: AppendFile_append_def file_write_def)
  then show ?thesis
    using check_rolls_instead_of_flushing [of ?lf "''n''" "\<lparr>af_data = ''a'', af_disk = [], af_buffer = ''a'', writeenBytes = 1\<rparr>" "[2]" "''yo''"
        ?g "[]" 100 101 january_env Written_out]
    by (auto simp: writtenBytes_def kSecondsPerRoll_def AppendFile_destroy_def)
qed

end
