(* ===== verification/RN_LogDurable.thy ===== *)
theory RN_LogDurable
  imports RN_LogFile "HOL-Library.Sublist"
begin

text \<open>
  What of a log is on disk for good (RN/base/LogFile.cpp, RN/base/FileUtil.cpp): the C library keeps the text of the open file in its buffer until
  \<open>fflush\<close> or \<open>fclose\<close>. Both may fail (a full disk), and the code looks at neither result.
\<close>

definition lf_durable :: "logfile \<Rightarrow> string" where
  "lf_durable lf = concat (map (\<lambda>(name, f). af_disk f) (lf_files lf))"

datatype log_op = Op_append log_call | Op_flush flush_answer

text \<open>The answer of the flush or close an operation makes, if it makes one.\<close>

fun op_answer :: "log_op \<Rightarrow> flush_answer" where
  "op_answer (Op_append (answers, opened, out, t, now, logLine)) = out"
| "op_answer (Op_flush out) = out"

fun log_ops :: "log_env \<Rightarrow> log_op list \<Rightarrow> logfile \<Rightarrow> logfile result option" where
  "log_ops env [] lf = Some (Inr lf)"
| "log_ops env (Op_append (answers, opened, out, t, now, logLine) # ops) lf =
     (case LogFile_append env answers opened out t now logLine lf of
        Some (Inr lf') \<Rightarrow> log_ops env ops lf'
      | r \<Rightarrow> r)"
| "log_ops env (Op_flush out # ops) lf = (case LogFile_flush out lf of Inr lf' \<Rightarrow> log_ops env ops lf' | Inl e \<Rightarrow> Some (Inl e))"

fun op_text :: "log_op \<Rightarrow> string" where
  "op_text (Op_append c) = call_text c"
| "op_text (Op_flush out) = []"

text \<open>A file is open; no file holds anything but text given to it, in order. When nothing has failed, nothing is missing.\<close>

definition durable_inv :: "logfile \<Rightarrow> bool" where
  "durable_inv lf \<longleftrightarrow> lf_file lf \<noteq> None \<and> (\<forall>(name, f)\<in>set (lf_files lf). af_ok f)"

definition lf_whole :: "logfile \<Rightarrow> bool" where
  "lf_whole lf \<longleftrightarrow> (\<forall>(name, f)\<in>set (lf_rolled lf). af_disk f = af_data f) \<and> (case lf_file lf of None \<Rightarrow> True | Some (name, f) \<Rightarrow> af_whole f)"

text \<open>What a step may do: nothing durable is lost, the text only grows; \<open>good\<close> says that no flush or close of it failed.\<close>

definition grows :: "bool \<Rightarrow> logfile \<Rightarrow> string \<Rightarrow> logfile \<Rightarrow> bool" where
  "grows good lf msg lf' \<longleftrightarrow> durable_inv lf' \<and> prefix (lf_durable lf) (lf_durable lf') \<and> lf_text lf' = lf_text lf @ msg \<and>
     (good \<and> lf_whole lf \<longrightarrow> lf_whole lf')"

lemma durable_frame [simp]:
  "lf_durable (lf\<lparr>lf_count := n\<rparr>) = lf_durable lf" "lf_durable (lf\<lparr>lf_lastFlush := t\<rparr>) = lf_durable lf"
  "durable_inv (lf\<lparr>lf_count := n\<rparr>) = durable_inv lf" "durable_inv (lf\<lparr>lf_lastFlush := t\<rparr>) = durable_inv lf"
  "lf_whole (lf\<lparr>lf_count := n\<rparr>) = lf_whole lf" "lf_whole (lf\<lparr>lf_lastFlush := t\<rparr>) = lf_whole lf"
  by (simp_all add: lf_durable_def durable_inv_def lf_whole_def lf_files_def)

lemma subseq_concat: "\<forall>x\<in>set xs. subseq (f x) (g x) \<Longrightarrow> subseq (concat (map f xs)) (concat (map g xs))"
  by (induction xs) (simp_all add: list_emb_append_mono)

lemma durable_subseq: "durable_inv lf \<Longrightarrow> subseq (lf_durable lf) (lf_text lf)"
  unfolding lf_durable_def lf_text_def
  by (rule subseq_concat) (auto simp: durable_inv_def af_ok_def dest: list_emb_append2 intro: subseq_order.trans [rotated])

lemma closed_whole: "\<forall>(name, f)\<in>set fs. af_disk f = af_data f \<Longrightarrow>
    concat (map (\<lambda>(name, f). af_disk f) fs) = concat (map (\<lambda>(name, f). af_data f) fs)"
  by (induction fs) auto

lemma whole_durable: "lf_whole lf \<Longrightarrow> prefix (lf_durable lf) (lf_text lf)"
proof -
  assume w: "lf_whole lf"
  then have "concat (map (\<lambda>(name, f). af_disk f) (lf_rolled lf)) = concat (map (\<lambda>(name, f). af_data f) (lf_rolled lf))"
    by (intro closed_whole) (simp add: lf_whole_def)
  moreover have "\<exists>zs. af_data f = af_disk f @ zs" if "lf_file lf = Some (name, f)" for name f
    using w that by (auto simp: lf_whole_def af_whole_def intro: sym)
  ultimately show ?thesis by (auto simp: lf_durable_def lf_text_def lf_files_def prefix_def split: option.split)
qed

lemma grows_refl: "durable_inv lf \<Longrightarrow> grows g lf [] lf"
  by (simp add: grows_def)

lemma grows_trans: "grows g lf a lf1 \<Longrightarrow> grows h lf1 b lf2 \<Longrightarrow> grows (g \<and> h) lf (a @ b) lf2"
  by (auto simp: grows_def intro: prefix_order.trans)

lemma flush_durable:
  assumes "file_flush out lf = Inr lf'"
  shows "durable_inv lf \<Longrightarrow> grows (out = Written_out) lf [] lf'" and "lf_whole lf \<Longrightarrow> out = Written_out \<Longrightarrow> lf_durable lf' = lf_text lf"
proof -
  obtain name f where f: "lf_file lf = Some (name, f)" "lf' = lf\<lparr>lf_file := Some (name, AppendFile_flush out f)\<rparr>"
    using assms by (auto simp: file_flush_def split: option.splits)
  have rolled: "concat (map (\<lambda>(name, f). af_disk f) (lf_rolled lf)) = concat (map (\<lambda>(name, f). af_data f) (lf_rolled lf))" if "lf_whole lf"
    using that by (intro closed_whole) (simp add: lf_whole_def)
  show "lf_durable lf' = lf_text lf" if "lf_whole lf" "out = Written_out"
    using f that rolled [OF that(1)] by (simp add: lf_durable_def lf_text_def lf_files_def lf_whole_def af_whole_def)
  show "grows (out = Written_out) lf [] lf'" if "durable_inv lf"
    using f that AppendFile_flush_ok(1) [of f out] AppendFile_flush_disk [of f out]
    by (auto simp: grows_def durable_inv_def lf_durable_def lf_text_def lf_files_def lf_whole_def af_whole_def)
qed

text \<open>The close of a file, before another is opened or at the end.\<close>

lemma close_durable:
  assumes "lf_file lf = Some (name, f)" and "durable_inv lf"
  shows "prefix (lf_durable lf) (concat (map (\<lambda>(name, f). af_disk f) (lf_rolled lf @ closed_file out (lf_file lf))))"
    and "concat (map (\<lambda>(name, f). af_data f) (lf_rolled lf @ closed_file out (lf_file lf))) = lf_text lf"
    and "\<forall>(name, f)\<in>set (lf_rolled lf @ closed_file out (lf_file lf)). af_ok f"
    and "lf_whole lf \<Longrightarrow> out = Written_out \<Longrightarrow> \<forall>(name, f)\<in>set (lf_rolled lf @ closed_file out (lf_file lf)). af_disk f = af_data f"
  using assms AppendFile_flush_ok(2) [of f out] AppendFile_flush_disk [of f out]
  by (auto simp: closed_file_def lf_durable_def lf_text_def lf_files_def durable_inv_def lf_whole_def af_whole_def)

lemma reopened_durable:
  assumes "durable_inv lf"
  shows "grows (out = Written_out) lf [] (reopened env out now lf)"
proof -
  obtain name f where f: "lf_file lf = Some (name, f)" using assms by (auto simp: durable_inv_def)
  define fs where "fs = lf_rolled lf @ closed_file out (lf_file lf)"
  have "lf_rolled (reopened env out now lf) = fs" by (simp add: fs_def reopened_def file_reset_def)
  moreover have "lf_files (reopened env out now lf) = fs @
      [(getLogFileName env (lf_basename lf) now, \<lparr>af_data = [], af_disk = [], af_buffer = [], writeenBytes = 0\<rparr>)]"
    by (simp add: lf_files_reopened fs_def)
  moreover from calculation have "lf_whole (reopened env out now lf) = (\<forall>(name, f)\<in>set fs. af_disk f = af_data f)"
    by (simp add: lf_whole_def af_whole_def)
  moreover from calculation have "lf_durable (reopened env out now lf) = concat (map (\<lambda>(name, f). af_disk f) fs)" by (simp add: lf_durable_def)
  ultimately show ?thesis using close_durable [OF f assms, of out, folded fs_def] unfolding grows_def durable_inv_def
    by (auto simp: af_ok_def)
qed

lemma roll_durable: "rollFile env opened out now lf = Inr (b, lf') \<Longrightarrow> durable_inv lf \<Longrightarrow> grows (out = Written_out) lf [] lf'"
  using rollFile_cases [of env opened out now lf b lf'] reopened_durable [of lf out env now] grows_refl [of lf] by auto

lemma maybe_roll_durable:
  assumes "maybe_roll env opened out t now w lf = Inr lf'" and "durable_inv lf"
  shows "grows (out = Written_out) lf [] lf'"
proof -
  have count: "grows (out = Written_out) lf [] (lf\<lparr>lf_count := n\<rparr>)" for n using assms(2) by (simp add: grows_def)
  have flush: "grows (out = Written_out) lf [] lf''" if "file_flush out (lf\<lparr>lf_count := 0, lf_lastFlush := t\<rparr>) = Inr lf''" for lf''
    using flush_durable(1) [OF that] assms(2) by (simp add: grows_def)
  have roll: "grows (out = Written_out) lf [] lf''" if "rollFile env opened out now (lf\<lparr>lf_count := 0\<rparr>) = Inr (b, lf'')" for b lf''
    using roll_durable [OF that] assms(2) by (simp add: grows_def)
  show ?thesis
    using assms roll_durable [of env opened out now lf] roll flush count
    by (auto simp: maybe_roll_def Let_def result_iffs split: if_splits)
qed

lemma append_durable:
  assumes "LogFile_append env answers opened out t now logLine lf = Some (Inr lf')" and "durable_inv lf"
  shows "grows (out = Written_out) lf logLine lf'"
proof -
  obtain name f g ys where f: "lf_file lf = Some (name, f)" "AppendFile_append answers logLine f = Some (g, ys)"
      "maybe_roll env opened out t now (writtenBytes g) (lf\<lparr>lf_file := Some (name, g)\<rparr>) = Inr lf'"
    using assms(1) by (auto simp: LogFile_append_unlocked append_unlocked_def split: option.splits)
  have g: "g = f\<lparr>af_data := af_data f @ logLine, af_buffer := af_buffer f @ logLine, writeenBytes := writeenBytes f + int (length logLine)\<rparr>"
    using AppendFile_append_some [OF f(2)] .
  have "af_ok f" using assms(2) f(1) by (simp add: durable_inv_def lf_files_def)
  then have "af_ok g" using list_emb_append_mono [of "(=)" "af_disk f @ af_buffer f" "af_data f" logLine logLine] by (simp add: af_ok_def g)
  then have "grows (out = Written_out) lf logLine (lf\<lparr>lf_file := Some (name, g)\<rparr>)"
    using assms(2) f(1) by (auto simp: g grows_def durable_inv_def lf_durable_def lf_text_def lf_files_def lf_whole_def af_whole_def)
  moreover from this have "grows (out = Written_out) (lf\<lparr>lf_file := Some (name, g)\<rparr>) [] lf'"
    using maybe_roll_durable [OF f(3)] by (simp add: grows_def)
  ultimately show ?thesis using grows_trans by fastforce
qed

lemma ops_durable:
  "log_ops env ops lf = Some (Inr lf') \<Longrightarrow> durable_inv lf \<Longrightarrow>
    grows (\<forall>op\<in>set ops. op_answer op = Written_out) lf (concat (map op_text ops)) lf'"
proof (induction env ops lf rule: log_ops.induct)
  case (1 env lf)
  then show ?case by (simp add: grows_refl)
next
  case (2 env answers opened out t now logLine ops lf)
  obtain lf1 where lf1: "LogFile_append env answers opened out t now logLine lf = Some (Inr lf1)" "log_ops env ops lf1 = Some (Inr lf')"
    using "2.prems"(1) by (auto split: option.splits sum.splits)
  have g: "grows (out = Written_out) lf logLine lf1" using append_durable [OF lf1(1) "2.prems"(2)] .
  then have "durable_inv lf1" by (simp add: grows_def)
  from grows_trans [OF g "2.IH" [OF lf1(1) refl lf1(2) this]] show ?case by (simp add: call_text_def)
next
  case (3 env out ops lf)
  obtain lf1 where lf1: "LogFile_flush out lf = Inr lf1" "log_ops env ops lf1 = Some (Inr lf')"
    using "3.prems"(1) by (auto split: sum.splits)
  have g: "grows (out = Written_out) lf [] lf1" using flush_durable(1) [of out lf lf1] lf1(1) "3.prems"(2) by (simp add: LogFile_flush_def)
  then have "durable_inv lf1" by (simp add: grows_def)
  from grows_trans [OF g "3.IH" [OF lf1(1) lf1(2) this]] show ?case by simp
qed

lemma log_run_ops: "log_run env calls lf = log_ops env (map Op_append calls) lf"
  by (induction env calls lf rule: log_run.induct) (auto split: option.splits sum.splits)

lemma LogFile_new_durable:
  assumes "LogFile_new env opened now base rs ts fi n = Inr lf" and "0 < now"
  shows "durable_inv lf \<and> lf_whole lf \<and> lf_text lf = [] \<and> lf_durable lf = []"
  using assms
  by (auto simp: LogFile_new_def rollFile_def AppendFile_new_def file_reset_def closed_file_def Let_def result_iffs durable_inv_def lf_whole_def lf_files_def
      lf_text_def lf_durable_def af_ok_def af_whole_def split: if_splits)

text \<open>The appends of a sequence, and its last flush.\<close>

fun op_calls :: "log_op list \<Rightarrow> log_call list" where
  "op_calls [] = []"
| "op_calls (Op_append c # ops) = c # op_calls ops"
| "op_calls (Op_flush out # ops) = op_calls ops"

lemma op_calls_snoc: "op_calls (ops @ [Op_flush out]) = op_calls ops"
  by (induction ops rule: op_calls.induct) simp_all

lemma op_calls_text: "concat (map op_text ops) = concat (map call_text (op_calls ops))"
  by (induction ops rule: op_calls.induct) simp_all

lemma ops_inv:
  "log_ops env ops lf = Some (Inr lf') \<Longrightarrow> lf_inv env horizon lf \<Longrightarrow> \<forall>c\<in>set (op_calls ops). call_time c < horizon \<Longrightarrow>
     lf_inv env horizon lf'"
proof (induction env ops lf rule: log_ops.induct)
  case (2 env answers opened out t now logLine ops lf)
  obtain lf1 where lf1: "LogFile_append env answers opened out t now logLine lf = Some (Inr lf1)" "log_ops env ops lf1 = Some (Inr lf')"
    using "2.prems"(1) by (auto split: option.splits sum.splits)
  have "now < horizon" using "2.prems"(3) by (simp add: call_time_def)
  with append_unlocked_keeps [of env answers opened out t now logLine lf lf1 horizon] lf1(1) "2.prems"(2)
  have "lf_inv env horizon lf1" by (simp add: LogFile_append_unlocked)
  with "2.IH" [OF lf1(1) refl lf1(2)] "2.prems"(3) show ?case by simp
next
  case (3 env out ops lf)
  obtain lf1 where lf1: "LogFile_flush out lf = Inr lf1" "log_ops env ops lf1 = Some (Inr lf')"
    using "3.prems"(1) by (auto split: sum.splits)
  have "lf_inv env horizon lf1" using file_flush_keeps [of out lf lf1] lf1(1) "3.prems"(2) by (simp add: LogFile_flush_def)
  with "3.IH" [OF lf1] "3.prems"(3) show ?case by simp
qed simp

lemma ops_flush_last:
  "log_ops env (ops @ [Op_flush out]) lf = Some (Inr lf') \<Longrightarrow> \<exists>lf1. log_ops env ops lf = Some (Inr lf1) \<and> file_flush out lf1 = Inr lf'"
proof (induction ops arbitrary: lf)
  case Nil
  then show ?case by (simp add: LogFile_flush_def split: sum.splits)
next
  case (Cons op ops)
  show ?case
  proof (cases op)
    case (Op_append c)
    obtain answers opened out' t now logLine where c: "c = (answers, opened, out', t, now, logLine)" by (cases c) blast
    then obtain lf2 where "LogFile_append env answers opened out' t now logLine lf = Some (Inr lf2)" "log_ops env (ops @ [Op_flush out]) lf2 = Some (Inr lf')"
      using Cons.prems Op_append by (simp split: option.splits sum.splits)
    then show ?thesis using Cons.IH [of lf2] Op_append c by simp
  next
    case (Op_flush out')
    then obtain lf2 where "LogFile_flush out' lf = Inr lf2" "log_ops env (ops @ [Op_flush out]) lf2 = Some (Inr lf')"
      using Cons.prems by (simp split: sum.splits)
    then show ?thesis using Cons.IH [of lf2] Op_flush by simp
  qed
qed

lemma ops_end_in_flush:
  assumes "log_ops env (ops @ [Op_flush Written_out]) lf = Some (Inr lf')" and "durable_inv lf" and "lf_whole lf" and "lf_text lf = []"
    and "\<forall>op\<in>set ops. op_answer op = Written_out"
  shows "lf_durable lf' = concat (map call_text (op_calls ops))"
proof -
  obtain lf1 where lf1: "log_ops env ops lf = Some (Inr lf1)" "file_flush Written_out lf1 = Inr lf'"
    using ops_flush_last [OF assms(1)] by blast
  have "grows True lf (concat (map op_text ops)) lf1" using ops_durable [OF lf1(1) assms(2)] assms(5) by (simp add: grows_def)
  then show ?thesis using flush_durable(2) [OF lf1(2)] assms(3,4) by (simp add: grows_def op_calls_text)
qed

subsection \<open>Properties\<close>

text \<open>
  C11: Durability of a log file, over any sequence of appends and flushes, however often the file rolls and whatever \<open>fflush\<close> and \<open>fclose\<close> answer: what is on
  disk for good is never lost or changed later, and contains only appended bytes, in their order, each at most once. As long as no flush and no close has failed it is
  a prefix of the lines appended so far; then a flush that succeeds makes it everything appended so far, and so does the destruction of the log, if its close
  succeeds. After a failure (a full disk) only the first part holds: the code ignores both results, so that the operation returns as if nothing had happened and
  the missing bytes are not written again unless the C library kept them.\<close>

theorem log_is_durable:
  assumes "LogFile_new env True start base rollSize safe interval n = Inr lf" and "0 < start"
    and "log_ops env before lf = Some (Inr lf1)" and "log_ops env later lf1 = Some (Inr lf2)"
  shows "prefix (lf_durable lf1) (lf_durable lf2) \<and> subseq (lf_durable lf2) (concat (map op_text (before @ later))) \<and>
    (\<exists>lf3. LogFile_flush out lf2 = Inr lf3 \<and> prefix (lf_durable lf2) (lf_durable lf3) \<and> lf_text lf3 = lf_text lf2) \<and>
    ((\<forall>op\<in>set (before @ later). op_answer op = Written_out) \<longrightarrow>
      prefix (lf_durable lf2) (concat (map op_text (before @ later))) \<and>
      (\<exists>lf3. LogFile_flush Written_out lf2 = Inr lf3 \<and> lf_durable lf3 = concat (map op_text (before @ later))) \<and>
      lf_durable (LogFile_destroy Written_out lf2) = concat (map op_text (before @ later)))"
proof -
  have new: "durable_inv lf" "lf_whole lf" "lf_text lf = []" using LogFile_new_durable [OF assms(1,2)] by simp_all
  have g1: "grows (\<forall>op\<in>set before. op_answer op = Written_out) lf (concat (map op_text before)) lf1" using ops_durable [OF assms(3) new(1)] .
  then have g2: "grows (\<forall>op\<in>set later. op_answer op = Written_out) lf1 (concat (map op_text later)) lf2" using ops_durable [OF assms(4)] by (simp add: grows_def)
  have appended: "lf_text lf2 = concat (map op_text (before @ later))" using g1 g2 new(3) by (simp add: grows_def)
  have inv: "durable_inv lf2" using g2 by (simp add: grows_def)
  then obtain name f where f: "lf_file lf2 = Some (name, f)" by (auto simp: durable_inv_def)
  have flush: "\<exists>lf3. LogFile_flush out lf2 = Inr lf3 \<and> file_flush out lf2 = Inr lf3" for out using f by (simp add: LogFile_flush_def file_flush_def)
  have whole: "lf_whole lf2" if "\<forall>op\<in>set (before @ later). op_answer op = Written_out" using that g1 g2 new(2) by (auto simp: grows_def)
  have "prefix (lf_durable lf2) (lf_text lf2) \<and> (\<exists>lf3. LogFile_flush Written_out lf2 = Inr lf3 \<and> lf_durable lf3 = lf_text lf2) \<and>
      lf_durable (LogFile_destroy Written_out lf2) = lf_text lf2" if "\<forall>op\<in>set (before @ later). op_answer op = Written_out"
  proof (intro conjI)
    show "prefix (lf_durable lf2) (lf_text lf2)" by (rule whole_durable [OF whole [OF that]])
    show "\<exists>lf3. LogFile_flush Written_out lf2 = Inr lf3 \<and> lf_durable lf3 = lf_text lf2"
      using flush [of Written_out] flush_durable(2) [of Written_out lf2] whole [OF that] by auto
    show "lf_durable (LogFile_destroy Written_out lf2) = lf_text lf2"
      using closed_whole [OF close_durable(4) [OF f inv whole [OF that] refl]] close_durable(2) [OF f inv, of Written_out]
      by (simp add: LogFile_destroy_def lf_durable_def lf_files_def)
  qed
  moreover have "\<exists>lf3. LogFile_flush out lf2 = Inr lf3 \<and> prefix (lf_durable lf2) (lf_durable lf3) \<and> lf_text lf3 = lf_text lf2"
    using flush [of out] flush_durable(1) [of out lf2] inv by (fastforce simp: grows_def)
  moreover have "prefix (lf_durable lf1) (lf_durable lf2)" using g2 by (simp add: grows_def)
  ultimately show ?thesis using durable_subseq [OF inv] unfolding appended by blast
qed

lemma log_is_durable_witness:
  "\<exists>lf lf1 lf2. LogFile_new january_env True 5 ''log'' 4 False 3 1024 = Inr lf \<and>
     log_ops january_env [Op_append ([2], True, Written_out, 6, 6, ''hi''), Op_flush Written_out] lf = Some (Inr lf1) \<and> lf_durable lf1 = ''hi'' \<and>
     log_ops january_env [Op_append ([1], True, Written_out, 7, 7, ''!'')] lf1 = Some (Inr lf2) \<and> prefix (lf_durable lf2) ''hi!'' \<and>
     lf_durable (LogFile_destroy Written_out lf2) = ''hi!''"
proof -
  obtain lf where lf: "LogFile_new january_env True 5 ''log'' 4 False 3 1024 = Inr lf"
    by (simp add: LogFile_new_def rollFile_def AppendFile_new_def)
  obtain lf1 where lf1: "log_ops january_env [Op_append ([2], True, Written_out, 6, 6, ''hi''), Op_flush Written_out] lf = Some (Inr lf1)" "lf_durable lf1 = ''hi''"
    using lf
    by (auto simp: LogFile_new_def rollFile_def AppendFile_new_def file_reset_def LogFile_append_unlocked append_unlocked_def closed_file_def
        AppendFile_append_def file_write_def maybe_roll_def writtenBytes_def Let_def LogFile_flush_def file_flush_def lf_durable_def lf_files_def)
  obtain lf2 where lf2: "log_ops january_env [Op_append ([1], True, Written_out, 7, 7, ''!'')] lf1 = Some (Inr lf2)"
    using lf lf1(1)
    by (auto simp: LogFile_new_def rollFile_def AppendFile_new_def file_reset_def LogFile_append_unlocked append_unlocked_def
        AppendFile_append_def file_write_def maybe_roll_def writtenBytes_def Let_def LogFile_flush_def file_flush_def)
  show ?thesis using log_is_durable [OF lf _ lf1(1) lf2, of Written_out] lf lf1 lf2 by (auto simp: call_text_def)
qed

end
