(* ===== verification/RN_AsyncLogging.thy ===== *)
theory RN_AsyncLogging
  imports RN_LogStream
begin

text \<open>
  RN/base/AsyncLogging.h and AsyncLogging.cpp: a front end that appends messages to large buffers and a logging thread that swaps the buffers out and
  writes them. The state has the fields of the class, the local variables of \<open>threadFunc\<close> (the two spare buffers) and the point the logging thread has
  reached; \<open>al_written\<close> (not in the code) is the list of the texts given to \<open>logFile.append\<close>. A unique pointer is an option. The lock is held from the
  return of the wait to the end of the loop body, so that an execution is a sequence of the critical sections below.
\<close>

datatype al_pc = AL_unstarted | AL_begin | AL_check | AL_waiting | AL_done

record async_log =
  al_flushInterval :: int
  al_running :: bool
  al_latch :: int
  al_current :: "fixed_buffer option"
  al_next :: "fixed_buffer option"
  al_buffers :: "fixed_buffer list"
  al_pc :: al_pc
  al_first :: "fixed_buffer option"
  al_second :: "fixed_buffer option"
  al_notified :: bool
  al_written :: "string list"
  al_flushed :: nat

definition large_buffer :: fixed_buffer where
  "large_buffer = FixedBuffer_new kLargeBuffer"

definition AsyncLogging_new :: "int \<Rightarrow> async_log" where
  "AsyncLogging_new flushInterval =
     \<lparr>al_flushInterval = flushInterval, al_running = False, al_latch = 1, al_current = Some large_buffer, al_next = Some large_buffer,
      al_buffers = [], al_pc = AL_unstarted, al_first = None, al_second = None, al_notified = False, al_written = [], al_flushed = 0\<rparr>"

text \<open>A notification reaches the logging thread only while it waits.\<close>

definition cond_notify :: "async_log \<Rightarrow> async_log" where
  "cond_notify s = (if al_pc s = AL_waiting then s\<lparr>al_notified := True\<rparr> else s)"

text \<open>The part of \<open>start\<close> before \<open>latch_.wait()\<close>.\<close>

definition al_start :: "async_log \<Rightarrow> async_log" where
  "al_start s = s\<lparr>al_running := True, al_pc := AL_begin\<rparr>"

text \<open>The part of \<open>stop\<close> before \<open>thread_.join()\<close>.\<close>

definition al_stop :: "async_log \<Rightarrow> async_log" where
  "al_stop s = cond_notify (s\<lparr>al_running := False\<rparr>)"

text \<open>The destructor stops a log that runs.\<close>

definition AsyncLogging_destroy :: "async_log \<Rightarrow> async_log" where
  "AsyncLogging_destroy s = (if al_running s then al_stop s else s)"

definition al_append :: "string \<Rightarrow> async_log \<Rightarrow> async_log result" where
  "al_append logLine s =
     (case al_current s of
        None \<Rightarrow> Inl BadCall
      | Some cur \<Rightarrow>
          if length logLine < fb_avail cur then Inr (s\<lparr>al_current := Some (fb_append logLine (length logLine) cur)\<rparr>)
          else
            (let s = s\<lparr>al_buffers := al_buffers s @ [cur]\<rparr>;
                 (cur, nxt) = (case al_next s of Some b \<Rightarrow> (b, None) | None \<Rightarrow> (large_buffer, None))
             in Inr (cond_notify (s\<lparr>al_current := Some (fb_append logLine (length logLine) cur), al_next := nxt\<rparr>))))"

text \<open>The start of \<open>threadFunc\<close>, up to the loop.\<close>

definition al_thread_begin :: "async_log \<Rightarrow> async_log result" where
  "al_thread_begin s =
     rassert (al_running s)
       (Inr (s\<lparr>al_latch := al_latch s - 1, al_first := Some large_buffer, al_second := Some large_buffer, al_pc := AL_check\<rparr>))"

text \<open>The loop test, the assertions and the wait (\<open>bufferToWrite\<close> is always empty there); or the end of the thread.\<close>

definition spare :: "fixed_buffer option \<Rightarrow> bool" where
  "spare b \<longleftrightarrow> (case b of None \<Rightarrow> False | Some b \<Rightarrow> fb_length b = 0)"

definition al_enter :: "async_log \<Rightarrow> async_log result" where
  "al_enter s =
     (if al_running s then rassert (spare (al_first s)) (rassert (spare (al_second s)) (Inr (s\<lparr>al_pc := AL_waiting, al_notified := False\<rparr>)))
      else Inr (s\<lparr>al_pc := AL_done, al_flushed := length (al_written s)\<rparr>))"

definition drop_message :: "string \<Rightarrow> nat \<Rightarrow> string" where
  "drop_message now n = snprintf_text 256 (''Dropped log message at '' @ now @ '', '' @ dec (n - 2) @ '' large buffer'')"

text \<open>Taking back a spare buffer from those just written.\<close>

definition take_back :: "fixed_buffer option \<times> fixed_buffer list \<Rightarrow> (fixed_buffer option \<times> fixed_buffer list) result" where
  "take_back p =
     (case fst p of
        Some b \<Rightarrow> Inr p
      | None \<Rightarrow> rassert (snd p \<noteq> []) (Inr (Some (fb_reset (last (snd p))), butlast (snd p))))"

text \<open>The loop body from the return of the wait.\<close>

definition al_swap :: "async_log \<Rightarrow> (fixed_buffer list \<times> async_log) result" where
  "al_swap s =
     (case al_current s of
        None \<Rightarrow> Inl BadCall
      | Some cur \<Rightarrow>
          (let s = s\<lparr>al_buffers := al_buffers s @ [cur], al_current := al_first s, al_first := None\<rparr>;
               toWrite = al_buffers s;
               s = s\<lparr>al_buffers := []\<rparr>;
               s = (if al_next s = None then s\<lparr>al_next := al_second s, al_second := None\<rparr> else s)
           in Inr (toWrite, s)))"

definition al_write :: "string \<Rightarrow> fixed_buffer list \<Rightarrow> async_log \<Rightarrow> async_log result" where
  "al_write now toWrite s =
     rassert (toWrite \<noteq> [])
       (let (msgs, toWrite) = (if 25 < length toWrite then ([drop_message now (length toWrite)], take 2 toWrite) else ([], toWrite));
            s = s\<lparr>al_written := al_written s @ msgs @ map fb_data toWrite\<rparr>;
            toWrite = (if 2 < length toWrite then take 2 toWrite else toWrite)
        in rbind (take_back (al_first s, toWrite)) (\<lambda>(first, toWrite).
           rbind (take_back (al_second s, toWrite)) (\<lambda>(second, toWrite).
             Inr (s\<lparr>al_first := first, al_second := second, al_flushed := length (al_written s), al_pc := AL_check\<rparr>))))"

definition al_wake :: "string \<Rightarrow> async_log \<Rightarrow> async_log result" where
  "al_wake now s = rbind (al_swap s) (\<lambda>(toWrite, s). al_write now toWrite s)"

text \<open>
  The steps of an execution: a front-end thread appends, somebody starts or stops the log, the logging thread takes its next step (\<open>Al_thread\<close>, with the
  time text for a drop message). \<open>stop\<close> can only follow a \<open>start\<close> that has returned. A step that cannot happen yet changes nothing.
\<close>

datatype al_action = Al_start | Al_append string | Al_stop | Al_thread string

fun al_exec :: "al_action \<Rightarrow> async_log \<Rightarrow> async_log result" where
  "al_exec Al_start s = Inr (if al_pc s = AL_unstarted then al_start s else s)"
| "al_exec (Al_append m) s = al_append m s"
| "al_exec Al_stop s = Inr (if al_latch s = 0 then al_stop s else s)"
| "al_exec (Al_thread now) s =
     (case al_pc s of
        AL_unstarted \<Rightarrow> Inr s
      | AL_begin \<Rightarrow> al_thread_begin s
      | AL_check \<Rightarrow> al_enter s
      | AL_waiting \<Rightarrow> al_wake now s
      | AL_done \<Rightarrow> Inr s)"

subsection \<open>Invariant\<close>

text \<open>Every buffer is a large buffer with its data inside it; the spare buffers are there between two rounds; \<open>nextBuffer_\<close> is missing only when a full
  buffer waits.\<close>

definition large_ok :: "fixed_buffer \<Rightarrow> bool" where
  "large_ok b \<longleftrightarrow> fb_size b = kLargeBuffer \<and> (fb_length b < kLargeBuffer)"

definition al_inv :: "async_log \<Rightarrow> bool" where
  "al_inv s \<longleftrightarrow>
     (\<exists>cur. al_current s = Some cur \<and> large_ok cur) \<and>
     (\<forall>b. al_next s = Some b \<longrightarrow> b = large_buffer) \<and>
     (al_next s = None \<longrightarrow> al_buffers s \<noteq> []) \<and>
     list_all large_ok (al_buffers s) \<and>
     al_latch s = (if al_pc s \<in> {AL_unstarted, AL_begin} then 1 else 0) \<and>
     (al_pc s \<notin> {AL_unstarted, AL_begin} \<longrightarrow> al_first s = Some large_buffer \<and> al_second s = Some large_buffer) \<and>
     (al_pc s = AL_begin \<longrightarrow> al_running s)"

text \<open>The text not yet handed to the file.\<close>

definition al_pending :: "async_log \<Rightarrow> string" where
  "al_pending s = concat (map fb_data (al_buffers s)) @ (case al_current s of None \<Rightarrow> [] | Some b \<Rightarrow> fb_data b)"

lemma large_buffer_ok [simp]: "large_ok large_buffer" "fb_data large_buffer = []" "fb_length large_buffer = 0"
  by (simp_all add: large_ok_def large_buffer_def FixedBuffer_new_def fb_length_def kLargeBuffer_def)

lemma avail_large: "large_ok b \<Longrightarrow> fb_avail b = kLargeBuffer - length (fb_data b)"
  by (simp add: fb_avail_def large_ok_def fb_length_def)

lemma fb_reset_large: "large_ok b \<Longrightarrow> fb_reset b = large_buffer"
  by (simp add: fb_reset_def large_ok_def large_buffer_def FixedBuffer_new_def)

lemma AsyncLogging_new_inv: "al_inv (AsyncLogging_new n)" "al_pending (AsyncLogging_new n) = []"
  by (auto simp: al_inv_def AsyncLogging_new_def al_pending_def)

lemma fb_append_large:
  "large_ok b \<Longrightarrow> length m < fb_avail b \<Longrightarrow>
     large_ok (fb_append m (length m) b) \<and> fb_data (fb_append m (length m) b) = fb_data b @ m"
  by (auto simp: fb_append_def large_ok_def fb_length_def fb_avail_def)

lemma fb_append_spare:
  "large_ok (fb_append m (length m) large_buffer)
   \<and> fb_data (fb_append m (length m) large_buffer) = (if length m < kLargeBuffer then m else [])"
  by (simp add: fb_append_def large_ok_def large_buffer_def FixedBuffer_new_def fb_length_def fb_avail_def kLargeBuffer_def)

subsection \<open>The steps keep the invariant\<close>

definition kept :: "string \<Rightarrow> string" where
  "kept m = (if length m < kLargeBuffer then m else [])"

lemma al_inv_cond_notify [simp]:
  "al_inv (cond_notify s) = al_inv s" "al_pending (cond_notify s) = al_pending s" "al_written (cond_notify s) = al_written s"
  "al_pc (cond_notify s) = al_pc s" "al_latch (cond_notify s) = al_latch s" "al_running (cond_notify s) = al_running s"
  by (simp_all add: cond_notify_def al_inv_def al_pending_def)

lemma al_append_spec:
  assumes "al_inv s"
  shows "\<exists>s'. al_append m s = Inr s' \<and> al_inv s' \<and> al_pending s' = al_pending s @ kept m
    \<and> al_written s' = al_written s \<and> al_pc s' = al_pc s \<and> al_running s' = al_running s \<and> al_latch s' = al_latch s"
proof -
  obtain cur where cur: "al_current s = Some cur" "large_ok cur" using assms by (auto simp: al_inv_def)
  show ?thesis
  proof (cases "length m < fb_avail cur")
    case True
    then have "kept m = m" using avail_large [OF cur(2)] by (auto simp: kept_def)
    then show ?thesis
      using True cur fb_append_large [OF cur(2) True] assms by (simp add: al_append_def al_inv_def al_pending_def)
  next
    case False
    define b where "b = fb_append m (length m) large_buffer"
    have b: "large_ok b" "fb_data b = kept m" using fb_append_spare [of m] by (simp_all add: b_def kept_def)
    have nxt: "(case al_next s of Some b \<Rightarrow> (b, None) | None \<Rightarrow> (large_buffer, None)) = (large_buffer, None :: fixed_buffer option)"
      using assms by (auto simp: al_inv_def split: option.split)
    define s1 where "s1 = s\<lparr>al_buffers := al_buffers s @ [cur], al_current := Some b, al_next := None\<rparr>"
    have r: "al_append m s = Inr (cond_notify s1)"
      using False cur nxt by (simp add: al_append_def b_def s1_def Let_def)
    have f: "al_written s1 = al_written s" "al_pc s1 = al_pc s" "al_running s1 = al_running s" "al_latch s1 = al_latch s"
      by (simp_all add: s1_def)
    have "al_inv s1" "al_pending s1 = al_pending s @ kept m"
      using b cur assms by (simp_all add: s1_def al_inv_def al_pending_def)
    then show ?thesis using r f by simp
  qed
qed

lemma take_back_large:
  assumes "list_all large_ok bs" and "bs \<noteq> []"
  shows "take_back (None, bs) = Inr (Some large_buffer, butlast bs)"
proof -
  have "large_ok (last bs)" using assms by (simp add: list_all_iff)
  then show ?thesis using assms(2) by (simp add: take_back_def fb_reset_large)
qed

lemma take_back_Some [simp]: "take_back (Some b, bs) = Inr (Some b, bs)"
  by (simp add: take_back_def)

definition al_output :: "string \<Rightarrow> fixed_buffer list \<Rightarrow> string list" where
  "al_output now bs = (if 25 < length bs then drop_message now (length bs) # map fb_data (take 2 bs) else map fb_data bs)"

lemma al_wake_spec:
  assumes "al_inv s" and "al_pc s = AL_waiting" and cur: "al_current s = Some cur"
  shows "\<exists>s'. al_wake now s = Inr s' \<and> al_inv s' \<and> al_pending s' = [] \<and> al_pc s' = AL_check
    \<and> al_written s' = al_written s @ al_output now (al_buffers s @ [cur])
    \<and> al_flushed s' = length (al_written s') \<and> al_running s' = al_running s \<and> al_latch s' = al_latch s"
proof -
  define bs where "bs = al_buffers s @ [cur]"
  define us where "us = (if 25 < length bs then take 2 bs else bs)"
  define ws where "ws = (if 2 < length us then take 2 us else us)"
  have inv: "al_first s = Some large_buffer" "al_second s = Some large_buffer" "\<forall>b. al_next s = Some b \<longrightarrow> b = large_buffer"
      "al_next s = None \<longrightarrow> al_buffers s \<noteq> []"
    using assms by (auto simp: al_inv_def)
  have bs: "list_all large_ok bs" "bs \<noteq> []" using assms(1) cur by (auto simp: al_inv_def bs_def)
  then have ws: "list_all large_ok ws" "ws \<noteq> []" "ws \<noteq> [] \<and> butlast ws \<noteq> [] \<or> al_next s \<noteq> None"
    using inv(4) by (auto simp: ws_def us_def bs_def list_all_iff dest: in_set_takeD simp flip: length_greater_0_conv)
  have bl: "list_all large_ok (butlast ws)" using ws(1) by (auto simp: list_all_iff dest: in_set_butlastD)
  define s1 where "s1 = s\<lparr>al_buffers := [], al_current := Some large_buffer, al_first := None,
      al_next := Some large_buffer, al_second := (if al_next s = None then None else Some large_buffer)\<rparr>"
  have swap: "al_swap s = Inr (bs, s1)"
    using inv cur by (cases "al_next s") (simp_all add: al_swap_def Let_def bs_def s1_def)
  have tb1: "take_back (None, ws) = Inr (Some large_buffer, butlast ws)" using take_back_large ws(1,2) by blast
  have tb2: "\<exists>rest. take_back (if al_next s = None then None else Some large_buffer, butlast ws) = Inr (Some large_buffer, rest)"
    using take_back_large [OF bl] ws(3) by auto
  then obtain rest where rest: "take_back (if al_next s = None then None else Some large_buffer, butlast ws) = Inr (Some large_buffer, rest)"
    by blast
  have out: "al_output now bs = (if 25 < length bs then [drop_message now (length bs)] else []) @ map fb_data us"
    by (simp add: al_output_def us_def)
  have pick: "(if 25 < length bs then ([drop_message now (length bs)], take 2 bs) else ([], bs))
      = (if 25 < length bs then [drop_message now (length bs)] else [], us)"
    by (simp add: us_def)
  have s1: "al_first s1 = None" "al_second s1 = (if al_next s = None then None else Some large_buffer)" "al_written s1 = al_written s"
    by (simp_all add: s1_def)
  have "al_write now bs s1 = Inr (s1\<lparr>al_written := al_written s @ al_output now bs, al_first := Some large_buffer,
      al_second := Some large_buffer, al_flushed := length (al_written s @ al_output now bs), al_pc := AL_check\<rparr>)"
    unfolding al_write_def pick out using tb1 rest bs(2) s1 by (simp add: Let_def ws_def [symmetric])
  then have w: "al_wake now s = Inr (s1\<lparr>al_written := al_written s @ al_output now bs, al_first := Some large_buffer,
      al_second := Some large_buffer, al_flushed := length (al_written s @ al_output now bs), al_pc := AL_check\<rparr>)"
    by (simp add: al_wake_def swap)
  have "al_latch s = 0" using assms(1,2) by (simp add: al_inv_def)
  moreover have "al_latch s1 = al_latch s" "al_running s1 = al_running s" by (simp_all add: s1_def)
  ultimately show ?thesis using w by (simp add: bs_def [symmetric]) (simp add: s1_def al_inv_def al_pending_def)
qed

lemma al_thread_begin_spec:
  "al_inv s \<Longrightarrow> al_pc s = AL_begin \<Longrightarrow>
     \<exists>s'. al_thread_begin s = Inr s' \<and> al_inv s' \<and> al_pending s' = al_pending s \<and> al_written s' = al_written s"
  by (auto simp: al_thread_begin_def al_inv_def al_pending_def)

lemma al_enter_spec:
  "al_inv s \<Longrightarrow> al_pc s = AL_check \<Longrightarrow>
     \<exists>s'. al_enter s = Inr s' \<and> al_inv s' \<and> al_pending s' = al_pending s \<and> al_written s' = al_written s
       \<and> al_pc s' = (if al_running s then AL_waiting else AL_done)"
  by (auto simp: al_enter_def al_inv_def al_pending_def spare_def)

text \<open>What one step adds to the written texts and to the text appended.\<close>

definition al_says :: "al_action \<Rightarrow> async_log \<Rightarrow> string list" where
  "al_says a s =
     (case a of
        Al_thread now \<Rightarrow>
          if al_pc s = AL_waiting then al_output now (al_buffers s @ (case al_current s of None \<Rightarrow> [] | Some b \<Rightarrow> [b])) else []
      | _ \<Rightarrow> [])"

definition al_drops :: "al_action \<Rightarrow> async_log \<Rightarrow> bool" where
  "al_drops a s \<longleftrightarrow> (case a of Al_thread now \<Rightarrow> al_pc s = AL_waiting \<and> 25 \<le> length (al_buffers s) | _ \<Rightarrow> False)"

definition al_appends :: "al_action \<Rightarrow> string" where
  "al_appends a = (case a of Al_append m \<Rightarrow> kept m | _ \<Rightarrow> [])"

lemma al_exec_spec:
  assumes "al_inv s"
  shows "\<exists>s'. al_exec a s = Inr s' \<and> al_inv s' \<and>
    (\<not> al_drops a s \<longrightarrow> concat (al_written s') @ al_pending s' = (concat (al_written s) @ al_pending s) @ al_appends a)"
proof (cases a)
  case Al_start
  then show ?thesis using assms by (auto simp: al_start_def al_inv_def al_pending_def al_appends_def)
next
  case (Al_append m)
  then show ?thesis using al_append_spec [OF assms, of m] by (auto simp: al_appends_def)
next
  case Al_stop
  then show ?thesis using assms by (auto simp: al_stop_def al_inv_def al_pending_def al_appends_def cond_notify_def)
next
  case (Al_thread now)
  have none: "al_appends a = []" using Al_thread by (simp add: al_appends_def)
  show ?thesis
  proof (cases "al_pc s")
    case AL_waiting
    obtain cur where cur: "al_current s = Some cur" using assms by (auto simp: al_inv_def)
    have "concat (al_output now (al_buffers s @ [cur])) = al_pending s" if "\<not> al_drops a s"
      using that Al_thread AL_waiting cur by (simp add: al_output_def al_drops_def al_pending_def)
    then show ?thesis using al_wake_spec [OF assms AL_waiting cur, of now] Al_thread AL_waiting none by auto
  qed (use assms Al_thread none al_thread_begin_spec [OF assms] al_enter_spec [OF assms] in auto)
qed

fun al_run :: "al_action list \<Rightarrow> async_log \<Rightarrow> async_log result" where
  "al_run as s = rfold al_exec as s"

fun al_no_drop :: "al_action list \<Rightarrow> async_log \<Rightarrow> bool" where
  "al_no_drop [] s = True"
| "al_no_drop (a # as) s = (\<not> al_drops a s \<and> (case al_exec a s of Inl _ \<Rightarrow> True | Inr s' \<Rightarrow> al_no_drop as s'))"

lemma al_run_spec:
  "al_inv s \<Longrightarrow> \<exists>s'. al_run as s = Inr s' \<and> al_inv s' \<and>
    (al_no_drop as s \<longrightarrow> concat (al_written s') @ al_pending s' = (concat (al_written s) @ al_pending s) @ concat (map al_appends as))"
proof (induction as arbitrary: s)
  case (Cons a as)
  obtain s1 where s1: "al_exec a s = Inr s1" "al_inv s1"
      "\<not> al_drops a s \<longrightarrow> concat (al_written s1) @ al_pending s1 = (concat (al_written s) @ al_pending s) @ al_appends a"
    using al_exec_spec [OF Cons.prems, of a] by blast
  then show ?case using Cons.IH [OF s1(2)] by auto
qed simp

lemma al_run_ended:
  "al_inv s \<Longrightarrow> al_pc s = AL_done \<Longrightarrow> \<exists>s'. rfold al_exec as s = Inr s' \<and> al_pc s' = AL_done \<and> al_written s' = al_written s"
proof (induction as arbitrary: s)
  case (Cons a as)
  obtain s1 where "al_exec a s = Inr s1" "al_inv s1" "al_pc s1 = AL_done" "al_written s1 = al_written s"
  proof (cases a)
    case (Al_append m)
    then show ?thesis using al_append_spec [OF Cons.prems(1), of m] Cons.prems(2) that by auto
  qed (use Cons.prems that in \<open>auto simp: al_stop_def cond_notify_def al_inv_def\<close>)
  then show ?case using Cons.IH [of s1] by auto
qed simp

subsection \<open>Properties\<close>

text \<open>
  C9: the asynchronous log never fails and keeps the order: in every interleaving of appends, the start, the stop and the steps of the logging thread, no
  assertion of \<open>threadFunc\<close> fails and no empty pointer is used (the two spare buffers always come back); and as long as no round has more than 25
  buffers, what was given to the file followed by what is still in the buffers is exactly the appended text, in order. Only messages of the size of a
  whole buffer are lost.
\<close>

theorem async_log_order:
  "\<exists>s. al_run as (AsyncLogging_new interval) = Inr s \<and>
     (al_no_drop as (AsyncLogging_new interval) \<longrightarrow> concat (al_written s) @ al_pending s = concat (map al_appends as))"
proof -
  have "al_written (AsyncLogging_new interval) = []" by (simp add: AsyncLogging_new_def)
  then show ?thesis using al_run_spec [OF AsyncLogging_new_inv(1), of as interval] AsyncLogging_new_inv(2) [of interval] by auto
qed

lemma async_log_order_witness:
  "\<exists>s. al_run [Al_start, Al_append ''a'', Al_thread [], Al_thread [], Al_append ''b'', Al_thread []] (AsyncLogging_new 3) = Inr s
     \<and> concat (al_written s) @ al_pending s = ''ab''"
  using async_log_order [of "[Al_start, Al_append ''a'', Al_thread [], Al_thread [], Al_append ''b'', Al_thread []]" 3]
  by (simp add: al_drops_def al_start_def al_append_def AsyncLogging_new_def fb_avail_def large_buffer_def FixedBuffer_new_def fb_length_def
      kLargeBuffer_def fb_append_def al_thread_begin_def al_enter_def spare_def al_appends_def kept_def split: sum.splits)

text \<open>
  Overload: a round that finds more than 25 buffers writes a notice, then the two oldest buffers, and throws the rest away; fewer are written whole. In
  both cases nothing is left in the buffers and everything written has been flushed.
\<close>

theorem overload_keeps_two:
  assumes "al_inv s" and "al_pc s = AL_waiting" and "al_current s = Some cur" and "bs = al_buffers s @ [cur]"
  shows "\<exists>s'. al_exec (Al_thread now) s = Inr s' \<and> al_pending s' = [] \<and> al_flushed s' = length (al_written s') \<and>
    al_written s' = al_written s @
      (if 25 < length bs then [drop_message now (length bs), fb_data (bs ! 0), fb_data (bs ! 1)] else map fb_data bs)"
proof -
  have "map fb_data (take 2 bs) = [fb_data (bs ! 0), fb_data (bs ! 1)]" if "25 < length bs"
  proof -
    have "take 2 bs = [bs ! 0, bs ! 1]" using that by (intro nth_equalityI) (auto simp: less_Suc_eq numeral_2_eq_2)
    then show ?thesis by simp
  qed
  then show ?thesis using al_wake_spec [OF assms(1-3), of now] assms(2,4) by (auto simp: al_output_def)
qed

lemma overload_keeps_two_witness:
  defines "full \<equiv> \<lparr>fb_size = kLargeBuffer, fb_data = ''x''\<rparr>"
  shows "\<exists>s'. al_exec (Al_thread ''now'')
      \<lparr>al_flushInterval = 3, al_running = True, al_latch = 0, al_current = Some full, al_next = None, al_buffers = replicate 25 full,
       al_pc = AL_waiting, al_first = Some large_buffer, al_second = Some large_buffer, al_notified = True, al_written = [], al_flushed = 0\<rparr> = Inr s'
     \<and> al_written s' = [drop_message ''now'' 26, ''x'', ''x''] \<and> al_pending s' = []"
proof -
  let ?s = "\<lparr>al_flushInterval = 3, al_running = True, al_latch = 0, al_current = Some full, al_next = None, al_buffers = replicate 25 full,
       al_pc = AL_waiting, al_first = Some large_buffer, al_second = Some large_buffer, al_notified = True, al_written = [], al_flushed = 0\<rparr>"
  have inv: "al_inv ?s" by (simp add: al_inv_def list_all_iff full_def large_ok_def fb_length_def kLargeBuffer_def)
  show ?thesis
    using overload_keeps_two [OF inv, of full "replicate 25 full @ [full]" "''now''"] by (auto simp: full_def nth_append)
qed

text \<open>
  Stopping. When the logging thread is in its wait, the stop is followed by one last round, and everything appended before it is written. When it is
  between two rounds, it ends without another: what was appended since the last one is not written then nor at any later time.
\<close>

theorem stop_writes_only_if_waiting:
  assumes "al_inv s"
  shows "(al_pc s = AL_waiting \<and> length (al_buffers s) < 25 \<longrightarrow>
      (\<exists>s'. al_run [Al_stop, Al_thread now, Al_thread now'] s = Inr s' \<and> al_pc s' = AL_done
        \<and> concat (al_written s') = concat (al_written s) @ al_pending s)) \<and>
    (al_pc s = AL_check \<longrightarrow>
      (\<exists>s'. al_run ([Al_append m, Al_stop, Al_thread now] @ as) s = Inr s' \<and> al_pc s' = AL_done \<and> al_written s' = al_written s))"
proof (intro conjI impI)
  show "\<exists>s'. al_run [Al_stop, Al_thread now, Al_thread now'] s = Inr s' \<and> al_pc s' = AL_done
        \<and> concat (al_written s') = concat (al_written s) @ al_pending s" if w: "al_pc s = AL_waiting \<and> length (al_buffers s) < 25"
  proof -
    define s1 where "s1 = al_stop s"
    have latch: "al_latch s = 0" using assms w by (simp add: al_inv_def)
    have s1: "al_inv s1" "al_pc s1 = AL_waiting" "al_buffers s1 = al_buffers s" "al_current s1 = al_current s" "al_written s1 = al_written s"
        "\<not> al_running s1"
      using assms w by (auto simp: s1_def al_stop_def cond_notify_def al_inv_def)
    obtain cur where cur': "al_current s = Some cur" using assms by (auto simp: al_inv_def)
    then have cur: "al_current s1 = Some cur" using s1(4) by simp
    obtain s2 where s2: "al_wake now s1 = Inr s2" "al_inv s2" "al_pc s2 = AL_check" "al_running s2 = al_running s1"
        "al_written s2 = al_written s1 @ al_output now (al_buffers s1 @ [cur])"
      using al_wake_spec [OF s1(1,2) cur] by blast
    obtain s3 where s3: "al_enter s2 = Inr s3" "al_written s3 = al_written s2" "al_pc s3 = (if al_running s2 then AL_waiting else AL_done)"
      using al_enter_spec [OF s2(2,3)] by blast
    have "al_run [Al_stop, Al_thread now, Al_thread now'] s = Inr s3"
      using s1(2) s2(1,3) s3(1) latch by (simp add: s1_def [symmetric])
    moreover have "concat (al_output now (al_buffers s1 @ [cur])) = al_pending s"
      using w s1(3) cur' by (simp add: al_output_def al_pending_def)
    ultimately show ?thesis using s1 s2 s3 by auto
  qed
  show "\<exists>s'. al_run ([Al_append m, Al_stop, Al_thread now] @ as) s = Inr s' \<and> al_pc s' = AL_done \<and> al_written s' = al_written s"
    if c: "al_pc s = AL_check"
  proof -
    obtain s1 where s1: "al_append m s = Inr s1" "al_inv s1" "al_written s1 = al_written s" "al_pc s1 = AL_check" "al_latch s1 = 0"
      using al_append_spec [OF assms, of m] c assms by (auto simp: al_inv_def)
    define s2 where "s2 = al_stop s1"
    have s2: "al_inv s2" "al_pc s2 = AL_check" "\<not> al_running s2" "al_written s2 = al_written s"
      using s1 by (auto simp: s2_def al_stop_def cond_notify_def al_inv_def)
    obtain s3 where s3: "al_enter s2 = Inr s3" "al_inv s3" "al_pc s3 = AL_done" "al_written s3 = al_written s"
      using al_enter_spec [OF s2(1,2)] s2(3,4) by auto
    then show ?thesis using al_run_ended [OF s3(2,3)] s1 s2(2) by (auto simp: s2_def [symmetric])
  qed
qed

lemma stop_writes_only_if_waiting_witness:
  "\<exists>s'. al_run ([Al_append ''m'', Al_stop, Al_thread ''t''] @ [Al_thread ''u''])
      \<lparr>al_flushInterval = 3, al_running = True, al_latch = 0, al_current = Some large_buffer, al_next = Some large_buffer, al_buffers = [],
       al_pc = AL_check, al_first = Some large_buffer, al_second = Some large_buffer, al_notified = False, al_written = [''a''], al_flushed = 1\<rparr> = Inr s'
     \<and> al_pc s' = AL_done \<and> al_written s' = [''a'']"
proof -
  let ?s = "\<lparr>al_flushInterval = 3, al_running = True, al_latch = 0, al_current = Some large_buffer, al_next = Some large_buffer, al_buffers = [],
       al_pc = AL_check, al_first = Some large_buffer, al_second = Some large_buffer, al_notified = False, al_written = [''a''], al_flushed = 1\<rparr>"
  have "al_inv ?s" by (simp add: al_inv_def)
  then show ?thesis using stop_writes_only_if_waiting [of ?s "''t''" "[]" "''m''" "[Al_thread ''u'']"] by auto
qed

end
