(* ===== verification/RN_StringPiece.thy ===== *)
theory RN_StringPiece
  imports RN_Prelude "HOL-Library.List_Lexorder" "HOL-Library.Char_ord" "HOL-Library.Sublist"
begin

text \<open>
  RN/base/StringPiece.h, and the parser of ProcessInfo.cpp that uses it. A piece is the memory from its pointer on (a list of
  characters) and its length. The lexicographic order of the library on lists of characters is the reference for the
  comparisons.
\<close>

record piece =
  sp_ptr :: string
  sp_len :: int

definition StringPiece_empty :: piece where
  "StringPiece_empty = \<lparr>sp_ptr = [], sp_len = 0\<rparr>"

text \<open>From a C string, from a string object, and from a pointer and a length.\<close>

definition StringPiece_cstr :: "string \<Rightarrow> piece" where
  "StringPiece_cstr s = \<lparr>sp_ptr = s, sp_len = int (length (takeWhile (\<lambda>c. c \<noteq> CHR 0x00) s))\<rparr>"

definition StringPiece_string :: "string \<Rightarrow> piece" where
  "StringPiece_string s = \<lparr>sp_ptr = s, sp_len = int (length s)\<rparr>"

definition StringPiece_ucstr :: "string \<Rightarrow> piece" where
  "StringPiece_ucstr s = StringPiece_cstr s"

definition StringPiece_len :: "string \<Rightarrow> int \<Rightarrow> piece" where
  "StringPiece_len s n = \<lparr>sp_ptr = s, sp_len = n\<rparr>"

definition sp_size :: "piece \<Rightarrow> int" where
  "sp_size x = sp_len x"

definition sp_empty :: "piece \<Rightarrow> bool" where
  "sp_empty x \<longleftrightarrow> sp_len x = 0"

definition sp_clear :: "piece \<Rightarrow> piece" where
  "sp_clear x = x\<lparr>sp_ptr := [], sp_len := 0\<rparr>"

definition sp_set :: "string \<Rightarrow> int \<Rightarrow> piece \<Rightarrow> piece" where
  "sp_set s n x = x\<lparr>sp_ptr := s, sp_len := n\<rparr>"

definition sp_set_cstr :: "string \<Rightarrow> piece \<Rightarrow> piece" where
  "sp_set_cstr s x = x\<lparr>sp_ptr := s, sp_len := int (length (takeWhile (\<lambda>c. c \<noteq> CHR 0x00) s))\<rparr>"

definition sp_nth :: "piece \<Rightarrow> nat \<Rightarrow> char result" where
  "sp_nth x i = (if i < length (sp_ptr x) then Inr (sp_ptr x ! i) else Inl OutOfRange)"

definition sp_remove_prefix :: "nat \<Rightarrow> piece \<Rightarrow> piece" where
  "sp_remove_prefix n x = x\<lparr>sp_ptr := drop n (sp_ptr x), sp_len := sp_len x - int n\<rparr>"

definition sp_remove_suffix :: "nat \<Rightarrow> piece \<Rightarrow> piece" where
  "sp_remove_suffix n x = x\<lparr>sp_len := sp_len x - int n\<rparr>"

text \<open>\<open>memcmp\<close>: the sign of the difference of the first bytes that differ, as unsigned characters.\<close>

fun memcmp :: "string \<Rightarrow> string \<Rightarrow> nat \<Rightarrow> int" where
  "memcmp (a # as) (b # bs) (Suc n) =
     (if of_char a < (of_char b :: nat) then -1 else if (of_char b :: nat) < of_char a then 1 else memcmp as bs n)"
| "memcmp as bs n = 0"

definition sp_eq :: "piece \<Rightarrow> piece \<Rightarrow> bool" where
  "sp_eq x y \<longleftrightarrow> sp_len x = sp_len y \<and> memcmp (sp_ptr x) (sp_ptr y) (nat (sp_len x)) = 0"

definition sp_ne :: "piece \<Rightarrow> piece \<Rightarrow> bool" where
  "sp_ne x y \<longleftrightarrow> \<not> sp_eq x y"

definition sp_binary :: "(int \<Rightarrow> int \<Rightarrow> bool) \<Rightarrow> (int \<Rightarrow> int \<Rightarrow> bool) \<Rightarrow> piece \<Rightarrow> piece \<Rightarrow> bool" where
  "sp_binary cmp auxcmp x y =
     (let r = memcmp (sp_ptr x) (sp_ptr y) (nat (if sp_len x < sp_len y then sp_len x else sp_len y))
      in auxcmp r 0 \<or> r = 0 \<and> cmp (sp_len x) (sp_len y))"

definition sp_less :: "piece \<Rightarrow> piece \<Rightarrow> bool" where
  "sp_less = sp_binary (\<lambda>a b. a < b) (\<lambda>a b. a < b)"

definition sp_less_eq :: "piece \<Rightarrow> piece \<Rightarrow> bool" where
  "sp_less_eq = sp_binary (\<lambda>a b. a \<le> b) (\<lambda>a b. a < b)"

definition sp_greater_eq :: "piece \<Rightarrow> piece \<Rightarrow> bool" where
  "sp_greater_eq = sp_binary (\<lambda>a b. b \<le> a) (\<lambda>a b. b < a)"

definition sp_greater :: "piece \<Rightarrow> piece \<Rightarrow> bool" where
  "sp_greater = sp_binary (\<lambda>a b. b < a) (\<lambda>a b. b < a)"

definition sp_compare :: "piece \<Rightarrow> piece \<Rightarrow> int" where
  "sp_compare x y =
     (let r = memcmp (sp_ptr x) (sp_ptr y) (nat (if sp_len x < sp_len y then sp_len x else sp_len y))
      in if r = 0 then (if sp_len x < sp_len y then -1 else if sp_len y < sp_len x then 1 else r) else r)"

definition as_string :: "piece \<Rightarrow> string result" where
  "as_string x = (if 0 \<le> sp_len x \<and> sp_len x \<le> int (length (sp_ptr x)) then Inr (take (nat (sp_len x)) (sp_ptr x)) else Inl OutOfRange)"

definition copyToString :: "piece \<Rightarrow> string \<Rightarrow> string result" where
  "copyToString x target = as_string x"

definition sp_startsWith :: "piece \<Rightarrow> piece \<Rightarrow> bool" where
  "sp_startsWith x y \<longleftrightarrow> sp_len y < sp_len x \<and> memcmp (sp_ptr x) (sp_ptr y) (nat (sp_len y)) = 0"

subsection \<open>The process name\<close>

text \<open>\<open>find\<close> gives the position of the first occurrence, or \<open>npos\<close>; the length is the 64-bit \<open>rp - rp - 1\<close> cast to \<open>int\<close>.\<close>

definition find_char :: "char \<Rightarrow> string \<Rightarrow> nat option" where
  "find_char c s = (if c \<in> set s then Some (length (takeWhile (\<lambda>x. x \<noteq> c) s)) else None)"

definition procname :: "string \<Rightarrow> piece" where
  "procname stat =
     (case (find_char (CHR ''('') stat, find_char (CHR '')'') stat) of
        (Some lp, Some rp) \<Rightarrow>
          (if lp < rp then sp_set (drop (lp + 1) stat) (int rp - int rp - 1) StringPiece_empty else StringPiece_empty)
      | _ \<Rightarrow> StringPiece_empty)"

subsection \<open>Facts\<close>

definition sp_valid :: "piece \<Rightarrow> bool" where
  "sp_valid x \<longleftrightarrow> 0 \<le> sp_len x \<and> sp_len x \<le> int (length (sp_ptr x))"

definition sp_text :: "piece \<Rightarrow> string" where
  "sp_text x = take (nat (sp_len x)) (sp_ptr x)"

lemma length_sp_text: "sp_valid x \<Longrightarrow> int (length (sp_text x)) = sp_len x"
  by (auto simp: sp_valid_def sp_text_def min_def)

lemma memcmp_range: "memcmp as bs n \<in> {-1, 0, 1}"
  by (induction as bs n rule: memcmp.induct) auto

lemma memcmp_take: "memcmp (take i as) (take j bs) n = memcmp as bs n" if "n \<le> i" "n \<le> j"
  using that
proof (induction as bs n arbitrary: i j rule: memcmp.induct)
  case (1 a as b bs n)
  then show ?case by (cases i; cases j) auto
qed (auto simp: take_Cons' split: if_splits)

lemma memcmp_zero_iff: "n \<le> length as \<Longrightarrow> n \<le> length bs \<Longrightarrow> memcmp as bs n = 0 \<longleftrightarrow> take n as = take n bs"
  by (induction as bs n rule: memcmp.induct) auto

lemma memcmp_sym: "memcmp bs as n = - memcmp as bs n"
  by (induction as bs n rule: memcmp.induct) auto

text \<open>\<open>memcmp\<close> on the common length, then the lengths, is the lexicographic order.\<close>

lemma memcmp_less_iff:
  "as < bs \<longleftrightarrow> (let r = memcmp as bs (min (length as) (length bs)) in r < 0 \<or> r = 0 \<and> length as < length bs)"
proof (induction as arbitrary: bs)
  case Nil
  then show ?case by (cases bs) auto
next
  case (Cons a as)
  show ?case
  proof (cases bs)
    case (Cons b cs)
    have "a < b \<longleftrightarrow> (of_char a :: nat) < of_char b" "a = b \<longleftrightarrow> (of_char a :: nat) = of_char b"
      by (simp_all add: less_char_def)
    then show ?thesis using Cons.IH [of cs] Cons by (auto simp: Let_def)
  qed simp
qed

lemma piece_memcmp:
  assumes "sp_valid x" and "sp_valid y"
  shows "memcmp (sp_ptr x) (sp_ptr y) (nat (if sp_len x < sp_len y then sp_len x else sp_len y)) =
    memcmp (sp_text x) (sp_text y) (min (length (sp_text x)) (length (sp_text y)))"
proof -
  define n where "n = nat (if sp_len x < sp_len y then sp_len x else sp_len y)"
  have "min (length (sp_text x)) (length (sp_text y)) = n"
    using length_sp_text [OF assms(1)] length_sp_text [OF assms(2)] by (auto simp: n_def min_def)
  moreover have "n \<le> nat (sp_len x)" "n \<le> nat (sp_len y)" by (auto simp: n_def)
  ultimately show ?thesis using memcmp_take by (simp add: sp_text_def n_def)
qed

lemma sp_less_iff:
  assumes "sp_valid x" and "sp_valid y"
  shows "sp_less x y \<longleftrightarrow> sp_text x < sp_text y"
  using piece_memcmp [OF assms] length_sp_text [OF assms(1)] length_sp_text [OF assms(2)] memcmp_less_iff [of "sp_text x" "sp_text y"]
  by (simp add: sp_less_def sp_binary_def Let_def) linarith

lemma sp_compare_less_iff:
  assumes "sp_valid x" and "sp_valid y"
  shows "sp_compare x y < 0 \<longleftrightarrow> sp_text x < sp_text y"
proof -
  have "sp_compare x y < 0 \<longleftrightarrow> sp_less x y" by (auto simp: sp_compare_def sp_less_def sp_binary_def Let_def)
  then show ?thesis by (simp add: sp_less_iff [OF assms])
qed

lemma memcmp_commute:
  "memcmp (sp_ptr y) (sp_ptr x) (nat (if sp_len y < sp_len x then sp_len y else sp_len x)) =
     - memcmp (sp_ptr x) (sp_ptr y) (nat (if sp_len x < sp_len y then sp_len x else sp_len y))"
proof -
  have "(if sp_len y < sp_len x then sp_len y else sp_len x) = (if sp_len x < sp_len y then sp_len x else sp_len y)" by simp
  then show ?thesis using memcmp_sym by metis
qed

lemma sp_duals:
  "sp_greater x y \<longleftrightarrow> sp_less y x" "sp_less_eq x y \<longleftrightarrow> \<not> sp_less y x" "sp_greater_eq x y \<longleftrightarrow> \<not> sp_less x y"
  "sp_compare y x = - sp_compare x y"
  using memcmp_commute [of x y] memcmp_commute [of y x]
  by (auto simp: sp_greater_def sp_less_def sp_less_eq_def sp_greater_eq_def sp_binary_def sp_compare_def Let_def)

lemma strict_prefix_iff_take: "strict_prefix a b \<longleftrightarrow> length a < length b \<and> take (length a) b = a"
proof
  assume "length a < length b \<and> take (length a) b = a"
  moreover have "b = take (length a) b @ drop (length a) b" by simp
  ultimately have "b = a @ drop (length a) b" "drop (length a) b \<noteq> []" by simp_all
  then show "strict_prefix a b" unfolding strict_prefix_def prefix_def by (metis append_self_conv)
qed (auto simp: strict_prefix_def prefix_def)

subsection \<open>Properties\<close>

text \<open>The comparisons of valid pieces are the lexicographic order of their texts by unsigned characters: all six operators and
  \<open>compare\<close> agree with it and with each other, so pieces can be keys of an ordered container.\<close>

theorem piece_order:
  assumes "sp_valid x" and "sp_valid y"
  shows "(sp_less x y \<longleftrightarrow> sp_text x < sp_text y) \<and> (sp_less_eq x y \<longleftrightarrow> sp_text x \<le> sp_text y) \<and>
    (sp_greater x y \<longleftrightarrow> sp_text y < sp_text x) \<and> (sp_greater_eq x y \<longleftrightarrow> sp_text y \<le> sp_text x) \<and>
    (sp_eq x y \<longleftrightarrow> sp_text x = sp_text y) \<and> (sp_ne x y \<longleftrightarrow> sp_text x \<noteq> sp_text y) \<and>
    (sp_compare x y < 0 \<longleftrightarrow> sp_text x < sp_text y) \<and> (sp_compare x y = 0 \<longleftrightarrow> sp_text x = sp_text y)"
proof -
  have less: "sp_less x y \<longleftrightarrow> sp_text x < sp_text y" "sp_less y x \<longleftrightarrow> sp_text y < sp_text x"
    using sp_less_iff assms by blast+
  have cmp: "sp_compare x y < 0 \<longleftrightarrow> sp_text x < sp_text y" "sp_compare y x < 0 \<longleftrightarrow> sp_text y < sp_text x"
    using sp_compare_less_iff assms by blast+
  have "sp_eq x y \<longleftrightarrow> sp_text x = sp_text y"
  proof (cases "sp_len x = sp_len y")
    case True
    then show ?thesis using assms memcmp_zero_iff [of "nat (sp_len x)" "sp_ptr x" "sp_ptr y"]
      by (simp add: sp_eq_def sp_valid_def sp_text_def nat_le_iff)
  next
    case False
    then show ?thesis using length_sp_text [OF assms(1)] length_sp_text [OF assms(2)] by (auto simp: sp_eq_def)
  qed
  moreover have "sp_compare x y = 0 \<longleftrightarrow> sp_text x = sp_text y"
  proof -
    have "sp_compare x y = 0 \<longleftrightarrow> \<not> sp_compare x y < 0 \<and> \<not> sp_compare y x < 0" using sp_duals(4) [of y x] by linarith
    then show ?thesis using cmp by auto
  qed
  ultimately show ?thesis using less cmp(1) by (auto simp: sp_duals(1-3) sp_ne_def)
qed

theorem piece_order_witness: "sp_less (StringPiece_string ''abc'') (StringPiece_string ''abd'')"
proof -
  have "sp_valid (StringPiece_string ''abc'')" "sp_valid (StringPiece_string ''abd'')"
    by (simp_all add: sp_valid_def StringPiece_string_def)
  from piece_order [OF this] show ?thesis by (simp add: sp_text_def StringPiece_string_def less_char_def)
qed

text \<open>\<open>startsWith\<close> holds exactly for the proper prefixes: a piece does not start with itself, because the lengths are compared strictly.\<close>

theorem startsWith_proper_prefix:
  assumes "sp_valid x" and "sp_valid y"
  shows "(sp_startsWith x y \<longleftrightarrow> strict_prefix (sp_text y) (sp_text x)) \<and> \<not> sp_startsWith x x"
proof -
  have l: "nat (sp_len y) \<le> length (sp_ptr x)" if "sp_len y < sp_len x" using assms that by (simp add: sp_valid_def nat_le_iff)
  have "memcmp (sp_ptr x) (sp_ptr y) (nat (sp_len y)) = 0 \<longleftrightarrow> take (nat (sp_len y)) (sp_text x) = sp_text y" if "sp_len y < sp_len x"
    using memcmp_zero_iff [OF l [OF that], of "sp_ptr y"] assms that by (simp add: sp_valid_def nat_le_iff sp_text_def min_def)
  moreover have "strict_prefix (sp_text y) (sp_text x) \<longleftrightarrow> sp_len y < sp_len x \<and> take (nat (sp_len y)) (sp_text x) = sp_text y"
  proof -
    have n: "nat (sp_len y) = length (sp_text y)" using length_sp_text [OF assms(2)] by simp
    have "length (sp_text y) < length (sp_text x) \<longleftrightarrow> sp_len y < sp_len x"
      using length_sp_text [OF assms(1)] length_sp_text [OF assms(2)] by linarith
    then show ?thesis by (simp only: strict_prefix_iff_take n)
  qed
  ultimately show ?thesis by (auto simp: sp_startsWith_def)
qed

theorem startsWith_proper_prefix_witness:
  "sp_startsWith (StringPiece_string ''abc'') (StringPiece_string ''ab'') \<and> \<not> sp_startsWith (StringPiece_string ''ab'') (StringPiece_string ''ab'')"
proof -
  have "sp_valid (StringPiece_string ''abc'')" "sp_valid (StringPiece_string ''ab'')"
    by (simp_all add: sp_valid_def StringPiece_string_def)
  then show ?thesis
    using startsWith_proper_prefix [of "StringPiece_string ''abc''" "StringPiece_string ''ab''"]
      startsWith_proper_prefix [of "StringPiece_string ''ab''" "StringPiece_string ''ab''"]
    by (simp add: sp_text_def StringPiece_string_def strict_prefix_def)
qed

text \<open>Parsing a process name never yields one: whenever the status line has a parenthesised name, the piece returned has length -1
  (the difference is taken from the closing parenthesis twice), and turning it into a string fails.\<close>

theorem procname_has_no_length:
  assumes "find_char (CHR ''('') stat = Some lp" and "find_char (CHR '')'') stat = Some rp" and "lp < rp"
  shows "sp_size (procname stat) = -1 \<and> as_string (procname stat) = Inl OutOfRange"
  using assms by (simp add: procname_def sp_set_def sp_size_def as_string_def)

theorem procname_has_no_length_witness: "as_string (procname ''42 (sh) S'') = Inl OutOfRange"
  using procname_has_no_length [of "''42 (sh) S''" 3 6] by (simp add: find_char_def eval_nat_numeral)

end
