(* ===== verification/RN_Sync.thy ===== *)
theory RN_Sync
  imports RN_Prelude "HOL-Library.Word"
begin

text \<open>
  RN/base/Mutex.h, Condition.h, Condition.cpp, CountDownLatch.h, CountDownLatch.cpp and Atomic.h. A pthread mutex is the bit whether it is
  locked; the calls on mutexes and conditions are taken to succeed. A condition is the number (or set) of the threads asleep on it.
\<close>

subsection \<open>The mutex and its holder\<close>

record mutex =
  mx_locked :: bool
  mx_holder :: int

definition MutexLock_new :: mutex where
  "MutexLock_new = \<lparr>mx_locked = False, mx_holder = 0\<rparr>"

definition pthread_lock :: "mutex \<Rightarrow> mutex option" where
  "pthread_lock m = (if mx_locked m then None else Some (m\<lparr>mx_locked := True\<rparr>))"

definition pthread_unlock :: "mutex \<Rightarrow> mutex" where
  "pthread_unlock m = m\<lparr>mx_locked := False\<rparr>"

definition assignHolder :: "int \<Rightarrow> mutex \<Rightarrow> mutex" where
  "assignHolder tid m = m\<lparr>mx_holder := tid\<rparr>"

definition unAssignHolder :: "mutex \<Rightarrow> mutex" where
  "unAssignHolder m = m\<lparr>mx_holder := 0\<rparr>"

text \<open>A thread that cannot go on (None) is blocked.\<close>

definition MutexLock_lock :: "int \<Rightarrow> mutex \<Rightarrow> mutex option" where
  "MutexLock_lock tid m = map_option (assignHolder tid) (pthread_lock m)"

definition MutexLock_unlock :: "mutex \<Rightarrow> mutex" where
  "MutexLock_unlock m = pthread_unlock (unAssignHolder m)"

definition isLockedByThisThread :: "int \<Rightarrow> mutex \<Rightarrow> bool" where
  "isLockedByThisThread tid m \<longleftrightarrow> tid = mx_holder m"

definition assertLocked :: "int \<Rightarrow> mutex \<Rightarrow> unit result" where
  "assertLocked tid m = rassert (isLockedByThisThread tid m) (Inr ())"

text \<open>\<open>MutexLockGuard\<close> around a critical section.\<close>

definition with_guard :: "int \<Rightarrow> (mutex \<Rightarrow> 'a) \<Rightarrow> mutex \<Rightarrow> ('a \<times> mutex) option" where
  "with_guard tid body m = map_option (\<lambda>m. (body m, MutexLock_unlock m)) (MutexLock_lock tid m)"

text \<open>\<open>Condition::wait\<close>, up to the sleep and from the wake-up: the guard \<open>UnassignedGuard\<close> clears the holder and sets it again.\<close>

text \<open>\<open>UnassignedGuard\<close>: the holder is forgotten for the time of the wait.\<close>

definition UnassignedGuard_open :: "mutex \<Rightarrow> mutex" where
  [simp]: "UnassignedGuard_open m = unAssignHolder m"

definition UnassignedGuard_close :: "int \<Rightarrow> mutex \<Rightarrow> mutex" where
  [simp]: "UnassignedGuard_close tid m = assignHolder tid m"

definition Condition_wait_enter :: "mutex \<Rightarrow> mutex" where
  "Condition_wait_enter m = pthread_unlock (UnassignedGuard_open m)"

definition Condition_wait_leave :: "int \<Rightarrow> mutex \<Rightarrow> mutex option" where
  "Condition_wait_leave tid m = map_option (UnassignedGuard_close tid) (pthread_lock m)"

text \<open>
  Where a thread is with respect to the mutex, between any two of the elementary operations, and the steps of a set of threads that use the mutex only
  through the guard and the waits of a condition.
\<close>

datatype mx_phase = Outside | Acquired | Inside | Leaving | Sleeping

inductive mx_step :: "mutex \<times> (int \<Rightarrow> mx_phase) \<Rightarrow> mutex \<times> (int \<Rightarrow> mx_phase) \<Rightarrow> bool" where
  mx_acquire: "p t \<in> {Outside, Sleeping} \<Longrightarrow> 0 < t \<Longrightarrow> pthread_lock m = Some m' \<Longrightarrow> mx_step (m, p) (m', p(t := Acquired))"
| mx_assign: "p t = Acquired \<Longrightarrow> mx_step (m, p) (assignHolder t m, p(t := Inside))"
| mx_unassign: "p t = Inside \<Longrightarrow> mx_step (m, p) (unAssignHolder m, p(t := Leaving))"
| mx_release: "p t = Leaving \<Longrightarrow> mx_step (m, p) (pthread_unlock m, p(t := Outside))"
| mx_sleep: "p t = Leaving \<Longrightarrow> mx_step (m, p) (pthread_unlock m, p(t := Sleeping))"

inductive mx_reachable :: "mutex \<times> (int \<Rightarrow> mx_phase) \<Rightarrow> bool" where
  mx_start: "mx_reachable (MutexLock_new, \<lambda>_. Outside)"
| mx_more: "mx_reachable c \<Longrightarrow> mx_step c c' \<Longrightarrow> mx_reachable c'"

definition owns :: "mx_phase \<Rightarrow> bool" where
  "owns ph \<longleftrightarrow> ph \<in> {Acquired, Inside, Leaving}"

definition mx_inv :: "mutex \<times> (int \<Rightarrow> mx_phase) \<Rightarrow> bool" where
  "mx_inv c \<longleftrightarrow> (case c of (m, p) \<Rightarrow>
     (\<forall>t. owns (p t) \<longrightarrow> 0 < t \<and> mx_locked m \<and> (\<forall>u. owns (p u) \<longrightarrow> u = t)) \<and>
     (\<forall>t. 0 < t \<longrightarrow> (mx_holder m = t \<longleftrightarrow> p t = Inside)))"

lemma mx_step_inv: "mx_step c c' \<Longrightarrow> mx_inv c \<Longrightarrow> mx_inv c'"
proof (induction rule: mx_step.induct)
  case (mx_acquire p t m m')
  then have "\<not> mx_locked m" "m' = m\<lparr>mx_locked := True\<rparr>" by (auto simp: pthread_lock_def split: if_splits)
  then show ?case using mx_acquire by (auto simp: mx_inv_def owns_def)
next
  case (mx_assign p t m)
  then show ?case by (auto simp: mx_inv_def owns_def assignHolder_def)
next
  case (mx_unassign p t m)
  then have "\<forall>u. p u = Inside \<longrightarrow> u = t" by (auto simp: mx_inv_def owns_def)
  then show ?case using mx_unassign by (auto simp: mx_inv_def owns_def unAssignHolder_def)
next
  case (mx_release p t m)
  then show ?case by (auto simp: mx_inv_def owns_def pthread_unlock_def)
next
  case (mx_sleep p t m)
  then show ?case by (auto simp: mx_inv_def owns_def pthread_unlock_def)
qed

lemma mx_reachable_inv: "mx_reachable c \<Longrightarrow> mx_inv c"
proof (induction rule: mx_reachable.induct)
  case mx_start
  then show ?case by (simp add: mx_inv_def MutexLock_new_def owns_def)
qed (rule mx_step_inv)

subsection \<open>Timed waits\<close>

text \<open>The deadline \<open>waitForSeconds\<close> computes from the present time; \<open>static_cast<int>\<close> drops the fraction.\<close>

definition truncate_int :: "rat \<Rightarrow> int" where
  "truncate_int r = (if r < 0 then - \<lfloor>- r\<rfloor> else \<lfloor>r\<rfloor>)"

definition wait_deadline :: "int \<times> int \<Rightarrow> rat \<Rightarrow> int \<times> int" where
  "wait_deadline now seconds =
     (let (tv_sec, tv_nsec) = now;
          kNanoSecondsPerSecond = 1000000000;
          nanoseconds = truncate_int seconds * kNanoSecondsPerSecond
      in (tv_sec + cdiv (tv_nsec + nanoseconds) kNanoSecondsPerSecond, cmod (tv_nsec + nanoseconds) kNanoSecondsPerSecond))"

text \<open>The result: whether the wait timed out, given what \<open>pthread_cond_timedwait\<close> answered.\<close>

definition ETIMEDOUT :: int where
  "ETIMEDOUT = 110"

definition waitForSeconds_result :: "int \<Rightarrow> bool" where
  "waitForSeconds_result answer \<longleftrightarrow> ETIMEDOUT = answer"

lemma wait_deadline_nonneg:
  assumes "0 \<le> ns" and "ns < 1000000000" and "0 \<le> truncate_int seconds"
  shows "wait_deadline (sec, ns) seconds = (sec + truncate_int seconds, ns)"
  using assms by (simp add: wait_deadline_def)

subsection \<open>Atomic integers\<close>

text \<open>\<open>AtomicIntegerT\<close> over a word: an operation gives its result and the new value.\<close>

type_synonym ('a, 'w) atomic_op = "'w word \<Rightarrow> 'a \<times> 'w word"

definition atomic_get :: "('w::len word, 'w) atomic_op" where
  "atomic_get v = (v, v)"

definition getAndAdd :: "'w::len word \<Rightarrow> ('w word, 'w) atomic_op" where
  "getAndAdd x v = (v, v + x)"

definition addAndGet :: "'w::len word \<Rightarrow> ('w word, 'w) atomic_op" where
  "addAndGet x v = (let (r, v) = getAndAdd x v in (r + x, v))"

definition incrementAndGet :: "('w::len word, 'w) atomic_op" where
  "incrementAndGet v = addAndGet 1 v"

definition decrementAndGet :: "('w::len word, 'w) atomic_op" where
  "decrementAndGet v = addAndGet (- 1) v"

definition atomic_add :: "'w::len word \<Rightarrow> (unit, 'w) atomic_op" where
  "atomic_add x v = ((), snd (getAndAdd x v))"

definition increment :: "(unit, 'w::len) atomic_op" where
  "increment v = ((), snd (incrementAndGet v))"

definition decrement :: "(unit, 'w::len) atomic_op" where
  "decrement v = ((), snd (decrementAndGet v))"

definition getAndSet :: "'w::len word \<Rightarrow> ('w word, 'w) atomic_op" where
  "getAndSet newValue v = (v, newValue)"

lemma incrementAndGet_simp [simp]: "incrementAndGet v = (v + 1, v + 1)"
  by (simp add: incrementAndGet_def addAndGet_def getAndAdd_def)

lemma decrement_increment: "snd (decrement (snd (increment v))) = v"
  by (simp add: decrement_def increment_def decrementAndGet_def addAndGet_def getAndAdd_def)

text \<open>The numbers \<open>n\<close> successive calls of \<open>incrementAndGet\<close> hand out.\<close>

fun tickets :: "nat \<Rightarrow> 'w::len word \<Rightarrow> 'w word list" where
  "tickets 0 v = []"
| "tickets (Suc n) v = (let (r, v) = incrementAndGet v in r # tickets n v)"

lemma tickets_map: "tickets n v = map (\<lambda>i. v + of_nat (Suc i)) [0 ..< n]"
proof (induction n arbitrary: v)
  case (Suc n)
  have "map (\<lambda>i. v + of_nat (Suc i)) [0 ..< Suc n] = (v + 1) # map (\<lambda>i. v + of_nat (Suc (Suc i))) [0 ..< n]"
    by (simp add: map_upt_Suc del: upt_Suc)
  then show ?case using Suc.IH [of "v + 1"] by (simp add: add.assoc)
qed simp

lemma tickets_distinct:
  assumes "n \<le> 2 ^ LENGTH('w::len)"
  shows "distinct (tickets n (v :: 'w word))"
proof -
  have "inj_on (\<lambda>i. v + of_nat (Suc i)) {0 ..< n}"
  proof (rule inj_onI)
    fix i j
    assume ij: "i \<in> {0 ..< n}" "j \<in> {0 ..< n}" "v + (of_nat (Suc i) :: 'w word) = v + of_nat (Suc j)"
    then have "(of_nat i :: 'w word) = of_nat j" by simp
    then have "unat (of_nat i :: 'w word) = unat (of_nat j :: 'w word)" by simp
    then show "i = j" using ij(1,2) assms by (simp add: unat_of_nat)
  qed
  then show ?thesis by (simp add: tickets_map distinct_map)
qed

subsection \<open>The latch\<close>

record latch =
  la_count :: int
  la_asleep :: "nat set"
  la_woken :: "nat set"
  la_returned :: "nat set"

definition CountDownLatch_new :: "int \<Rightarrow> latch" where
  "CountDownLatch_new count = \<lparr>la_count = count, la_asleep = {}, la_woken = {}, la_returned = {}\<rparr>"

definition la_notifyAll :: "latch \<Rightarrow> latch" where
  "la_notifyAll l = l\<lparr>la_woken := la_woken l \<union> la_asleep l, la_asleep := {}\<rparr>"

definition countDown :: "latch \<Rightarrow> latch" where
  "countDown l = (let l = l\<lparr>la_count := la_count l - 1\<rparr> in if la_count l = 0 then la_notifyAll l else l)"

definition getCount :: "latch \<Rightarrow> int" where
  "getCount l = la_count l"

text \<open>One test of the loop in \<open>wait\<close> by thread \<open>t\<close>, on entry or after a wake-up: it sleeps or returns.\<close>

definition latch_wait :: "nat \<Rightarrow> latch \<Rightarrow> latch" where
  "latch_wait t l =
     (if 0 < la_count l then l\<lparr>la_asleep := insert t (la_asleep l), la_woken := la_woken l - {t}\<rparr>
      else l\<lparr>la_returned := insert t (la_returned l), la_woken := la_woken l - {t}\<rparr>)"

text \<open>Executions: count-downs, tests by threads that are not asleep, and spurious wake-ups.\<close>

datatype latch_op = Count_down | Wait_test nat | Spurious nat

fun latch_exec :: "latch_op \<Rightarrow> latch \<Rightarrow> latch" where
  "latch_exec Count_down l = countDown l"
| "latch_exec (Wait_test t) l = (if t \<in> la_asleep l \<or> t \<in> la_returned l then l else latch_wait t l)"
| "latch_exec (Spurious t) l =
     (if t \<in> la_asleep l then l\<lparr>la_asleep := la_asleep l - {t}, la_woken := insert t (la_woken l)\<rparr> else l)"

definition la_inv :: "latch \<Rightarrow> bool" where
  "la_inv l \<longleftrightarrow> (la_asleep l \<noteq> {} \<longrightarrow> 0 < la_count l) \<and> (la_returned l \<noteq> {} \<longrightarrow> la_count l \<le> 0)"

lemma latch_exec_inv: "la_inv l \<Longrightarrow> la_inv (latch_exec p l)"
  by (cases p) (auto simp: la_inv_def countDown_def la_notifyAll_def latch_wait_def Let_def)

lemma latch_exec_count: "la_count (latch_exec p l) = la_count l - (if p = Count_down then 1 else 0)"
  by (cases p) (auto simp: countDown_def la_notifyAll_def latch_wait_def Let_def)

lemma latch_run:
  "la_inv l \<Longrightarrow> la_inv (fold latch_exec ps l) \<and> la_count (fold latch_exec ps l) = la_count l - int (count_list ps Count_down)"
  by (induction ps arbitrary: l) (simp_all add: latch_exec_inv latch_exec_count)

subsection \<open>The operations as steps\<close>

lemma lock_steps:
  assumes "p t \<in> {Outside, Sleeping}" and "0 < t" and "MutexLock_lock t m = Some m'"
  shows "mx_step\<^sup>*\<^sup>* (m, p) (m', p(t := Inside))"
proof -
  obtain m1 where m1: "pthread_lock m = Some m1" "m' = assignHolder t m1" using assms(3) by (auto simp: MutexLock_lock_def)
  have "mx_step (m, p) (m1, p(t := Acquired))" using assms(1,2) m1(1) by (rule mx_acquire)
  moreover have "mx_step (m1, p(t := Acquired)) (assignHolder t m1, (p(t := Acquired))(t := Inside))" by (rule mx_assign) simp
  ultimately show ?thesis using m1(2) by (simp add: converse_rtranclp_into_rtranclp)
qed

lemma unlock_steps:
  assumes "p t = Inside"
  shows "mx_step\<^sup>*\<^sup>* (m, p) (MutexLock_unlock m, p(t := Outside))"
    and "mx_step\<^sup>*\<^sup>* (m, p) (Condition_wait_enter m, p(t := Sleeping))"
proof -
  have a: "mx_step (m, p) (unAssignHolder m, p(t := Leaving))" using assms by (rule mx_unassign)
  have "mx_step (unAssignHolder m, p(t := Leaving)) (MutexLock_unlock m, (p(t := Leaving))(t := Outside))"
    unfolding MutexLock_unlock_def by (rule mx_release) simp
  with a show "mx_step\<^sup>*\<^sup>* (m, p) (MutexLock_unlock m, p(t := Outside))" by (simp add: converse_rtranclp_into_rtranclp)
  have "mx_step (unAssignHolder m, p(t := Leaving)) (Condition_wait_enter m, (p(t := Leaving))(t := Sleeping))"
    unfolding Condition_wait_enter_def UnassignedGuard_open_def by (rule mx_sleep) simp
  with a show "mx_step\<^sup>*\<^sup>* (m, p) (Condition_wait_enter m, p(t := Sleeping))" by (simp add: converse_rtranclp_into_rtranclp)
qed

lemma mx_reachable_steps: "mx_step\<^sup>*\<^sup>* c c' \<Longrightarrow> mx_reachable c \<Longrightarrow> mx_reachable c'"
  by (induction rule: rtranclp_induct) (auto intro: mx_more)

lemma mx_locked_when_owned: "mx_inv (m, p) \<Longrightarrow> owns (p t) \<Longrightarrow> mx_locked m"
  by (auto simp: mx_inv_def)

subsection \<open>Properties\<close>

text \<open>
  C17: The mutex protects. For threads that use it through the guard and through waits on a condition, interleaved between any two elementary operations:
  at most one thread is between acquiring and releasing it; \<open>isLockedByThisThread\<close> is true exactly for the thread inside the critical section, so
  \<open>assertLocked\<close> fails for every other thread and while a thread waits on a condition; and while somebody owns it, an attempt to lock it
  or to return from a wait blocks.
\<close>

theorem mutex_protects:
  assumes "mx_reachable (m, p)" and "0 < t"
  shows "(isLockedByThisThread t m \<longleftrightarrow> p t = Inside) \<and> (assertLocked t m = Inr () \<longleftrightarrow> p t = Inside) \<and>
    (owns (p t) \<and> owns (p u) \<longrightarrow> t = u) \<and> (owns (p u) \<longrightarrow> MutexLock_lock t m = None \<and> Condition_wait_leave t m = None)"
proof -
  have inv: "mx_inv (m, p)" using assms(1) by (rule mx_reachable_inv)
  then have "owns (p u) \<longrightarrow> mx_locked m" using mx_locked_when_owned by blast
  then show ?thesis
    using inv assms(2)
    by (auto simp: mx_inv_def isLockedByThisThread_def assertLocked_def rassert_def MutexLock_lock_def Condition_wait_leave_def pthread_lock_def)
qed

lemma mutex_protects_witness:
  "\<exists>m p. mx_reachable (m, p) \<and> p 5 = Inside \<and> isLockedByThisThread 5 m \<and> \<not> isLockedByThisThread 7 m \<and> MutexLock_lock 7 m = None"
proof -
  obtain m where m: "MutexLock_lock 5 MutexLock_new = Some m"
    by (simp add: MutexLock_lock_def pthread_lock_def MutexLock_new_def)
  have r: "mx_reachable (m, (\<lambda>_. Outside)(5 := Inside))"
    by (rule mx_reachable_steps [OF lock_steps mx_start]) (use m in simp_all)
  then show ?thesis
    using mutex_protects [OF r, of 5 5] mutex_protects [OF r, of 7 5] by (auto simp: owns_def intro!: exI [of _ m])
qed

text \<open>
  C27: The latch neither opens early nor leaves anybody asleep: in every interleaving of count-downs, waits and spurious wake-ups the count is the
  initial one less the count-downs; no wait has returned before it reached zero; and once it has, no thread sleeps on the condition, so every
  waiting thread tests again and returns.
\<close>

theorem latch_opens_for_all:
  "(let l = fold latch_exec ps (CountDownLatch_new n) in
      getCount l = n - int (count_list ps Count_down) \<and> (la_returned l \<noteq> {} \<longrightarrow> n \<le> int (count_list ps Count_down)) \<and>
      (n \<le> int (count_list ps Count_down) \<longrightarrow> la_asleep l = {} \<and> t \<in> la_returned (latch_exec (Wait_test t) l)))"
proof -
  have "la_inv (CountDownLatch_new n)" by (simp add: la_inv_def CountDownLatch_new_def)
  from latch_run [OF this, of ps] show ?thesis
    by (auto simp: Let_def getCount_def la_inv_def CountDownLatch_new_def latch_wait_def)
qed

lemma latch_opens_for_all_witness:
  "3 \<in> la_returned (latch_exec (Wait_test 3) (fold latch_exec [Wait_test 3, Count_down, Count_down] (CountDownLatch_new 2)))"
  using latch_opens_for_all [of "[Wait_test 3, Count_down, Count_down]" 2 3]
  by (simp add: Let_def del: fold_simps latch_exec.simps)

text \<open>
  \<open>incrementAndGet\<close> hands out numbers: any number of successive calls up to the size of the type gives pairwise different results, wrapping around
  included; adding and subtracting one cancel.
\<close>

theorem atomic_tickets_distinct:
  "(n \<le> 2 ^ LENGTH('w::len) \<longrightarrow> distinct (tickets n (v :: 'w word))) \<and> snd (decrement (snd (increment v))) = v"
  using tickets_distinct decrement_increment by blast

lemma atomic_tickets_distinct_witness: "distinct (tickets 5 (0x7FFFFFFE :: 32 word))"
  using atomic_tickets_distinct [of 5 "0x7FFFFFFE :: 32 word"] by simp

end
