(* ===== verification/RN_Thread.thy ===== *)
theory RN_Thread
  imports RN_Sync RN_Printf
begin

text \<open>
  RN/base/Thread.h, Thread.cpp and CurrentThread.h: the per-thread cache of the thread id and its text, and the life of a thread object. The answers of
  \<open>gettid\<close>, \<open>pthread_create\<close> and \<open>pthread_join\<close> are arguments.
\<close>

subsection \<open>The current thread\<close>

record current_thread =
  t_cachedTid :: int
  t_tidString :: string
  t_tidStringLength :: int
  t_threadName :: string

text \<open>The initial values of the thread-local variables.\<close>

definition CurrentThread_fresh :: current_thread where
  "CurrentThread_fresh = \<lparr>t_cachedTid = 0, t_tidString = [], t_tidStringLength = 6, t_threadName = ''unknown''\<rparr>"

definition cacheTid :: "int \<Rightarrow> current_thread \<Rightarrow> current_thread" where
  "cacheTid gettid t =
     (if t_cachedTid t = 0 then
        (let text = fmt_wd 5 gettid @ '' ''
         in t\<lparr>t_cachedTid := gettid, t_tidString := snprintf_text 32 text, t_tidStringLength := int (length text)\<rparr>)
      else t)"

definition tid :: "int \<Rightarrow> current_thread \<Rightarrow> int \<times> current_thread" where
  "tid gettid t = (let t = (if t_cachedTid t = 0 then cacheTid gettid t else t) in (t_cachedTid t, t))"

definition tidString :: "current_thread \<Rightarrow> string" where
  "tidString t = t_tidString t"

definition tidStringLength :: "current_thread \<Rightarrow> int" where
  "tidStringLength t = t_tidStringLength t"

definition thread_name :: "current_thread \<Rightarrow> string" where
  "thread_name t = t_threadName t"

definition isMainThread :: "int \<Rightarrow> int \<Rightarrow> current_thread \<Rightarrow> bool" where
  "isMainThread getpid gettid t \<longleftrightarrow> fst (tid gettid t) = getpid"

definition afterFork :: "int \<Rightarrow> current_thread \<Rightarrow> current_thread" where
  "afterFork gettid t = snd (tid gettid (t\<lparr>t_cachedTid := 0, t_threadName := ''main''\<rparr>))"

text \<open>The initialiser that runs in the main thread before \<open>main\<close>.\<close>

definition ThreadNameInitializer :: "int \<Rightarrow> current_thread \<Rightarrow> current_thread" where
  "ThreadNameInitializer gettid t = snd (tid gettid (t\<lparr>t_threadName := ''main''\<rparr>))"

text \<open>The \<open>timespec\<close> given to \<open>nanosleep\<close>.\<close>

definition sleepUsec :: "int \<Rightarrow> int \<times> int" where
  "sleepUsec usec = (let kMicroSecondsPerSecond = 1000 * 1000
     in (cdiv usec kMicroSecondsPerSecond, cmod usec kMicroSecondsPerSecond * 1000))"

subsection \<open>Thread objects\<close>

record thread =
  th_started :: bool
  th_joined :: bool
  th_tid :: int
  th_name :: string
  th_latch :: latch

text \<open>The constructor takes the next number of the counter \<open>numCreated_\<close>, also for a thread with a name.\<close>

definition setDefaultName :: "32 word \<Rightarrow> thread \<Rightarrow> 32 word \<times> thread" where
  "setDefaultName numCreated th =
     (let (num, numCreated) = incrementAndGet numCreated
      in (numCreated, if th_name th = [] then th\<lparr>th_name := snprintf_text 32 (''Thread'' @ fmt_d (sint num))\<rparr> else th))"

definition Thread_new :: "string \<Rightarrow> 32 word \<Rightarrow> 32 word \<times> thread" where
  "Thread_new n numCreated =
     setDefaultName numCreated \<lparr>th_started = False, th_joined = False, th_tid = 0, th_name = n, th_latch = CountDownLatch_new 1\<rparr>"

definition numCreated :: "32 word \<Rightarrow> int" where
  "numCreated v = sint (fst (atomic_get v))"

text \<open>The first part of \<open>runInThread\<close>, in the new thread: its id is stored, the latch opened and the name set.\<close>

definition runInThread_begin :: "int \<Rightarrow> thread \<Rightarrow> current_thread \<Rightarrow> thread \<times> current_thread" where
  "runInThread_begin gettid th t =
     (let (i, t) = tid gettid t
      in (th\<lparr>th_tid := i, th_latch := countDown (th_latch th)\<rparr>, t\<lparr>t_threadName := (if th_name th = [] then ''RNThread'' else th_name th)\<rparr>))"

text \<open>The end of \<open>runInThread\<close>: whether the function returned or threw, nothing escapes.\<close>

definition runInThread_end :: "bool \<Rightarrow> current_thread \<Rightarrow> current_thread" where
  "runInThread_end threw t = t\<lparr>t_threadName := (if threw then ''Crashed'' else ''Finished'')\<rparr>"

text \<open>
  \<open>start\<close>: None for a failed creation, otherwise the id of the new thread. The caller goes on when the latch is open (None from \<open>Thread_start\<close>:
  it waits for ever).
\<close>

definition Thread_start :: "int option \<Rightarrow> thread \<Rightarrow> (thread \<times> current_thread option) result option" where
  "Thread_start created th =
     (if th_started th then Some (Inl AssertFailed)
      else
        (let th = th\<lparr>th_started := True\<rparr> in
         case created of
           None \<Rightarrow> Some (Inr (th\<lparr>th_started := False\<rparr>, None))
         | Some gettid \<Rightarrow>
             (let (th, t) = runInThread_begin gettid th CurrentThread_fresh in
              if 0 < getCount (th_latch th) then None
              else Some (rassert (0 < th_tid th) (Inr (th, Some t))))))"

definition Thread_join :: "int \<Rightarrow> thread \<Rightarrow> (int \<times> thread) result" where
  "Thread_join pthread_join th =
     rassert (th_started th) (rassert (\<not> th_joined th) (Inr (pthread_join, th\<lparr>th_joined := True\<rparr>)))"

text \<open>Whether the destructor detaches.\<close>

definition Thread_destroy :: "thread \<Rightarrow> bool" where
  "Thread_destroy th \<longleftrightarrow> th_started th \<and> \<not> th_joined th"

subsection \<open>Facts\<close>

text \<open>The objects made one after the other.\<close>

fun make_threads :: "string list \<Rightarrow> 32 word \<Rightarrow> thread list" where
  "make_threads [] v = []"
| "make_threads (n # ns) v = (let (v, th) = Thread_new n v in th # make_threads ns v)"

lemma fmt_d_word_fits: "length (''Thread'' @ fmt_d (sint (w :: 32 word))) < 32"
proof -
  have "- (2 ^ 31) \<le> sint w" "sint w < 2 ^ 31"
    using sint_greater_eq [of w] sint_less [of w] by simp_all
  then have "length (fmt_d (sint w)) \<le> Suc 10" by (intro length_fmt_d) simp_all
  then show ?thesis by simp
qed

lemma Thread_new_default:
  "Thread_new [] v = (v + 1, \<lparr>th_started = False, th_joined = False, th_tid = 0, th_name = ''Thread'' @ fmt_d (sint (v + 1)),
     th_latch = CountDownLatch_new 1\<rparr>)"
  using fmt_d_word_fits [of "v + 1"] by (simp add: Thread_new_def setDefaultName_def del: append_Cons)

lemma default_names: "map th_name (make_threads (replicate n []) v) = map (\<lambda>w. ''Thread'' @ fmt_d (sint w)) (tickets n v)"
  by (induction n arbitrary: v) (simp_all add: Thread_new_default)

lemma length_fmt_wd: "length (fmt_wd w i) = max w (length (fmt_d i))"
  by (simp add: fmt_wd_def pad_def)

subsection \<open>Properties\<close>

text \<open>
  Default names: threads created without a name, however many up to the range of the counter, are named \<open>Thread\<close> and a number, untruncated, and no two
  of them alike.
\<close>

theorem default_names_distinct:
  assumes "n \<le> 2 ^ 32"
  shows "distinct (map th_name (make_threads (replicate n []) v)) \<and>
    (\<forall>i < n. th_name (make_threads (replicate n []) v ! i) = ''Thread'' @ fmt_d (sint (v + of_nat (Suc i))))"
proof -
  have "distinct (tickets n v)" using assms by (intro tickets_distinct) simp
  moreover have "inj (\<lambda>w :: 32 word. ''Thread'' @ fmt_d (sint w))"
    by (rule injI) (auto simp: fmt_d_inject dest: injD [OF inj_signed])
  ultimately have d: "distinct (map (\<lambda>w. ''Thread'' @ fmt_d (sint w)) (tickets n v))"
    unfolding distinct_map using inj_on_subset [OF _ subset_UNIV] by blast
  have len: "length (make_threads (replicate n []) v) = n"
    using arg_cong [OF default_names [of n v], of length] by (simp add: tickets_map)
  have "th_name (make_threads (replicate n []) v ! i) = ''Thread'' @ fmt_d (sint (v + of_nat (Suc i)))" if "i < n" for i
  proof -
    have "map th_name (make_threads (replicate n []) v) ! i = ''Thread'' @ fmt_d (sint (tickets n v ! i))"
      using that by (simp add: default_names tickets_map del: append_Cons)
    then show ?thesis using that len by (simp add: tickets_map del: append_Cons)
  qed
  then show ?thesis using d by (simp add: default_names del: append_Cons)
qed

lemma default_names_distinct_witness: "distinct (map th_name (make_threads (replicate 3 []) 5))"
  using default_names_distinct [of 3 5] by simp

text \<open>
  C39: The protocol of a thread object. A first \<open>start\<close> never blocks on the latch; it passes its assertions when the thread got a positive id, which it
  then has stored, and a failed creation leaves the object startable. A second \<open>start\<close>, a \<open>join\<close> before the start and a second
  \<open>join\<close> fail an assertion; the destructor detaches exactly the threads started and not joined.
\<close>

theorem thread_protocol:
  assumes "Thread_new n v = (v', th)"
  shows "Thread_start None th = Some (Inr (th, None)) \<and> Thread_join r th = Inl AssertFailed \<and> \<not> Thread_destroy th \<and>
    (0 < g \<longrightarrow> (\<exists>th1 t. Thread_start (Some g) th = Some (Inr (th1, Some t)) \<and> th_tid th1 = g \<and> thread_name t = th_name th \<and>
       Thread_start c th1 = Some (Inl AssertFailed) \<and> Thread_destroy th1 \<and>
       (\<exists>th2. Thread_join r th1 = Inr (r, th2) \<and> Thread_join r' th2 = Inl AssertFailed \<and> \<not> Thread_destroy th2)))"
proof -
  have th: "\<not> th_started th" "\<not> th_joined th" "th_latch th = CountDownLatch_new 1" "th_name th \<noteq> []"
    using assms by (auto simp: Thread_new_def setDefaultName_def snprintf_text_def Let_def split: if_splits)
  then have "Thread_start None th = Some (Inr (th, None))" by (simp add: Thread_start_def)
  then show ?thesis
    using th
    by (auto simp: Thread_start_def Thread_join_def Thread_destroy_def runInThread_begin_def tid_def cacheTid_def CurrentThread_fresh_def
        countDown_def CountDownLatch_new_def la_notifyAll_def getCount_def thread_name_def rassert_def Let_def)
qed

lemma thread_protocol_witness:
  "\<exists>th1 t. Thread_start (Some 42) (snd (Thread_new ''io'' 0)) = Some (Inr (th1, Some t)) \<and> th_tid th1 = 42"
  using thread_protocol [of "''io''" 0 "fst (Thread_new ''io'' 0)" "snd (Thread_new ''io'' 0)" 0 42 None 0] by fastforce

text \<open>
  The id text is ready for the logger: before the first use the length variable says 6 while the text is empty; after \<open>tid\<close> has been called, for any
  id of the kernel, the text has exactly the recorded length, fits its array, reads as the id with a blank, and is not computed again.
\<close>

theorem tid_string_ready:
  assumes "0 < g" and "g < 2 ^ 31" and "tid g CurrentThread_fresh = (i, t)"
  shows "i = g \<and> int (length (tidString t)) = tidStringLength t \<and> tidStringLength t < 32 \<and>
    tidString t = fmt_wd 5 g @ '' '' \<and> tid g' t = (g, t) \<and>
    int (length (tidString CurrentThread_fresh)) \<noteq> tidStringLength CurrentThread_fresh"
proof -
  have "length (fmt_d g) \<le> Suc 10" using assms(1,2) by (intro length_fmt_d) simp_all
  then have "length (fmt_wd 5 g @ '' '') < 32" by (simp add: length_fmt_wd)
  then show ?thesis
    using assms by (auto simp: tid_def cacheTid_def CurrentThread_fresh_def tidString_def tidStringLength_def Let_def simp del: length_append)
qed

lemma tid_string_ready_witness:
  "tidStringLength (snd (tid 321 CurrentThread_fresh)) < 32"
  using tid_string_ready [of 321 "fst (tid 321 CurrentThread_fresh)" "snd (tid 321 CurrentThread_fresh)" 0] by simp

end
