(* ===== verification/RN_BlockingQueue.thy ===== *)
theory RN_BlockingQueue
  imports RN_Mailbox
begin

text \<open>
  RN/base/BlockingQueue.h: an unbounded queue between threads. The state has the queue and the numbers of threads asleep on \<open>notEmpty_\<close> and woken from it
  but not yet back at the loop test. Every critical section is one step. (\<open>full\<close> and \<open>capacity\<close> call operations a deque does not have
  and cannot be instantiated.)
\<close>

record 'a bqueue =
  bq_queue :: "'a list"
  bq_asleep :: nat
  bq_woken :: nat

definition BlockingQueue_new :: "'a bqueue" where
  "BlockingQueue_new = \<lparr>bq_queue = [], bq_asleep = 0, bq_woken = 0\<rparr>"

text \<open>\<open>notify\<close> wakes one sleeping thread, if there is one.\<close>

definition bq_notify :: "'a bqueue \<Rightarrow> 'a bqueue" where
  "bq_notify s = (if 0 < bq_asleep s then s\<lparr>bq_asleep := bq_asleep s - 1, bq_woken := bq_woken s + 1\<rparr> else s)"

definition bq_put :: "'a \<Rightarrow> 'a bqueue \<Rightarrow> 'a bqueue" where
  "bq_put x s = bq_notify (s\<lparr>bq_queue := bq_queue s @ [x]\<rparr>)"

text \<open>\<open>take\<close> from its entry, or from a wake-up (\<open>bq_resume\<close>), to its return or its next sleep (None).\<close>

definition bq_take :: "'a bqueue \<Rightarrow> 'a option \<times> 'a bqueue" where
  "bq_take s =
     (case bq_queue s of
        [] \<Rightarrow> (None, s\<lparr>bq_asleep := bq_asleep s + 1\<rparr>)
      | x # xs \<Rightarrow> (Some x, s\<lparr>bq_queue := xs\<rparr>))"

definition bq_resume :: "'a bqueue \<Rightarrow> 'a option \<times> 'a bqueue" where
  "bq_resume s = (if 0 < bq_woken s then bq_take (s\<lparr>bq_woken := bq_woken s - 1\<rparr>) else (None, s))"

definition bq_size :: "'a bqueue \<Rightarrow> nat" where
  "bq_size s = length (bq_queue s)"

definition bq_empty :: "'a bqueue \<Rightarrow> bool" where
  "bq_empty s \<longleftrightarrow> bq_queue s = []"

definition collected :: "'a option \<times> 'a bqueue \<Rightarrow> 'a list \<times> 'a bqueue" where
  "collected p = (case fst p of None \<Rightarrow> [] | Some x \<Rightarrow> [x], snd p)"

lemma bq_notify_queue [simp]: "bq_queue (bq_notify s) = bq_queue s"
  by (simp add: bq_notify_def)

lemma bq_put_queue: "bq_queue (bq_put x s) = bq_queue s @ [x]"
  by (simp add: bq_put_def)

lemma collected_take: "fst (collected (bq_take s)) @ bq_queue (snd (collected (bq_take s))) = bq_queue s"
  by (simp add: collected_def bq_take_def split: list.split)

lemma collected_resume: "fst (collected (bq_resume s)) @ bq_queue (snd (collected (bq_resume s))) = bq_queue s"
  using collected_take [of "s\<lparr>bq_woken := bq_woken s - 1\<rparr>"] by (simp add: bq_resume_def) (simp add: collected_def)

text \<open>Both ways into the loop of \<open>take\<close> make the queue a mailbox.\<close>

interpretation entering: mailbox "\<lambda>_. True" bq_queue bq_put "\<lambda>s. collected (bq_take s)"
  by unfold_locales (simp_all add: bq_put_queue collected_take)

interpretation resuming: mailbox "\<lambda>_. True" bq_queue bq_put "\<lambda>s. collected (bq_resume s)"
  by unfold_locales (simp_all add: bq_put_queue collected_resume)

text \<open>Executions: puts, takes on entry, resumed takes and spurious wake-ups.\<close>

datatype 'a bq_op = Bq_put 'a | Bq_take | Bq_resume | Bq_spurious

fun bq_exec :: "'a bq_op \<Rightarrow> 'a bqueue \<Rightarrow> 'a list \<times> 'a bqueue" where
  "bq_exec (Bq_put x) s = ([], bq_put x s)"
| "bq_exec Bq_take s = collected (bq_take s)"
| "bq_exec Bq_resume s = collected (bq_resume s)"
| "bq_exec Bq_spurious s = ([], bq_notify s)"

fun bq_run :: "'a bq_op list \<Rightarrow> 'a bqueue \<Rightarrow> 'a list \<times> 'a bqueue" where
  "bq_run [] s = ([], s)"
| "bq_run (p # ps) s = (let (xs, s) = bq_exec p s; (ys, s) = bq_run ps s in (xs @ ys, s))"

definition bq_puts :: "'a bq_op \<Rightarrow> 'a list" where
  "bq_puts p = (case p of Bq_put x \<Rightarrow> [x] | _ \<Rightarrow> [])"

lemma bq_exec_contents: "fst (bq_exec p s) @ bq_queue (snd (bq_exec p s)) = bq_queue s @ bq_puts p"
  by (cases p) (use entering.push_contents entering.collect_contents resuming.collect_contents in \<open>auto simp: bq_puts_def\<close>)

lemma bq_run_contents: "bq_run ps s = (out, t) \<Longrightarrow> out @ bq_queue t = bq_queue s @ concat (map bq_puts ps)"
proof (induction ps arbitrary: s out)
  case (Cons p ps)
  obtain ys where ys: "bq_run ps (snd (bq_exec p s)) = (ys, t)" "out = fst (bq_exec p s) @ ys"
    using Cons.prems by (auto split: prod.splits)
  then show ?case
    using Cons.IH [OF ys(1)] bq_exec_contents [of p s]
    by (metis append.assoc concat.simps(2) list.simps(9))
qed simp

text \<open>While a thread sleeps, every element in the queue has a woken thread on its way.\<close>

definition bq_inv :: "'a bqueue \<Rightarrow> bool" where
  "bq_inv s \<longleftrightarrow> (0 < bq_asleep s \<longrightarrow> length (bq_queue s) \<le> bq_woken s)"

lemma bq_exec_inv: "bq_inv s \<Longrightarrow> bq_inv (snd (bq_exec p s))"
  by (cases p)
    (auto simp: bq_inv_def bq_put_def bq_notify_def bq_take_def bq_resume_def collected_def split: list.splits)

lemma bq_run_inv: "bq_run ps s = (out, t) \<Longrightarrow> bq_inv s \<Longrightarrow> bq_inv t"
proof (induction ps arbitrary: s out)
  case (Cons p ps)
  then obtain ys where "bq_run ps (snd (bq_exec p s)) = (ys, t)" by (auto split: prod.splits)
  then show ?case using Cons bq_exec_inv by blast
qed simp

text \<open>
  C19: The blocking queue: whatever the interleaving of puts, takes, wake-ups and spurious wake-ups, the elements taken followed by those in the queue are
  the elements put, in order, each once; and no wake-up is lost: when a thread sleeps while there are elements, at least as many woken threads are about
  to test the queue, and the next of them takes the first element.
\<close>

theorem blocking_queue_delivers:
  assumes "bq_run ps BlockingQueue_new = (out, s)"
  shows "out @ bq_queue s = concat (map bq_puts ps) \<and>
    (0 < bq_asleep s \<and> \<not> bq_empty s \<longrightarrow> bq_size s \<le> bq_woken s \<and> fst (bq_resume s) = Some (hd (bq_queue s)))"
proof -
  have "bq_inv s" using bq_run_inv [OF assms] by (simp add: bq_inv_def BlockingQueue_new_def)
  moreover have "out @ bq_queue s = concat (map bq_puts ps)"
    using bq_run_contents [OF assms] by (simp add: BlockingQueue_new_def)
  ultimately show ?thesis
    by (cases "bq_queue s") (auto simp: bq_inv_def bq_empty_def bq_size_def bq_resume_def bq_take_def)
qed

lemma blocking_queue_delivers_witness:
  "fst (bq_run [Bq_take, Bq_take, Bq_put (1::nat), Bq_put 2, Bq_resume, Bq_resume] BlockingQueue_new) = [1, 2]"
proof -
  obtain out s where r: "bq_run [Bq_take, Bq_take, Bq_put (1::nat), Bq_put 2, Bq_resume, Bq_resume] BlockingQueue_new = (out, s)"
    by fastforce
  have "bq_queue s = []"
    using r by (auto simp: BlockingQueue_new_def bq_take_def bq_put_def bq_notify_def bq_resume_def collected_def)
  then show ?thesis using blocking_queue_delivers [OF r] r by (simp add: bq_puts_def)
qed

end
