(* ===== verification/RN_ThreadPool.thy ===== *)
theory RN_ThreadPool
  imports RN_Mailbox RN_Printf
begin

text \<open>
  RN/base/ThreadPool.h and ThreadPool.cpp: worker threads that take tasks from a queue, bounded or not. The state has the fields of the class, the point
  each worker has reached in \<open>runInThread\<close> and \<open>take\<close>, and the tasks of the threads waiting in \<open>post\<close>; \<open>tp_begun\<close> and \<open>tp_accepted\<close>
  (not in the code) are the tasks begun and the tasks entered into the queue. Every critical section is one step; which of the sleeping threads a notification
  wakes is an argument.
\<close>

datatype 't worker = W_init | W_check | W_take | W_asleep | W_woken | W_running 't | W_exit | W_crashed

record 't tpool =
  tp_name :: string
  tp_maxQueueSize :: int
  tp_running :: bool
  tp_initCallback :: bool
  tp_threadNames :: "string list"
  tp_threads :: "'t worker list"
  tp_queue :: "'t list"
  tp_waitingPosts :: "'t list"
  tp_wokenPosts :: "'t list"
  tp_inits :: nat
  tp_begun :: "'t list"
  tp_accepted :: "'t list"

definition ThreadPool_new :: "string \<Rightarrow> int \<Rightarrow> 't tpool" where
  "ThreadPool_new name maxQueueSize =
     \<lparr>tp_name = name, tp_maxQueueSize = maxQueueSize, tp_running = False, tp_initCallback = False, tp_threadNames = [], tp_threads = [],
      tp_queue = [], tp_waitingPosts = [], tp_wokenPosts = [], tp_inits = 0, tp_begun = [], tp_accepted = []\<rparr>"

definition setInitCallback :: "'t tpool \<Rightarrow> 't tpool" where
  "setInitCallback s = s\<lparr>tp_initCallback := True\<rparr>"

definition setMaxQueueSize :: "int \<Rightarrow> 't tpool \<Rightarrow> 't tpool" where
  "setMaxQueueSize maxSize s = s\<lparr>tp_maxQueueSize := maxSize\<rparr>"

definition queueSize :: "'t tpool \<Rightarrow> nat" where
  "queueSize s = length (tp_queue s)"

definition isFull :: "'t tpool \<Rightarrow> bool" where
  "isFull s \<longleftrightarrow> 0 < tp_maxQueueSize s \<and> tp_maxQueueSize s \<le> int (length (tp_queue s))"

definition run_init :: "'t tpool \<Rightarrow> 't tpool" where
  "run_init s = (if tp_initCallback s then s\<lparr>tp_inits := tp_inits s + 1\<rparr> else s)"

definition worker_name :: "'t tpool \<Rightarrow> nat \<Rightarrow> string" where
  "worker_name s i = tp_name s @ snprintf_text 32 (fmt_d (int i + 1))"

definition tp_start :: "nat \<Rightarrow> 't tpool \<Rightarrow> 't tpool result" where
  "tp_start n s =
     rassert (tp_threads s = []) (rassert (\<not> tp_running s)
       (let s = s\<lparr>tp_running := True, tp_threadNames := map (worker_name s) [0 ..< n], tp_threads := replicate n W_init\<rparr>
        in Inr (if n = 0 then run_init s else s)))"

text \<open>\<open>notify\<close> on the two conditions: \<open>k\<close> selects the thread that wakes.\<close>

definition asleep_workers :: "'t tpool \<Rightarrow> nat list" where
  "asleep_workers s = filter (\<lambda>i. tp_threads s ! i = W_asleep) [0 ..< length (tp_threads s)]"

definition notifyNotEmpty :: "nat \<Rightarrow> 't tpool \<Rightarrow> 't tpool" where
  "notifyNotEmpty k s =
     (let ids = asleep_workers s in
      if ids = [] then s else s\<lparr>tp_threads := (tp_threads s)[ids ! (k mod length ids) := W_woken]\<rparr>)"

definition notifyNotFull :: "nat \<Rightarrow> 't tpool \<Rightarrow> 't tpool" where
  "notifyNotFull k s =
     (let ps = tp_waitingPosts s; j = k mod length ps in
      if ps = [] then s else s\<lparr>tp_waitingPosts := take j ps @ drop (Suc j) ps, tp_wokenPosts := tp_wokenPosts s @ [ps ! j]\<rparr>)"

text \<open>\<open>stop\<close> up to the joins, which wait for every worker to end.\<close>

definition tp_stop :: "'t tpool \<Rightarrow> 't tpool" where
  "tp_stop s = s\<lparr>tp_running := False, tp_threads := map (\<lambda>w. if w = W_asleep then W_woken else w) (tp_threads s)\<rparr>"

definition tp_joined :: "'t tpool \<Rightarrow> bool" where
  "tp_joined s \<longleftrightarrow> list_all (\<lambda>w. w = W_exit \<or> w = W_crashed) (tp_threads s)"

text \<open>The destructor stops a pool that runs.\<close>

definition ThreadPool_destroy :: "'t tpool \<Rightarrow> 't tpool" where
  "ThreadPool_destroy s = (if tp_running s then tp_stop s else s)"

text \<open>\<open>take\<close> by worker \<open>i\<close>, from its entry or from a wake-up, and what \<open>runInThread\<close> does with the result.\<close>

definition tp_take :: "nat \<Rightarrow> 't tpool \<Rightarrow> 't option \<times> 't tpool" where
  "tp_take k s =
     (case tp_queue s of
        [] \<Rightarrow> (None, s)
      | t # ts \<Rightarrow> (let s = s\<lparr>tp_queue := ts\<rparr> in (Some t, if 0 < tp_maxQueueSize s then notifyNotFull k s else s)))"

definition set_worker :: "nat \<Rightarrow> 't worker \<Rightarrow> 't tpool \<Rightarrow> 't tpool" where
  "set_worker i w s = s\<lparr>tp_threads := (tp_threads s)[i := w]\<rparr>"

definition worker_take :: "nat \<Rightarrow> nat \<Rightarrow> 't tpool \<Rightarrow> 't tpool" where
  "worker_take k i s =
     (if tp_queue s = [] \<and> tp_running s then set_worker i W_asleep s
      else (case tp_take k s of
              (None, s) \<Rightarrow> set_worker i W_check s
            | (Some t, s) \<Rightarrow> set_worker i (W_running t) (s\<lparr>tp_begun := tp_begun s @ [t]\<rparr>)))"

text \<open>How a task ends.\<close>

datatype outcome = Returns | Throws_std | Throws_other

definition worker_step :: "nat \<Rightarrow> outcome \<Rightarrow> nat \<Rightarrow> 't tpool \<Rightarrow> 't tpool result" where
  "worker_step k oc i s =
     (if length (tp_threads s) \<le> i then Inr s
      else case tp_threads s ! i of
        W_init \<Rightarrow> Inr (set_worker i W_check (run_init s))
      | W_check \<Rightarrow> Inr (set_worker i (if tp_running s then W_take else W_exit) s)
      | W_take \<Rightarrow> Inr (worker_take k i s)
      | W_woken \<Rightarrow> Inr (worker_take k i s)
      | W_running t \<Rightarrow>
          (case oc of
             Returns \<Rightarrow> Inr (set_worker i W_check s)
           | Throws_std \<Rightarrow> Inl Aborted
           | Throws_other \<Rightarrow> Inr (set_worker i W_crashed s))
      | _ \<Rightarrow> Inr s)"

definition push_task :: "nat \<Rightarrow> 't \<Rightarrow> 't tpool \<Rightarrow> 't tpool result" where
  "push_task k t s =
     rassert (\<not> isFull s) (Inr (notifyNotEmpty k (s\<lparr>tp_queue := tp_queue s @ [t], tp_accepted := tp_accepted s @ [t]\<rparr>)))"

definition post_loop :: "nat \<Rightarrow> 't \<Rightarrow> 't tpool \<Rightarrow> 't tpool result" where
  "post_loop k t s = (if isFull s then Inr (s\<lparr>tp_waitingPosts := tp_waitingPosts s @ [t]\<rparr>) else push_task k t s)"

definition tp_post :: "nat \<Rightarrow> 't \<Rightarrow> 't tpool \<Rightarrow> 't tpool result" where
  "tp_post k t s = (if tp_threads s = [] then Inr (s\<lparr>tp_begun := tp_begun s @ [t], tp_accepted := tp_accepted s @ [t]\<rparr>) else post_loop k t s)"

text \<open>The first woken thread in \<open>post\<close> tests again.\<close>

definition tp_resumePost :: "nat \<Rightarrow> 't tpool \<Rightarrow> 't tpool result" where
  "tp_resumePost k s =
     (case tp_wokenPosts s of [] \<Rightarrow> Inr s | t # ts \<Rightarrow> post_loop k t (s\<lparr>tp_wokenPosts := ts\<rparr>))"

datatype 't tp_op = Tp_post nat 't | Tp_resumePost nat | Tp_stop | Tp_worker nat outcome nat | Tp_spurious nat | Tp_spuriousPost nat

fun tp_exec :: "'t tp_op \<Rightarrow> 't tpool \<Rightarrow> 't tpool result" where
  "tp_exec (Tp_post k t) s = tp_post k t s"
| "tp_exec (Tp_resumePost k) s = tp_resumePost k s"
| "tp_exec Tp_stop s = Inr (tp_stop s)"
| "tp_exec (Tp_worker k oc i) s = worker_step k oc i s"
| "tp_exec (Tp_spurious k) s = Inr (notifyNotEmpty k s)"
| "tp_exec (Tp_spuriousPost k) s = Inr (notifyNotFull k s)"

subsection \<open>Invariant\<close>

definition woken_workers :: "'t tpool \<Rightarrow> nat" where
  "woken_workers s = count_list (tp_threads s) W_woken"

text \<open>
  The tasks begun and those queued are the tasks accepted; the bound holds; a worker sleeps only in a running pool, with a woken worker for every queued
  task; a thread waits in \<open>post\<close> only at a bounded queue, with a woken one for every free place.
\<close>

definition tp_inv :: "'t tpool \<Rightarrow> bool" where
  "tp_inv s \<longleftrightarrow>
     tp_begun s @ tp_queue s = tp_accepted s \<and>
     (tp_threads s = [] \<longrightarrow> tp_queue s = []) \<and>
     (0 < tp_maxQueueSize s \<longrightarrow> int (length (tp_queue s)) \<le> tp_maxQueueSize s) \<and>
     (W_asleep \<in> set (tp_threads s) \<longrightarrow> tp_running s \<and> length (tp_queue s) \<le> woken_workers s) \<and>
     (tp_waitingPosts s \<noteq> [] \<longrightarrow> 0 < tp_maxQueueSize s \<and> tp_maxQueueSize s \<le> int (length (tp_queue s)) + int (length (tp_wokenPosts s)))"

lemma asleep_workers_iff: "asleep_workers s = [] \<longleftrightarrow> W_asleep \<notin> set (tp_threads s)"
  by (auto simp: asleep_workers_def filter_empty_conv in_set_conv_nth)

lemma asleep_workers_nth:
  assumes "asleep_workers s \<noteq> []" and "i = asleep_workers s ! (k mod length (asleep_workers s))"
  shows "i < length (tp_threads s) \<and> tp_threads s ! i = W_asleep"
proof -
  have "i \<in> set (asleep_workers s)" using assms by simp
  then show ?thesis by (auto simp: asleep_workers_def)
qed

text \<open>What waking a worker does: nothing but one more woken worker, if one was asleep.\<close>

lemma notifyNotEmpty_cases:
  obtains "W_asleep \<notin> set (tp_threads s)" and "notifyNotEmpty k s = s"
  | i where "i < length (tp_threads s)" and "tp_threads s ! i = W_asleep" and "notifyNotEmpty k s = set_worker i W_woken s"
      and "woken_workers (set_worker i W_woken s) = Suc (woken_workers s)"
proof (cases "asleep_workers s = []")
  case True
  then show ?thesis using that(1) by (simp add: notifyNotEmpty_def asleep_workers_iff)
next
  case False
  define i where "i = asleep_workers s ! (k mod length (asleep_workers s))"
  have i: "i < length (tp_threads s)" "tp_threads s ! i = W_asleep" using asleep_workers_nth [OF False i_def] by simp_all
  then have "woken_workers (set_worker i W_woken s) = Suc (woken_workers s)"
    using count_list_update [OF i(1), of W_woken W_woken] by (simp add: woken_workers_def set_worker_def)
  then show ?thesis using that(2) [OF i] False by (simp add: notifyNotEmpty_def set_worker_def i_def Let_def)
qed

lemma set_worker_simps [simp]:
  "tp_begun (set_worker i w s) = tp_begun s" "tp_queue (set_worker i w s) = tp_queue s" "tp_accepted (set_worker i w s) = tp_accepted s"
  "tp_maxQueueSize (set_worker i w s) = tp_maxQueueSize s" "tp_running (set_worker i w s) = tp_running s"
  "tp_waitingPosts (set_worker i w s) = tp_waitingPosts s" "tp_wokenPosts (set_worker i w s) = tp_wokenPosts s"
  "tp_threads (set_worker i w s) = (tp_threads s)[i := w]"
  by (simp_all add: set_worker_def)

lemma notifyNotEmpty_frame [simp]:
  "tp_begun (notifyNotEmpty k s) = tp_begun s" "tp_queue (notifyNotEmpty k s) = tp_queue s" "tp_accepted (notifyNotEmpty k s) = tp_accepted s"
  "tp_maxQueueSize (notifyNotEmpty k s) = tp_maxQueueSize s" "tp_running (notifyNotEmpty k s) = tp_running s"
  "tp_waitingPosts (notifyNotEmpty k s) = tp_waitingPosts s" "tp_wokenPosts (notifyNotEmpty k s) = tp_wokenPosts s"
  "length (tp_threads (notifyNotEmpty k s)) = length (tp_threads s)"
  by (simp_all add: notifyNotEmpty_def Let_def)

lemma notifyNotFull_frame [simp]:
  "tp_begun (notifyNotFull k s) = tp_begun s" "tp_queue (notifyNotFull k s) = tp_queue s" "tp_accepted (notifyNotFull k s) = tp_accepted s"
  "tp_maxQueueSize (notifyNotFull k s) = tp_maxQueueSize s" "tp_running (notifyNotFull k s) = tp_running s"
  "tp_threads (notifyNotFull k s) = tp_threads s"
  by (simp_all add: notifyNotFull_def Let_def)

lemma notifyNotFull_posts:
  "tp_waitingPosts s = [] \<and> notifyNotFull k s = s \<or>
   length (tp_wokenPosts (notifyNotFull k s)) = Suc (length (tp_wokenPosts s)) \<and> tp_waitingPosts s \<noteq> []"
  by (auto simp: notifyNotFull_def Let_def)

lemma notify_inv:
  assumes "tp_inv s"
  shows "tp_inv (notifyNotEmpty k s)" and "tp_inv (notifyNotFull k s)"
proof -
  show "tp_inv (notifyNotEmpty k s)"
    by (rule notifyNotEmpty_cases [of s k])
      (use assms in \<open>auto simp: tp_inv_def dest!: set_update_subset_insert [THEN subsetD] nth_mem\<close>)
  show "tp_inv (notifyNotFull k s)"
    using notifyNotFull_posts [of s k] assms by (auto simp: tp_inv_def woken_workers_def)
qed

subsection \<open>The steps keep the invariant\<close>

lemma asleep_after_update: "W_asleep \<in> set ((tp_threads s)[i := w]) \<Longrightarrow> w \<noteq> W_asleep \<Longrightarrow> W_asleep \<in> set (tp_threads s)"
  using set_update_subset_insert [of "tp_threads s" i w] by auto

lemma woken_after_update:
  assumes "i < length (tp_threads s)"
  shows "woken_workers s \<le> Suc (woken_workers (set_worker i w s))"
    and "tp_threads s ! i \<noteq> W_woken \<Longrightarrow> woken_workers s \<le> woken_workers (set_worker i w s)"
  using count_list_update [OF assms, of w W_woken] by (auto simp: woken_workers_def split: if_splits)

text \<open>A worker moves between two points where it neither sleeps nor is counted.\<close>

lemma set_worker_inv:
  assumes "tp_inv s" and "i < length (tp_threads s)" and "tp_threads s ! i \<noteq> W_woken" and "w \<noteq> W_asleep"
  shows "tp_inv (set_worker i w s)"
proof -
  have "W_asleep \<in> set ((tp_threads s)[i := w]) \<longrightarrow> tp_running s \<and> length (tp_queue s) \<le> woken_workers (set_worker i w s)"
    using asleep_after_update [of s i w] assms(1,4) woken_after_update(2) [OF assms(2,3), of w] by (auto simp: tp_inv_def)
  then show ?thesis using assms(1,2) by (simp add: tp_inv_def)
qed

lemma worker_take_inv:
  assumes inv: "tp_inv s" and i: "i < length (tp_threads s)" and pc: "tp_threads s ! i \<in> {W_take, W_woken}"
  shows "tp_inv (worker_take k i s)"
proof (cases "tp_queue s")
  case Nil
  show ?thesis
  proof (cases "tp_running s")
    case True
    then show ?thesis using inv i Nil by (auto simp: worker_take_def tp_inv_def)
  next
    case False
    then have "W_asleep \<notin> set ((tp_threads s)[i := W_check])"
      using inv asleep_after_update [of s i W_check] by (auto simp: tp_inv_def)
    then show ?thesis using inv i Nil False by (auto simp: worker_take_def tp_take_def tp_inv_def)
  qed
next
  case (Cons t ts)
  define s1 where "s1 = s\<lparr>tp_queue := ts\<rparr>"
  define s2 where "s2 = (if 0 < tp_maxQueueSize s then notifyNotFull k s1 else s1)"
  have f: "tp_begun s2 = tp_begun s" "tp_queue s2 = ts" "tp_accepted s2 = tp_accepted s" "tp_maxQueueSize s2 = tp_maxQueueSize s"
      "tp_running s2 = tp_running s" "tp_threads s2 = tp_threads s"
    by (simp_all add: s2_def s1_def)
  have posts: "tp_waitingPosts s2 \<noteq> [] \<longrightarrow> 0 < tp_maxQueueSize s \<and> tp_maxQueueSize s \<le> int (length ts) + int (length (tp_wokenPosts s2))"
    using notifyNotFull_posts [of s1 k] inv Cons by (auto simp: s2_def s1_def tp_inv_def)
  have w: "worker_take k i s = set_worker i (W_running t) (s2\<lparr>tp_begun := tp_begun s2 @ [t]\<rparr>)"
    using Cons by (simp add: worker_take_def tp_take_def s2_def s1_def Let_def)
  have "W_asleep \<in> set ((tp_threads s)[i := W_running t]) \<longrightarrow>
      tp_running s \<and> length ts \<le> woken_workers (set_worker i (W_running t) s)"
    using asleep_after_update [of s i "W_running t"] inv Cons woken_after_update(1) [OF i, of "W_running t"] by (auto simp: tp_inv_def)
  then show ?thesis using inv Cons f posts i unfolding w by (auto simp: tp_inv_def woken_workers_def)
qed

lemma worker_step_inv:
  assumes "tp_inv s" and "worker_step k oc i s = Inr s'"
  shows "tp_inv s'"
proof (cases "i < length (tp_threads s)")
  case True
  have init: "tp_inv (run_init s)" "tp_threads (run_init s) = tp_threads s"
    using assms(1) by (simp_all add: run_init_def tp_inv_def woken_workers_def)
  show ?thesis
    using assms(2) True set_worker_inv [OF assms(1) True] set_worker_inv [OF init(1), of i W_check] init(2) worker_take_inv [OF assms(1) True, of k]
      assms(1)
    by (auto simp: worker_step_def split: worker.splits outcome.splits)
qed (use assms in \<open>simp add: worker_step_def\<close>)

text \<open>Entering the loop of \<open>post\<close>, with one woken thread not counted any more.\<close>

lemma post_loop_inv:
  assumes "tp_inv (s\<lparr>tp_wokenPosts := u # tp_wokenPosts s\<rparr>)" and "tp_threads s \<noteq> []"
  shows "\<exists>s'. post_loop k t s = Inr s' \<and> tp_inv s'"
proof (cases "isFull s")
  case True
  then show ?thesis using assms by (auto simp: post_loop_def isFull_def tp_inv_def woken_workers_def)
next
  case False
  define s1 where "s1 = s\<lparr>tp_queue := tp_queue s @ [t], tp_accepted := tp_accepted s @ [t]\<rparr>"
  have r: "post_loop k t s = Inr (notifyNotEmpty k s1)" using False by (simp add: post_loop_def push_task_def s1_def)
  have base: "tp_begun s1 @ tp_queue s1 = tp_accepted s1" "0 < tp_maxQueueSize s1 \<longrightarrow> int (length (tp_queue s1)) \<le> tp_maxQueueSize s1"
      "W_asleep \<in> set (tp_threads s1) \<longrightarrow> tp_running s1 \<and> length (tp_queue s1) \<le> Suc (woken_workers s1)"
      "tp_waitingPosts s1 \<noteq> [] \<longrightarrow> 0 < tp_maxQueueSize s1 \<and> tp_maxQueueSize s1 \<le> int (length (tp_queue s1)) + int (length (tp_wokenPosts s1))"
      "tp_threads s1 \<noteq> []"
    using assms False by (auto simp: s1_def tp_inv_def isFull_def woken_workers_def)
  have "tp_inv (notifyNotEmpty k s1)"
  proof (rule notifyNotEmpty_cases [of s1 k])
    assume "W_asleep \<notin> set (tp_threads s1)" "notifyNotEmpty k s1 = s1"
    then show ?thesis using base by (auto simp: tp_inv_def)
  next
    fix i
    assume i: "i < length (tp_threads s1)" "tp_threads s1 ! i = W_asleep" "notifyNotEmpty k s1 = set_worker i W_woken s1"
      "woken_workers (set_worker i W_woken s1) = Suc (woken_workers s1)"
    have "W_asleep \<in> set (tp_threads s1)" using i(1,2) by (metis nth_mem)
    then show ?thesis using base i by (simp add: tp_inv_def)
  qed
  then show ?thesis using r by blast
qed

lemma tp_inv_woken_more: "tp_inv s \<Longrightarrow> tp_inv (s\<lparr>tp_wokenPosts := u # tp_wokenPosts s\<rparr>)"
  by (auto simp: tp_inv_def woken_workers_def)

lemma tp_stop_inv: "tp_inv s \<Longrightarrow> tp_inv (tp_stop s)"
  by (auto simp: tp_inv_def tp_stop_def woken_workers_def)

lemma tp_exec_inv:
  assumes "tp_inv s" and "tp_exec p s = Inr s'" and "tp_threads s \<noteq> []"
  shows "tp_inv s'"
proof (cases p)
  case (Tp_post k t)
  then show ?thesis using assms post_loop_inv [OF tp_inv_woken_more [OF assms(1)], of k t] by (auto simp: tp_post_def)
next
  case (Tp_resumePost k)
  show ?thesis
  proof (cases "tp_wokenPosts s")
    case (Cons t ts)
    have "s\<lparr>tp_wokenPosts := t # ts\<rparr> = s" using Cons by (metis (full_types) tpool.surjective tpool.update_convs(9))
    then have "tp_inv ((s\<lparr>tp_wokenPosts := ts\<rparr>)\<lparr>tp_wokenPosts := t # tp_wokenPosts (s\<lparr>tp_wokenPosts := ts\<rparr>)\<rparr>)" using assms(1) by simp
    from post_loop_inv [OF this, of k t] show ?thesis using assms Tp_resumePost Cons by (auto simp: tp_resumePost_def)
  qed (use assms Tp_resumePost in \<open>simp add: tp_resumePost_def\<close>)
next
  case (Tp_worker k oc i)
  then show ?thesis using worker_step_inv assms by auto
qed (use assms notify_inv tp_stop_inv in auto)

lemma run_init_frame [simp]: "tp_threads (run_init s) = tp_threads s"
  by (simp add: run_init_def)

lemma worker_take_length: "length (tp_threads (worker_take k i s)) = length (tp_threads s)"
  by (simp add: worker_take_def tp_take_def Let_def split: list.split)

lemma post_loop_length: "post_loop k t s = Inr s' \<Longrightarrow> length (tp_threads s') = length (tp_threads s)"
  by (auto simp: post_loop_def push_task_def result_iffs split: if_splits)

lemma tp_exec_length: "tp_exec p s = Inr s' \<Longrightarrow> length (tp_threads s') = length (tp_threads s)"
proof (cases p)
  case (Tp_worker k oc i)
  assume "tp_exec p s = Inr s'"
  then show ?thesis
    using Tp_worker worker_take_length [of k i s] by (auto simp: worker_step_def split: if_splits worker.splits outcome.splits)
qed (auto simp: tp_post_def tp_resumePost_def tp_stop_def post_loop_length split: if_splits list.splits dest!: post_loop_length)

lemma tp_exec_fault:
  assumes "tp_inv s" and "tp_threads s \<noteq> []" and "tp_exec p s = Inl e"
  shows "e = Aborted"
proof (cases p)
  case (Tp_worker k oc i)
  then show ?thesis using assms(3) by (auto simp: worker_step_def split: if_splits worker.splits outcome.splits)
qed (use assms(2,3) in \<open>auto simp: tp_post_def tp_resumePost_def post_loop_def push_task_def split: list.splits if_splits\<close>)

lemma tp_run_inv:
  "tp_inv s \<Longrightarrow> tp_threads s \<noteq> [] \<Longrightarrow>
     (\<forall>s'. rfold tp_exec ps s = Inr s' \<longrightarrow> tp_inv s' \<and> length (tp_threads s') = length (tp_threads s)) \<and>
     rfold tp_exec ps s \<noteq> Inl AssertFailed"
proof (induction ps arbitrary: s)
  case (Cons p ps)
  show ?case
  proof (cases "tp_exec p s")
    case (Inl e)
    then show ?thesis using tp_exec_fault [OF Cons.prems Inl] by simp
  next
    case (Inr s1)
    have "tp_inv s1" "length (tp_threads s1) = length (tp_threads s)"
      using tp_exec_inv [OF Cons.prems(1) Inr Cons.prems(2)] tp_exec_length [OF Inr] by blast+
    moreover from this have "tp_threads s1 \<noteq> []" using Cons.prems(2) by auto
    ultimately show ?thesis using Cons.IH [of s1] Inr by simp
  qed
qed simp

lemma tp_start_inv:
  "tp_start (Suc n) (ThreadPool_new name q) = Inr s \<Longrightarrow> tp_inv s \<and> length (tp_threads s) = Suc n \<and> tp_maxQueueSize s = q"
  by (auto simp: tp_start_def ThreadPool_new_def tp_inv_def Let_def simp del: replicate_Suc)

text \<open>A pool whose workers have all ended.\<close>

lemma joined_step:
  assumes "tp_joined s" and "tp_threads s \<noteq> []" and "tp_exec p s = Inr s'" and "\<And>k. p \<noteq> Tp_spuriousPost k"
  shows "tp_joined s' \<and> tp_threads s' \<noteq> [] \<and> tp_begun s' = tp_begun s \<and> (\<exists>xs. tp_waitingPosts s' = tp_waitingPosts s @ xs)"
proof -
  have none: "W_asleep \<notin> set (tp_threads s)" using assms(1) by (auto simp: tp_joined_def list_all_iff)
  have notify: "notifyNotEmpty k t = t" if "tp_threads t = tp_threads s" for k and t :: "'a tpool"
    using none that by (simp add: notifyNotEmpty_def asleep_workers_iff [symmetric] asleep_workers_def)
  have post: "tp_threads u = tp_threads s \<and> tp_begun u = tp_begun t \<and> (\<exists>xs. tp_waitingPosts u = tp_waitingPosts t @ xs)"
    if "post_loop k x t = Inr u" "tp_threads t = tp_threads s" for k x and t u :: "'a tpool"
    using that notify by (auto simp: post_loop_def push_task_def result_iffs split: if_splits)
  show ?thesis
  proof (cases p)
    case (Tp_post k t)
    then show ?thesis using assms post by (auto simp: tp_post_def tp_joined_def)
  next
    case (Tp_resumePost k)
    then show ?thesis
      using assms post by (fastforce simp: tp_resumePost_def tp_joined_def split: list.splits)
  next
    case Tp_stop
    have "map (\<lambda>w. if w = W_asleep then W_woken else w) (tp_threads s) = tp_threads s" using none by (auto intro: map_idI)
    then show ?thesis using assms Tp_stop by (auto simp: tp_stop_def tp_joined_def)
  next
    case (Tp_worker k oc i)
    have "tp_threads s ! i = W_exit \<or> tp_threads s ! i = W_crashed" if "i < length (tp_threads s)"
      using assms(1) that by (simp add: tp_joined_def list_all_length)
    then have "worker_step k oc i s = Inr s" by (auto simp: worker_step_def)
    then show ?thesis using assms Tp_worker by simp
  next
    case (Tp_spurious k)
    then show ?thesis using assms notify by simp
  qed (use assms in simp)
qed

lemma joined_run:
  "tp_joined s \<Longrightarrow> tp_threads s \<noteq> [] \<Longrightarrow> rfold tp_exec ps s = Inr s' \<Longrightarrow> \<forall>k. Tp_spuriousPost k \<notin> set ps \<Longrightarrow>
     tp_joined s' \<and> tp_begun s' = tp_begun s \<and> (\<exists>xs. tp_waitingPosts s' = tp_waitingPosts s @ xs)"
proof (induction ps arbitrary: s)
  case (Cons p ps)
  then obtain s1 where s1: "tp_exec p s = Inr s1" "rfold tp_exec ps s1 = Inr s'" by (auto simp: rbind_eq_Inr_iff)
  have "tp_joined s1 \<and> tp_threads s1 \<noteq> [] \<and> tp_begun s1 = tp_begun s \<and> (\<exists>xs. tp_waitingPosts s1 = tp_waitingPosts s @ xs)"
    by (rule joined_step [OF Cons.prems(1,2) s1(1)]) (use Cons.prems(4) in auto)
  then show ?case using Cons.IH [OF _ _ s1(2)] Cons.prems(4) by fastforce
qed simp

subsection \<open>Properties\<close>

text \<open>
  C18: The pool keeps its tasks. From a started pool, in every interleaving of posts, workers, wake-ups and a stop, whatever the tasks do: no assertion fails;
  the tasks begun followed by those queued are the tasks accepted, in order, each once; a bounded queue stays within its bound; and no wake-up is
  lost: when a worker sleeps although a task is queued another worker has been woken, and when a thread waits in \<open>post\<close> although there
  is room another one has been woken.
\<close>

theorem pool_keeps_tasks:
  assumes "tp_start (Suc n) (ThreadPool_new name bound) = Inr s0"
  shows "rfold tp_exec ps s0 \<noteq> Inl AssertFailed \<and>
    (\<forall>s. rfold tp_exec ps s0 = Inr s \<longrightarrow>
       tp_begun s @ tp_queue s = tp_accepted s \<and> (0 < tp_maxQueueSize s \<longrightarrow> int (queueSize s) \<le> tp_maxQueueSize s) \<and>
       (W_asleep \<in> set (tp_threads s) \<and> tp_queue s \<noteq> [] \<longrightarrow> W_woken \<in> set (tp_threads s)) \<and>
       (tp_waitingPosts s \<noteq> [] \<and> \<not> isFull s \<longrightarrow> tp_wokenPosts s \<noteq> []))"
proof -
  have s0: "tp_inv s0" "tp_threads s0 \<noteq> []" using tp_start_inv [OF assms] by auto
  have woken: "W_woken \<in> set (tp_threads s)" if "tp_inv s" "W_asleep \<in> set (tp_threads s)" "tp_queue s \<noteq> []" for s :: "'a tpool"
  proof -
    have "0 < woken_workers s" using that by (auto simp: tp_inv_def simp flip: length_greater_0_conv)
    then show ?thesis unfolding woken_workers_def by (metis count_list_0_iff less_irrefl)
  qed
  have room: "tp_wokenPosts s \<noteq> []" if "tp_inv s" "tp_waitingPosts s \<noteq> []" "\<not> isFull s" for s :: "'a tpool"
    using that by (auto simp: tp_inv_def isFull_def)
  show ?thesis using tp_run_inv [OF s0, of ps] woken room by (auto simp: tp_inv_def queueSize_def)
qed

lemma pool_keeps_tasks_witness:
  "\<exists>s0. tp_start (Suc 0) (ThreadPool_new ''p'' 1) = Inr s0 \<and>
     rfold tp_exec [Tp_worker 0 Returns 0, Tp_worker 0 Returns 0, Tp_worker 0 Returns 0, Tp_post 0 (7 :: nat), Tp_post 0 8] s0 \<noteq> Inl AssertFailed"
proof -
  obtain s0 :: "nat tpool" where "tp_start (Suc 0) (ThreadPool_new ''p'' 1) = Inr s0"
    by (simp add: tp_start_def ThreadPool_new_def Let_def)
  then show ?thesis using pool_keeps_tasks by blast
qed

text \<open>
  What stopping a pool loses. Once every worker has ended (which is when \<open>stop\<close> returns), no task that is still queued, or is posted later, is
  ever begun; and a thread that waits in \<open>post\<close> is never woken by the pool, since \<open>stop\<close> notifies only the workers' condition: it waits for ever.
\<close>

theorem stopped_pool_drops:
  assumes "tp_joined s" and "tp_threads s \<noteq> []" and "rfold tp_exec ps s = Inr s'" and "\<forall>k. Tp_spuriousPost k \<notin> set ps"
  shows "tp_joined s' \<and> tp_begun s' = tp_begun s \<and> (\<exists>later. tp_waitingPosts s' = tp_waitingPosts s @ later)"
  using joined_run [OF assms] .

text \<open>Three tasks for one worker and a queue of one: at the stop one has run, one is queued and one waits to be posted.\<close>

lemma stopped_pool_drops_witness:
  "\<exists>s0 s s'. tp_start (Suc 0) (ThreadPool_new ''p'' 1) = Inr s0 \<and>
     rfold tp_exec [Tp_worker 0 Returns 0, Tp_post 0 (1 :: nat), Tp_worker 0 Returns 0, Tp_worker 0 Returns 0, Tp_post 0 2, Tp_post 0 3, Tp_stop,
       Tp_worker 0 Returns 0, Tp_worker 0 Returns 0] s0 = Inr s \<and> tp_joined s \<and>
     rfold tp_exec [Tp_worker 0 Returns 0, Tp_spurious 0, Tp_stop] s = Inr s' \<and>
     tp_begun s' = [1] \<and> tp_queue s' = [2] \<and> tp_waitingPosts s' = [3]"
proof -
  obtain s0 :: "nat tpool" where s0: "tp_start (Suc 0) (ThreadPool_new ''p'' 1) = Inr s0"
    by (simp add: tp_start_def ThreadPool_new_def Let_def)
  obtain s where s: "rfold tp_exec [Tp_worker 0 Returns 0, Tp_post 0 (1 :: nat), Tp_worker 0 Returns 0, Tp_worker 0 Returns 0, Tp_post 0 2, Tp_post 0 3,
      Tp_stop, Tp_worker 0 Returns 0, Tp_worker 0 Returns 0] s0 = Inr s"
    and e: "tp_joined s" "tp_threads s \<noteq> []" "tp_begun s = [1]" "tp_queue s = [2]" "tp_waitingPosts s = [3]"
    using s0
    by (auto simp: tp_start_def ThreadPool_new_def worker_step_def set_worker_def run_init_def tp_post_def post_loop_def push_task_def isFull_def
        notifyNotEmpty_def asleep_workers_def worker_take_def tp_take_def notifyNotFull_def tp_stop_def tp_joined_def Let_def)
  obtain s' where s': "rfold tp_exec [Tp_worker 0 Returns 0, Tp_spurious 0, Tp_stop] s = Inr s'"
    using e(1,2) by (auto simp: worker_step_def tp_joined_def list_all_length split: worker.split)
  have "tp_queue s' = [2]" "tp_waitingPosts s' = [3]"
    using s' e by (auto simp: worker_step_def tp_joined_def tp_stop_def list_all_length split: worker.splits)
  then show ?thesis
    using s0 s e s' stopped_pool_drops [OF e(1,2) s'] by auto
qed

end
