(* ===== verification/RN_EventLoopThread.thy ===== *)
theory RN_EventLoopThread
  imports RN_Prelude
begin

text \<open>
  RN/net/EventLoopThread.h and EventLoopThread.cpp: the hand-over of a loop from the thread that runs it to the thread that asked for it, and the end of both.
  The declarations \<open>MutexLock lock(mutex_)\<close> copy the mutex and lock nothing, so that the test of \<open>loop_\<close> and the wait, and the assignment
  and the notification, are separate steps of two threads. A state has the members, the quit flag of the loop, and the point each thread has reached. A step
  that is not the next of its thread is None; a step that is can fault: the loop is reached through a pointer that may be null or dangle.
\<close>

datatype et_caller = C_idle | C_check | C_missed | C_asleep | C_returned | C_joining | C_done

datatype et_thread = T_none | T_construct | T_notify | T_enter | T_looping | T_exited

record el_thread =
  et_loop :: bool
  et_exiting :: bool
  et_quit :: bool
  et_caller :: et_caller
  et_thread :: et_thread

definition EventLoopThread_new :: el_thread where
  "EventLoopThread_new = \<lparr>et_loop = False, et_exiting = False, et_quit = False, et_caller = C_idle, et_thread = T_none\<rparr>"

text \<open>The statements of \<open>startLoop\<close>: the start of the thread, the loop test, and the wait.\<close>

definition startLoop_start :: "el_thread \<Rightarrow> el_thread option" where
  "startLoop_start s = (if et_caller s = C_idle \<and> et_thread s = T_none then Some (s\<lparr>et_caller := C_check, et_thread := T_construct\<rparr>) else None)"

definition startLoop_test :: "el_thread \<Rightarrow> el_thread option" where
  "startLoop_test s = (if et_caller s = C_check then Some (s\<lparr>et_caller := (if et_loop s then C_returned else C_missed)\<rparr>) else None)"

definition startLoop_wait :: "el_thread \<Rightarrow> el_thread option" where
  "startLoop_wait s = (if et_caller s = C_missed then Some (s\<lparr>et_caller := C_asleep\<rparr>) else None)"

text \<open>The statements of \<open>threadFunc\<close>: the assignment, the notification, the entry of \<open>loop\<close> (which clears the quit flag), its return.\<close>

definition threadFunc_set :: "el_thread \<Rightarrow> el_thread option" where
  "threadFunc_set s = (if et_thread s = T_construct then Some (s\<lparr>et_loop := True, et_thread := T_notify\<rparr>) else None)"

definition threadFunc_notify :: "el_thread \<Rightarrow> el_thread option" where
  "threadFunc_notify s =
     (if et_thread s = T_notify
      then Some (s\<lparr>et_thread := T_enter, et_caller := (if et_caller s = C_asleep then C_check else et_caller s)\<rparr>) else None)"

definition threadFunc_loop :: "el_thread \<Rightarrow> el_thread option" where
  "threadFunc_loop s = (if et_thread s = T_enter then Some (s\<lparr>et_quit := False, et_thread := T_looping\<rparr>) else None)"

definition threadFunc_return :: "el_thread \<Rightarrow> el_thread option" where
  "threadFunc_return s = (if et_thread s = T_looping \<and> et_quit s then Some (s\<lparr>et_thread := T_exited\<rparr>) else None)"

text \<open>
  The loop is a local object of \<open>threadFunc\<close> and dies when that returns; \<open>loop_\<close> keeps pointing to it. The caller may itself order the loop it got
  to quit, as net/test3.cpp does. The destructor orders it through \<open>loop_\<close> whatever it points to, also when \<open>startLoop\<close> was never called, and joins.
\<close>

definition loop_gone :: "el_thread \<Rightarrow> bool" where
  "loop_gone s \<longleftrightarrow> \<not> et_loop s \<or> et_thread s = T_exited"

definition quit_through_pointer :: "el_thread \<Rightarrow> el_thread result" where
  "quit_through_pointer s = (if loop_gone s then Inl OutOfRange else Inr (s\<lparr>et_quit := True\<rparr>))"

definition user_quit :: "el_thread \<Rightarrow> el_thread result option" where
  "user_quit s = (if et_caller s = C_returned then Some (quit_through_pointer s) else None)"

definition destroy_quit :: "el_thread \<Rightarrow> el_thread result option" where
  "destroy_quit s =
     (if et_caller s = C_idle \<or> et_caller s = C_returned
      then Some (rbind (quit_through_pointer (s\<lparr>et_exiting := True\<rparr>)) (\<lambda>s. Inr (s\<lparr>et_caller := C_joining\<rparr>))) else None)"

definition destroy_join :: "el_thread \<Rightarrow> el_thread option" where
  "destroy_join s = (if et_caller s = C_joining \<and> et_thread s = T_exited then Some (s\<lparr>et_caller := C_done\<rparr>) else None)"

datatype et_action = Start | Test | Wait | Set_loop | Notify | Enter | Leave | User_quit | Quit | Join | Spurious

definition steps_to :: "el_thread option \<Rightarrow> el_thread result option" where
  "steps_to r = map_option Inr r"

fun et_exec :: "et_action \<Rightarrow> el_thread \<Rightarrow> el_thread result option" where
  "et_exec Start s = steps_to (startLoop_start s)"
| "et_exec Test s = steps_to (startLoop_test s)"
| "et_exec Wait s = steps_to (startLoop_wait s)"
| "et_exec Set_loop s = steps_to (threadFunc_set s)"
| "et_exec Notify s = steps_to (threadFunc_notify s)"
| "et_exec Enter s = steps_to (threadFunc_loop s)"
| "et_exec Leave s = steps_to (threadFunc_return s)"
| "et_exec User_quit s = user_quit s"
| "et_exec Quit s = destroy_quit s"
| "et_exec Join s = steps_to (destroy_join s)"
| "et_exec Spurious s = (if et_caller s = C_asleep then Some (Inr (s\<lparr>et_caller := C_check\<rparr>)) else None)"

lemmas et_defs = startLoop_start_def startLoop_test_def startLoop_wait_def threadFunc_set_def threadFunc_notify_def threadFunc_loop_def
  threadFunc_return_def loop_gone_def quit_through_pointer_def user_quit_def destroy_quit_def destroy_join_def steps_to_def

text \<open>The runs of the two threads, with or without spurious wake-ups.\<close>

inductive et_run :: "bool \<Rightarrow> el_thread \<Rightarrow> el_thread \<Rightarrow> bool" for spurious where
  et_refl: "et_run spurious s s"
| et_step: "et_run spurious s t \<Longrightarrow> et_exec a t = Some (Inr u) \<Longrightarrow> a = Spurious \<longrightarrow> spurious \<Longrightarrow> et_run spurious s u"

fun et_execs :: "et_action list \<Rightarrow> el_thread \<Rightarrow> el_thread result option" where
  "et_execs [] s = Some (Inr s)"
| "et_execs (a # as) s = (case et_exec a s of None \<Rightarrow> None | Some (Inl e) \<Rightarrow> Some (Inl e) | Some (Inr t) \<Rightarrow> et_execs as t)"

lemma et_execs_Cons: "et_execs (a # as) s = Some (Inr t) \<Longrightarrow> \<exists>u. et_exec a s = Some (Inr u) \<and> et_execs as u = Some (Inr t)"
  by (auto split: option.splits sum.splits)

lemma et_run_trans: "et_run b t u \<Longrightarrow> et_run b s t \<Longrightarrow> et_run b s u"
  by (induction rule: et_run.induct) (auto intro: et_step)

lemma et_execs_runs: "et_execs as s = Some (Inr t) \<Longrightarrow> et_run True s t"
proof (induction as arbitrary: s)
  case (Cons a as)
  then obtain u where u: "et_exec a s = Some (Inr u)" "et_execs as u = Some (Inr t)" using et_execs_Cons by blast
  show ?case using et_run_trans [OF Cons.IH [OF u(2)]] et_step [OF et_refl u(1)] by simp
qed (simp add: et_refl)

lemma et_execs_run: "et_execs as s = Some (Inr t) \<Longrightarrow> Spurious \<notin> set as \<Longrightarrow> et_run b s t"
proof (induction as arbitrary: s)
  case (Cons a as)
  then obtain u where u: "et_exec a s = Some (Inr u)" "et_execs as u = Some (Inr t)" using et_execs_Cons by blast
  have "et_run b s u" using et_step [OF et_refl u(1)] Cons.prems(2) by auto
  moreover have "et_run b u t" using Cons.IH [OF u(2)] Cons.prems(2) by simp
  ultimately show ?case using et_run_trans by blast
qed (simp add: et_refl)

definition et_inv :: "el_thread \<Rightarrow> bool" where
  "et_inv s \<longleftrightarrow>
     (et_caller s = C_idle \<longleftrightarrow> et_thread s = T_none) \<and>
     (et_loop s \<longleftrightarrow> et_thread s \<notin> {T_none, T_construct}) \<and>
     (et_caller s \<in> {C_returned, C_joining, C_done} \<longrightarrow> et_loop s) \<and>
     (et_caller s = C_done \<longrightarrow> et_thread s = T_exited)"

lemma et_exec_inv: "et_inv s \<Longrightarrow> et_exec a s = Some (Inr t) \<Longrightarrow> et_inv t"
  by (cases a) (auto simp: et_inv_def et_defs split: if_splits)

lemma et_run_inv: "et_run b s t \<Longrightarrow> et_inv s \<Longrightarrow> et_inv t"
  by (induction rule: et_run.induct) (auto dest: et_exec_inv)

text \<open>Two traps: once in, no step leads out.\<close>

lemma asleep_trap:
  "et_run False s t \<Longrightarrow> et_caller s = C_asleep \<and> et_thread s \<in> {T_enter, T_looping} \<and> \<not> et_quit s \<Longrightarrow>
     et_caller t = C_asleep \<and> et_thread t \<in> {T_enter, T_looping} \<and> \<not> et_quit t"
proof (induction rule: et_run.induct)
  case (et_step s t a u)
  then show ?case by (cases a) (auto simp: et_defs split: if_splits)
qed

lemma joining_trap:
  "et_run b s t \<Longrightarrow> et_caller s = C_joining \<and> et_thread s = T_looping \<and> \<not> et_quit s \<Longrightarrow>
     et_caller t = C_joining \<and> et_thread t = T_looping \<and> \<not> et_quit t"
proof (induction rule: et_run.induct)
  case (et_step s t a u)
  then show ?case by (cases a) (auto simp: et_defs split: if_splits)
qed

text \<open>
  \<open>startLoop\<close>: whenever it returns, \<open>loop_\<close> is set and the thread is past its assignment; if the notification finds the caller asleep, or the
  caller tests after the assignment, it returns.
\<close>

theorem startLoop_returns_the_loop:
  assumes "et_run b EventLoopThread_new s"
  shows "(et_caller s \<in> {C_returned, C_joining, C_done} \<longrightarrow> et_loop s \<and> et_thread s \<notin> {T_none, T_construct}) \<and>
    (et_caller s = C_check \<and> et_loop s \<longrightarrow> (\<exists>t. et_execs [Test] s = Some (Inr t) \<and> et_caller t = C_returned)) \<and>
    (et_caller s = C_asleep \<and> et_thread s = T_notify \<longrightarrow> (\<exists>t. et_execs [Notify, Test] s = Some (Inr t) \<and> et_caller t = C_returned))"
proof -
  have "et_inv EventLoopThread_new" by (simp add: et_inv_def EventLoopThread_new_def)
  then have "et_inv s" using et_run_inv [OF assms] by blast
  then show ?thesis by (cases "et_caller s"; cases "et_thread s") (simp_all add: et_inv_def et_defs)
qed

lemma startLoop_returns_the_loop_witness:
  "\<exists>s t. et_run False EventLoopThread_new s \<and> et_caller s = C_asleep \<and> et_execs [Notify, Test] s = Some (Inr t) \<and> et_caller t = C_returned"
proof -
  obtain s where s: "et_execs [Start, Test, Wait, Set_loop] EventLoopThread_new = Some (Inr s)" "et_caller s = C_asleep" "et_thread s = T_notify"
    by (auto simp: EventLoopThread_new_def et_defs)
  have r: "et_run False EventLoopThread_new s" by (rule et_execs_run [OF s(1)]) simp
  show ?thesis using startLoop_returns_the_loop [OF r] r s(2,3) by blast
qed

text \<open>
  The missing lock. There are runs in which the notification comes between the test of \<open>loop_\<close> and the wait; from then on, without a spurious wake-up,
  the caller sleeps in \<open>startLoop\<close> for ever although the loop is running. And there are runs in which the destructor's \<open>quit\<close> comes before the
  thread has entered \<open>loop\<close>, which clears the flag; from then on the destructor waits in \<open>join\<close> for ever.
\<close>

theorem missing_lock_can_hang:
  "(\<exists>s. et_run False EventLoopThread_new s \<and> et_loop s \<and>
      (\<forall>t. et_run False s t \<longrightarrow> et_caller t = C_asleep \<and> et_thread t \<in> {T_enter, T_looping})) \<and>
   (\<exists>s. et_run False EventLoopThread_new s \<and> et_exiting s \<and>
      (\<forall>b t. et_run b s t \<longrightarrow> et_caller t = C_joining \<and> et_thread t = T_looping))"
proof
  obtain s where s: "et_execs [Start, Test, Set_loop, Notify, Wait] EventLoopThread_new = Some (Inr s)"
      "et_caller s = C_asleep" "et_thread s = T_enter" "\<not> et_quit s" "et_loop s"
    by (auto simp: EventLoopThread_new_def et_defs)
  have "et_run False EventLoopThread_new s" by (rule et_execs_run [OF s(1)]) simp
  then show "\<exists>s. et_run False EventLoopThread_new s \<and> et_loop s \<and>
      (\<forall>t. et_run False s t \<longrightarrow> et_caller t = C_asleep \<and> et_thread t \<in> {T_enter, T_looping})"
    using asleep_trap s by blast
  obtain s where s: "et_execs [Start, Set_loop, Notify, Test, Quit, Enter] EventLoopThread_new = Some (Inr s)"
      "et_caller s = C_joining" "et_thread s = T_looping" "\<not> et_quit s" "et_exiting s"
    by (auto simp: EventLoopThread_new_def et_defs)
  have "et_run False EventLoopThread_new s" by (rule et_execs_run [OF s(1)]) simp
  then show "\<exists>s. et_run False EventLoopThread_new s \<and> et_exiting s \<and>
      (\<forall>b t. et_run b s t \<longrightarrow> et_caller t = C_joining \<and> et_thread t = T_looping)"
    using joining_trap s by blast
qed

lemma missing_lock_can_hang_witness:
  "\<exists>s. et_run False EventLoopThread_new s \<and> et_caller s = C_asleep"
proof -
  obtain s where s: "et_run False EventLoopThread_new s" "\<forall>t. et_run False s t \<longrightarrow> et_caller t = C_asleep"
    using missing_lock_can_hang by blast
  then show ?thesis using et_refl by blast
qed

text \<open>As long as only the destructor orders the loop to quit, the loop is alive when it does.\<close>

lemma et_execs_own_quit:
  assumes "et_execs as s = Some (Inr t)" and "User_quit \<notin> set as"
    and "(et_quit s \<longrightarrow> et_caller s \<in> {C_joining, C_done}) \<and> (et_thread s = T_exited \<longrightarrow> et_caller s \<in> {C_joining, C_done})"
  shows "(et_quit t \<longrightarrow> et_caller t \<in> {C_joining, C_done}) \<and> (et_thread t = T_exited \<longrightarrow> et_caller t \<in> {C_joining, C_done})"
  using assms
proof (induction as arbitrary: s)
  case (Cons a as)
  obtain u where u: "et_exec a s = Some (Inr u)" "et_execs as u = Some (Inr t)" using et_execs_Cons [OF Cons.prems(1)] by blast
  have "(et_quit u \<longrightarrow> et_caller u \<in> {C_joining, C_done}) \<and> (et_thread u = T_exited \<longrightarrow> et_caller u \<in> {C_joining, C_done})"
    using u(1) Cons.prems(2,3) by (cases a) (auto simp: et_defs split: if_splits)
  then show ?case using Cons.IH [OF u(2)] Cons.prems(2) by simp
qed simp

text \<open>
  C31: The end of an EventLoopThread. When nobody else orders the loop to quit, the destructor, after \<open>startLoop\<close> has returned, finds the loop alive and
  orders it to quit, in every interleaving. When the user quits the loop, as net/test3.cpp does, there are runs in which the thread has left
  \<open>threadFunc\<close> by then, and the destructor faults: it calls \<open>quit\<close> on the dead loop. It faults too, on the null pointer, when \<open>startLoop\<close> was never
  called.
\<close>

theorem destructor_and_dead_loop:
  "(\<forall>as s. et_execs as EventLoopThread_new = Some (Inr s) \<longrightarrow> User_quit \<notin> set as \<longrightarrow> et_caller s = C_returned \<longrightarrow>
      (\<exists>t. et_exec Quit s = Some (Inr t) \<and> et_quit t \<and> et_exiting t \<and> et_caller t = C_joining)) \<and>
   et_execs [Start, Set_loop, Notify, Test, Enter, User_quit, Leave, Quit] EventLoopThread_new = Some (Inl OutOfRange) \<and>
   et_exec Quit EventLoopThread_new = Some (Inl OutOfRange)"
proof (intro conjI allI impI)
  fix as s
  assume run: "et_execs as EventLoopThread_new = Some (Inr s)" "User_quit \<notin> set as" and ret: "et_caller s = C_returned"
  have "et_thread s \<noteq> T_exited" using et_execs_own_quit [OF run] ret by (auto simp: EventLoopThread_new_def)
  moreover have "et_loop s"
  proof -
    have "et_run True EventLoopThread_new s" using et_execs_runs [OF run(1)] .
    moreover have "et_inv EventLoopThread_new" by (simp add: et_inv_def EventLoopThread_new_def)
    ultimately have "et_inv s" using et_run_inv by blast
    then show ?thesis using ret by (auto simp: et_inv_def)
  qed
  ultimately show "\<exists>t. et_exec Quit s = Some (Inr t) \<and> et_quit t \<and> et_exiting t \<and> et_caller t = C_joining"
    using ret by (simp add: et_defs)
qed (simp_all add: EventLoopThread_new_def et_defs)

lemma destructor_and_dead_loop_witness:
  "\<exists>s t. et_execs [Start, Set_loop, Notify, Test] EventLoopThread_new = Some (Inr s) \<and> et_exec Quit s = Some (Inr t) \<and> et_quit t"
proof -
  obtain s where s: "et_execs [Start, Set_loop, Notify, Test] EventLoopThread_new = Some (Inr s)" "et_caller s = C_returned"
    by (simp add: EventLoopThread_new_def et_defs)
  then show ?thesis using destructor_and_dead_loop [THEN conjunct1, rule_format, OF s(1) _ s(2)] by auto
qed

end
