(* ===== verification/RN_ThreadLocal.thy ===== *)
theory RN_ThreadLocal
  imports RN_Prelude
begin

text \<open>
  RN/base/Singleton.h, ThreadLocal.h and ThreadLocalSingleton.h: objects made on first use, once for the process or once for each thread. An object is the
  number of its creation; \<open>pthread_once\<close>, \<open>atexit\<close> and the thread keys are modelled by what they promise.
\<close>

subsection \<open>Singleton\<close>

record singleton =
  sg_once :: bool
  sg_value :: "nat option"
  sg_atexit :: bool
  sg_made :: nat

definition Singleton_start :: singleton where
  "Singleton_start = \<lparr>sg_once = False, sg_value = None, sg_atexit = False, sg_made = 0\<rparr>"

text \<open>\<open>no_destroy\<close> is \<open>has_no_destroy<T>::value\<close>.\<close>

definition Singleton_init :: "bool \<Rightarrow> singleton \<Rightarrow> singleton" where
  "Singleton_init no_destroy s = s\<lparr>sg_value := Some (sg_made s), sg_made := sg_made s + 1, sg_atexit := sg_atexit s \<or> \<not> no_destroy\<rparr>"

definition Singleton_instance :: "bool \<Rightarrow> singleton \<Rightarrow> (nat \<times> singleton) result" where
  "Singleton_instance no_destroy s =
     (let s = (if sg_once s then s else Singleton_init no_destroy (s\<lparr>sg_once := True\<rparr>))
      in case sg_value s of None \<Rightarrow> Inl AssertFailed | Some v \<Rightarrow> Inr (v, s))"

definition Singleton_destroy :: "singleton \<Rightarrow> singleton" where
  "Singleton_destroy s = s\<lparr>sg_value := None\<rparr>"

text \<open>The end of the process runs the handlers registered with \<open>atexit\<close>.\<close>

definition process_exit :: "singleton \<Rightarrow> singleton" where
  "process_exit s = (if sg_atexit s then Singleton_destroy s else s)"

fun instances :: "nat \<Rightarrow> bool \<Rightarrow> singleton \<Rightarrow> (nat list \<times> singleton) result" where
  "instances 0 nd s = Inr ([], s)"
| "instances (Suc n) nd s = rbind (Singleton_instance nd s) (\<lambda>(v, s). rbind (instances n nd s) (\<lambda>(vs, s). Inr (v # vs, s)))"

lemma instances_made: "sg_once s \<Longrightarrow> sg_value s = Some v \<Longrightarrow> instances n nd s = Inr (replicate n v, s)"
  by (induction n) (simp_all add: Singleton_instance_def)

subsection \<open>ThreadLocal\<close>

text \<open>The key's values per thread, and the objects deleted.\<close>

record thread_local =
  tl_values :: "nat \<Rightarrow> nat option"
  tl_made :: nat
  tl_deleted :: "nat list"
  tl_key :: bool

definition ThreadLocal_new :: thread_local where
  "ThreadLocal_new = \<lparr>tl_values = (\<lambda>_. None), tl_made = 0, tl_deleted = [], tl_key = True\<rparr>"

definition tl_value :: "nat \<Rightarrow> thread_local \<Rightarrow> nat \<times> thread_local" where
  "tl_value t s =
     (case tl_values s t of
        Some v \<Rightarrow> (v, s)
      | None \<Rightarrow> (tl_made s, s\<lparr>tl_values := (tl_values s)(t \<mapsto> tl_made s), tl_made := tl_made s + 1\<rparr>))"

definition tl_destructor :: "nat \<Rightarrow> thread_local \<Rightarrow> thread_local" where
  "tl_destructor v s = s\<lparr>tl_deleted := tl_deleted s @ [v]\<rparr>"

text \<open>The end of a thread clears its value and calls the destructor, as long as the key exists; deleting the key calls nothing.\<close>

definition tl_thread_exit :: "nat \<Rightarrow> thread_local \<Rightarrow> thread_local" where
  "tl_thread_exit t s =
     (if tl_key s then (case tl_values s t of Some v \<Rightarrow> tl_destructor v (s\<lparr>tl_values := (tl_values s)(t := None)\<rparr>) | None \<Rightarrow> s) else s)"

definition ThreadLocal_destroy :: "thread_local \<Rightarrow> thread_local" where
  "ThreadLocal_destroy s = s\<lparr>tl_key := False\<rparr>"

subsection \<open>ThreadLocalSingleton\<close>

text \<open>The thread-local pointer and, per thread, the pointer stored under the deleter's key.\<close>

record tls =
  ts_value :: "nat \<Rightarrow> nat option"
  ts_key :: "nat \<Rightarrow> nat option"
  ts_made :: nat
  ts_deleted :: "nat list"

definition tls_start :: tls where
  "tls_start = \<lparr>ts_value = (\<lambda>_. None), ts_key = (\<lambda>_. None), ts_made = 0, ts_deleted = []\<rparr>"

definition Deleter_set :: "nat \<Rightarrow> nat \<Rightarrow> tls \<Rightarrow> tls result" where
  "Deleter_set t obj s = rassert (ts_key s t = None) (Inr (s\<lparr>ts_key := (ts_key s)(t \<mapsto> obj)\<rparr>))"

definition tls_instance :: "nat \<Rightarrow> tls \<Rightarrow> (nat \<times> tls) result" where
  "tls_instance t s =
     (case ts_value s t of
        Some v \<Rightarrow> Inr (v, s)
      | None \<Rightarrow>
          (let newObj = ts_made s
           in rbind (Deleter_set t newObj (s\<lparr>ts_value := (ts_value s)(t \<mapsto> newObj), ts_made := newObj + 1\<rparr>)) (\<lambda>s. Inr (newObj, s))))"

definition tls_pointer :: "nat \<Rightarrow> tls \<Rightarrow> nat option" where
  "tls_pointer t s = ts_value s t"

definition tls_destructor :: "nat \<Rightarrow> nat \<Rightarrow> tls \<Rightarrow> tls result" where
  "tls_destructor t obj s =
     rassert (ts_value s t = Some obj) (Inr (s\<lparr>ts_deleted := ts_deleted s @ [obj], ts_value := (ts_value s)(t := None)\<rparr>))"

definition tls_thread_exit :: "nat \<Rightarrow> tls \<Rightarrow> tls result" where
  "tls_thread_exit t s =
     (case ts_key s t of None \<Rightarrow> Inr s | Some obj \<Rightarrow> tls_destructor t obj (s\<lparr>ts_key := (ts_key s)(t := None)\<rparr>))"

datatype tls_op = Instance nat | Thread_exit nat

fun tls_exec :: "tls_op \<Rightarrow> tls \<Rightarrow> tls result" where
  "tls_exec (Instance t) s = rbind (tls_instance t s) (\<lambda>(v, s). Inr s)"
| "tls_exec (Thread_exit t) s = tls_thread_exit t s"

text \<open>The key and the pointer agree; live objects are distinct, and each object made is either live or has been deleted, once.\<close>

definition tls_inv :: "tls \<Rightarrow> bool" where
  "tls_inv s \<longleftrightarrow> ts_key s = ts_value s \<and> distinct (ts_deleted s) \<and>
     (\<forall>t u v. ts_value s t = Some v \<and> ts_value s u = Some v \<longrightarrow> t = u) \<and>
     (\<forall>t v. ts_value s t = Some v \<longrightarrow> v < ts_made s \<and> v \<notin> set (ts_deleted s)) \<and>
     (\<forall>v < ts_made s. v \<in> set (ts_deleted s) \<or> (\<exists>t. ts_value s t = Some v)) \<and> (\<forall>v \<in> set (ts_deleted s). v < ts_made s)"

lemma tls_invI:
  assumes "ts_key s = ts_value s" "distinct (ts_deleted s)" "\<And>t u v. ts_value s t = Some v \<Longrightarrow> ts_value s u = Some v \<Longrightarrow> t = u"
    and "\<And>t v. ts_value s t = Some v \<Longrightarrow> v < ts_made s \<and> v \<notin> set (ts_deleted s)"
    and "\<And>v. v < ts_made s \<Longrightarrow> v \<notin> set (ts_deleted s) \<Longrightarrow> \<exists>t. ts_value s t = Some v" "\<And>v. v \<in> set (ts_deleted s) \<Longrightarrow> v < ts_made s"
  shows "tls_inv s"
  using assms unfolding tls_inv_def by blast

lemma tls_invD:
  assumes "tls_inv s"
  shows "ts_key s = ts_value s" and "distinct (ts_deleted s)" and "ts_value s t = Some v \<Longrightarrow> ts_value s u = Some v \<Longrightarrow> t = u"
    and "ts_value s t = Some v \<Longrightarrow> v < ts_made s" and "ts_value s t = Some v \<Longrightarrow> v \<notin> set (ts_deleted s)"
    and "v < ts_made s \<Longrightarrow> v \<notin> set (ts_deleted s) \<Longrightarrow> \<exists>t. ts_value s t = Some v" and "v \<in> set (ts_deleted s) \<Longrightarrow> v < ts_made s"
  using assms unfolding tls_inv_def by blast+

lemma tls_made_inv:
  assumes inv: "tls_inv s" and None: "ts_value s t = None"
  shows "tls_inv (s\<lparr>ts_value := (ts_value s)(t \<mapsto> ts_made s), ts_made := Suc (ts_made s), ts_key := (ts_key s)(t \<mapsto> ts_made s)\<rparr>)"
proof (rule tls_invI)
  fix v
  assume v: "v < ts_made (s\<lparr>ts_value := (ts_value s)(t \<mapsto> ts_made s), ts_made := Suc (ts_made s), ts_key := (ts_key s)(t \<mapsto> ts_made s)\<rparr>)"
    "v \<notin> set (ts_deleted (s\<lparr>ts_value := (ts_value s)(t \<mapsto> ts_made s), ts_made := Suc (ts_made s), ts_key := (ts_key s)(t \<mapsto> ts_made s)\<rparr>))"
  show "\<exists>u. ts_value (s\<lparr>ts_value := (ts_value s)(t \<mapsto> ts_made s), ts_made := Suc (ts_made s), ts_key := (ts_key s)(t \<mapsto> ts_made s)\<rparr>) u = Some v"
  proof (cases "v = ts_made s")
    case False
    then obtain u where "ts_value s u = Some v" using v tls_invD(6) [OF inv, of v] by auto
    then show ?thesis using None by (auto intro!: exI [of _ u])
  qed (auto intro: exI [of _ t])
qed (use tls_invD [OF inv] tls_invD(4) [OF inv, of _ "ts_made s"] tls_invD(7) [OF inv, of "ts_made s"] in \<open>auto split: if_splits intro: less_SucI\<close>)

lemma tls_ended_inv:
  assumes inv: "tls_inv s" and Some: "ts_value s t = Some v"
  shows "tls_inv (s\<lparr>ts_key := (ts_key s)(t := None), ts_deleted := ts_deleted s @ [v], ts_value := (ts_value s)(t := None)\<rparr>)"
proof (rule tls_invI)
  fix w
  assume w: "w < ts_made (s\<lparr>ts_key := (ts_key s)(t := None), ts_deleted := ts_deleted s @ [v], ts_value := (ts_value s)(t := None)\<rparr>)"
    "w \<notin> set (ts_deleted (s\<lparr>ts_key := (ts_key s)(t := None), ts_deleted := ts_deleted s @ [v], ts_value := (ts_value s)(t := None)\<rparr>))"
  then obtain u where "ts_value s u = Some w" "w \<noteq> v" using tls_invD(6) [OF inv, of w] by auto
  then show "\<exists>u. ts_value (s\<lparr>ts_key := (ts_key s)(t := None), ts_deleted := ts_deleted s @ [v], ts_value := (ts_value s)(t := None)\<rparr>) u = Some w"
    using Some by (auto intro!: exI [of _ u])
next
  fix u w
  assume "ts_value (s\<lparr>ts_key := (ts_key s)(t := None), ts_deleted := ts_deleted s @ [v], ts_value := (ts_value s)(t := None)\<rparr>) u = Some w"
  then have "u \<noteq> t" "ts_value s u = Some w" by (auto split: if_splits)
  then show "w < ts_made (s\<lparr>ts_key := (ts_key s)(t := None), ts_deleted := ts_deleted s @ [v], ts_value := (ts_value s)(t := None)\<rparr>) \<and>
      w \<notin> set (ts_deleted (s\<lparr>ts_key := (ts_key s)(t := None), ts_deleted := ts_deleted s @ [v], ts_value := (ts_value s)(t := None)\<rparr>))"
    using tls_invD(3-5) [OF inv] Some by auto
qed (use tls_invD [OF inv] Some in \<open>auto split: if_splits\<close>)

lemma tls_instance_inv:
  assumes "tls_inv s"
  shows "\<exists>v s'. tls_instance t s = Inr (v, s') \<and> tls_inv s' \<and> tls_pointer t s' = Some v"
proof (cases "ts_value s t")
  case (Some v)
  then show ?thesis using assms by (simp add: tls_instance_def tls_pointer_def)
next
  case None
  then have "ts_key s t = None" using tls_invD(1) [OF assms] by simp
  then show ?thesis
    using None tls_made_inv [OF assms None] by (simp add: tls_instance_def Deleter_set_def tls_pointer_def Let_def)
qed

lemma tls_exit_inv:
  assumes "tls_inv s"
  shows "\<exists>s'. tls_thread_exit t s = Inr s' \<and> tls_inv s' \<and> tls_pointer t s' = None \<and>
    ts_deleted s' = ts_deleted s @ (case tls_pointer t s of None \<Rightarrow> [] | Some v \<Rightarrow> [v])"
proof (cases "ts_value s t")
  case None
  then show ?thesis using assms tls_invD(1) [OF assms] by (simp add: tls_thread_exit_def tls_pointer_def)
next
  case (Some v)
  then show ?thesis
    using tls_ended_inv [OF assms Some] tls_invD(1) [OF assms] by (simp add: tls_thread_exit_def tls_destructor_def tls_pointer_def)
qed

lemma tls_run_inv: "tls_inv s \<Longrightarrow> \<exists>s'. rfold tls_exec ps s = Inr s' \<and> tls_inv s'"
proof (induction ps arbitrary: s)
  case (Cons p ps)
  have "\<exists>s1. tls_exec p s = Inr s1 \<and> tls_inv s1"
  proof (cases p)
    case (Instance t)
    then show ?thesis using tls_instance_inv [OF Cons.prems, of t] by auto
  next
    case (Thread_exit t)
    then show ?thesis using tls_exit_inv [OF Cons.prems, of t] by auto
  qed
  then show ?case using Cons.IH by auto
qed simp

subsection \<open>Properties\<close>

text \<open>
  Per-thread singletons: in every sequence of uses and thread ends no assertion fails, every thread has its own object as long as it lives, each
  use in a thread gives that object, and every object made is either still some thread's or has been deleted, exactly once.
\<close>

theorem thread_local_singleton_life:
  "\<exists>s. rfold tls_exec ps tls_start = Inr s \<and> distinct (ts_deleted s) \<and>
     {0 ..< ts_made s} = set (ts_deleted s) \<union> {v. \<exists>t. tls_pointer t s = Some v} \<and>
     (t \<noteq> u \<and> tls_pointer t s \<noteq> None \<longrightarrow> tls_pointer t s \<noteq> tls_pointer u s) \<and>
     (\<forall>v. tls_pointer t s = Some v \<longrightarrow> tls_instance t s = Inr (v, s) \<and> v \<notin> set (ts_deleted s))"
proof -
  have "tls_inv tls_start" by (simp add: tls_inv_def tls_start_def)
  then obtain s where s: "rfold tls_exec ps tls_start = Inr s" "tls_inv s" using tls_run_inv by blast
  note inv = tls_invD [OF s(2)]
  have "{0 ..< ts_made s} = set (ts_deleted s) \<union> {v. \<exists>t. tls_pointer t s = Some v}"
    using inv(4,6,7) by (auto simp: tls_pointer_def)
  moreover have "t \<noteq> u \<and> tls_pointer t s \<noteq> None \<longrightarrow> tls_pointer t s \<noteq> tls_pointer u s"
    using inv(3) by (auto simp: tls_pointer_def)
  moreover have "\<forall>v. tls_pointer t s = Some v \<longrightarrow> tls_instance t s = Inr (v, s) \<and> v \<notin> set (ts_deleted s)"
    using inv(5) by (auto simp: tls_pointer_def tls_instance_def)
  ultimately show ?thesis using s(1) inv(2) by blast
qed

lemma thread_local_singleton_life_witness:
  "\<exists>s. rfold tls_exec [Instance 1, Instance 2, Instance 1, Thread_exit 1] tls_start = Inr s \<and> distinct (ts_deleted s)"
  using thread_local_singleton_life [of "[Instance 1, Instance 2, Instance 1, Thread_exit 1]"] by blast

text \<open>
  The process-wide singleton: any number of uses make one object and all return it; at the end of the process it is destroyed unless its type opts
  out, and a use after that fails an assertion.
\<close>

theorem singleton_one_object:
  "\<exists>s. instances (Suc n) nd Singleton_start = Inr (replicate (Suc n) 0, s) \<and> sg_made s = 1 \<and>
     (nd \<longrightarrow> Singleton_instance nd (process_exit s) = Inr (0, s)) \<and> (\<not> nd \<longrightarrow> Singleton_instance nd (process_exit s) = Inl AssertFailed)"
proof -
  define s where "s = \<lparr>sg_once = True, sg_value = Some 0, sg_atexit = (\<not> nd), sg_made = 1\<rparr>"
  have "Singleton_instance nd Singleton_start = Inr (0, s)"
    by (simp add: Singleton_instance_def Singleton_start_def Singleton_init_def s_def)
  then have "instances (Suc n) nd Singleton_start = Inr (replicate (Suc n) 0, s)"
    using instances_made [of s 0 n nd] by (simp add: s_def)
  then show ?thesis by (auto simp: s_def process_exit_def Singleton_destroy_def Singleton_instance_def)
qed

lemma singleton_one_object_witness: "\<exists>s. instances (Suc 2) False Singleton_start = Inr ([0, 0, 0], s)"
  using singleton_one_object [of 2 False] by (auto simp: numeral_2_eq_2)

end
