(* ===== verification/RN_LoopProgram.thy ===== *)
theory RN_LoopProgram
  imports RN_EventLoop
begin

text \<open>
  Programs that run a single loop, as the test programs of the directory RN/net do, with the loop's own two channels (the timer descriptor's and the
  wake-up descriptor's) and channels of the program that are only read. The locale states what such a program's callbacks and functors have to keep, and gives what the whole of
  \<open>EventLoop::loop\<close> then keeps, whatever the kernel reports and whenever.
\<close>

subsection \<open>A poll, in general\<close>

lemma store_events_revt: "\<exists>r. heap (store_events s ps) c = set_revents r (heap s c)"
proof (induction ps arbitrary: s)
  case Nil
  have "heap s c = set_revents (revents (heap s c)) (heap s c)" by (simp add: set_revents_def)
  then show ?case by auto
next
  case (Cons p ps)
  obtain r where "heap (store_events s (p # ps)) c = set_revents r
      (heap (s\<lparr>heap := (heap s)(owner s p := set_revents (scast (pfd_revents p)) (heap s (owner s p)))\<rparr>) c)"
    using Cons.IH by (metis store_events_simps(2))
  then show ?case by (cases "c = owner s p") (auto simp: set_revents_def)
qed

lemma poll_frame:
  assumes inv: "poller_inv p" and contract: "poll_contract (pollfds p) n rs"
  shows "\<exists>t active. Poller_poll p (Poll_ok n rs) [] = Inr (t, active) \<and> poller_inv t \<and> channels t = channels p \<and> threadId t = threadId p \<and>
    map pfd_fd (pollfds t) = map pfd_fd (pollfds p) \<and> set active \<subseteq> snd ` set (channels p) \<and> (\<forall>c. \<exists>r. heap t c = set_revents r (heap p c))"
proof -
  let ?ps = "store_revents (pollfds p) rs"
  have len: "length rs = length (pollfds p)" using contract by (simp add: poll_contract_def)
  define t where "t = store_events (p\<lparr>pollfds := ?ps\<rparr>) (filter ready ?ps)"
  have poll: "Poller_poll p (Poll_ok n rs) [] = Inr (t, map (owner p) (filter ready ?ps))"
    using poll_ok [OF inv contract, of "[]"] by (simp add: t_def)
  have "poller_step (threadId p) p t" by (rule poller_step.poll [OF contract poll])
  from poller_step_inv [OF this inv refl] have "poller_inv t" by (rule conjunct1)
  moreover have "owner p q \<in> snd ` set (channels p)" if "q \<in> set ?ps" "ready q" for q
  proof -
    have "owned_by_channel p q" using slot_in_store [OF inv len that(1)] poll_contract_ready(2) [OF contract that] by simp
    then have "(pfd_fd q, owner p q) \<in> set (channels p)" by (simp add: owned_by_channel_def map_of_SomeD)
    then show ?thesis by force
  qed
  moreover have "\<exists>r. heap t c = set_revents r (heap p c)" for c
    using store_events_revt [of "p\<lparr>pollfds := ?ps\<rparr>" "filter ready ?ps" c] by (simp add: t_def)
  ultimately show ?thesis using poll map_fd_store_revents [OF len]
    by (intro exI [of _ t] exI [of _ "map (owner p) (filter ready ?ps)"]) (auto simp: t_def)
qed

subsection \<open>A loop with its channels\<close>

text \<open>
  The poller holds the channels \<open>ct\<close> of the timer queue and \<open>cw\<close> of the wake-up trigger, and those of the program with the read callbacks \<open>uc\<close>
  gives, on the slots of the descriptors \<open>fds\<close>.
\<close>

definition callbacks_of :: "'c channel \<Rightarrow> 'c option \<times> 'c option \<times> 'c option \<times> 'c option" where
  "callbacks_of ch = (readCallback ch, writeCallback ch, errorCallback ch, closeCallback ch)"

lemma callbacks_of_simps [simp]:
  "callbacks_of (set_revents r ch) = callbacks_of ch" "callbacks_of (ch\<lparr>eventHandling := b\<rparr>) = callbacks_of ch"
  by (simp_all add: callbacks_of_def set_revents_def)

definition user_channels :: "(nat \<Rightarrow> 'c option) \<Rightarrow> (nat \<Rightarrow> 'c callback_of channel) \<Rightarrow> bool" where
  "user_channels uc h \<longleftrightarrow> (\<forall>c. uc c \<noteq> None \<longrightarrow> callbacks_of (h c) = (map_option User_callback (uc c), None, None, None))"

lemma user_channels_frame: "user_channels uc h \<Longrightarrow> (\<And>c. callbacks_of (h' c) = callbacks_of (h c)) \<Longrightarrow> user_channels uc h'"
  by (simp add: user_channels_def)

lemma user_channels_empty [simp]: "user_channels Map.empty h"
  by (simp add: user_channels_def)

definition own_loop :: "(nat \<Rightarrow> 'c option) \<Rightarrow> nat \<Rightarrow> nat \<Rightarrow> int list \<Rightarrow> ('f, 'c, 'w) evloop_scheme \<Rightarrow> bool" where
  "own_loop uc ct cw fds l \<longleftrightarrow> ct \<noteq> cw \<and> poller_inv (el_poller l) \<and> snd ` set (channels (el_poller l)) \<subseteq> {ct, cw} \<union> dom uc \<and>
     map pfd_fd (pollfds (el_poller l)) = fds \<and> ct \<notin> dom uc \<and> cw \<notin> dom uc \<and>
     callbacks_of (heap (el_poller l) ct) = (Some Timer_handleRead, None, None, None) \<and>
     callbacks_of (heap (el_poller l) cw) = (None, Some Wakeup_handleRead, None, None) \<and>
     user_channels uc (heap (el_poller l))"

text \<open>What the kernel may report: an error of \<open>poll\<close>, or any events on the slots; the timer descriptor is read whole.\<close>

definition event_input :: "int list \<Rightarrow> input \<Rightarrow> bool" where
  "event_input fds inp \<longleftrightarrow> in_timer_read inp = 8 \<and> 0 < in_timer_now inp \<and>
     (case in_poll inp of Poll_error \<Rightarrow> True
      | Poll_ok n rs \<Rightarrow> length rs = length fds \<and> list_all2 (\<lambda>f r. (f < 0 \<longrightarrow> r = 0) \<and> 0 \<le> sint r) fds rs \<and>
          n = int (length (filter (\<lambda>r. r \<noteq> 0) rs)))"

lemma own_loop_user:
  assumes "own_loop uc ct cw fds l" and "uc c = Some u"
  shows "callbacks_of (heap (el_poller l) c) = (Some (User_callback u), None, None, None)"
proof -
  have "user_channels uc (heap (el_poller l))" using assms(1) by (simp add: own_loop_def)
  then show ?thesis using assms(2) by (simp add: user_channels_def)
qed

text \<open>
  Which callbacks of the program the events of a poll lead to: those of its channels whose descriptor is readable, in the order of the slots. A channel without a
  callback of the program contributes none.
\<close>

definition read_of :: "(nat \<Rightarrow> 'c option) \<Rightarrow> nat \<Rightarrow> 32 word \<Rightarrow> 'c list" where
  "read_of uc c r = (if has_flag r (POLLIN OR POLLPRI OR POLLRDHUP) then (case uc c of None \<Rightarrow> [] | Some u \<Rightarrow> [u]) else [])"

definition slot_reads :: "(int \<Rightarrow> nat option) \<Rightarrow> (nat \<Rightarrow> 'c option) \<Rightarrow> int \<Rightarrow> 16 word \<Rightarrow> 'c list" where
  "slot_reads chs uc fd r = (case chs fd of None \<Rightarrow> [] | Some c \<Rightarrow> read_of uc c (scast r))"

definition reads :: "(int \<Rightarrow> nat option) \<Rightarrow> (nat \<Rightarrow> 'c option) \<Rightarrow> int list \<Rightarrow> input \<Rightarrow> 'c list" where
  "reads chs uc fds inp = (case in_poll inp of Poll_error \<Rightarrow> [] | Poll_ok n rs \<Rightarrow> concat (map2 (slot_reads chs uc) fds rs))"

lemma read_of_zero [simp]: "read_of uc c 0 = []"
  by (simp add: read_of_def has_flag_def)

lemma poll_reads:
  assumes inv: "poller_inv p" and contract: "poll_contract (pollfds p) n rs" and poll: "Poller_poll p (Poll_ok n rs) [] = Inr (t, active)"
  shows "concat (map (\<lambda>c. read_of uc c (revents (heap t c))) active) =
    concat (map2 (slot_reads (map_of (channels p)) uc) (map pfd_fd (pollfds p)) rs)"
proof -
  let ?ps = "store_revents (pollfds p) rs" let ?p = "p\<lparr>pollfds := ?ps\<rparr>"
  have len: "length rs = length (pollfds p)" using contract by (simp add: poll_contract_def)
  have t: "t = store_events ?p (filter ready ?ps)" "active = map (owner p) (filter ready ?ps)" and D: "distinct (map (owner p) (filter ready ?ps))"
    using poll_ok [OF inv contract, of "[]"] poll by auto
  have own: "owner ?p = owner p" by (rule ext) (simp add: owner_def)
  have stored: "revents (heap t (owner p q)) = scast (pfd_revents q)" if "q \<in> set (filter ready ?ps)" for q
    using store_events_revents [of ?p "filter ready ?ps"] D that unfolding own t(1) by simp
  have owned: "map_of (channels p) (pfd_fd q) = Some (owner p q)" if "q \<in> set ?ps" "ready q" for q
    using slot_in_store [OF inv len that(1)] poll_contract_ready(2) [OF contract that] by (simp add: owned_by_channel_def)
  have idle: "pfd_revents q = 0" if "q \<in> set ?ps" "\<not> ready q" for q
    using poll_contract_ready(3) [OF contract that(1)] that(2) by simp
  have "concat (map (\<lambda>c. read_of uc c (revents (heap t c))) (map (owner p) (filter ready qs))) =
      concat (map (\<lambda>q. slot_reads (map_of (channels p)) uc (pfd_fd q) (pfd_revents q)) qs)" if "set qs \<subseteq> set ?ps" for qs
    using that
  proof (induction qs)
    case (Cons q qs)
    then show ?case using stored [of q] owned [of q] idle [of q] by (auto simp: slot_reads_def split: option.split)
  qed simp
  from this [OF subset_refl] show ?thesis
    unfolding t(2) using len by (simp add: store_revents_zip map2_map_map o_def case_prod_beta' zip_map1)
qed

lemma own_loop_poll:
  assumes own: "own_loop uc ct cw fds l" and inp: "event_input fds inp"
  shows "\<exists>p active. poll_channels inp (l\<lparr>activeChannels := []\<rparr>) = Inr (l\<lparr>el_poller := p, activeChannels := active\<rparr>) \<and>
    own_loop uc ct cw fds (l\<lparr>el_poller := p, activeChannels := active\<rparr>) \<and> set active \<subseteq> {ct, cw} \<union> dom uc \<and> channels p = channels (el_poller l) \<and>
    concat (map (\<lambda>c. read_of uc c (revents (heap p c))) active) = reads (map_of (channels (el_poller l))) uc fds inp"
proof (cases "in_poll inp")
  case Poll_error
  then show ?thesis using own
    by (intro exI [of _ "el_poller l"] exI [of _ "[]"]) (simp add: poll_channels_def Poller_poll_def own_loop_def reads_def)
next
  case (Poll_ok n rs)
  have fds: "map pfd_fd (pollfds (el_poller l)) = fds" using own by (simp add: own_loop_def)
  have inv: "poller_inv (el_poller l)" using own by (simp add: own_loop_def)
  have contract: "poll_contract (pollfds (el_poller l)) n rs"
    using inp Poll_ok by (auto simp: event_input_def poll_contract_def list_all2_map1 simp flip: fds)
  obtain t active where t: "Poller_poll (el_poller l) (in_poll inp) [] = Inr (t, active)" "poller_inv t"
      "channels t = channels (el_poller l)" "map pfd_fd (pollfds t) = fds" "set active \<subseteq> snd ` set (channels (el_poller l))"
      "\<forall>c. \<exists>r. heap t c = set_revents r (heap (el_poller l) c)"
    using poll_frame [OF inv contract, unfolded fds, folded Poll_ok] by (elim exE conjE) (rule that)
  have "snd ` set (channels (el_poller l)) \<subseteq> {ct, cw} \<union> dom uc" using own unfolding own_loop_def by (elim conjE)
  with t(5) have active: "set active \<subseteq> {ct, cw} \<union> dom uc" by (rule order_trans)
  have same: "callbacks_of (heap t c) = callbacks_of (heap (el_poller l) c)" for c
  proof -
    from t(6) obtain r where "heap t c = set_revents r (heap (el_poller l) c)" by blast
    then show ?thesis by simp
  qed
  have "user_channels uc (heap (el_poller l))" using own by (simp add: own_loop_def)
  then have "user_channels uc (heap t)" by (rule user_channels_frame) (rule same)
  then have "own_loop uc ct cw fds (l\<lparr>el_poller := t, activeChannels := active\<rparr>)"
    using own t(2-4) by (simp add: own_loop_def same)
  moreover have "concat (map (\<lambda>c. read_of uc c (revents (heap t c))) active) = reads (map_of (channels (el_poller l))) uc fds inp"
    using poll_reads [OF inv contract t(1) [unfolded Poll_ok], of uc] by (simp add: reads_def Poll_ok fds)
  ultimately show ?thesis using t(1,3) active
    by (intro exI [of _ t] exI [of _ active]) (simp add: poll_channels_def)
qed

lemma own_loop_store:
  assumes "own_loop uc ct cw fds l" and "heap (el_poller l) c = ch"
  shows "own_loop uc ct cw fds (store_channel c (ch\<lparr>eventHandling := b\<rparr>) l)"
proof -
  let ?h = "(heap (el_poller l))(c := ch\<lparr>eventHandling := b\<rparr>)"
  have same: "callbacks_of (?h d) = callbacks_of (heap (el_poller l) d)" for d using assms(2) by simp
  have "poller_inv ((el_poller l)\<lparr>heap := ?h\<rparr>)"
    by (rule poller_inv_frame [of "el_poller l"]) (use assms in \<open>auto simp: own_loop_def\<close>)
  moreover have "user_channels uc ?h"
    by (rule user_channels_frame [OF _ same]) (use assms(1) in \<open>simp add: own_loop_def\<close>)
  moreover have "callbacks_of (?h ct) = (Some Timer_handleRead, None, None, None)" "callbacks_of (?h cw) = (None, Some Wakeup_handleRead, None, None)"
    unfolding same using assms(1) by (simp_all add: own_loop_def)
  ultimately show ?thesis using assms(1) by (simp add: own_loop_def store_channel_def)
qed

text \<open>The loop goes on from the \<open>poll\<close> in which it waits, whatever other threads have done to it meanwhile: it tests \<open>quit_\<close> only after that iteration.\<close>

definition resume_poll ::
  "('f, 'c, 'w) env \<Rightarrow> input list \<Rightarrow> ('f, 'c, 'w) evloop_scheme \<Rightarrow> (('f, 'c, 'w) evloop_scheme \<times> bool) result" where
  "resume_poll env inps l = (case inps of [] \<Rightarrow> Inr (l, False) | inp # inps \<Rightarrow> rbind (loop_iteration env inp l) (loop_while env inps))"

text \<open>What a handler leaves of the poller.\<close>

definition polled_as :: "('f, 'c, 'w) evloop_scheme \<Rightarrow> ('f, 'c, 'w) evloop_scheme \<Rightarrow> bool" where
  "polled_as l l' \<longleftrightarrow> channels (el_poller l') = channels (el_poller l) \<and> (\<forall>d. revents (heap (el_poller l') d) = revents (heap (el_poller l) d))"

lemma polled_as_store [simp]: "polled_as l (store_channel c ((heap (el_poller l) c)\<lparr>eventHandling := b\<rparr>) l)"
  by (simp add: polled_as_def store_channel_def)

subsection \<open>The contract of a program\<close>

text \<open>
  \<open>K\<close> holds between the iterations, \<open>J\<close> while the handlers of an iteration run; neither speaks of the poller. Both may speak of the read callbacks of the program that
  have been called so far, in their order. Handling the timer descriptor keeps \<open>J\<close>, handling a channel of the program keeps it with one callback more, and
  running the pending functors leads back to \<open>K\<close>.
\<close>

locale loop_reads =
  fixes env :: "('f, 'c, 'w) env" and uc :: "nat \<Rightarrow> 'c option" and J K :: "'c list \<Rightarrow> ('f, 'c, 'w) evloop_scheme \<Rightarrow> bool"
  assumes K_J: "K us l \<Longrightarrow> J us l"
    and stable: "J us (l\<lparr>el_poller := p\<rparr>) \<longleftrightarrow> J us l" "J us (l\<lparr>activeChannels := active\<rparr>) \<longleftrightarrow> J us l" "J us (l\<lparr>wakeupfd := n\<rparr>) \<longleftrightarrow> J us l"
    and timer: "J us l \<Longrightarrow> in_timer_read (inp :: input) = 8 \<Longrightarrow> 0 < in_timer_now inp \<Longrightarrow>
      \<exists>l'. timer_handleRead (run_user env) (rounding env) (tq_thread l) (in_timer_now inp) (in_timer_read inp) (in_timer_clock inp) l = Inr l' \<and>
        J us l' \<and> el_poller l' = el_poller l"
    and event: "J us l \<Longrightarrow> u \<in> ran uc \<Longrightarrow>
      \<exists>l'. user_event env (Call_read (User_callback u) time) l = Inr l' \<and> J (us @ [u]) l' \<and> el_poller l' = el_poller l"
    and functors: "J us l \<Longrightarrow> \<exists>l'. doPendingFunctors env l = Inr l' \<and> K us l' \<and> el_poller l' = el_poller l"
begin

lemma own_channel:
  assumes own: "own_loop uc ct cw fds l" and J: "J us l" and inp: "event_input fds inp" and c: "c \<in> {ct, cw} \<union> dom uc"
  shows "\<exists>l'. handle_channel env inp c l = Inr l' \<and> own_loop uc ct cw fds l' \<and> J (us @ read_of uc c (revents (heap (el_poller l) c))) l' \<and> polled_as l l'"
proof -
  let ?ch = "heap (el_poller l) c"
  define l1 where "l1 = store_channel c (?ch\<lparr>eventHandling := True\<rparr>) l"
  have own1: "own_loop uc ct cw fds l1" and J1: "J us l1" and p1: "polled_as l l1"
    using own_loop_store [OF own refl] J by (simp_all add: l1_def store_channel_def stable polled_as_def)
  have idle: "own_loop uc ct cw fds (store_channel c (?ch\<lparr>eventHandling := False\<rparr>) l)" "J us (store_channel c (?ch\<lparr>eventHandling := False\<rparr>) l)"
    using own_loop_store [OF own refl] J by (simp_all add: store_channel_def stable)
  have finish: "\<exists>l'. rbind (Inr m) (\<lambda>m. Inr (store_channel c ((heap (el_poller m) c)\<lparr>eventHandling := False\<rparr>) m)) = Inr l' \<and> own_loop uc ct cw fds l' \<and>
      J vs l' \<and> polled_as l l'" if "own_loop uc ct cw fds m" "J vs m" "polled_as l m" for m vs
    using own_loop_store [OF that(1) refl] that(2,3) by (simp add: store_channel_def stable polled_as_def)
  consider "c = ct" | "c = cw" | u where "uc c = Some u" using c by auto
  then show ?thesis
  proof cases
    case 1
    then have cb: "readCallback ?ch = Some Timer_handleRead" "writeCallback ?ch = None" "errorCallback ?ch = None" "closeCallback ?ch = None"
      and "c \<notin> dom uc"
      using own by (auto simp: own_loop_def callbacks_of_def)
    then have none: "read_of uc c r = []" for r by (auto simp: read_of_def split: option.split)
    have "in_timer_read inp = 8" "0 < in_timer_now inp" using inp by (simp_all add: event_input_def)
    then obtain l2 where l2: "invoke env inp (Call_read Timer_handleRead (in_time inp)) l1 = Inr l2" "J us l2" "el_poller l2 = el_poller l1"
      using timer [OF J1, of inp] by (auto simp: invoke_def)
    have own2: "own_loop uc ct cw fds l2" "polled_as l l2" using own1 p1 l2(3) by (simp_all add: own_loop_def polled_as_def)
    then have "writeCallback (heap (el_poller l2) c) = None" using 1 by (simp add: own_loop_def callbacks_of_def)
    with finish [OF own2(1) l2(2) own2(2)] show ?thesis using l2(1) idle cb none
      by (auto simp: handle_channel_def handleEvent_def call_if_set_def simp flip: l1_def)
  next
    case 3
    have cb: "readCallback ?ch = Some (User_callback u)" "writeCallback ?ch = None" "errorCallback ?ch = None" "closeCallback ?ch = None"
      using own_loop_user [OF own 3] by (simp_all add: callbacks_of_def)
    obtain l2 where l2: "invoke env inp (Call_read (User_callback u) (in_time inp)) l1 = Inr l2" "J (us @ [u]) l2" "el_poller l2 = el_poller l1"
      using event [OF J1, of u "in_time inp"] ranI [of uc, OF 3] by (auto simp: invoke_def)
    have own2: "own_loop uc ct cw fds l2" "polled_as l l2" using own1 p1 l2(3) by (simp_all add: own_loop_def polled_as_def)
    then have "writeCallback (heap (el_poller l2) c) = None" using own_loop_user [OF own2(1) 3] by (simp add: callbacks_of_def)
    with finish [OF own2(1) l2(2) own2(2)] show ?thesis using l2(1) idle cb 3
      by (auto simp: handle_channel_def handleEvent_def call_if_set_def read_of_def simp flip: l1_def)
  next
    case 2
    then have cb: "readCallback ?ch = None" "writeCallback ?ch = Some Wakeup_handleRead" "errorCallback ?ch = None" "closeCallback ?ch = None"
      and "c \<notin> dom uc"
      using own by (auto simp: own_loop_def callbacks_of_def)
    then have none: "read_of uc c r = []" for r by (auto simp: read_of_def split: option.split)
    have "own_loop uc ct cw fds (wakeup_handleRead l1)" "J us (wakeup_handleRead l1)" "polled_as l (wakeup_handleRead l1)"
      using own1 J1 p1 by (simp_all add: wakeup_handleRead_def own_loop_def stable polled_as_def)
    from finish [OF this] show ?thesis using idle cb none
      by (auto simp: handle_channel_def handleEvent_def call_if_set_def invoke_def simp flip: l1_def)
  qed
qed

lemma own_channels:
  "own_loop uc ct cw fds l \<Longrightarrow> J us l \<Longrightarrow> event_input fds inp \<Longrightarrow> set cs \<subseteq> {ct, cw} \<union> dom uc \<Longrightarrow>
    \<exists>l'. rfold (handle_channel env inp) cs l = Inr l' \<and> own_loop uc ct cw fds l' \<and>
      J (us @ concat (map (\<lambda>c. read_of uc c (revents (heap (el_poller l) c))) cs)) l' \<and> channels (el_poller l') = channels (el_poller l)"
proof (induction cs arbitrary: l us)
  case (Cons c cs)
  obtain l1 where l1: "handle_channel env inp c l = Inr l1" "own_loop uc ct cw fds l1" "J (us @ read_of uc c (revents (heap (el_poller l) c))) l1" "polled_as l l1"
    using own_channel [OF Cons.prems(1-3), of c] Cons.prems(4) by auto
  then show ?case using Cons.IH [OF l1(2,3)] Cons.prems(3,4) by (auto simp: polled_as_def)
qed simp

lemma iteration:
  assumes "own_loop uc ct cw fds l" and "J us l" and "event_input fds inp"
  shows "\<exists>l'. loop_iteration env inp l = Inr l' \<and> own_loop uc ct cw fds l' \<and> K (us @ reads (map_of (channels (el_poller l))) uc fds inp) l' \<and>
    channels (el_poller l') = channels (el_poller l)"
proof -
  obtain p active where p: "poll_channels inp (l\<lparr>activeChannels := []\<rparr>) = Inr (l\<lparr>el_poller := p, activeChannels := active\<rparr>)"
      "own_loop uc ct cw fds (l\<lparr>el_poller := p, activeChannels := active\<rparr>)" "set active \<subseteq> {ct, cw} \<union> dom uc" "channels p = channels (el_poller l)"
      "concat (map (\<lambda>c. read_of uc c (revents (heap p c))) active) = reads (map_of (channels (el_poller l))) uc fds inp"
    using own_loop_poll [OF assms(1,3)] by blast
  have "J us (l\<lparr>el_poller := p, activeChannels := active\<rparr>)" using assms(2) by (simp add: stable)
  then obtain l2 where l2: "rfold (handle_channel env inp) active (l\<lparr>el_poller := p, activeChannels := active\<rparr>) = Inr l2"
      "own_loop uc ct cw fds l2" "J (us @ reads (map_of (channels (el_poller l))) uc fds inp) l2" "channels (el_poller l2) = channels (el_poller l)"
    using own_channels [OF p(2) _ assms(3) p(3), of us] p(4,5) by auto
  obtain l3 where "doPendingFunctors env l2 = Inr l3" "K (us @ reads (map_of (channels (el_poller l))) uc fds inp) l3" "el_poller l3 = el_poller l2"
    using functors [OF l2(3)] by blast
  then show ?thesis using p(1) l2 by (auto simp: loop_iteration_def own_loop_def)
qed

text \<open>The loop never faults; it returns at the first iteration that leaves \<open>quit_\<close> set, and otherwise is still polling and has done all the reads.\<close>

lemma runs:
  assumes "own_loop uc ct cw fds l" and "K us l" and "\<forall>inp\<in>set inps. event_input fds inp"
  shows "\<exists>m seen. own_loop uc ct cw fds m \<and> K (us @ concat (map (reads (map_of (channels (el_poller l))) uc fds) seen)) m \<and>
    loop_while env inps l = Inr (if quit m then m\<lparr>looping := False\<rparr> else m, quit m) \<and> (\<not> quit m \<longrightarrow> seen = inps)"
  using assms
proof (induction inps arbitrary: l us)
  case Nil
  then show ?case by (intro exI [of _ l] exI [of _ "[]"]) (simp add: loop_while.simps)
next
  case (Cons inp inps)
  show ?case
  proof (cases "quit l")
    case True
    then show ?thesis using Cons.prems by (intro exI [of _ l] exI [of _ "[]"]) (simp add: loop_while.simps)
  next
    case False
    obtain l1 where l1: "loop_iteration env inp l = Inr l1" "own_loop uc ct cw fds l1" "K (us @ reads (map_of (channels (el_poller l))) uc fds inp) l1"
        "channels (el_poller l1) = channels (el_poller l)"
      using iteration [OF Cons.prems(1) K_J [OF Cons.prems(2)], of inp] Cons.prems(3) by auto
    obtain m seen where m: "own_loop uc ct cw fds m"
        "K ((us @ reads (map_of (channels (el_poller l))) uc fds inp) @ concat (map (reads (map_of (channels (el_poller l))) uc fds) seen)) m"
        "loop_while env inps l1 = Inr (if quit m then m\<lparr>looping := False\<rparr> else m, quit m)" "\<not> quit m \<longrightarrow> seen = inps"
      using Cons.IH [OF l1(2,3)] Cons.prems(3) l1(4) by auto
    then show ?thesis using False l1(1) by (intro exI [of _ m] exI [of _ "inp # seen"]) (simp add: loop_while.simps [of env "inp # inps"])
  qed
qed

lemma resumes:
  assumes "own_loop uc ct cw fds l" and "J us l" and "\<forall>inp\<in>set inps. event_input fds inp" and "inps \<noteq> []"
  shows "\<exists>m vs. own_loop uc ct cw fds m \<and> K vs m \<and> resume_poll env inps l = Inr (if quit m then m\<lparr>looping := False\<rparr> else m, quit m)"
proof -
  obtain inp rest where inps: "inps = inp # rest" using assms(4) by (cases inps) auto
  obtain l1 vs where l1: "loop_iteration env inp l = Inr l1" "own_loop uc ct cw fds l1" "K vs l1"
    using iteration [OF assms(1,2), of inp] assms(3) inps by auto
  then show ?thesis using runs [OF l1(2,3), of rest] assms(3) inps by (auto simp: resume_poll_def)
qed

end

text \<open>A program whose invariants do not count the callbacks.\<close>

locale loop_program =
  fixes env :: "('f, 'c, 'w) env" and uc :: "nat \<Rightarrow> 'c option" and J K :: "('f, 'c, 'w) evloop_scheme \<Rightarrow> bool"
  assumes K_J: "K l \<Longrightarrow> J l"
    and stable: "J (l\<lparr>el_poller := p\<rparr>) \<longleftrightarrow> J l" "J (l\<lparr>activeChannels := active\<rparr>) \<longleftrightarrow> J l" "J (l\<lparr>wakeupfd := n\<rparr>) \<longleftrightarrow> J l"
    and timer: "J l \<Longrightarrow> in_timer_read (inp :: input) = 8 \<Longrightarrow> 0 < in_timer_now inp \<Longrightarrow>
      \<exists>l'. timer_handleRead (run_user env) (rounding env) (tq_thread l) (in_timer_now inp) (in_timer_read inp) (in_timer_clock inp) l = Inr l' \<and>
        J l' \<and> el_poller l' = el_poller l"
    and event: "J l \<Longrightarrow> u \<in> ran uc \<Longrightarrow> \<exists>l'. user_event env (Call_read (User_callback u) time) l = Inr l' \<and> J l' \<and> el_poller l' = el_poller l"
    and functors: "J l \<Longrightarrow> \<exists>l'. doPendingFunctors env l = Inr l' \<and> K l' \<and> el_poller l' = el_poller l"

sublocale loop_program \<subseteq> counted: loop_reads env uc "\<lambda>us. J" "\<lambda>us. K"
  using K_J stable timer event functors by unfold_locales

context loop_program
begin

lemma runs:
  assumes "own_loop uc ct cw fds l" and "K l" and "\<forall>inp\<in>set inps. event_input fds inp"
  shows "\<exists>m. own_loop uc ct cw fds m \<and> K m \<and> loop_while env inps l = Inr (if quit m then m\<lparr>looping := False\<rparr> else m, quit m)"
  using counted.runs [OF assms] by blast

lemma resumes:
  assumes "own_loop uc ct cw fds l" and "J l" and "\<forall>inp\<in>set inps. event_input fds inp" and "inps \<noteq> []"
  shows "\<exists>m. own_loop uc ct cw fds m \<and> K m \<and> resume_poll env inps l = Inr (if quit m then m\<lparr>looping := False\<rparr> else m, quit m)"
  using counted.resumes [OF assms] by blast

end

subsection \<open>Timers\<close>

lemma tq_inv_fields [simp]:
  "tq_inv (q\<lparr>timerfd := d\<rparr>) \<longleftrightarrow> tq_inv q" "tq_inv (l\<lparr>looping := b\<rparr>) \<longleftrightarrow> tq_inv l" "tq_inv (l\<lparr>quit := b\<rparr>) \<longleftrightarrow> tq_inv l"
  "tq_inv (l\<lparr>el_poller := p\<rparr>) \<longleftrightarrow> tq_inv l" "tq_inv (l\<lparr>pendingFunctors := fs\<rparr>) \<longleftrightarrow> tq_inv l" "tq_inv (l\<lparr>callingPendingFunctors := b\<rparr>) \<longleftrightarrow> tq_inv l"
  "tq_inv (l\<lparr>activeChannels := cs\<rparr>) \<longleftrightarrow> tq_inv l" "tq_inv (l\<lparr>wakeupfd := n\<rparr>) \<longleftrightarrow> tq_inv l"
  by (simp_all add: tq_inv_def)

lemma pending_fields [simp]:
  "pending (q\<lparr>timerfd := d\<rparr>) = pending q" "pending (l\<lparr>looping := b\<rparr>) = pending l" "pending (l\<lparr>quit := b\<rparr>) = pending l"
  "pending (l\<lparr>el_poller := p\<rparr>) = pending l" "pending (l\<lparr>pendingFunctors := fs\<rparr>) = pending l" "pending (l\<lparr>callingPendingFunctors := b\<rparr>) = pending l"
  "pending (l\<lparr>activeChannels := cs\<rparr>) = pending l" "pending (l\<lparr>wakeupfd := n\<rparr>) = pending l"
  by (simp_all add: pending_def)

lemma tq_inv_cong: "tq_inv q \<Longrightarrow> timers q' = timers q \<Longrightarrow> theap q' = theap q \<Longrightarrow> tq_inv q'"
  unfolding tq_inv_def by (elim conjE, intro conjI) (simp_all only:)

lemma remaining_timers:
  assumes "tq_inv q"
  shows "snd ` set (filter (\<lambda>e. t < fst e) (timers q)) = pending q - snd ` set (filter (\<lambda>e. fst e \<le> t) (timers q))"
proof
  show "snd ` set (filter (\<lambda>e. t < fst e) (timers q)) \<subseteq> pending q - snd ` set (filter (\<lambda>e. fst e \<le> t) (timers q))"
    using expired_distinct(2) [OF assms, of t] by (auto simp: pending_def)
  show "pending q - snd ` set (filter (\<lambda>e. fst e \<le> t) (timers q)) \<subseteq> snd ` set (filter (\<lambda>e. t < fst e) (timers q))"
    by (force simp: pending_def)
qed

text \<open>A timer event whose timers do not repeat.\<close>

lemma reset_once:
  assumes "\<forall>e\<in>set es. \<not> repeat (theap q (snd e))"
  shows "\<exists>d. reset rnd clk es now q = Inr (q\<lparr>timerfd := d\<rparr>)"
proof -
  have "rfold (reinsert rnd now) es q = Inr q"
    using assms by (induction es) (simp_all add: reinsert_def)
  moreover have "\<exists>d. (if valid w then resetTimerfd clk w q else q) = q\<lparr>timerfd := d\<rparr>" for w
    by (cases "valid w") (auto simp: resetTimerfd_def intro: exI [of _ "timerfd q"])
  ultimately show ?thesis by (simp add: reset_def Let_def)
qed

text \<open>\<open>runAt\<close>, \<open>runAfter\<close> and \<open>runEvery\<close> on the loop's thread.\<close>

lemma loop_addTimer_own:
  assumes inv: "tq_inv l" and tid: "tq_thread l = tid" and a: "a \<notin> pending l" "a \<noteq> 0" and pos: "0 < when"
  shows "\<exists>ts d. loop_addTimer env tid a cb when i l = Inr (l\<lparr>theap := (theap l)(a := Timer_new cb when i), timers := ts, timerfd := d\<rparr>) \<and>
    tq_inv (l\<lparr>theap := (theap l)(a := Timer_new cb when i), timers := ts, timerfd := d\<rparr>) \<and> set ts = insert (when, a) (set (timers l))"
proof -
  define q where "q = l\<lparr>theap := (theap l)(a := Timer_new cb when i)\<rparr>"
  have q: "tq_inv q" "a \<notin> pending q" "expiration (theap q a) = when" "timers q = timers l" "tq_thread q = tid"
    using inv tid a by (auto simp: q_def tq_inv_def pending_def Timer_new_def)
  obtain q2 ch where q2: "insert_timer a q = Inr (q2, ch)" "tq_inv q2" "q2 = q\<lparr>timers := insort (when, a) (timers l)\<rparr>"
    using insert_timer_ok [OF q(1,2) a(2)] pos q(3,4) by auto
  let ?d = "if ch then Some (clock env a, getTimeFromNow (clock env a) when) else timerfd l"
  have "loop_addTimer env tid a cb when i l = Inr (q2\<lparr>timerfd := ?d\<rparr>)"
    using q2 q(3,5) tid
    by (simp add: loop_addTimer_def addTimer_def addTimerInLoop_def Let_def resetTimerfd_def flip: q_def) (simp add: q_def)
  moreover have "tq_inv (q2\<lparr>timerfd := ?d\<rparr>)" using q2(2) by simp
  ultimately show ?thesis
    by (intro exI [of _ "insort (when, a) (timers l)"] exI [of _ ?d]) (simp add: q2(3) q_def set_insort_key)
qed

text \<open>What handling the timer descriptor keeps of a state, apart from the timers that are due.\<close>

lemma timer_handleRead_keeps:
  assumes P: "\<And>q a. P q \<Longrightarrow> P (q\<lparr>theap := (theap q)(a := restart rnd now (theap q a))\<rparr>)" "\<And>q ts. P (q\<lparr>timers := ts\<rparr>) \<longleftrightarrow> P q"
      "\<And>q d. P (q\<lparr>timerfd := d\<rparr>) \<longleftrightarrow> P q"
    and run: "\<And>f q q'. P q \<Longrightarrow> run f q = Inr q' \<Longrightarrow> P q'"
    and "timer_handleRead run rnd tid now n clk q = Inr q'" and "P q"
  shows "P q'"
proof -
  have ins: "P q2" if "insert_timer a q1 = Inr (q2, ch)" "P q1" for a q1 q2 ch
    using that P(2) by (auto simp: insert_timer_def Let_def rassert_eq_Inr_iff)
  have re: "P q2" if "P q1" "reinsert rnd now e q1 = Inr q2" for e q1 q2
    using that ins P(1) by (auto simp: reinsert_def Let_def rbind_eq_Inr_iff split: if_splits)
  obtain E q1 q2 q3 where q: "getExpired now q = Inr (E, q1)" "run_expired run E q1 = Inr q2" "rfold (reinsert rnd now) E q2 = Inr q3"
      "q' = q3 \<or> (\<exists>when. q' = resetTimerfd clk when q3)"
    using assms(5) by (auto simp: timer_handleRead_def reset_def rbind_eq_Inr_iff Let_def split: if_splits)
  have "P q1" using q(1) assms(6) P(2) by (auto simp: getExpired_def Let_def rassert_eq_Inr_iff)
  then have "P q2" using rfold_invariant [OF _ _ q(2) [unfolded run_expired_def], of P] run by blast
  then have "P q3" using rfold_invariant [OF _ _ q(3), of P] re by blast
  then show ?thesis using q(4) P(3) by (auto simp: resetTimerfd_def)
qed

subsection \<open>Set-up\<close>

text \<open>The loop the programs construct.\<close>

lemma channel_update_slots:
  assumes "channel_update f p tid c = Inr t" and "index (f (heap p c)) < 0"
  shows "map pfd_fd (pollfds t) = map pfd_fd (pollfds p) @ [chfd (f (heap p c))] \<and> snd ` set (channels t) \<subseteq> insert c (snd ` set (channels p)) \<and>
    map_of (channels t) = (map_of (channels p))(chfd (f (heap p c)) \<mapsto> c)"
proof -
  have "snd ` set (AList.update k v ps) \<subseteq> insert v (snd ` set ps)" for k :: int and v :: nat and ps
    by (induction ps) auto
  moreover have "map pfd_fd (pollfds t) = map pfd_fd (pollfds p) @ [chfd (f (heap p c))] \<and>
      channels t = AList.update (chfd (f (heap p c))) c (channels p)"
    using assms by (auto simp: channel_update_def updateChannel_def Let_def assertInLoopThread_def rassert_eq_Inr_iff split: if_splits)
  ultimately show ?thesis by (metis update_conv')
qed

lemma poller_inv_unowned:
  assumes "c \<notin> snd ` set (channels s)" and "poller_inv s"
  shows "poller_inv (s\<lparr>heap := (heap s)(c := ch)\<rparr>)"
proof -
  have "d \<noteq> c" if "map_of (channels s) f = Some d" for f d
    using map_of_SomeD [OF that] assms(1) by force
  then have "slot_owned s i \<Longrightarrow> slot_owned (s\<lparr>heap := (heap s)(c := ch)\<rparr>) i" for i
    by (auto simp: slot_owned_def split: option.splits)
  then show ?thesis using assms(2) by (simp add: poller_inv_def)
qed

text \<open>A channel of the program: its construction and \<open>enableReading\<close>.\<close>

lemma own_loop_construct:
  assumes own: "own_loop uc ct cw fds l" and c: "c \<notin> {ct, cw} \<union> dom uc"
  shows "own_loop uc ct cw fds (store_channel c ch l)"
proof -
  let ?p = "el_poller l" let ?h = "(heap ?p)(c := ch)"
  have "snd ` set (channels ?p) \<subseteq> {ct, cw} \<union> dom uc" using own unfolding own_loop_def by (elim conjE)
  then have "c \<notin> snd ` set (channels ?p)" using c by blast
  moreover have "poller_inv ?p" using own by (simp add: own_loop_def)
  ultimately have "poller_inv (?p\<lparr>heap := ?h\<rparr>)" by (rule poller_inv_unowned)
  moreover have "user_channels uc ?h" using own c by (auto simp: own_loop_def user_channels_def)
  ultimately show ?thesis using own c by (simp add: own_loop_def store_channel_def)
qed

lemma own_loop_enable:
  assumes own: "own_loop uc ct cw fds l" and c: "c \<notin> {ct, cw} \<union> dom uc" and fds: "\<forall>f\<in>set fds. 0 \<le> f" "0 \<le> fd" "fd \<notin> set fds"
    and tid: "threadId (el_poller l) = tid" and ch: "heap (el_poller l) c = setReadCallback (User_callback u) (Channel_new (el_addr l) fd g)"
  shows "\<exists>p. loop_updateChannel enableReading tid c l = Inr (l\<lparr>el_poller := p\<rparr>) \<and> own_loop (uc(c \<mapsto> u)) ct cw (fds @ [fd]) (l\<lparr>el_poller := p\<rparr>) \<and>
    threadId p = tid \<and> (\<forall>d. d \<noteq> c \<longrightarrow> heap p d = heap (el_poller l) d) \<and> map_of (channels p) = (map_of (channels (el_poller l)))(fd \<mapsto> c)"
proof -
  let ?p = "el_poller l"
  have inv: "poller_inv ?p" and slots: "map pfd_fd (pollfds ?p) = fds" using own by (simp_all add: own_loop_def)
  have chf: "chfd (heap ?p c) = fd" "index (heap ?p c) < 0" "ownerLoop (heap ?p c) = el_addr l" by (simp_all add: ch setReadCallback_def Channel_new_def)
  have "set (map slot_fd (pollfds ?p)) = set fds"
    using fds(1) by (auto simp: slot_fd_def image_iff simp flip: slots)
  then have "fd \<notin> set (map fst (channels ?p))" using inv fds(3) by (simp add: poller_inv_def)
  then have "map_of (channels ?p) fd = None" by (simp add: map_of_eq_None_iff)
  then obtain t where t: "channel_update enableReading ?p tid c = Inr t" "poller_inv t" "threadId t = tid"
      "heap t = (heap ?p)(c := set_index (int (length (pollfds ?p))) (enableReading (heap ?p c)))"
    using channel_update_fresh [of enableReading ?p tid c] inv tid chf fds(2) by (auto simp: interest_change_def)
  have new: "map pfd_fd (pollfds t) = fds @ [fd]" "snd ` set (channels t) \<subseteq> insert c (snd ` set (channels ?p))"
      "map_of (channels t) = (map_of (channels ?p))(fd \<mapsto> c)"
    using channel_update_slots [OF t(1)] chf slots by (simp_all add: enableReading_def)
  have "snd ` set (channels ?p) \<subseteq> {ct, cw} \<union> dom uc" using own unfolding own_loop_def by (elim conjE)
  with new(2) have sub: "snd ` set (channels t) \<subseteq> {ct, cw} \<union> dom (uc(c \<mapsto> u))" by auto
  have "user_channels uc (heap ?p)" using own by (simp add: own_loop_def)
  then have "user_channels (uc(c \<mapsto> u)) (heap t)"
    by (auto simp: user_channels_def t(4) ch callbacks_of_def set_index_def enableReading_def setReadCallback_def Channel_new_def)
  then have "own_loop (uc(c \<mapsto> u)) ct cw (fds @ [fd]) (l\<lparr>el_poller := t\<rparr>)"
    using own c t(2,4) new(1) sub by (simp add: own_loop_def)
  then show ?thesis using t chf new(3) by (intro exI [of _ t]) (simp add: loop_updateChannel_def)
qed

lemma new_loop:
  "\<exists>(l :: ('f, 'c) evloop) loops. EventLoop_new tid 100 (1, 3) (2, 4) False (\<lambda>a. Channel_new 0 0 False) th Map.empty = Inr (l, loops) \<and>
     own_loop Map.empty 1 2 [3, 4] l \<and> fresh_loop l \<and> timers l = [] \<and> tq_thread l = tid \<and> theap l = th \<and> threadId (el_poller l) = tid \<and> el_addr l = 100 \<and>
     map_of (channels (el_poller l)) = [3 \<mapsto> 1, 4 \<mapsto> 2]"
proof -
  let ?h = "(\<lambda>a. Channel_new 0 0 False :: 'c callback_of channel)(1 := timer_channel 100 3 False, 2 := wakeup_channel 100 4 False)"
  obtain l :: "('f, 'c) evloop" and loops where l: "EventLoop_new tid 100 (1, 3) (2, 4) False (\<lambda>a. Channel_new 0 0 False) th Map.empty = Inr (l, loops)"
      "fresh_loop l" "poller_inv (el_poller l)" "tq_thread l = tid" "threadId (el_poller l) = tid" "el_addr l = 100"
      "heap (el_poller l) 1 = set_index 0 (enableReading (timer_channel 100 3 False))" "heap (el_poller l) 2 = set_index 1 (enableReading (wakeup_channel 100 4 False))"
    using EventLoop_new_ok [of "(1, 3)" "(2, 4)" Map.empty tid 100 False "\<lambda>a. Channel_new 0 0 False" th] by auto
  obtain p1 p2 where p: "channel_update enableReading (Poller_new tid ?h) tid 1 = Inr p1" "channel_update enableReading p1 tid 2 = Inr p2"
      "el_poller l = p2" "timers l = []" "theap l = th"
    using l(1) by (auto simp: EventLoop_new_def loop_updateChannel_def rbind_eq_Inr_iff rassert_eq_Inr_iff EventLoop_members_def tqueue.extend_def
      evloop.fields_def TimerQueue_new_def split: if_splits)
  have "heap p1 2 = wakeup_channel 100 4 False"
    using p(1) by (auto simp: channel_update_def updateChannel_def Let_def assertInLoopThread_def rassert_eq_Inr_iff Poller_new_def enableReading_def split: if_splits)
  moreover have "heap p1 2 = wakeup_channel 100 4 False \<Longrightarrow> map_of (channels p2) = [3 \<mapsto> 1, 4 \<mapsto> 2]"
    using channel_update_slots [OF p(1)] channel_update_slots [OF p(2)] by (simp add: Poller_new_def enableReading_def)
  ultimately have chs: "map_of (channels p2) = [3 \<mapsto> 1, 4 \<mapsto> 2]" and fds: "map pfd_fd (pollfds p1) = [3] \<and> snd ` set (channels p1) \<subseteq> {1}"
      "map pfd_fd (pollfds p2) = map pfd_fd (pollfds p1) @ [4] \<and> snd ` set (channels p2) \<subseteq> insert 2 (snd ` set (channels p1))"
    using channel_update_slots [OF p(1)] channel_update_slots [OF p(2)] by (simp_all add: Poller_new_def enableReading_def)
  then have slots: "map pfd_fd (pollfds p2) = [3, 4]" by simp
  have "snd ` set (channels p2) \<subseteq> {1, 2}" using fds by fast
  with slots l(3,7,8) p(3) have "own_loop Map.empty 1 2 [3, 4] l"
    by (simp add: own_loop_def callbacks_of_def set_index_def enableReading_def timer_channel_def wakeup_channel_def setReadCallback_def setWriteCallback_def Channel_new_def)
  with l(1,2,4-6) p(3-5) chs show ?thesis by blast
qed

lemma addTime_pos:
  assumes "rounds_sign rnd" and "0 < now" and "0 \<le> d"
  shows "0 < addTime rnd now d"
proof -
  have "0 \<le> rnd (d * of_int kMicroSecondsPerSecond)" using assms by (simp add: rounds_sign_def kMicroSecondsPerSecond_def)
  then show ?thesis using assms(2) trunc_nonneg by (fastforce simp: addTime_def)
qed

lemma extend_simps [simp]:
  "own_loop uc ct cw fds (evloop.extend l z) = own_loop uc ct cw fds l" "el_poller (evloop.extend l z) = el_poller l" "tq_thread (evloop.extend l z) = tq_thread l"
  "theap (evloop.extend l z) = theap l" "timers (evloop.extend l z) = timers l" "quit (evloop.extend l z) = quit l"
  "looping (evloop.extend l z) = looping l" "pendingFunctors (evloop.extend l z) = pendingFunctors l"
  "callingPendingFunctors (evloop.extend l z) = callingPendingFunctors l"
  by (simp_all add: evloop.extend_def own_loop_def)

end
