(* ===== verification/RN_TestLoops.thy ===== *)
theory RN_TestLoops
  imports RN_LoopProgram
begin

text \<open>
  The program RN/net/test.cpp: a loop whose timers count messages until one of them calls \<open>quit\<close>. The program extends the loop's record with its
  globals. The descriptors of the timer queue and of the wake-up trigger are 3 and 4, their channels are at the addresses 1 and 2.
\<close>

subsection \<open>The program\<close>

record test_program = "(string, unit) evloop" +
  t_cnt :: int
  t_msgs :: "string list"

definition test_print :: "int \<Rightarrow> string \<Rightarrow> test_program \<Rightarrow> test_program" where
  "test_print tid msg l =
     (let l = l\<lparr>t_msgs := t_msgs l @ [msg], t_cnt := t_cnt l + 1\<rparr> in if t_cnt l = 20 then quit_loop tid l else l)"

definition test_env where
  "test_env tid rnd clk =
     \<lparr>run_user = (\<lambda>msg l. Inr (test_print tid msg l)), user_event = (\<lambda>call l. Inl BadCall), clock = clk, rounding = rnd\<rparr>"

text \<open>The timers of \<open>main\<close>: the \<open>i\<close>-th is allocated at \<open>addr i\<close> when the clock reads \<open>now i\<close>.\<close>

definition test_timers :: "int \<Rightarrow> (rat \<Rightarrow> rat) \<Rightarrow> (nat \<Rightarrow> timestamp) \<Rightarrow> (nat \<Rightarrow> nat) \<Rightarrow> (nat \<Rightarrow> timestamp) \<Rightarrow> test_program \<Rightarrow> test_program result" where
  "test_timers tid rnd clk addr now l =
     rbind (runAfter (test_env tid rnd clk) tid (addr 0) (now 0) 1 ''once 1'' l) (\<lambda>l.
     rbind (runAfter (test_env tid rnd clk) tid (addr 1) (now 1) (3 / 2) ''once 1.5'' l) (\<lambda>l.
     rbind (runAfter (test_env tid rnd clk) tid (addr 2) (now 2) (5 / 2) ''once 2.5'' l) (\<lambda>l.
     rbind (runAfter (test_env tid rnd clk) tid (addr 3) (now 3) (7 / 2) ''once 3.5'' l) (\<lambda>l.
     rbind (runEvery (test_env tid rnd clk) tid (addr 4) (now 4) 2 ''every 2'' l) (\<lambda>l.
     runEvery (test_env tid rnd clk) tid (addr 5) (now 5) 3 ''every 3'' l)))))"

definition test_main ::
  "int \<Rightarrow> (rat \<Rightarrow> rat) \<Rightarrow> (nat \<Rightarrow> timestamp) \<Rightarrow> (nat \<Rightarrow> nat) \<Rightarrow> (nat \<Rightarrow> timestamp) \<Rightarrow> input list \<Rightarrow> (test_program \<times> bool) result" where
  "test_main tid rnd clk addr now inps =
     rbind (EventLoop_new tid 100 (1, 3) (2, 4) False (\<lambda>a. Channel_new 0 0 False) (\<lambda>a. Timer_new [] 0 0) Map.empty) (\<lambda>(loop0, loops).
     rbind (test_timers tid rnd clk addr now (test_print tid ''main'' (evloop.extend loop0 (test_program.fields 0 [])))) (\<lambda>l.
     rbind (loop (test_env tid rnd clk) tid inps l) (\<lambda>(l, returned).
     Inr (if returned then test_print tid ''main loop exited'' l else l, returned))))"

text \<open>The invariant, of the handlers and between the iterations.\<close>

definition test_inv :: "int \<Rightarrow> (rat \<Rightarrow> rat) \<Rightarrow> test_program \<Rightarrow> bool" where
  "test_inv tid rnd l \<longleftrightarrow> rounds_sign rnd \<and> tq_inv l \<and> tq_thread l = tid \<and> (\<forall>a. timer_wf (theap l a)) \<and> pendingFunctors l = [] \<and>
     t_cnt l = int (length (t_msgs l)) \<and> (quit l \<longleftrightarrow> 20 \<le> t_cnt l) \<and> (\<exists>ms. t_msgs l = ''main'' # ms)"

lemma test_print_eq:
  "tq_thread l = tid \<Longrightarrow> test_print tid msg l = l\<lparr>t_msgs := t_msgs l @ [msg], t_cnt := t_cnt l + 1, quit := quit l \<or> t_cnt l = 19\<rparr>"
  by (auto simp: test_print_def Let_def quit_loop_def isInLoopThread_def)

lemma test_print_inv: "test_inv tid rnd l \<Longrightarrow> test_inv tid rnd (test_print tid msg l)"
  by (auto simp: test_inv_def test_print_eq tq_inv_def)

lemma test_callbacks: "callbacks_ok (run_user (test_env tid rnd clk)) E h"
  by (auto simp: callbacks_ok_def test_env_def test_print_def Let_def quit_loop_def isInLoopThread_def wakeup_def tq_inv_def detached_def pending_def)

lemma test_timer_event:
  assumes inv: "test_inv tid rnd l" and now: "0 < now"
  shows "\<exists>l'. timer_handleRead (run_user (test_env tid rnd clk)) rnd (tq_thread l) now 8 clk' l = Inr l' \<and> test_inv tid rnd l' \<and> el_poller l' = el_poller l"
proof -
  let ?run = "run_user (test_env tid rnd clk)"
  define P where "P q \<longleftrightarrow> tq_thread q = tid \<and> (\<forall>a. timer_wf (theap q a)) \<and> pendingFunctors q = [] \<and> t_cnt q = int (length (t_msgs q)) \<and>
    (quit q \<longleftrightarrow> 20 \<le> t_cnt q) \<and> (\<exists>ms. t_msgs q = ''main'' # ms) \<and> el_poller q = el_poller l" for q :: test_program
  have P: "P l" "tq_inv l" "\<forall>a. timer_wf (theap l a)" "rounds_sign rnd" using inv by (simp_all add: P_def test_inv_def)
  obtain l' where l': "timer_handleRead ?run rnd (tq_thread l) now 8 clk' l = Inr l'" "tq_inv l'"
    using timer_event [OF P(2) _ test_callbacks P(4) now] P(3) by blast
  have print: "P q'" if "P q" "?run f q = Inr q'" for f q q'
    using that by (auto simp: P_def test_env_def test_print_eq)
  have "P l'"
  proof (rule timer_handleRead_keeps [where P = P, OF _ _ _ print l'(1) P(1)])
    show "P (q\<lparr>theap := (theap q)(a := restart rnd now (theap q a))\<rparr>)" if "P q" for q a
      using that by (auto simp: P_def restart_def timer_wf_def)
  qed (simp_all add: P_def)
  then show ?thesis using l' P(4) by (intro exI [of _ l']) (simp add: P_def test_inv_def)
qed

interpretation test_loop: loop_program "test_env tid rnd clk" Map.empty "test_inv tid rnd" "test_inv tid rnd" for tid rnd clk
proof
  show "\<exists>l'. timer_handleRead (run_user (test_env tid rnd clk)) (rounding (test_env tid rnd clk)) (tq_thread l) (in_timer_now inp) (in_timer_read inp)
      (in_timer_clock inp) l = Inr l' \<and> test_inv tid rnd l' \<and> el_poller l' = el_poller l"
    if "test_inv tid rnd l" "in_timer_read inp = 8" "0 < in_timer_now inp" for l :: test_program and inp :: input
    using test_timer_event [OF that(1,3)] that(2) by (simp add: test_env_def)
  show "\<exists>l'. doPendingFunctors (test_env tid rnd clk) l = Inr l' \<and> test_inv tid rnd l' \<and> el_poller l' = el_poller l"
    if "test_inv tid rnd l" for l
    using that by (auto simp: doPendingFunctors_def swap_functors_def test_inv_def tq_inv_def)
qed (auto simp: test_inv_def tq_inv_def)

lemma test_add:
  assumes inv: "test_inv tid rnd l" and a: "a \<notin> pending l" "a \<noteq> 0" and pos: "0 < when"
  shows "\<exists>l'. loop_addTimer (test_env tid rnd clk) tid a cb when i l = Inr l' \<and> test_inv tid rnd l' \<and> pending l' = insert a (pending l) \<and>
    el_poller l' = el_poller l \<and> t_msgs l' = t_msgs l \<and> looping l' = looping l"
proof -
  have l: "tq_inv l" "tq_thread l = tid" using inv by (simp_all add: test_inv_def)
  obtain ts d where t: "loop_addTimer (test_env tid rnd clk) tid a cb when i l = Inr (l\<lparr>theap := (theap l)(a := Timer_new cb when i), timers := ts, timerfd := d\<rparr>)"
      "tq_inv (l\<lparr>theap := (theap l)(a := Timer_new cb when i), timers := ts, timerfd := d\<rparr>)" "set ts = insert (when, a) (set (timers l))"
    using loop_addTimer_own [OF l a pos] by blast
  have "timer_wf (Timer_new cb when i)" by (simp add: timer_wf_def Timer_new_def)
  then show ?thesis using t inv by (simp add: test_inv_def pending_def)
qed

lemma test_timers_ok:
  assumes inv: "test_inv tid rnd l" "pending l = {}" and times: "\<forall>i<6. 0 < now i \<and> addr i \<noteq> 0" and inj: "inj_on addr {..<6}"
  shows "\<exists>l'. test_timers tid rnd clk addr now l = Inr l' \<and> test_inv tid rnd l' \<and> el_poller l' = el_poller l \<and> t_msgs l' = t_msgs l \<and> looping l' = looping l"
proof -
  have rnd: "rounds_sign rnd" using inv(1) by (simp add: test_inv_def)
  have soon: "0 < addTime rnd (now i) d" "0 < now i" "addr i \<noteq> 0" if "i < 6" "0 \<le> d" for i d
    using addTime_pos [OF rnd _ that(2)] times that(1) by auto
  have new: "addr i \<notin> addr ` {..<i}" if "i < 6" for i
    using that by (auto simp: inj_on_eq_iff [OF inj])
  have env: "rounding (test_env tid rnd clk) = rnd" by (simp add: test_env_def)
  obtain l1 where l1: "runAfter (test_env tid rnd clk) tid (addr 0) (now 0) 1 ''once 1'' l = Inr l1" "test_inv tid rnd l1" "pending l1 = addr ` {..<1}"
      "el_poller l1 = el_poller l" "t_msgs l1 = t_msgs l" "looping l1 = looping l"
    using test_add [OF inv(1), of "addr 0" "addTime rnd (now 0) 1" clk "''once 1''" 0] soon [of 0 1] inv(2) by (auto simp: runAfter_def runAt_def env lessThan_Suc)
  obtain l2 where l2: "runAfter (test_env tid rnd clk) tid (addr 1) (now 1) (3 / 2) ''once 1.5'' l1 = Inr l2" "test_inv tid rnd l2" "pending l2 = addr ` {..<2}"
      "el_poller l2 = el_poller l" "t_msgs l2 = t_msgs l" "looping l2 = looping l"
    using test_add [OF l1(2), of "addr 1" "addTime rnd (now 1) (3 / 2)" clk "''once 1.5''" 0] soon [of 1 "3 / 2"] new [of 1] l1(3-6)
    by (auto simp: runAfter_def runAt_def env lessThan_Suc numeral_2_eq_2)
  obtain l3 where l3: "runAfter (test_env tid rnd clk) tid (addr 2) (now 2) (5 / 2) ''once 2.5'' l2 = Inr l3" "test_inv tid rnd l3" "pending l3 = addr ` {..<3}"
      "el_poller l3 = el_poller l" "t_msgs l3 = t_msgs l" "looping l3 = looping l"
    using test_add [OF l2(2), of "addr 2" "addTime rnd (now 2) (5 / 2)" clk "''once 2.5''" 0] soon [of 2 "5 / 2"] new [of 2] l2(3-6)
    by (auto simp: runAfter_def runAt_def env lessThan_Suc eval_nat_numeral)
  obtain l4 where l4: "runAfter (test_env tid rnd clk) tid (addr 3) (now 3) (7 / 2) ''once 3.5'' l3 = Inr l4" "test_inv tid rnd l4" "pending l4 = addr ` {..<4}"
      "el_poller l4 = el_poller l" "t_msgs l4 = t_msgs l" "looping l4 = looping l"
    using test_add [OF l3(2), of "addr 3" "addTime rnd (now 3) (7 / 2)" clk "''once 3.5''" 0] soon [of 3 "7 / 2"] new [of 3] l3(3-6)
    by (auto simp: runAfter_def runAt_def env lessThan_Suc eval_nat_numeral)
  obtain l5 where l5: "runEvery (test_env tid rnd clk) tid (addr 4) (now 4) 2 ''every 2'' l4 = Inr l5" "test_inv tid rnd l5" "pending l5 = addr ` {..<5}"
      "el_poller l5 = el_poller l" "t_msgs l5 = t_msgs l" "looping l5 = looping l"
    using test_add [OF l4(2), of "addr 4" "now 4" clk "''every 2''" 2] soon [of 4 0] new [of 4] l4(3-6)
    by (auto simp: runEvery_def lessThan_Suc eval_nat_numeral)
  obtain l6 where "runEvery (test_env tid rnd clk) tid (addr 5) (now 5) 3 ''every 3'' l5 = Inr l6" "test_inv tid rnd l6"
      "el_poller l6 = el_poller l" "t_msgs l6 = t_msgs l" "looping l6 = looping l"
    using test_add [OF l5(2), of "addr 5" "now 5" clk "''every 3''" 3] soon [of 5 0] new [of 5] l5(3-6)
    by (auto simp: runEvery_def)
  then show ?thesis using l1(1) l2(1) l3(1) l4(1) l5(1) by (simp add: test_timers_def)
qed

subsection \<open>Properties\<close>

text \<open>
  C34: test.cpp counts to twenty: whatever the kernel reports and however long the timers take, the program never faults, its loop returns after the
  iteration in which the twentieth message is printed, the one of \<open>main\<close> counted, and not before; then \<open>main\<close> prints its last line.\<close>

theorem test_counts_to_twenty:
  assumes "rounds_sign rnd" and "\<forall>i<6. 0 < now i \<and> addr i \<noteq> 0" and "inj_on addr {..<6}" and "\<forall>inp\<in>set inps. event_input [3, 4] inp"
  shows "\<exists>l returned msgs. test_main tid rnd clk addr now inps = Inr (l, returned) \<and>
    t_msgs l = ''main'' # msgs @ (if returned then [''main loop exited''] else []) \<and> (returned \<longleftrightarrow> 19 \<le> length msgs)"
proof -
  obtain loop0 :: "(string, unit) evloop" and loops where l0: "EventLoop_new tid 100 (1, 3) (2, 4) False (\<lambda>a. Channel_new 0 0 False) (\<lambda>a. Timer_new [] 0 0) Map.empty = Inr (loop0, loops)"
      "own_loop Map.empty 1 2 [3, 4] loop0" "fresh_loop loop0" "timers loop0 = []" "tq_thread loop0 = tid" "theap loop0 = (\<lambda>a. Timer_new [] 0 0)"
    using new_loop [of tid "\<lambda>a. Timer_new [] 0 0"] by blast
  define l1 :: test_program where "l1 = test_print tid ''main'' (evloop.extend loop0 (test_program.fields 0 []))"
  have l1: "l1 = (evloop.extend loop0 (test_program.fields 0 []))\<lparr>t_msgs := [''main''], t_cnt := 1, quit := False\<rparr>"
  proof -
    have "tq_thread (evloop.extend loop0 (test_program.fields 0 [])) = tid" using l0(5) by simp
    from test_print_eq [OF this] show ?thesis
      unfolding l1_def using l0(3) by (simp only:) (simp add: evloop.extend_def test_program.fields_def fresh_loop_def)
  qed
  have inv1: "test_inv tid rnd l1" "pending l1 = {}" "own_loop Map.empty 1 2 [3, 4] l1" "t_msgs l1 = [''main'']" "\<not> looping l1"
    using l0(2-6) assms(1) by (simp_all add: l1 test_inv_def tq_inv_def pending_def fresh_loop_def timer_wf_def Timer_new_def own_loop_def)
  obtain l2 where l2: "test_timers tid rnd clk addr now l1 = Inr l2" "test_inv tid rnd l2" "el_poller l2 = el_poller l1" "t_msgs l2 = [''main'']" "\<not> looping l2"
    using test_timers_ok [OF inv1(1,2) assms(2,3)] inv1(4,5) by auto
  define l3 where "l3 = l2\<lparr>looping := True, quit := False\<rparr>"
  have "test_inv tid rnd l3" "own_loop Map.empty 1 2 [3, 4] l3"
    using l2(2-4) inv1(3) by (simp_all add: l3_def test_inv_def own_loop_def)
  then obtain m where m: "test_inv tid rnd m" "loop_while (test_env tid rnd clk) inps l3 = Inr (if quit m then m\<lparr>looping := False\<rparr> else m, quit m)"
    using test_loop.runs [of 1 2 "[3, 4]" l3 tid rnd inps clk] assms(4) by blast
  obtain ms where ms: "t_msgs m = ''main'' # ms" using m(1) by (auto simp: test_inv_def)
  have "loop (test_env tid rnd clk) tid inps l2 = Inr (if quit m then m\<lparr>looping := False\<rparr> else m, quit m)"
    using m(2) l2(2,5) by (simp add: loop_def test_inv_def flip: l3_def)
  then have "test_main tid rnd clk addr now inps =
      Inr (if quit m then test_print tid ''main loop exited'' (m\<lparr>looping := False\<rparr>) else m, quit m)"
    using l0(1) l2(1) by (simp add: test_main_def flip: l1_def)
  moreover have "quit m \<longleftrightarrow> 19 \<le> length ms" "tq_thread m = tid" using m(1) ms by (auto simp: test_inv_def)
  ultimately show ?thesis using ms by (auto simp: test_print_eq)
qed

theorem test_counts_to_twenty_witness:
  "\<exists>l returned msgs. test_main 7 id (\<lambda>a. 1) Suc (\<lambda>i. 1000)
      [\<lparr>in_poll = Poll_ok 1 [1, 0], in_time = 5, in_timer_now = 2001000, in_timer_read = 8, in_timer_clock = 0\<rparr>] = Inr (l, returned) \<and>
     t_msgs l = ''main'' # msgs @ (if returned then [''main loop exited''] else []) \<and> (returned \<longleftrightarrow> 19 \<le> length msgs)"
  by (rule test_counts_to_twenty) (auto simp: rounds_sign_def event_input_def)

end
