(* ===== verification/RN_TestFunctors.thy ===== *)
theory RN_TestFunctors
  imports RN_LoopProgram
begin

text \<open>
  The program RN/net/test2.cpp: a chain of functors that runs through a timer, \<open>runInLoop\<close>, \<open>queueInLoop\<close> and a second timer, beside a
  thread that adds a timer of its own. The descriptors of the timer queue and of the wake-up trigger are 3 and 4, their channels are at the addresses 1 and 2.
\<close>

subsection \<open>The program\<close>

datatype run_fn = Run1 | Run2 | Run3 | Run4 | Print

record test2_program = "(run_fn, unit) evloop" +
  g_flag :: int
  t2_out :: "int list"

text \<open>The \<open>printf\<close> of each function prints the flag.\<close>

definition print_flag :: "test2_program \<Rightarrow> test2_program" where
  "print_flag l = l\<lparr>t2_out := t2_out l @ [g_flag l]\<rparr>"

definition run4 :: "int \<Rightarrow> test2_program \<Rightarrow> test2_program result" where
  "run4 tid l = Inr (quit_loop tid (print_flag l))"

text \<open>The timer of \<open>run4\<close> is allocated at \<open>a\<close> when the clock reads \<open>now\<close>.\<close>

definition run3 where
  "run3 env tid a now l = rbind (runAfter env tid a now 3 Run4 (print_flag l)) (\<lambda>l :: test2_program. Inr (l\<lparr>g_flag := 3\<rparr>))"

definition run2 :: "int \<Rightarrow> test2_program \<Rightarrow> test2_program result" where
  "run2 tid l = Inr (queueInLoop tid (User_functor Run3) (print_flag l))"

definition run1 where
  "run1 env tid l =
     rbind (runInLoop env tid (User_functor Run2) (print_flag (l\<lparr>g_flag := 1\<rparr>))) (\<lambda>l :: test2_program. Inr (l\<lparr>g_flag := 2\<rparr>))"

text \<open>
  The clock is read as \<open>now f\<close> for the timer of the function \<open>f\<close>, which is allocated at \<open>addr f\<close>. The body that \<open>run1\<close> hands to \<open>runInLoop\<close> is
  \<open>run2\<close>, so the environment in which \<open>run1\<close> runs need not know \<open>run1\<close>.
\<close>

definition base_env where
  "base_env tid rnd clk addr now =
     \<lparr>run_user = (\<lambda>f l. case f of
        Run1 \<Rightarrow> Inl BadCall
      | Run2 \<Rightarrow> run2 tid l
      | Run3 \<Rightarrow> run3 \<lparr>run_user = (\<lambda>f l. Inl BadCall), user_event = (\<lambda>call l. Inl BadCall), clock = clk, rounding = rnd\<rparr> tid (addr Run4) (now Run4) l
      | Run4 \<Rightarrow> run4 tid l
      | Print \<Rightarrow> Inr l),
      user_event = (\<lambda>call l. Inl BadCall), clock = clk, rounding = rnd\<rparr>"

definition test2_env where
  "test2_env tid rnd clk addr now = (base_env tid rnd clk addr now)
     \<lparr>run_user := (\<lambda>f l. case f of Run1 \<Rightarrow> run1 (base_env tid rnd clk addr now) tid l | _ \<Rightarrow> run_user (base_env tid rnd clk addr now) f l)\<rparr>"

definition threadFunc where
  "threadFunc tid rnd clk addr now tid2 l = runAfter (test2_env tid rnd clk addr now) tid2 (addr Print) (now Print) 1 Print l"

text \<open>The thread calls while the loop waits in the \<open>poll\<close> after the inputs \<open>inps1\<close>.\<close>

definition test2_main ::
  "int \<Rightarrow> (rat \<Rightarrow> rat) \<Rightarrow> (nat \<Rightarrow> timestamp) \<Rightarrow> (run_fn \<Rightarrow> nat) \<Rightarrow> (run_fn \<Rightarrow> timestamp) \<Rightarrow> int \<Rightarrow> input list \<Rightarrow> input list \<Rightarrow>
     (test2_program \<times> bool) result" where
  "test2_main tid rnd clk addr now tid2 inps1 inps2 =
     rbind (EventLoop_new tid 100 (1, 3) (2, 4) False (\<lambda>a. Channel_new 0 0 False) (\<lambda>a. Timer_new Print 0 0) Map.empty) (\<lambda>(loop0, loops).
     rbind (runAfter (test2_env tid rnd clk addr now) tid (addr Run1) (now Run1) 2 Run1
              (print_flag (evloop.extend loop0 (test2_program.fields 0 [])))) (\<lambda>l.
     rbind (loop (test2_env tid rnd clk addr now) tid inps1 l) (\<lambda>(l, returned).
     if returned then Inr (print_flag l, True)
     else rbind (threadFunc tid rnd clk addr now tid2 l) (\<lambda>l.
          rbind (loop_while (test2_env tid rnd clk addr now) inps2 l) (\<lambda>(l, returned).
          Inr (if returned then print_flag l else l, returned))))))"

text \<open>The four stages between the prints, with what has been printed and the user functors that are queued.\<close>

definition at_stage :: "nat \<Rightarrow> int \<Rightarrow> int list \<Rightarrow> run_fn list \<Rightarrow> bool \<Rightarrow> bool" where
  "at_stage n flag out users q \<longleftrightarrow>
     n = 1 \<and> flag = 0 \<and> out = [0] \<and> users = [] \<and> \<not> q \<or>
     n = 2 \<and> flag = 2 \<and> out = [0, 1, 1] \<and> users = [Run3] \<and> \<not> q \<or>
     n = 3 \<and> flag = 3 \<and> out = [0, 1, 1, 2] \<and> users = [] \<and> \<not> q \<or>
     n = 4 \<and> flag = 3 \<and> out = [0, 1, 1, 2, 3] \<and> users = [] \<and> q"

definition fields_ok :: "nat \<Rightarrow> nat \<Rightarrow> bool \<Rightarrow> test2_program \<Rightarrow> bool" where
  "fields_ok ap n queued l \<longleftrightarrow> (\<exists>users. at_stage n (g_flag l) (t2_out l) users (quit l) \<and>
     pendingFunctors l = (if queued then [AddTimer ap] else []) @ map User_functor users)"

text \<open>
  The times and the addresses \<open>new\<close> gave for the three timers. They are assumed to differ: that the allocator gives a timer the address of one that has been
  deleted is left out.
\<close>

definition test2_cfg :: "(rat \<Rightarrow> rat) \<Rightarrow> (run_fn \<Rightarrow> nat) \<Rightarrow> (run_fn \<Rightarrow> timestamp) \<Rightarrow> bool" where
  "test2_cfg rnd addr now \<longleftrightarrow> rounds_sign rnd \<and> 0 < now Run1 \<and> 0 < now Run4 \<and> 0 < now Print \<and>
     distinct [0, addr Run1, addr Run4, addr Print]"

text \<open>The timers: that of \<open>run1\<close> is in the queue in the first stage, that of \<open>run4\<close> in the third, the thread's at any time after its
  call, which \<open>called\<close> tells.\<close>

definition timers_ok :: "(run_fn \<Rightarrow> nat) \<Rightarrow> bool \<Rightarrow> nat \<Rightarrow> bool \<Rightarrow> test2_program \<Rightarrow> bool" where
  "timers_ok addr called n queued l \<longleftrightarrow> tq_inv l \<and> pending l \<subseteq> {addr Run1, addr Run4, addr Print} \<and>
     (addr Run1 \<in> pending l \<longleftrightarrow> n = 1) \<and> (addr Run4 \<in> pending l \<longleftrightarrow> n = 3) \<and> (queued \<longrightarrow> addr Print \<notin> pending l) \<and> (addr Print \<in> pending l \<or> queued \<longrightarrow> called) \<and>
     (\<forall>f\<in>{Run1, Run4, Print}. addr f \<in> pending l \<or> queued \<and> f = Print \<longrightarrow>
        callback (theap l (addr f)) = f \<and> \<not> repeat (theap l (addr f)) \<and> 0 < expiration (theap l (addr f)))"

lemma timers_okD:
  assumes "timers_ok addr called n queued l"
  shows "tq_inv l" and "pending l \<subseteq> {addr Run1, addr Run4, addr Print}" and "addr Run1 \<in> pending l \<longleftrightarrow> n = 1" and "addr Run4 \<in> pending l \<longleftrightarrow> n = 3"
    and "queued \<Longrightarrow> addr Print \<notin> pending l" and "addr Print \<in> pending l \<or> queued \<Longrightarrow> called"
    and "f \<in> {Run1, Run4, Print} \<Longrightarrow> addr f \<in> pending l \<or> queued \<and> f = Print \<Longrightarrow>
      callback (theap l (addr f)) = f \<and> \<not> repeat (theap l (addr f)) \<and> 0 < expiration (theap l (addr f))"
  using assms unfolding timers_ok_def by blast+

lemma timers_okI:
  assumes "tq_inv l" and "pending l \<subseteq> {addr Run1, addr Run4, addr Print}" and "addr Run1 \<in> pending l \<longleftrightarrow> n = 1" and "addr Run4 \<in> pending l \<longleftrightarrow> n = 3"
    and "queued \<Longrightarrow> addr Print \<notin> pending l" and "addr Print \<in> pending l \<or> queued \<Longrightarrow> called"
    and "\<And>f. f \<in> {Run1, Run4, Print} \<Longrightarrow> addr f \<in> pending l \<or> queued \<and> f = Print \<Longrightarrow>
      callback (theap l (addr f)) = f \<and> \<not> repeat (theap l (addr f)) \<and> 0 < expiration (theap l (addr f))"
  shows "timers_ok addr called n queued l"
  unfolding timers_ok_def by (intro conjI ballI impI assms) (use assms(3,4) in auto)

definition test2_inv :: "bool \<Rightarrow> int \<Rightarrow> (rat \<Rightarrow> rat) \<Rightarrow> (run_fn \<Rightarrow> nat) \<Rightarrow> (run_fn \<Rightarrow> timestamp) \<Rightarrow> nat set \<Rightarrow> test2_program \<Rightarrow> bool" where
  "test2_inv called tid rnd addr now ns l \<longleftrightarrow> test2_cfg rnd addr now \<and> tq_thread l = tid \<and>
     (\<exists>n\<in>ns. \<exists>queued. fields_ok (addr Print) n queued l \<and> timers_ok addr called n queued l)"

lemma test2_steps:
  assumes "tq_thread l = tid" and "fields_ok ap n queued l"
  shows "n = 1 \<Longrightarrow> \<exists>l'. run_user (test2_env tid rnd clk addr now) Run1 l = Inr l' \<and> fields_ok ap 2 queued l' \<and> tq_thread l' = tid \<and>
      theap l' = theap l \<and> timers l' = timers l \<and> el_poller l' = el_poller l"
    and "n = 3 \<Longrightarrow> \<exists>l'. run_user (test2_env tid rnd clk addr now) Run4 l = Inr l' \<and> fields_ok ap 4 queued l' \<and> tq_thread l' = tid \<and>
      theap l' = theap l \<and> timers l' = timers l \<and> el_poller l' = el_poller l"
    and "run_user (test2_env tid rnd clk addr now) Print l = Inr l"
  using assms
  by (auto simp: test2_env_def base_env_def run1_def run2_def run4_def runInLoop_def isInLoopThread_def run_functor_def print_flag_def queueInLoop_def
    quit_loop_def Let_def push_functor_def wakeup_def fields_ok_def at_stage_def)

definition next_stage :: "(run_fn \<Rightarrow> nat) \<Rightarrow> nat set \<Rightarrow> nat \<Rightarrow> nat" where
  "next_stage addr E n = (if addr Run1 \<in> E then 2 else if addr Run4 \<in> E then 4 else n)"

text \<open>A timer event runs the due timers: the first stage ends with that of \<open>run1\<close>, the third with that of \<open>run4\<close>.\<close>

lemma test2_expired:
  assumes "tq_thread q = tid" and "fields_ok ap n queued q" and "distinct (map snd es)"
    and "\<forall>e\<in>set es. snd e = addr Run1 \<and> n = 1 \<or> snd e = addr Run4 \<and> n = 3 \<or> snd e = addr Print"
    and "\<forall>f\<in>{Run1, Run4, Print}. addr f \<in> snd ` set es \<longrightarrow> callback (theap q (addr f)) = f" and "distinct [0, addr Run1, addr Run4, addr Print]"
  shows "\<exists>q'. run_expired (run_user (test2_env tid rnd clk addr now)) es q = Inr q' \<and> tq_thread q' = tid \<and> theap q' = theap q \<and> timers q' = timers q \<and>
    el_poller q' = el_poller q \<and> fields_ok ap (next_stage addr (snd ` set es) n) queued q'"
  using assms(1-5)
proof (induction es arbitrary: n q)
  case (Cons e es)
  note steps = test2_steps [OF Cons.prems(1,2), of rnd clk addr now]
  have cb: "callback (theap q (snd e)) = f" if "snd e = addr f" "f \<in> {Run1, Run4, Print}" for f using Cons.prems(5) that by auto
  have rest: "snd e \<notin> snd ` set es" "distinct (map snd es)" using Cons.prems(3) by auto
  have other: "snd x \<noteq> snd e" if "x \<in> set es" for x using rest(1) that by (metis imageI)
  have later: "\<forall>f\<in>{Run1, Run4, Print}. addr f \<in> snd ` set es \<longrightarrow> callback (theap q (addr f)) = f" using Cons.prems(5) by auto
  consider "snd e = addr Run1" "n = 1" | "snd e = addr Run4" "n = 3" | "snd e = addr Print" using Cons.prems(4) by auto
  then show ?case
  proof cases
    case 1
    obtain q1 where q1: "run_user (test2_env tid rnd clk addr now) Run1 q = Inr q1" "fields_ok ap 2 queued q1" "tq_thread q1 = tid" "theap q1 = theap q"
        "timers q1 = timers q" "el_poller q1 = el_poller q"
      using steps(1) [OF 1(2)] by blast
    have only: "\<forall>e\<in>set es. snd e = addr Print" using Cons.prems(4) other 1 by fastforce
    then have none: "addr Run1 \<notin> snd ` set es" "addr Run4 \<notin> snd ` set es" using assms(6) by auto
    obtain q' where "run_expired (run_user (test2_env tid rnd clk addr now)) es q1 = Inr q'" "tq_thread q' = tid" "theap q' = theap q1" "timers q' = timers q1"
        "el_poller q' = el_poller q1" "fields_ok ap 2 queued q'"
      using Cons.IH [OF q1(3,2) rest(2)] only none later q1(4) by (auto simp: next_stage_def)
    then show ?thesis using q1 cb [OF 1(1)] 1 by (simp add: run_expired_def next_stage_def)
  next
    case 2
    obtain q1 where q1: "run_user (test2_env tid rnd clk addr now) Run4 q = Inr q1" "fields_ok ap 4 queued q1" "tq_thread q1 = tid" "theap q1 = theap q"
        "timers q1 = timers q" "el_poller q1 = el_poller q"
      using steps(2) [OF 2(2)] by blast
    have only: "\<forall>e\<in>set es. snd e = addr Print" using Cons.prems(4) other 2 by fastforce
    then have none: "addr Run1 \<notin> snd ` set es" "addr Run4 \<notin> snd ` set es" "addr Run1 \<noteq> snd e" using assms(6) 2 by auto
    obtain q' where "run_expired (run_user (test2_env tid rnd clk addr now)) es q1 = Inr q'" "tq_thread q' = tid" "theap q' = theap q1" "timers q' = timers q1"
        "el_poller q' = el_poller q1" "fields_ok ap 4 queued q'"
      using Cons.IH [OF q1(3,2) rest(2)] only none later q1(4) by (auto simp: next_stage_def)
    then show ?thesis using q1 none(1,3) cb [OF 2(1)] 2 by (simp add: run_expired_def next_stage_def)
  next
    case 3
    have ne: "addr Run1 \<noteq> snd e" "addr Run4 \<noteq> snd e" using assms(6) 3 by auto
    obtain q' where "run_expired (run_user (test2_env tid rnd clk addr now)) es q = Inr q'" "tq_thread q' = tid" "theap q' = theap q" "timers q' = timers q"
        "el_poller q' = el_poller q" "fields_ok ap (next_stage addr (snd ` set es) n) queued q'"
      using Cons.IH [OF Cons.prems(1,2) rest(2) _ later] Cons.prems(4) by auto
    moreover have "next_stage addr (snd ` set (e # es)) n = next_stage addr (snd ` set es) n" using ne by (simp add: next_stage_def)
    ultimately show ?thesis using steps(3) cb [OF 3] by (simp add: run_expired_def)
  qed
qed (simp add: run_expired_def next_stage_def)

lemma test2_timer_event:
  assumes inv: "test2_inv called tid rnd addr now {1, 2, 3, 4} l" and pos: "0 < t"
  shows "\<exists>l'. timer_handleRead (run_user (test2_env tid rnd clk addr now)) rnd (tq_thread l) t 8 clk' l = Inr l' \<and>
    test2_inv called tid rnd addr now {1, 2, 3, 4} l' \<and> el_poller l' = el_poller l"
proof -
  obtain n queued where l: "test2_cfg rnd addr now" "tq_thread l = tid" "n \<in> {1, 2, 3, 4}" "fields_ok (addr Print) n queued l" "timers_ok addr called n queued l"
    using inv by (auto simp: test2_inv_def)
  define es where "es = filter (\<lambda>e. fst e \<le> t) (timers l)"
  define q1 where "q1 = l\<lparr>timers := filter (\<lambda>e. t < fst e) (timers l)\<rparr>"
  have tq: "tq_inv l" and addrs: "distinct [0, addr Run1, addr Run4, addr Print]" using l by (simp_all add: timers_ok_def test2_cfg_def)
  have due: "snd ` set es \<subseteq> pending l" by (auto simp: es_def pending_def)
  have each: "snd e = addr Run1 \<and> n = 1 \<or> snd e = addr Run4 \<and> n = 3 \<or> snd e = addr Print" if "e \<in> set es" for e
  proof -
    have mem: "snd e \<in> pending l" using due that by auto
    with timers_okD(2) [OF l(5)] consider "snd e = addr Run1" | "snd e = addr Run4" | "snd e = addr Print" by blast
    then show ?thesis using mem timers_okD(3,4) [OF l(5)] by cases simp_all
  qed
  have cbs: "callback (theap l (addr f)) = f \<and> \<not> repeat (theap l (addr f))" if "f \<in> {Run1, Run4, Print}" "addr f \<in> snd ` set es" for f
  proof -
    have "addr f \<in> pending l" using due that(2) by blast
    then show ?thesis using timers_okD(7) [OF l(5) that(1)] by blast
  qed
  define m where "m = next_stage addr (snd ` set es) n"
  have q1: "tq_thread q1 = tid" "fields_ok (addr Print) n queued q1" "theap q1 = theap l" "el_poller q1 = el_poller l" "distinct (map snd es)"
    using l(2,4) expired_distinct(1) [OF tq, of t] by (simp_all add: q1_def fields_ok_def es_def)
  obtain q2 where q2: "run_expired (run_user (test2_env tid rnd clk addr now)) es q1 = Inr q2" "tq_thread q2 = tid" "theap q2 = theap l"
      "timers q2 = timers q1" "el_poller q2 = el_poller l" "fields_ok (addr Print) m queued q2"
    using test2_expired [OF q1(1,2,5) _ _ addrs, of rnd clk now] each cbs q1(3,4) unfolding m_def by auto
  have once: "\<forall>e\<in>set es. \<not> repeat (theap q2 (snd e))"
  proof
    fix e assume e: "e \<in> set es"
    then have mem: "snd e \<in> snd ` set es" by simp
    obtain f where f: "f \<in> {Run1, Run4, Print}" "snd e = addr f" using each [OF e] by auto
    from cbs [OF f(1)] mem show "\<not> repeat (theap q2 (snd e))" by (simp add: f(2) q2(3))
  qed
  obtain d where d: "reset rnd clk' es t q2 = Inr (q2\<lparr>timerfd := d\<rparr>)" using reset_once [OF once] by blast
  have "timer_handleRead (run_user (test2_env tid rnd clk addr now)) rnd (tq_thread l) t 8 clk' l = Inr (q2\<lparr>timerfd := d\<rparr>)"
    using timer_handleRead_eq [OF tq refl] q2(1) d by (simp add: q1_def es_def)
  moreover have "fields_ok (addr Print) m queued (q2\<lparr>timerfd := d\<rparr>)" using q2(6) by (simp add: fields_ok_def)
  moreover have "timers_ok addr called m queued (q2\<lparr>timerfd := d\<rparr>)"
  proof -
    have "snd ` set (timers q1) = pending l - snd ` set es" using remaining_timers [OF tq, of t] by (simp add: q1_def es_def)
    then have pend: "pending q2 = pending l - snd ` set es" using q2(4) by (simp add: pending_def)
    have "tq_inv q2" using tq_inv_cong [OF tq_inv_filter [OF tq, of "\<lambda>e. t < fst e"], of q2] q2(3,4) by (simp add: q1_def)
    moreover have "addr Run1 \<in> snd ` set es \<longrightarrow> n = 1" "addr Run4 \<in> snd ` set es \<longrightarrow> n = 3"
      using due l(5) by (auto simp: timers_ok_def)
    moreover have "m = 1 \<longleftrightarrow> n = 1 \<and> addr Run1 \<notin> snd ` set es" "m = 3 \<longleftrightarrow> n = 3 \<and> addr Run4 \<notin> snd ` set es"
      using calculation(2,3) by (simp_all add: m_def next_stage_def)
    ultimately show ?thesis
      using l(5) unfolding timers_ok_def pending_fields tq_inv_fields pend by (simp add: q2(3)) blast
  qed
  moreover have "m \<in> {1, 2, 3, 4}" using l(3) by (auto simp: m_def next_stage_def)
  ultimately show ?thesis using q2(2,5) l(1) by (intro exI [of _ "q2\<lparr>timerfd := d\<rparr>"]) (auto simp: test2_inv_def)
qed

text \<open>The functors: the thread's timer enters the queue, and \<open>run3\<close> ends the second stage.\<close>

lemma add_print_ok:
  assumes "timers_ok addr called n True l" and "addr Print \<noteq> 0" and "addr Print \<notin> {addr Run1, addr Run4}"
  shows "\<exists>ts d. run_functor env (AddTimer (addr Print)) l = Inr (l\<lparr>timers := ts, timerfd := d\<rparr>) \<and> timers_ok addr called n False (l\<lparr>timers := ts, timerfd := d\<rparr>)"
proof -
  let ?a = "addr Print" let ?when = "expiration (theap l ?a)"
  have l: "tq_inv l" "?a \<notin> pending l" "0 < ?when" using assms(1) by (auto simp: timers_ok_def)
  obtain q ch where q: "insert_timer ?a l = Inr (q, ch)" "tq_inv q" "q = l\<lparr>timers := insort (?when, ?a) (timers l)\<rparr>"
    using insert_timer_ok [OF l(1,2) assms(2) l(3)] by blast
  let ?d = "if ch then Some (clock env ?a, getTimeFromNow (clock env ?a) ?when) else timerfd l"
  have "run_functor env (AddTimer ?a) l = Inr (q\<lparr>timerfd := ?d\<rparr>)"
    using q by (simp add: run_functor_def addTimerInLoop_def resetTimerfd_def)
  moreover have "pending (q\<lparr>timerfd := ?d\<rparr>) = insert ?a (pending l)"
    by (simp add: q(3) pending_def set_insort_key)
  then have "timers_ok addr called n False (q\<lparr>timerfd := ?d\<rparr>)"
    using assms(1,3) q(2) by (auto simp: timers_ok_def q(3))
  ultimately show ?thesis unfolding q(3) by (intro exI [of _ "insort (?when, ?a) (timers l)"] exI [of _ ?d]) simp
qed

lemma print_flag_simps [simp]:
  "tq_inv (print_flag l) = tq_inv l" "pending (print_flag l) = pending l" "theap (print_flag l) = theap l" "tq_thread (print_flag l) = tq_thread l"
  "timers (print_flag l) = timers l" "el_poller (print_flag l) = el_poller l" "g_flag (print_flag l) = g_flag l" "t2_out (print_flag l) = t2_out l @ [g_flag l]"
  "quit (print_flag l) = quit l" "pendingFunctors (print_flag l) = pendingFunctors l"
  by (simp_all add: print_flag_def tq_inv_def pending_def)

lemma g_flag_simps [simp]: "tq_inv (l\<lparr>g_flag := x\<rparr>) = tq_inv l" "pending (l\<lparr>g_flag := x\<rparr>) = pending l"
  by (simp_all add: tq_inv_def pending_def)

lemma run3_ok:
  assumes ok: "timers_ok addr called 2 queued l" and cfg: "test2_cfg rnd addr now" and tid: "tq_thread l = tid"
    and stage: "at_stage 2 (g_flag l) (t2_out l) [Run3] (quit l)"
  shows "\<exists>l'. run_functor (test2_env tid rnd clk addr now) (User_functor Run3) l = Inr l' \<and> timers_ok addr called 3 queued l' \<and>
    at_stage 3 (g_flag l') (t2_out l') [] (quit l') \<and> pendingFunctors l' = pendingFunctors l \<and> tq_thread l' = tid \<and> el_poller l' = el_poller l"
proof -
  let ?a = "addr Run4" let ?when = "addTime rnd (now Run4) 3"
  let ?env = "\<lparr>run_user = (\<lambda>f l. Inl BadCall), user_event = (\<lambda>call l. Inl BadCall), clock = clk, rounding = rnd\<rparr> :: (run_fn, unit, _) env"
  define m where "m = print_flag l"
  have pos: "0 < ?when" using cfg addTime_pos [of rnd "now Run4" 3] by (simp add: test2_cfg_def)
  have m: "tq_inv m" "tq_thread m = tid" "?a \<notin> pending m" "?a \<noteq> 0"
    using ok tid cfg by (auto simp: m_def timers_ok_def test2_cfg_def)
  obtain ts d where t: "loop_addTimer ?env tid ?a Run4 ?when 0 m = Inr (m\<lparr>theap := (theap m)(?a := Timer_new Run4 ?when 0), timers := ts, timerfd := d\<rparr>)"
      "tq_inv (m\<lparr>theap := (theap m)(?a := Timer_new Run4 ?when 0), timers := ts, timerfd := d\<rparr>)" "set ts = insert (?when, ?a) (set (timers m))"
    using loop_addTimer_own [OF m pos, of ?env Run4 0] by blast
  define l' where "l' = m\<lparr>theap := (theap m)(?a := Timer_new Run4 ?when 0), timers := ts, timerfd := d, g_flag := 3\<rparr>"
  have "run_functor (test2_env tid rnd clk addr now) (User_functor Run3) l = Inr l'"
    using t(1) by (simp add: run_functor_def test2_env_def base_env_def run3_def runAfter_def runAt_def l'_def flip: m_def)
  moreover have "timers_ok addr called 3 queued l'"
  proof -
    have "pending l' = insert ?a (pending l)" using t(3) by (simp add: l'_def m_def pending_def)
    moreover have "tq_inv l'" using t(2) by (simp add: l'_def)
    moreover have "theap l' = (theap l)(?a := Timer_new Run4 ?when 0)" by (simp add: l'_def m_def)
    ultimately show ?thesis using ok pos cfg by (auto simp: timers_ok_def Timer_new_def test2_cfg_def)
  qed
  moreover have "at_stage 3 (g_flag l') (t2_out l') [] (quit l')" using stage by (simp add: at_stage_def l'_def m_def)
  ultimately show ?thesis using tid by (intro exI [of _ l']) (simp add: l'_def m_def)
qed

lemma test2_functors:
  assumes inv: "test2_inv called tid rnd addr now {1, 2, 3, 4} l"
  shows "\<exists>l'. doPendingFunctors (test2_env tid rnd clk addr now) l = Inr l' \<and> test2_inv called tid rnd addr now {1, 3, 4} l' \<and> el_poller l' = el_poller l"
proof -
  let ?env = "test2_env tid rnd clk addr now"
  obtain n queued where l: "test2_cfg rnd addr now" "tq_thread l = tid" "n \<in> {1, 2, 3, 4}" "fields_ok (addr Print) n queued l" "timers_ok addr called n queued l"
    using inv by (auto simp: test2_inv_def)
  then obtain users where users: "at_stage n (g_flag l) (t2_out l) users (quit l)"
      "pendingFunctors l = (if queued then [AddTimer (addr Print)] else []) @ map User_functor users"
    by (auto simp: fields_ok_def)
  define l1 where "l1 = l\<lparr>callingPendingFunctors := True, pendingFunctors := []\<rparr>"
  have ok1: "timers_ok addr called n queued l1" using l(5) by (simp add: l1_def timers_ok_def)
  have "\<exists>ts d. rfold (run_functor ?env) (if queued then [AddTimer (addr Print)] else []) l1 = Inr (l1\<lparr>timers := ts, timerfd := d\<rparr>) \<and>
      timers_ok addr called n False (l1\<lparr>timers := ts, timerfd := d\<rparr>)"
  proof (cases queued)
    case True
    have "addr Print \<noteq> 0" "addr Print \<notin> {addr Run1, addr Run4}" using l(1) by (auto simp: test2_cfg_def)
    moreover have "timers_ok addr called n True l1" using ok1 True by simp
    ultimately obtain ts d where t: "run_functor ?env (AddTimer (addr Print)) l1 = Inr (l1\<lparr>timers := ts, timerfd := d\<rparr>)"
        "timers_ok addr called n False (l1\<lparr>timers := ts, timerfd := d\<rparr>)"
      using add_print_ok [of addr called n l1 ?env] by blast
    show ?thesis using t True by (intro exI [of _ ts] exI [of _ d]) simp
  next
    case False
    then have "timers_ok addr called n False (l1\<lparr>timers := timers l1, timerfd := timerfd l1\<rparr>)" using ok1 by simp
    then show ?thesis using False by (intro exI [of _ "timers l1"] exI [of _ "timerfd l1"]) simp
  qed
  then obtain l2 where l2: "rfold (run_functor ?env) (if queued then [AddTimer (addr Print)] else []) l1 = Inr l2" "timers_ok addr called n False l2"
      "g_flag l2 = g_flag l" "t2_out l2 = t2_out l" "quit l2 = quit l" "pendingFunctors l2 = []" "tq_thread l2 = tid" "el_poller l2 = el_poller l"
    using l(2) by (auto simp: l1_def)
  have "\<exists>l3 k. rfold (run_functor ?env) (map User_functor users) l2 = Inr l3 \<and> k \<in> {1, 3, 4} \<and> timers_ok addr called k False l3 \<and>
      at_stage k (g_flag l3) (t2_out l3) [] (quit l3) \<and> pendingFunctors l3 = [] \<and> tq_thread l3 = tid \<and> el_poller l3 = el_poller l"
  proof (cases "n = 2")
    case True
    then have "users = [Run3]" using users(1) by (auto simp: at_stage_def)
    then show ?thesis using run3_ok [of addr called False l2 rnd now tid clk] l2 l(1) users(1) True by auto
  next
    case False
    then have "users = []" "n \<in> {1, 3, 4}" using users(1) l(3) by (auto simp: at_stage_def)
    then show ?thesis using l2 users(1) by (intro exI [of _ l2] exI [of _ n]) simp
  qed
  then obtain l3 k where l3: "rfold (run_functor ?env) (map User_functor users) l2 = Inr l3" "k \<in> {1, 3, 4}" "timers_ok addr called k False l3"
      "at_stage k (g_flag l3) (t2_out l3) [] (quit l3)" "pendingFunctors l3 = []" "tq_thread l3 = tid" "el_poller l3 = el_poller l"
    by blast
  have "doPendingFunctors ?env l = Inr (l3\<lparr>callingPendingFunctors := False\<rparr>)"
    using l2(1) l3(1) users(2) by (simp add: doPendingFunctors_def swap_functors_def rfold_append flip: l1_def)
  moreover have "fields_ok (addr Print) k False (l3\<lparr>callingPendingFunctors := False\<rparr>)" using l3(4,5) by (simp add: fields_ok_def)
  moreover have "timers_ok addr called k False (l3\<lparr>callingPendingFunctors := False\<rparr>)" using l3(3) by (simp add: timers_ok_def)
  ultimately show ?thesis using l(1) l3(2,6,7) by (intro exI [of _ "l3\<lparr>callingPendingFunctors := False\<rparr>"]) (auto simp: test2_inv_def)
qed

interpretation test2_loop: loop_program "test2_env tid rnd clk addr now" Map.empty "test2_inv called tid rnd addr now {1, 2, 3, 4}" "test2_inv called tid rnd addr now {1, 3, 4}"
  for called tid rnd clk addr now
proof
  show "\<exists>l'. timer_handleRead (run_user (test2_env tid rnd clk addr now)) (rounding (test2_env tid rnd clk addr now)) (tq_thread l) (in_timer_now inp)
      (in_timer_read inp) (in_timer_clock inp) l = Inr l' \<and> test2_inv called tid rnd addr now {1, 2, 3, 4} l' \<and> el_poller l' = el_poller l"
    if "test2_inv called tid rnd addr now {1, 2, 3, 4} l" "in_timer_read inp = 8" "0 < in_timer_now inp" for l and inp :: input
    using test2_timer_event [OF that(1,3)] that(2) by (simp add: test2_env_def base_env_def)
  show "\<exists>l'. doPendingFunctors (test2_env tid rnd clk addr now) l = Inr l' \<and> test2_inv called tid rnd addr now {1, 3, 4} l' \<and> el_poller l' = el_poller l"
    if "test2_inv called tid rnd addr now {1, 2, 3, 4} l" for l
    using that by (rule test2_functors)
  show "test2_inv called tid rnd addr now {1, 2, 3, 4} l" if "test2_inv called tid rnd addr now {1, 3, 4} l" for l
    using that unfolding test2_inv_def by blast
qed (simp_all add: test2_inv_def fields_ok_def timers_ok_def)

subsection \<open>Properties\<close>

lemma fields_simps [simp]: "test2_program.fields x out = \<lparr>g_flag = x, t2_out = out\<rparr>"
  by (simp add: test2_program.fields_def)

text \<open>The state when the loop starts, and what the thread's call does to a loop that waits.\<close>

lemma test2_start:
  assumes "test2_cfg rnd addr now"
  shows "\<exists>loop0 loops l. EventLoop_new tid 100 (1, 3) (2, 4) False (\<lambda>a. Channel_new 0 0 False) (\<lambda>a. Timer_new Print 0 0) Map.empty = Inr (loop0, loops) \<and>
    runAfter (test2_env tid rnd clk addr now) tid (addr Run1) (now Run1) 2 Run1 (print_flag (evloop.extend loop0 (test2_program.fields 0 []))) = Inr l \<and>
    own_loop Map.empty 1 2 [3, 4] l \<and> test2_inv False tid rnd addr now {1, 3, 4} (l\<lparr>looping := True, quit := False\<rparr>) \<and> \<not> looping l"
proof -
  obtain loop0 :: "(run_fn, unit) evloop" and loops where l0: "EventLoop_new tid 100 (1, 3) (2, 4) False (\<lambda>a. Channel_new 0 0 False) (\<lambda>a. Timer_new Print 0 0) Map.empty = Inr (loop0, loops)"
      "own_loop Map.empty 1 2 [3, 4] loop0" "fresh_loop loop0" "timers loop0 = []" "tq_thread loop0 = tid"
    using new_loop [of tid "\<lambda>a. Timer_new Print 0 0"] by blast
  let ?a = "addr Run1" let ?when = "addTime rnd (now Run1) 2"
  define m where "m = print_flag (evloop.extend loop0 \<lparr>g_flag = 0, t2_out = []\<rparr>)"
  have m: "tq_inv m" "tq_thread m = tid" "pending m = {}" "own_loop Map.empty 1 2 [3, 4] m" "g_flag m = 0" "t2_out m = [0]" "pendingFunctors m = []" "\<not> looping m" "timers m = []"
    using l0(2-5) by (simp_all add: m_def tq_inv_def pending_def fresh_loop_def print_flag_def evloop.extend_def own_loop_def)
  have pos: "0 < ?when" "?a \<noteq> 0" using assms addTime_pos [of rnd "now Run1" 2] by (simp_all add: test2_cfg_def)
  obtain ts d where t: "loop_addTimer (test2_env tid rnd clk addr now) tid ?a Run1 ?when 0 m = Inr (m\<lparr>theap := (theap m)(?a := Timer_new Run1 ?when 0), timers := ts, timerfd := d\<rparr>)"
      "tq_inv (m\<lparr>theap := (theap m)(?a := Timer_new Run1 ?when 0), timers := ts, timerfd := d\<rparr>)" "set ts = insert (?when, ?a) (set (timers m))"
    using loop_addTimer_own [OF m(1,2) _ pos(2,1), of "test2_env tid rnd clk addr now" Run1 0] m(3) by auto
  define l where "l = m\<lparr>theap := (theap m)(?a := Timer_new Run1 ?when 0), timers := ts, timerfd := d\<rparr>"
  have "pending l = {?a}" using t(3) m(9) by (simp add: l_def pending_def)
  then have "timers_ok addr False 1 False (l\<lparr>looping := True, quit := False\<rparr>)"
    using assms t(2) pos by (auto simp: timers_ok_def test2_cfg_def Timer_new_def l_def)
  moreover have "fields_ok (addr Print) 1 False (l\<lparr>looping := True, quit := False\<rparr>)"
    using m(5-7) by (simp add: fields_ok_def at_stage_def l_def)
  ultimately have "test2_inv False tid rnd addr now {1, 3, 4} (l\<lparr>looping := True, quit := False\<rparr>)"
    using assms m(2) by (auto simp: test2_inv_def l_def)
  moreover have "own_loop Map.empty 1 2 [3, 4] l" "\<not> looping l" using m(4,8) by (simp_all add: own_loop_def l_def)
  moreover have "rounding (test2_env tid rnd clk addr now) = rnd" by (simp add: test2_env_def base_env_def)
  then have "runAfter (test2_env tid rnd clk addr now) tid ?a (now Run1) 2 Run1 (print_flag (evloop.extend loop0 (test2_program.fields 0 []))) = Inr l"
    using t(1) by (simp add: runAfter_def runAt_def l_def flip: m_def)
  ultimately show ?thesis using l0(1) by blast
qed

lemma threadFunc_ok:
  assumes inv: "test2_inv False tid rnd addr now {1, 3, 4} l" and other: "tid2 \<noteq> tid" and own: "own_loop Map.empty 1 2 [3, 4] l"
  shows "\<exists>l'. threadFunc tid rnd clk addr now tid2 l = Inr l' \<and> test2_inv True tid rnd addr now {1, 3, 4} l' \<and> own_loop Map.empty 1 2 [3, 4] l'"
proof -
  let ?a = "addr Print" let ?when = "addTime rnd (now Print) 1"
  obtain n queued where l: "test2_cfg rnd addr now" "tq_thread l = tid" "n \<in> {1, 3, 4}" "fields_ok ?a n queued l" "timers_ok addr False n queued l"
    using inv by (auto simp: test2_inv_def)
  have fresh: "\<not> queued" "?a \<notin> pending l" using l(5) by (auto simp: timers_ok_def)
  have pos: "0 < ?when" "?a \<noteq> addr Run1" "?a \<noteq> addr Run4" using l(1) addTime_pos [of rnd "now Print" 1] by (auto simp: test2_cfg_def)
  define m where "m = l\<lparr>theap := (theap l)(?a := Timer_new Print ?when 0), pendingFunctors := pendingFunctors l @ [AddTimer ?a],
    wakeupfd := eventfd_write 1 (wakeupfd l)\<rparr>"
  have "rounding (test2_env tid rnd clk addr now) = rnd" by (simp add: test2_env_def base_env_def)
  then have run: "threadFunc tid rnd clk addr now tid2 l = Inr m"
    using l(2) other
    by (simp add: threadFunc_def runAfter_def runAt_def loop_addTimer_def addTimer_def queueInLoop_def push_functor_def wakeup_def isInLoopThread_def Let_def m_def)
  have pend: "pending m = pending l" by (simp add: pending_def m_def)
  have heap: "theap m = (theap l)(?a := Timer_new Print ?when 0)" by (simp add: m_def)
  have "timers_ok addr True n True m"
  proof (rule timers_okI)
    have "b \<noteq> ?a" if "(x, b) \<in> set (timers l)" for x b using fresh(2) that by (force simp: pending_def)
    then show "tq_inv m" using timers_okD(1) [OF l(5)] by (auto simp: tq_inv_def m_def)
    show "callback (theap m (addr f)) = f \<and> \<not> repeat (theap m (addr f)) \<and> 0 < expiration (theap m (addr f))"
      if f: "f \<in> {Run1, Run4, Print}" "addr f \<in> pending m \<or> True \<and> f = Print" for f
    proof (cases "f = Print")
      case True
      then show ?thesis using pos(1) by (simp add: heap Timer_new_def)
    next
      case False
      then have "addr f \<noteq> ?a" using f pos by auto
      then show ?thesis using False f(2) timers_okD(7) [OF l(5) f(1)] by (simp add: heap pend)
    qed
  qed (use timers_okD(2-4) [OF l(5)] fresh(2) in \<open>simp_all only: pend simp_thms\<close>)
  moreover have "fields_ok ?a n True m"
  proof -
    obtain users where "at_stage n (g_flag l) (t2_out l) users (quit l)" "pendingFunctors l = map User_functor users"
      using l(4) fresh(1) by (auto simp: fields_ok_def)
    moreover have "users = []" using calculation(1) l(3) by (auto simp: at_stage_def)
    ultimately show ?thesis by (simp add: fields_ok_def m_def)
  qed
  moreover have "own_loop Map.empty 1 2 [3, 4] m" using own by (simp add: own_loop_def m_def)
  ultimately show ?thesis using run l(1-3) by (intro exI [of _ m]) (auto simp: test2_inv_def m_def)
qed

text \<open>
  C35: test2.cpp prints the flag as 0, 1, 1, 2, 3, 3: the function handed to \<open>runInLoop\<close> runs before the flag becomes 2, the one handed to
  \<open>queueInLoop\<close> after it, although both are handed over in the same callback; the last timer quits the loop. This holds whatever the kernel reports,
  however long the timers take, and whenever the other thread adds its timer while the loop waits; no interleaving faults. (The three timers have different addresses: that the allocator
  reuses the one of a deleted timer is left out.)\<close>

theorem test2_flags:
  assumes "test2_cfg rnd addr now" and "tid2 \<noteq> tid" and "\<forall>inp\<in>set (inps1 @ inps2). event_input [3, 4] inp"
  shows "\<exists>l returned. test2_main tid rnd clk addr now tid2 inps1 inps2 = Inr (l, returned) \<and>
    (if returned then t2_out l = [0, 1, 1, 2, 3, 3] else t2_out l = [0] \<or> t2_out l = [0, 1, 1, 2])"
proof -
  let ?env = "test2_env tid rnd clk addr now"
  have out: "if quit l then t2_out (print_flag (l\<lparr>looping := False\<rparr>)) = [0, 1, 1, 2, 3, 3] else t2_out l = [0] \<or> t2_out l = [0, 1, 1, 2]"
    if "test2_inv called tid rnd addr now {1, 3, 4} l" for called l
    using that by (auto simp: test2_inv_def fields_ok_def at_stage_def)
  obtain loop0 loops l0 where l0: "EventLoop_new tid 100 (1, 3) (2, 4) False (\<lambda>a. Channel_new 0 0 False) (\<lambda>a. Timer_new Print 0 0) Map.empty = Inr (loop0, loops)"
      "runAfter ?env tid (addr Run1) (now Run1) 2 Run1 (print_flag (evloop.extend loop0 (test2_program.fields 0 []))) = Inr l0"
      "own_loop Map.empty 1 2 [3, 4] (l0\<lparr>looping := True, quit := False\<rparr>)" "test2_inv False tid rnd addr now {1, 3, 4} (l0\<lparr>looping := True, quit := False\<rparr>)" "\<not> looping l0"
    using test2_start [OF assms(1), of tid clk] by (auto simp: own_loop_def)
  obtain l1 where l1: "own_loop Map.empty 1 2 [3, 4] l1" "test2_inv False tid rnd addr now {1, 3, 4} l1"
      "loop_while ?env inps1 (l0\<lparr>looping := True, quit := False\<rparr>) = Inr (if quit l1 then l1\<lparr>looping := False\<rparr> else l1, quit l1)"
    using test2_loop.runs [OF l0(3,4), of inps1 clk] assms(3) by auto
  have "tq_thread l0 = tid" using l0(4) by (simp add: test2_inv_def)
  then have loop: "loop ?env tid inps1 l0 = Inr (if quit l1 then l1\<lparr>looping := False\<rparr> else l1, quit l1)"
    using l1(3) l0(5) by (simp add: loop_def)
  show ?thesis
  proof (cases "quit l1")
    case True
    then have "test2_main tid rnd clk addr now tid2 inps1 inps2 = Inr (print_flag (l1\<lparr>looping := False\<rparr>), True)"
      using l0(1,2) loop by (simp add: test2_main_def)
    then show ?thesis using out [OF l1(2)] True by (intro exI [of _ "print_flag (l1\<lparr>looping := False\<rparr>)"] exI [of _ True]) simp
  next
    case False
    obtain l2 where l2: "threadFunc tid rnd clk addr now tid2 l1 = Inr l2" "test2_inv True tid rnd addr now {1, 3, 4} l2" "own_loop Map.empty 1 2 [3, 4] l2"
      using threadFunc_ok [OF l1(2) assms(2) l1(1)] by blast
    obtain l3 where l3: "test2_inv True tid rnd addr now {1, 3, 4} l3" "loop_while ?env inps2 l2 = Inr (if quit l3 then l3\<lparr>looping := False\<rparr> else l3, quit l3)"
      using test2_loop.runs [OF l2(3,2), of inps2 clk] assms(3) by auto
    have "test2_main tid rnd clk addr now tid2 inps1 inps2 = Inr (if quit l3 then print_flag (l3\<lparr>looping := False\<rparr>) else l3, quit l3)"
      using l0(1,2) loop False l2(1) l3(2) by (simp add: test2_main_def)
    then show ?thesis using out [OF l3(1)] by (cases "quit l3") (force, force)
  qed
qed

theorem test2_flags_witness:
  "\<exists>l returned. test2_main 7 id (\<lambda>a. 1) (\<lambda>f. case f of Run1 \<Rightarrow> 1 | Run4 \<Rightarrow> 2 | _ \<Rightarrow> 3) (\<lambda>f. 1000) 8
      [] [\<lparr>in_poll = Poll_ok 1 [1, 0], in_time = 5, in_timer_now = 2001000, in_timer_read = 8, in_timer_clock = 0\<rparr>] = Inr (l, returned) \<and>
    (if returned then t2_out l = [0, 1, 1, 2, 3, 3] else t2_out l = [0] \<or> t2_out l = [0, 1, 1, 2])"
  by (rule test2_flags) (auto simp: test2_cfg_def rounds_sign_def event_input_def)

end
