(* ===== verification/RN_TestCrossThread.thy ===== *)
theory RN_TestCrossThread
  imports RN_LoopProgram RN_EventLoopThread
begin

text \<open>
  The program RN/net/test3.cpp: a loop that runs in a thread of its own, to which \<open>main\<close>, from another thread, hands a functor, a timer and the order to
  quit, and then ends, which destroys the EventLoopThread. Each run of \<open>runInThread\<close> prints the thread it runs in.
\<close>

subsection \<open>The program\<close>

record test3_program = "(unit, unit) evloop" +
  t3_out :: "int list"

text \<open>\<open>runInThread\<close>, when the thread \<open>t\<close> runs it.\<close>

definition runInThread :: "int \<Rightarrow> test3_program \<Rightarrow> test3_program" where
  "runInThread t l = l\<lparr>t3_out := t3_out l @ [t]\<rparr>"

definition test3_env :: "int \<Rightarrow> (nat \<Rightarrow> timestamp) \<Rightarrow> (rat \<Rightarrow> rat) \<Rightarrow> (unit, unit, unit test3_program_ext) env" where
  "test3_env t clk rnd = \<lparr>run_user = (\<lambda>f l. Inr (runInThread t l)), user_event = (\<lambda>call l. Inl BadCall), clock = clk, rounding = rnd\<rparr>"

text \<open>
  The loop belongs to \<open>t\<close>, and \<open>main\<close> runs in \<open>tid\<close>. \<open>e\<close> is the state of the EventLoopThread when \<open>startLoop\<close> has handed the loop over: its thread may not have
  entered \<open>loop()\<close> yet, and then the functor is queued before the loop runs. The other calls of \<open>main\<close> come seconds later, while the loop waits in \<open>poll\<close>: the
  loop gets the inputs \<open>inps0\<close>, \<open>inps1\<close>, \<open>inps2\<close> before and between them, and \<open>inps3\<close> after the order to quit, until \<open>main\<close> ends.
\<close>

definition test3_until_exit ::
  "el_thread \<Rightarrow> int \<Rightarrow> int \<Rightarrow> (nat \<Rightarrow> timestamp) \<Rightarrow> (rat \<Rightarrow> rat) \<Rightarrow> nat \<Rightarrow> timestamp \<Rightarrow> input list \<Rightarrow> input list \<Rightarrow> input list \<Rightarrow> input list \<Rightarrow>
     (test3_program \<times> bool) result" where
  "test3_until_exit e t tid clk rnd addr now inps0 inps1 inps2 inps3 =
     (let entered = (et_thread e = T_looping); hand = runInLoop (test3_env tid clk rnd) tid (User_functor ()) in
     rbind (EventLoop_new t 100 (1, 3) (2, 4) False (\<lambda>a. Channel_new 0 0 False) (\<lambda>a. Timer_new () 0 0) Map.empty) (\<lambda>(loop0, loops).
     rbind ((if entered then Inr else hand) (evloop.extend loop0 (test3_program.fields []))) (\<lambda>l.
     rbind (loop (test3_env t clk rnd) t inps0 l) (\<lambda>(l, returned).
     rbind ((if entered then hand else Inr) l) (\<lambda>l.
     rbind (resume_poll (test3_env t clk rnd) inps1 l) (\<lambda>(l, returned).
     rbind (runAfter (test3_env tid clk rnd) tid addr now 2 () l) (\<lambda>l.
     rbind (resume_poll (test3_env t clk rnd) inps2 l) (\<lambda>(l, returned).
     resume_poll (test3_env t clk rnd) inps3 (quit_loop tid l)))))))))"

text \<open>
  The end of \<open>main\<close>: the destructor of the EventLoopThread orders its loop to quit, which is a local object of a function that may have returned, and waits for
  the thread, whose loop gets the inputs \<open>inps4\<close>.
\<close>

definition test3_main ::
  "el_thread \<Rightarrow> int \<Rightarrow> int \<Rightarrow> (nat \<Rightarrow> timestamp) \<Rightarrow> (rat \<Rightarrow> rat) \<Rightarrow> nat \<Rightarrow> timestamp \<Rightarrow> input list \<Rightarrow> input list \<Rightarrow> input list \<Rightarrow> input list \<Rightarrow>
     input list \<Rightarrow> (test3_program \<times> bool) result" where
  "test3_main e t tid clk rnd addr now inps0 inps1 inps2 inps3 inps4 =
     rbind (test3_until_exit e t tid clk rnd addr now inps0 inps1 inps2 inps3) (\<lambda>(l, returned).
     case destroy_quit (e\<lparr>et_thread := (if returned then T_exited else T_looping), et_quit := True\<rparr>) of
       None \<Rightarrow> Inl AssertFailed
     | Some (Inl f) \<Rightarrow> Inl f
     | Some (Inr e) \<Rightarrow> resume_poll (test3_env t clk rnd) inps4 (quit_loop tid l))"

subsection \<open>The invariant\<close>

fun added_timers :: "unit loop_functor list \<Rightarrow> nat list" where
  "added_timers [] = []"
| "added_timers (AddTimer a # fs) = a # added_timers fs"
| "added_timers (User_functor u # fs) = added_timers fs"

lemma added_timers_append [simp]: "added_timers (fs @ gs) = added_timers fs @ added_timers gs"
  by (induction fs rule: added_timers.induct) simp_all

text \<open>
  Of what was handed over (\<open>n\<close> functors and timers, \<open>k\<close> of them timers), everything has run in the loop's thread, or is still queued, each once.
\<close>

definition held :: "int \<Rightarrow> nat \<Rightarrow> nat \<Rightarrow> unit loop_functor list \<Rightarrow> test3_program \<Rightarrow> bool" where
  "held t n k fs l \<longleftrightarrow> tq_inv l \<and> tq_thread l = t \<and> set (t3_out l) \<subseteq> {t} \<and>
     length (t3_out l) + length fs + length (timers l) = n \<and> length (timers l) + length (added_timers fs) \<le> k \<and>
     distinct (map snd (timers l) @ added_timers fs) \<and>
     (\<forall>a\<in>pending l \<union> set (added_timers fs). \<not> repeat (theap l a) \<and> 0 < expiration (theap l a) \<and> a \<noteq> 0)"

definition test3_inv :: "int \<Rightarrow> nat \<Rightarrow> nat \<Rightarrow> bool \<Rightarrow> test3_program \<Rightarrow> bool" where
  "test3_inv t n k q l \<longleftrightarrow> held t n k (pendingFunctors l) l \<and> quit l = q"

lemma held_frame [simp]:
  "held t n k fs (l\<lparr>timerfd := d\<rparr>) = held t n k fs l" "held t n k fs (l\<lparr>looping := b\<rparr>) = held t n k fs l" "held t n k fs (l\<lparr>quit := b\<rparr>) = held t n k fs l"
  "held t n k fs (l\<lparr>el_poller := p\<rparr>) = held t n k fs l" "held t n k fs (l\<lparr>pendingFunctors := gs\<rparr>) = held t n k fs l"
  "held t n k fs (l\<lparr>callingPendingFunctors := b\<rparr>) = held t n k fs l" "held t n k fs (l\<lparr>activeChannels := cs\<rparr>) = held t n k fs l"
  "held t n k fs (l\<lparr>wakeupfd := w\<rparr>) = held t n k fs l"
  by (simp_all add: held_def)

lemma test3_functor:
  assumes "held t n k (f # fs) l"
  shows "\<exists>l'. run_functor (test3_env t clk rnd) f l = Inr l' \<and> held t n k fs l' \<and> el_poller l' = el_poller l \<and> quit l' = quit l \<and>
    pendingFunctors l' = pendingFunctors l"
proof (cases f)
  case (User_functor u)
  then show ?thesis using assms
    by (auto simp: run_functor_def test3_env_def runInThread_def held_def tq_inv_def pending_def)
next
  case (AddTimer a)
  let ?when = "expiration (theap l a)"
  have l: "tq_inv l" "a \<notin> pending l" "a \<noteq> 0" "0 < ?when" "tq_thread l = t" using assms AddTimer by (auto simp: held_def pending_def)
  obtain q ch where q: "insert_timer a l = Inr (q, ch)" "tq_inv q" "q = l\<lparr>timers := insort (?when, a) (timers l)\<rparr>"
    using insert_timer_ok [OF l(1-4)] by blast
  let ?d = "if ch then Some (clk a, getTimeFromNow (clk a) ?when) else timerfd l"
  have run: "run_functor (test3_env t clk rnd) f l = Inr (q\<lparr>timerfd := ?d\<rparr>)"
    using q AddTimer by (simp add: run_functor_def addTimerInLoop_def resetTimerfd_def test3_env_def)
  have "set (map snd (timers q)) = insert a (pending l)" "length (timers q) = Suc (length (timers l))"
    by (simp_all add: q(3) set_insort_key pending_def)
  moreover have "distinct (map snd (timers q))" using q(2) by (simp add: tq_inv_def)
  ultimately have "held t n k fs q"
    using assms AddTimer q(2) by (auto simp: held_def pending_def q(3) set_insort_key)
  then show ?thesis using run by (simp add: q(3))
qed

lemma test3_functors:
  "held t n k fs l \<Longrightarrow> \<exists>l'. rfold (run_functor (test3_env t clk rnd)) fs l = Inr l' \<and> held t n k [] l' \<and> el_poller l' = el_poller l \<and> quit l' = quit l \<and>
    pendingFunctors l' = pendingFunctors l"
proof (induction fs arbitrary: l)
  case (Cons f fs)
  obtain l1 where l1: "run_functor (test3_env t clk rnd) f l = Inr l1" "held t n k fs l1" "el_poller l1 = el_poller l" "quit l1 = quit l"
      "pendingFunctors l1 = pendingFunctors l"
    using test3_functor [OF Cons.prems] by blast
  from Cons.IH [OF l1(2)] show ?case using l1 by auto
qed simp

lemma test3_expired:
  "run_expired (run_user (test3_env t clk rnd)) es l = Inr (l\<lparr>t3_out := t3_out l @ replicate (length es) t\<rparr>)"
proof (induction es arbitrary: l)
  case (Cons e es)
  then show ?case by (simp add: run_expired_def test3_env_def runInThread_def replicate_append_same)
qed (simp add: run_expired_def)

lemma test3_timer_event:
  assumes inv: "held t n k fs l"
  shows "\<exists>l'. timer_handleRead (run_user (test3_env t clk rnd)) rnd (tq_thread l) now 8 clk' l = Inr l' \<and> held t n k fs l' \<and> el_poller l' = el_poller l \<and>
    quit l' = quit l \<and> pendingFunctors l' = pendingFunctors l"
proof -
  have tq: "tq_inv l" using inv by (simp add: held_def)
  define es where "es = filter (\<lambda>e. fst e \<le> now) (timers l)"
  define ls where "ls = filter (\<lambda>e. now < fst e) (timers l)"
  define m where "m = l\<lparr>timers := ls, t3_out := t3_out l @ replicate (length es) t\<rparr>"
  have "snd e \<in> pending l" if "e \<in> set es" for e using that by (auto simp: es_def pending_def)
  then have "\<forall>e\<in>set es. \<not> repeat (theap m (snd e))" using inv by (simp add: held_def m_def)
  then obtain d where d: "reset rnd clk' es now m = Inr (m\<lparr>timerfd := d\<rparr>)" using reset_once by blast
  have "timer_handleRead (run_user (test3_env t clk rnd)) rnd (tq_thread l) now 8 clk' l = Inr (m\<lparr>timerfd := d\<rparr>)"
    using timer_handleRead_eq [OF tq refl] d by (simp add: test3_expired m_def flip: es_def ls_def)
  moreover have "held t n k fs m"
  proof -
    have split: "length es + length ls = length (timers l)"
      using sum_length_filter_compl [of "\<lambda>e. fst e \<le> now" "timers l"] by (simp add: es_def ls_def not_le)
    have "tq_inv m" using tq_inv_cong [OF tq_inv_filter [OF tq, of "\<lambda>e. now < fst e"], of m] by (simp add: m_def ls_def)
    moreover have sub: "set (map snd ls) \<subseteq> pending l" by (auto simp: ls_def pending_def)
    moreover have "distinct (map snd ls @ added_timers fs)"
      using inv sub by (auto simp: held_def ls_def distinct_map_filter pending_def)
    moreover have "\<not> repeat (theap l a) \<and> 0 < expiration (theap l a) \<and> a \<noteq> 0" if "a \<in> snd ` set ls \<union> set (added_timers fs)" for a
    proof -
      have "a \<in> pending l \<union> set (added_timers fs)" using that sub by auto
      then show ?thesis using inv by (simp add: held_def)
    qed
    ultimately show ?thesis using inv split unfolding held_def by (simp add: m_def pending_def) auto
  qed
  ultimately show ?thesis by (intro exI [of _ "m\<lparr>timerfd := d\<rparr>"]) (simp add: m_def)
qed

interpretation test3_loop: loop_program "test3_env t clk rnd" Map.empty "test3_inv t n k q" "\<lambda>l. test3_inv t n k q l \<and> pendingFunctors l = []"
  for t clk rnd n k q
proof
  show "\<exists>l'. timer_handleRead (run_user (test3_env t clk rnd)) (rounding (test3_env t clk rnd)) (tq_thread l) (in_timer_now inp)
      (in_timer_read inp) (in_timer_clock inp) l = Inr l' \<and> test3_inv t n k q l' \<and> el_poller l' = el_poller l"
    if "test3_inv t n k q l" "in_timer_read inp = 8" "0 < in_timer_now inp" for l and inp :: input
    using test3_timer_event [of t n k "pendingFunctors l" l clk rnd "in_timer_now inp" "in_timer_clock inp"] that(1,2)
    by (force simp: test3_inv_def test3_env_def)
  show "\<exists>l'. doPendingFunctors (test3_env t clk rnd) l = Inr l' \<and> (test3_inv t n k q l' \<and> pendingFunctors l' = []) \<and> el_poller l' = el_poller l"
    if "test3_inv t n k q l" for l
  proof -
    have "held t n k (pendingFunctors l) (l\<lparr>callingPendingFunctors := True, pendingFunctors := []\<rparr>)" using that by (simp add: test3_inv_def)
    from test3_functors [OF this, of clk rnd] obtain l' where "rfold (run_functor (test3_env t clk rnd)) (pendingFunctors l)
          (l\<lparr>callingPendingFunctors := True, pendingFunctors := []\<rparr>) = Inr l'" "held t n k [] l'" "el_poller l' = el_poller l" "quit l' = quit l"
        "pendingFunctors l' = []"
      by auto
    then show ?thesis using that by (simp add: doPendingFunctors_def swap_functors_def test3_inv_def)
  qed
qed (auto simp: test3_inv_def)

subsection \<open>Properties\<close>

text \<open>What the calls of \<open>main\<close> do to the waiting loop: each is handed over and wakes it.\<close>

lemma test3_runInLoop:
  assumes "test3_inv t n k q l" and "tid \<noteq> t"
  shows "\<exists>l'. runInLoop (test3_env tid clk rnd) tid (User_functor ()) l = Inr l' \<and> test3_inv t (Suc n) k q l' \<and> el_poller l' = el_poller l \<and> looping l' = looping l"
  using assms by (auto simp: runInLoop_def isInLoopThread_def queueInLoop_def push_functor_def wakeup_def Let_def test3_inv_def held_def tq_inv_def pending_def)

lemma test3_runAfter:
  assumes inv: "test3_inv t n k q l" and quiet: "pendingFunctors l = []" "timers l = []" and tid: "tid \<noteq> t" and a: "addr \<noteq> 0" "0 < now" "rounds_sign rnd"
  shows "\<exists>l'. runAfter (test3_env tid clk rnd) tid addr now 2 () l = Inr l' \<and> test3_inv t (Suc n) (Suc k) q l' \<and> el_poller l' = el_poller l"
proof -
  have "0 < addTime rnd now 2" using addTime_pos [OF a(3,2)] by simp
  then show ?thesis using inv quiet tid a(1)
    by (auto simp: runAfter_def runAt_def loop_addTimer_def addTimer_def queueInLoop_def push_functor_def wakeup_def isInLoopThread_def Let_def test3_env_def
        test3_inv_def held_def tq_inv_def pending_def Timer_new_def)
qed

text \<open>The loop from its entry, or from its \<open>poll\<close>, while nobody has told it to quit.\<close>

lemma loop_while_resume: "\<not> quit l \<Longrightarrow> loop_while env inps l = resume_poll env inps l"
  by (simp add: loop_while.simps resume_poll_def)

lemma test3_waits:
  assumes "own_loop Map.empty 1 2 [3, 4] l" and "test3_inv t n k False l" and "\<forall>inp\<in>set inps. event_input [3, 4] inp"
  shows "\<exists>m. own_loop Map.empty 1 2 [3, 4] m \<and> test3_inv t n k False m \<and> resume_poll (test3_env t clk rnd) inps l = Inr (m, False) \<and>
    (inps \<noteq> [] \<longrightarrow> pendingFunctors m = [])"
proof (cases "inps = []")
  case True
  then show ?thesis using assms by (intro exI [of _ l]) (simp add: resume_poll_def)
next
  case False
  then show ?thesis using test3_loop.resumes [OF assms False, of clk rnd] by (auto simp: test3_inv_def)
qed

text \<open>Up to the order to quit; then the loop, in its last iteration, returns.\<close>

lemma test3_calls:
  assumes "tid \<noteq> t" and "addr \<noteq> 0" and "0 < now" and "rounds_sign rnd"
    and "\<forall>inp\<in>set (inps0 @ inps1 @ inps2 @ inps3). event_input [3, 4] inp" and "inps1 \<noteq> []" and "inps2 \<noteq> []"
  shows "\<exists>l. own_loop Map.empty 1 2 [3, 4] l \<and> test3_inv t 2 1 True l \<and> pendingFunctors l = [] \<and>
    test3_until_exit e t tid clk rnd addr now inps0 inps1 inps2 inps3 = resume_poll (test3_env t clk rnd) inps3 l"
proof -
  let ?env = "test3_env t clk rnd" and ?hand = "runInLoop (test3_env tid clk rnd) tid (User_functor ())"
  obtain loop0 :: "(unit, unit) evloop" and loops where new: "EventLoop_new t 100 (1, 3) (2, 4) False (\<lambda>a. Channel_new 0 0 False) (\<lambda>a. Timer_new () 0 0) Map.empty = Inr (loop0, loops)"
      "own_loop Map.empty 1 2 [3, 4] loop0" "fresh_loop loop0" "timers loop0 = []" "tq_thread loop0 = t"
    using new_loop [of t "\<lambda>a. Timer_new () 0 0"] by blast
  define l0 where "l0 = evloop.extend loop0 (test3_program.fields [])"
  have l0: "own_loop Map.empty 1 2 [3, 4] l0" "test3_inv t 0 0 False l0" "\<not> looping l0"
    using new(2-5)
    by (simp_all add: l0_def own_loop_def test3_inv_def held_def tq_inv_def pending_def fresh_loop_def evloop.extend_def test3_program.fields_def)
  have hand: "\<exists>m. ?hand l = Inr m \<and> own_loop Map.empty 1 2 [3, 4] m \<and> test3_inv t (Suc n) k False m \<and> looping m = looping l"
    if own: "own_loop Map.empty 1 2 [3, 4] l" and inv: "test3_inv t n k False l" for l n k
  proof -
    show ?thesis using test3_runInLoop [OF inv assms(1), of clk rnd] own by (auto simp: own_loop_def)
  qed
  have enter: "\<exists>m. loop ?env t inps0 l = Inr (m, False) \<and> own_loop Map.empty 1 2 [3, 4] m \<and> test3_inv t n 0 False m"
    if "own_loop Map.empty 1 2 [3, 4] l" "test3_inv t n 0 False l" "\<not> looping l" for l n
  proof -
    let ?l = "l\<lparr>looping := True, quit := False\<rparr>"
    have "own_loop Map.empty 1 2 [3, 4] ?l" "test3_inv t n 0 False ?l" using that by (simp_all add: own_loop_def test3_inv_def)
    from test3_waits [OF this, of inps0 clk rnd] obtain m where "own_loop Map.empty 1 2 [3, 4] m" "test3_inv t n 0 False m"
      "loop_while ?env inps0 ?l = Inr (m, False)"
      using assms(5) by (auto simp: loop_while_resume)
    then show ?thesis using that by (intro exI [of _ m]) (auto simp: loop_def test3_inv_def held_def)
  qed
  obtain l2 where l2: "own_loop Map.empty 1 2 [3, 4] l2" "test3_inv t 1 0 False l2"
      "rbind ((if et_thread e = T_looping then Inr else ?hand) l0) (\<lambda>l. rbind (loop ?env t inps0 l) (\<lambda>(l, returned).
         (if et_thread e = T_looping then ?hand else Inr) l)) = Inr l2"
  proof (cases "et_thread e = T_looping")
    case True
    obtain m where "loop ?env t inps0 l0 = Inr (m, False)" "own_loop Map.empty 1 2 [3, 4] m" "test3_inv t 0 0 False m"
      using enter [OF l0] by blast
    with hand [of m 0 0] that True show thesis by auto
  next
    case False
    obtain m where m: "?hand l0 = Inr m" "own_loop Map.empty 1 2 [3, 4] m" "test3_inv t 1 0 False m" "\<not> looping m"
      using hand [OF l0(1,2)] l0(3) by auto
    from enter [OF m(2-4)] that False m(1) show thesis by auto
  qed
  obtain l3 where l3: "own_loop Map.empty 1 2 [3, 4] l3" "test3_inv t 1 0 False l3" "pendingFunctors l3 = []"
      "resume_poll ?env inps1 l2 = Inr (l3, False)"
    using test3_waits [OF l2(1,2), of inps1 clk rnd] assms(5,6) by auto
  have "timers l3 = []" using l3(2) by (simp add: test3_inv_def held_def)
  then obtain l4 where l4: "runAfter (test3_env tid clk rnd) tid addr now 2 () l3 = Inr l4" "test3_inv t 2 1 False l4" "el_poller l4 = el_poller l3"
    using test3_runAfter [OF l3(2,3) _ assms(1-4)] by (auto simp: numeral_2_eq_2)
  have own4: "own_loop Map.empty 1 2 [3, 4] l4" using l3(1) l4(3) by (simp add: own_loop_def)
  obtain l5 where l5: "own_loop Map.empty 1 2 [3, 4] l5" "test3_inv t 2 1 False l5" "pendingFunctors l5 = []"
      "resume_poll ?env inps2 l4 = Inr (l5, False)"
    using test3_waits [OF own4 l4(2), of inps2 clk rnd] assms(5,7) by auto
  have "own_loop Map.empty 1 2 [3, 4] (quit_loop tid l5)" "test3_inv t 2 1 True (quit_loop tid l5)" "pendingFunctors (quit_loop tid l5) = []"
    using l5(1-3) by (auto simp: quit_loop_def wakeup_def Let_def own_loop_def test3_inv_def)
  moreover have "test3_until_exit e t tid clk rnd addr now inps0 inps1 inps2 inps3 = resume_poll ?env inps3 (quit_loop tid l5)"
  proof -
    have "rbind ((if et_thread e = T_looping then Inr else ?hand) l0) (\<lambda>l. rbind (loop ?env t inps0 l) (\<lambda>(l, returned).
        rbind ((if et_thread e = T_looping then ?hand else Inr) l) k)) = k l2" for k :: "test3_program \<Rightarrow> (test3_program \<times> bool) result"
      using l2(3) by (cases "et_thread e = T_looping") (auto simp: rbind_eq_Inr_iff)
    then show ?thesis using new(1) l3(4) l4(1) l5(4) by (simp add: test3_until_exit_def Let_def flip: l0_def)
  qed
  ultimately show ?thesis by blast
qed

lemma test3_returns:
  assumes "own_loop Map.empty 1 2 [3, 4] l" and "test3_inv t 2 1 True l" and "\<forall>inp\<in>set inps. event_input [3, 4] inp" and "inps \<noteq> []"
  shows "\<exists>m. resume_poll (test3_env t clk rnd) inps l = Inr (m, True) \<and> (t3_out m = [t] \<or> t3_out m = [t, t])"
proof -
  obtain m where m: "test3_inv t 2 1 True m" "pendingFunctors m = []" "resume_poll (test3_env t clk rnd) inps l = Inr (m\<lparr>looping := False\<rparr>, True)"
    using test3_loop.resumes [OF assms, of clk rnd] by (auto simp: test3_inv_def)
  have "set (t3_out m) \<subseteq> {t}" "length (t3_out m) = 1 \<or> length (t3_out m) = 2" using m(1,2) by (auto simp: test3_inv_def held_def)
  then have "t3_out m = [t] \<or> t3_out m = [t, t]" by (auto simp: length_Suc_conv numeral_2_eq_2)
  then show ?thesis using m(3) by simp
qed

text \<open>
  C33: test3.cpp: what \<open>main\<close> hands to the loop of another thread runs in that thread, and only there. \<open>startLoop\<close> has returned, in whatever interleaving; the poll reports
  what it likes on the loop's two descriptors (a timer read gives 8 bytes), and ends at least once after each of the two hand-overs, as the
  wake-ups see to. Then up to the end of \<open>main\<close> the program does not fault. If the loop has not finished by then (\<open>inps3\<close> is empty), the destructor orders it to
  quit again, it returns after its next iteration, and the functor has run exactly once and the timer's at most once. If it has, the functors have run
  so too, the loop has returned, and the destructor faults: it calls \<open>quit\<close> on the dead loop.\<close>

theorem test3_runs_in_loop_thread:
  assumes "et_execs as EventLoopThread_new = Some (Inr e)" and "et_caller e = C_returned"
    and "tid \<noteq> t" and "addr \<noteq> 0" and "0 < now" and "rounds_sign rnd"
    and "\<forall>inp\<in>set (inps0 @ inps1 @ inps2 @ inps3 @ inps4). event_input [3, 4] inp" and "inps1 \<noteq> []" and "inps2 \<noteq> []" and "inps4 \<noteq> []"
  shows "if inps3 = [] then \<exists>l. test3_main e t tid clk rnd addr now inps0 inps1 inps2 inps3 inps4 = Inr (l, True) \<and> (t3_out l = [t] \<or> t3_out l = [t, t])
    else (\<exists>l. test3_until_exit e t tid clk rnd addr now inps0 inps1 inps2 inps3 = Inr (l, True) \<and> (t3_out l = [t] \<or> t3_out l = [t, t])) \<and>
      test3_main e t tid clk rnd addr now inps0 inps1 inps2 inps3 inps4 = Inl OutOfRange"
proof -
  obtain l where l: "own_loop Map.empty 1 2 [3, 4] l" "test3_inv t 2 1 True l"
      "test3_until_exit e t tid clk rnd addr now inps0 inps1 inps2 inps3 = resume_poll (test3_env t clk rnd) inps3 l"
    using test3_calls [OF assms(3-6), of inps0 inps1 inps2 inps3 e clk] assms(7-9) by auto
  have "et_inv EventLoopThread_new" by (simp add: et_inv_def EventLoopThread_new_def)
  with et_run_inv [OF et_execs_runs [OF assms(1)]] have "et_inv e" by blast
  then have "et_loop e" using assms(2) unfolding et_inv_def by blast
  then have d: "destroy_quit (e\<lparr>et_thread := (if r then T_exited else T_looping), et_quit := True\<rparr>) =
      Some (if r then Inl OutOfRange else Inr (e\<lparr>et_thread := T_looping, et_quit := True, et_exiting := True, et_caller := C_joining\<rparr>))" for r
    using assms(2) by (simp add: et_defs)
  have again: "own_loop Map.empty 1 2 [3, 4] (quit_loop tid l)" "test3_inv t 2 1 True (quit_loop tid l)"
    using l(1,2) by (auto simp: quit_loop_def wakeup_def Let_def own_loop_def test3_inv_def)
  show ?thesis
  proof (cases "inps3 = []")
    case True
    then have "test3_main e t tid clk rnd addr now inps0 inps1 inps2 inps3 inps4 = resume_poll (test3_env t clk rnd) inps4 (quit_loop tid l)"
      using l(3) d [of False] by (simp add: test3_main_def resume_poll_def)
    then show ?thesis using test3_returns [OF again, of inps4 clk rnd] assms(7,10) True by auto
  next
    case False
    then obtain m where "resume_poll (test3_env t clk rnd) inps3 l = Inr (m, True)" "t3_out m = [t] \<or> t3_out m = [t, t]"
      using test3_returns [OF l(1,2), of inps3 clk rnd] assms(7) by auto
    then show ?thesis using l(3) d [of True] False by (simp add: test3_main_def)
  qed
qed

theorem test3_runs_in_loop_thread_witness:
  "\<exists>e. et_execs [Start, Set_loop, Notify, Test, Enter] EventLoopThread_new = Some (Inr e) \<and>
    test3_main e 8 7 (\<lambda>a. 1) id 9 1000 []
      [\<lparr>in_poll = Poll_ok 1 [0, 1], in_time = 5, in_timer_now = 2000, in_timer_read = 8, in_timer_clock = 0\<rparr>]
      [\<lparr>in_poll = Poll_ok 1 [0, 1], in_time = 6, in_timer_now = 3000, in_timer_read = 8, in_timer_clock = 0\<rparr>]
      [\<lparr>in_poll = Poll_ok 2 [1, 1], in_time = 7, in_timer_now = 4000000, in_timer_read = 8, in_timer_clock = 0\<rparr>]
      [\<lparr>in_poll = Poll_ok 1 [0, 1], in_time = 8, in_timer_now = 5000000, in_timer_read = 8, in_timer_clock = 0\<rparr>] = Inl OutOfRange"
proof -
  obtain e where e: "et_execs [Start, Set_loop, Notify, Test, Enter] EventLoopThread_new = Some (Inr e)" "et_caller e = C_returned"
    by (simp add: EventLoopThread_new_def et_defs)
  show ?thesis
    using test3_runs_in_loop_thread [OF e, of 7 8 9 1000 id "[]"
      "[\<lparr>in_poll = Poll_ok 1 [0, 1], in_time = 5, in_timer_now = 2000, in_timer_read = 8, in_timer_clock = 0\<rparr>]"
      "[\<lparr>in_poll = Poll_ok 1 [0, 1], in_time = 6, in_timer_now = 3000, in_timer_read = 8, in_timer_clock = 0\<rparr>]"
      "[\<lparr>in_poll = Poll_ok 2 [1, 1], in_time = 7, in_timer_now = 4000000, in_timer_read = 8, in_timer_clock = 0\<rparr>]"
      "[\<lparr>in_poll = Poll_ok 1 [0, 1], in_time = 8, in_timer_now = 5000000, in_timer_read = 8, in_timer_clock = 0\<rparr>]" "\<lambda>a. 1"] e(1)
    by (auto simp: rounds_sign_def event_input_def)
qed

end
