(* ===== verification/RN_TestAcceptors.thy ===== *)
theory RN_TestAcceptors
  imports RN_LoopProgram RN_TcpServer
begin

text \<open>
  The program RN/net/test7.cpp: two acceptors on one loop, each with a callback that greets a new connection and closes it. The acceptors of
  RN_TcpServer are driven here by the channels of the loop (RN_EventLoop). The descriptors of the timer queue and of the wake-up trigger are 3 and 4, with the
  channels at the addresses 1 and 2; the channels of the acceptors are at 5 and 6, and those of the descriptors \<open>socket\<close> gave.
\<close>

subsection \<open>The program\<close>

text \<open>What the callbacks do to the outside.\<close>

datatype t7_event = Printed string | Written int string | Closed int

record test7_program = "(unit, nat) evloop" +
  t7_acceptors :: "nat \<Rightarrow> t7_event list acceptor"
  t7_accepts :: nat
  t7_log :: "t7_event list"

definition newConnection :: "(32 word \<Rightarrow> string option) \<Rightarrow> int \<Rightarrow> sockaddr_in \<Rightarrow> t7_event list \<Rightarrow> t7_event list result" where
  "newConnection ntop sockfd peerAddr w = Inr (w @
     [Printed (''newConnection(): accepted a new connection from '' @ InetAddress_toHostPort ntop peerAddr @ [CHR 0x0A]),
      Written sockfd (''How are you?'' @ [CHR 0x0A]), Closed sockfd])"

definition newConnection2 :: "(32 word \<Rightarrow> string option) \<Rightarrow> int \<Rightarrow> sockaddr_in \<Rightarrow> t7_event list \<Rightarrow> t7_event list result" where
  "newConnection2 ntop sockfd peerAddr w = Inr (w @
     [Printed (''newConnection2(): accepted a new connection from '' @ InetAddress_toHostPort ntop peerAddr @ [CHR 0x0A]),
      Written sockfd (''Fine'' @ [CHR 0x0A]), Closed sockfd])"

text \<open>The \<open>k\<close>-th call of \<open>accept\<close> is answered by \<open>answers k\<close>, with the peer's address.\<close>

definition test7_env :: "(nat \<Rightarrow> syscall \<times> sockaddr_in) \<Rightarrow> (nat \<Rightarrow> timestamp) \<Rightarrow> (rat \<Rightarrow> rat) \<Rightarrow> (unit, nat, unit test7_program_ext) env" where
  "test7_env answers clk rnd =
     \<lparr>run_user = (\<lambda>f l. Inl BadCall),
      user_event = (\<lambda>call l. case call of
        Call_read (User_callback i) t \<Rightarrow>
          (let (r, addr) = answers (t7_accepts l)
           in rbind (Acceptor_handleRead (tq_thread l) r addr (\<lambda>fd w. w @ [Closed fd]) (t7_acceptors l i) (t7_log l)) (\<lambda>w.
              Inr (l\<lparr>t7_accepts := t7_accepts l + 1, t7_log := w\<rparr>)))
      | _ \<Rightarrow> Inl BadCall),
      clock = clk, rounding = rnd\<rparr>"

text \<open>The construction of the acceptor's channel, and \<open>listen\<close> with its effect on that channel.\<close>

definition acceptor_channel :: "nat \<Rightarrow> t7_event list acceptor \<Rightarrow> test7_program \<Rightarrow> test7_program" where
  "acceptor_channel i a l =
     (store_channel (4 + i) (setReadCallback (User_callback i) (Channel_new (el_addr l) (acceptSocket a) False)) l)\<lparr>t7_acceptors := (t7_acceptors l)(i := a)\<rparr>"

definition acceptor_listen :: "int \<Rightarrow> syscall \<Rightarrow> nat \<Rightarrow> test7_program \<Rightarrow> test7_program result" where
  "acceptor_listen tid r i l =
     rbind (Acceptor_listen tid r (t7_acceptors l i)) (\<lambda>a.
     loop_updateChannel enableReading tid (4 + i) (l\<lparr>t7_acceptors := (t7_acceptors l)(i := a)\<rparr>))"

definition test7_main ::
  "int \<Rightarrow> (nat \<Rightarrow> syscall) \<Rightarrow> (sockaddr_in \<Rightarrow> syscall) \<Rightarrow> (nat \<Rightarrow> syscall) \<Rightarrow> (nat \<Rightarrow> syscall \<times> sockaddr_in) \<Rightarrow> (32 word \<Rightarrow> string option) \<Rightarrow>
     (nat \<Rightarrow> timestamp) \<Rightarrow> (rat \<Rightarrow> rat) \<Rightarrow> input list \<Rightarrow> (test7_program \<times> bool) result" where
  "test7_main tid socks binds listens answers ntop clk rnd inps =
     rbind (EventLoop_new tid 100 (1, 3) (2, 4) False (\<lambda>a. Channel_new 0 0 False) (\<lambda>a. Timer_new () 0 0) Map.empty) (\<lambda>(loop0, loops).
     rbind (Acceptor_new tid (socks 1) (binds (InetAddress_any 9981))) (\<lambda>acceptor.
     rbind (Acceptor_new tid (socks 2) (binds (InetAddress_any 9982))) (\<lambda>acceptor2.
     rbind (acceptor_listen tid (listens 1) 1
              (acceptor_channel 2 (setNewConnectionCallback (newConnection2 ntop) acceptor2)
                (acceptor_channel 1 (setNewConnectionCallback (newConnection ntop) acceptor)
                  (evloop.extend loop0 (test7_program.fields (\<lambda>i. acceptor) 0 []))))) (\<lambda>l.
     rbind (acceptor_listen tid (listens 2) 2 l) (\<lambda>l.
     loop (test7_env answers clk rnd) tid inps l)))))"

subsection \<open>The invariant\<close>

text \<open>What the callback of the \<open>i\<close>-th acceptor does for one answer.\<close>

definition served :: "(32 word \<Rightarrow> string option) \<Rightarrow> nat \<Rightarrow> syscall \<times> sockaddr_in \<Rightarrow> t7_event list" where
  "served ntop i x = (case x of (Sys_error e, addr) \<Rightarrow> []
     | (Sys_ok fd, addr) \<Rightarrow>
         [Printed ((if i = 1 then ''newConnection'' else ''newConnection2'') @ ''(): accepted a new connection from '' @ InetAddress_toHostPort ntop addr @ [CHR 0x0A]),
          Written fd ((if i = 1 then ''How are you?'' else ''Fine'') @ [CHR 0x0A]), Closed fd])"

definition acceptor_ready :: "int \<Rightarrow> (int \<Rightarrow> sockaddr_in \<Rightarrow> 'w \<Rightarrow> 'w result) \<Rightarrow> 'w acceptor \<Rightarrow> bool" where
  "acceptor_ready tid cb a \<longleftrightarrow> acc_thread a = tid \<and> newConnectionCallback a = Some cb"

text \<open>The acceptors \<open>is\<close> have been told to read so far.\<close>

definition test7_inv :: "int \<Rightarrow> (32 word \<Rightarrow> string option) \<Rightarrow> (nat \<Rightarrow> syscall \<times> sockaddr_in) \<Rightarrow> nat list \<Rightarrow> test7_program \<Rightarrow> bool" where
  "test7_inv tid ntop answers is l \<longleftrightarrow> (\<forall>k. \<exists>fd addr. answers k = (Sys_ok fd, addr) \<and> 0 \<le> fd) \<and>
     tq_thread l = tid \<and> timers l = [] \<and> pendingFunctors l = [] \<and> \<not> quit l \<and>
     acceptor_ready tid (newConnection ntop) (t7_acceptors l 1) \<and> acceptor_ready tid (newConnection2 ntop) (t7_acceptors l 2) \<and>
     length is = t7_accepts l \<and> t7_log l = concat (map2 (served ntop) is (map answers [0..<length is]))"

lemma accept_event:
  assumes inv: "test7_inv tid ntop answers is l" and i: "i \<in> {1, 2}"
  shows "\<exists>l'. user_event (test7_env answers clk rnd) (Call_read (User_callback i) t) l = Inr l' \<and> test7_inv tid ntop answers (is @ [i]) l' \<and>
    el_poller l' = el_poller l"
proof -
  obtain fd addr where a: "answers (t7_accepts l) = (Sys_ok fd, addr)" "0 \<le> fd" using inv unfolding test7_inv_def by blast
  have log: "length is = t7_accepts l" "t7_log l = concat (map2 (served ntop) is (map answers [0..<length is]))"
    using inv unfolding test7_inv_def by blast+
  have cb: "acceptor_ready tid (newConnection ntop) (t7_acceptors l 1)" "acceptor_ready tid (newConnection2 ntop) (t7_acceptors l 2)" "tq_thread l = tid"
    using inv by (simp_all add: test7_inv_def)
  define l' where "l' = l\<lparr>t7_accepts := t7_accepts l + 1, t7_log := t7_log l @ served ntop i (answers (t7_accepts l))\<rparr>"
  have "user_event (test7_env answers clk rnd) (Call_read (User_callback i) t) l = Inr l'"
    using i cb a
    by (auto simp: test7_env_def Acceptor_handleRead_def Socket_accept_def sockets_accept_def acceptor_ready_def newConnection_def newConnection2_def
      served_def l'_def)
  moreover have "t7_log l' = concat (map2 (served ntop) (is @ [i]) (map answers [0..<length (is @ [i])]))" "length (is @ [i]) = t7_accepts l'"
    using log by (simp_all add: l'_def)
  then have "test7_inv tid ntop answers (is @ [i]) l'" using inv by (simp add: test7_inv_def l'_def)
  ultimately show ?thesis by (simp add: l'_def)
qed

definition accept_callbacks :: "nat \<Rightarrow> nat option" where
  "accept_callbacks = [5 \<mapsto> 1, 6 \<mapsto> 2]"

interpretation test7_loop: loop_reads "test7_env answers clk rnd" accept_callbacks "test7_inv tid ntop answers" "test7_inv tid ntop answers"
  for answers clk rnd tid ntop
proof
  show "\<exists>l'. user_event (test7_env answers clk rnd) (Call_read (User_callback u) t) l = Inr l' \<and> test7_inv tid ntop answers (us @ [u]) l' \<and> el_poller l' = el_poller l"
    if "test7_inv tid ntop answers us l" "u \<in> ran accept_callbacks" for us l u t
    using accept_event [OF that(1)] that(2) by (auto simp: accept_callbacks_def ran_def split: if_splits)
  show "\<exists>l'. timer_handleRead (run_user (test7_env answers clk rnd)) (rounding (test7_env answers clk rnd)) (tq_thread l) (in_timer_now inp)
      (in_timer_read inp) (in_timer_clock inp) l = Inr l' \<and> test7_inv tid ntop answers us l' \<and> el_poller l' = el_poller l"
    if inv: "test7_inv tid ntop answers us l" and "in_timer_read inp = 8" "0 < in_timer_now inp" for us l and inp :: input
  proof -
    have l: "timers l = []" "tq_inv l" using inv by (simp_all add: test7_inv_def tq_inv_def)
    obtain d where "reset (rounding (test7_env answers clk rnd)) (in_timer_clock inp) [] (in_timer_now inp) (l\<lparr>timers := []\<rparr>) = Inr (l\<lparr>timers := [], timerfd := d\<rparr>)"
      using reset_once [of "[]" "l\<lparr>timers := []\<rparr>"] by force
    then have "timer_handleRead (run_user (test7_env answers clk rnd)) (rounding (test7_env answers clk rnd)) (tq_thread l) (in_timer_now inp)
        8 (in_timer_clock inp) l = Inr (l\<lparr>timers := [], timerfd := d\<rparr>)"
      using timer_handleRead_eq [OF l(2) refl] l(1) by (simp add: run_expired_def)
    then show ?thesis using inv that(2) by (simp add: test7_inv_def)
  qed
  show "\<exists>l'. doPendingFunctors (test7_env answers clk rnd) l = Inr l' \<and> test7_inv tid ntop answers us l' \<and> el_poller l' = el_poller l"
    if "test7_inv tid ntop answers us l" for us l
    using that by (simp add: doPendingFunctors_def swap_functors_def test7_inv_def)
qed (simp_all add: test7_inv_def)

subsection \<open>Set-up\<close>

lemma acceptor_listen_ok:
  assumes own: "own_loop uc 1 2 fds l" and c: "4 + i \<notin> {1, 2} \<union> dom uc" and fds: "\<forall>f\<in>set fds. 0 \<le> f" "0 \<le> fd" "fd \<notin> set fds"
    and tid: "threadId (el_poller l) = tid" "acc_thread (t7_acceptors l i) = tid"
    and ch: "heap (el_poller l) (4 + i) = setReadCallback (User_callback i) (Channel_new (el_addr l) fd False)"
  shows "\<exists>p a. acceptor_listen tid (Sys_ok n) i l = Inr (l\<lparr>t7_acceptors := (t7_acceptors l)(i := a), el_poller := p\<rparr>) \<and>
    a = (t7_acceptors l i)\<lparr>listennning := True, acc_reading := True\<rparr> \<and>
    own_loop (uc(4 + i \<mapsto> i)) 1 2 (fds @ [fd]) (l\<lparr>t7_acceptors := (t7_acceptors l)(i := a), el_poller := p\<rparr>) \<and>
    threadId p = tid \<and> (\<forall>d. d \<noteq> 4 + i \<longrightarrow> heap p d = heap (el_poller l) d) \<and>
    map_of (channels p) = (map_of (channels (el_poller l)))(fd \<mapsto> 4 + i)"
proof -
  define a where "a = (t7_acceptors l i)\<lparr>listennning := True, acc_reading := True\<rparr>"
  define l1 where "l1 = l\<lparr>t7_acceptors := (t7_acceptors l)(i := a)\<rparr>"
  have l1: "own_loop uc 1 2 fds l1" "threadId (el_poller l1) = tid" "heap (el_poller l1) (4 + i) = setReadCallback (User_callback i) (Channel_new (el_addr l1) fd False)"
    using own tid(1) ch by (simp_all add: l1_def own_loop_def)
  obtain p where p: "loop_updateChannel enableReading tid (4 + i) l1 = Inr (l1\<lparr>el_poller := p\<rparr>)" "own_loop (uc(4 + i \<mapsto> i)) 1 2 (fds @ [fd]) (l1\<lparr>el_poller := p\<rparr>)"
      "threadId p = tid" "\<forall>d. d \<noteq> 4 + i \<longrightarrow> heap p d = heap (el_poller l1) d"
      "map_of (channels p) = (map_of (channels (el_poller l1)))(fd \<mapsto> 4 + i)"
    using own_loop_enable [OF l1(1) c fds l1(2,3)] by blast
  have "acceptor_listen tid (Sys_ok n) i l = Inr (l1\<lparr>el_poller := p\<rparr>)"
    using tid(2) p(1) by (simp add: acceptor_listen_def Acceptor_listen_def listenOrDie_def l1_def a_def)
  then show ?thesis using p(2-5) by (intro exI [of _ p] exI [of _ a]) (simp add: l1_def a_def)
qed

text \<open>The program before its loop.\<close>

lemma test7_start:
  assumes "socks 1 = Sys_ok s1" and "socks 2 = Sys_ok s2" and "5 \<le> s1" "5 \<le> s2" "s1 \<noteq> s2"
    and "binds (InetAddress_any 9981) = Sys_ok n1" "binds (InetAddress_any 9982) = Sys_ok n2" "listens 1 = Sys_ok n3" "listens 2 = Sys_ok n4"
    and answers: "\<forall>k. \<exists>fd addr. answers k = (Sys_ok fd, addr) \<and> 0 \<le> fd"
  shows "\<exists>l. test7_main tid socks binds listens answers ntop clk rnd inps = loop (test7_env answers clk rnd) tid inps l \<and>
    own_loop accept_callbacks 1 2 [3, 4, s1, s2] l \<and> test7_inv tid ntop answers [] (l\<lparr>looping := True, quit := False\<rparr>) \<and> \<not> looping l \<and>
    map_of (channels (el_poller l)) = [3 \<mapsto> 1, 4 \<mapsto> 2, s1 \<mapsto> 5, s2 \<mapsto> 6]"
proof -
  obtain loop0 :: "(unit, nat) evloop" and loops where l0: "EventLoop_new tid 100 (1, 3) (2, 4) False (\<lambda>a. Channel_new 0 0 False) (\<lambda>a. Timer_new () 0 0) Map.empty = Inr (loop0, loops)"
      "own_loop Map.empty 1 2 [3, 4] loop0" "fresh_loop loop0" "timers loop0 = []" "tq_thread loop0 = tid" "threadId (el_poller loop0) = tid" "el_addr loop0 = 100"
      "map_of (channels (el_poller loop0)) = [3 \<mapsto> 1, 4 \<mapsto> 2]"
    using new_loop [of tid "\<lambda>a. Timer_new () 0 0"] by blast
  define made :: "int \<Rightarrow> t7_event list acceptor" where
    "made s = \<lparr>acc_thread = tid, acceptSocket = s, listennning = False, acc_reading = False, newConnectionCallback = None\<rparr>" for s
  define a1 where "a1 = setNewConnectionCallback (newConnection ntop) (made s1)"
  define a2 where "a2 = setNewConnectionCallback (newConnection2 ntop) (made s2)"
  define l1 where "l1 = acceptor_channel 2 a2 (acceptor_channel 1 a1 (evloop.extend loop0 (test7_program.fields (\<lambda>i. made s1) 0 [])))"
  have c1: "heap (el_poller l1) 5 = setReadCallback (User_callback 1) (Channel_new 100 s1 False)"
      "heap (el_poller l1) 6 = setReadCallback (User_callback 2) (Channel_new 100 s2 False)"
    using l0(7) by (simp_all add: l1_def acceptor_channel_def store_channel_def a1_def a2_def made_def setNewConnectionCallback_def evloop.extend_def)
  have l1: "own_loop Map.empty 1 2 [3, 4] l1"
  proof -
    have ext: "own_loop Map.empty 1 2 [3, 4] (evloop.extend loop0 (test7_program.fields (\<lambda>i. made s1) 0 []))" using l0(2) by simp
    have keep: "own_loop Map.empty 1 2 [3, 4] (acceptor_channel i a l)" if "own_loop Map.empty 1 2 [3, 4] l" "0 < i" for i a l
      using own_loop_construct [OF that(1), of "4 + i"] that(2) unfolding acceptor_channel_def own_loop_def by simp
    show ?thesis unfolding l1_def by (intro keep ext) simp_all
  qed
  have f1: "threadId (el_poller l1) = tid" "el_addr l1 = 100" "t7_acceptors l1 1 = a1" "t7_acceptors l1 2 = a2" "timers l1 = []" "tq_thread l1 = tid" "\<not> looping l1"
      "pendingFunctors l1 = []" "t7_accepts l1 = 0" "t7_log l1 = []" "map_of (channels (el_poller l1)) = [3 \<mapsto> 1, 4 \<mapsto> 2]"
    using l0(3-8) by (simp_all add: l1_def acceptor_channel_def store_channel_def evloop.extend_def test7_program.fields_def fresh_loop_def)
  obtain p b1 where p: "acceptor_listen tid (Sys_ok n3) 1 l1 = Inr (l1\<lparr>t7_acceptors := (t7_acceptors l1)(1 := b1), el_poller := p\<rparr>)"
      "b1 = a1\<lparr>listennning := True, acc_reading := True\<rparr>"
      "own_loop [5 \<mapsto> 1] 1 2 [3, 4, s1] (l1\<lparr>t7_acceptors := (t7_acceptors l1)(1 := b1), el_poller := p\<rparr>)"
      "threadId p = tid" "\<forall>d. d \<noteq> 5 \<longrightarrow> heap p d = heap (el_poller l1) d" "map_of (channels p) = [3 \<mapsto> 1, 4 \<mapsto> 2, s1 \<mapsto> 5]"
    using acceptor_listen_ok [OF l1, of 1 s1 tid n3] assms(3) f1 c1 by (auto simp: a1_def made_def setNewConnectionCallback_def)
  define l2 where "l2 = l1\<lparr>t7_acceptors := (t7_acceptors l1)(1 := b1), el_poller := p\<rparr>"
  have f2: "own_loop [5 \<mapsto> 1] 1 2 [3, 4, s1] l2" "threadId (el_poller l2) = tid" "el_addr l2 = 100" "t7_acceptors l2 1 = b1" "t7_acceptors l2 2 = a2"
      "heap (el_poller l2) 6 = setReadCallback (User_callback 2) (Channel_new 100 s2 False)"
    using p(3-5) f1 c1(2) by (simp_all add: l2_def)
  have ch2: "map_of (channels (el_poller l2)) = [3 \<mapsto> 1, 4 \<mapsto> 2, s1 \<mapsto> 5]" using p(6) by (simp add: l2_def)
  obtain p2 b2 where p2: "acceptor_listen tid (Sys_ok n4) 2 l2 = Inr (l2\<lparr>t7_acceptors := (t7_acceptors l2)(2 := b2), el_poller := p2\<rparr>)"
      "b2 = a2\<lparr>listennning := True, acc_reading := True\<rparr>"
      "own_loop [5 \<mapsto> 1, 6 \<mapsto> 2] 1 2 [3, 4, s1, s2] (l2\<lparr>t7_acceptors := (t7_acceptors l2)(2 := b2), el_poller := p2\<rparr>)"
      "map_of (channels p2) = [3 \<mapsto> 1, 4 \<mapsto> 2, s1 \<mapsto> 5, s2 \<mapsto> 6]"
    using acceptor_listen_ok [OF f2(1), of 2 s2 tid n4] assms(3-5) f2(2-6) ch2 by (auto simp: a2_def made_def setNewConnectionCallback_def)
  define l where "l = l2\<lparr>t7_acceptors := (t7_acceptors l2)(2 := b2), el_poller := p2\<rparr>"
  have "Acceptor_new tid (socks 1) (binds (InetAddress_any 9981)) = Inr (made s1)" "Acceptor_new tid (socks 2) (binds (InetAddress_any 9982)) = Inr (made s2)"
    using assms(1,2,6,7) by (simp_all add: Acceptor_new_def createNonblockingOrDie_def bindOrDie_def made_def)
  then have "test7_main tid socks binds listens answers ntop clk rnd inps = loop (test7_env answers clk rnd) tid inps l"
    using l0(1) p(1) p2(1) assms(8,9)
    by (simp add: test7_main_def l_def del: One_nat_def flip: a1_def a2_def l1_def l2_def)
  moreover have "test7_inv tid ntop answers [] (l\<lparr>looping := True, quit := False\<rparr>)"
    using answers f1 by (simp add: test7_inv_def l_def l2_def acceptor_ready_def p(2) p2(2) a1_def a2_def made_def setNewConnectionCallback_def)
  ultimately show ?thesis using p2(3,4) f1(7) by (intro exI [of _ l]) (simp add: accept_callbacks_def l_def l2_def)
qed

subsection \<open>Properties\<close>

text \<open>Which acceptors are told to read by the events of one poll (the first two slots are the loop's own).\<close>

definition told_to_read :: "input \<Rightarrow> nat list" where
  "told_to_read inp = (case in_poll inp of Poll_error \<Rightarrow> []
     | Poll_ok n rs \<Rightarrow> filter (\<lambda>i. has_flag (scast (rs ! (i + 1))) (POLLIN OR POLLPRI OR POLLRDHUP)) [1, 2])"

lemma told_to_read_eq:
  assumes "event_input [3, 4, s1, s2] inp" and "5 \<le> s1" and "5 \<le> s2" and "s1 \<noteq> s2"
  shows "reads [3 \<mapsto> 1, 4 \<mapsto> 2, s1 \<mapsto> 5, s2 \<mapsto> 6] accept_callbacks [3, 4, s1, s2] inp = told_to_read inp"
proof (cases "in_poll inp")
  case (Poll_ok n rs)
  then have "length rs = 4" using assms(1) by (simp add: event_input_def)
  then obtain a b c d where "rs = [a, b, c, d]" by (auto simp: length_Suc_conv numeral_eq_Suc)
  then show ?thesis using Poll_ok assms(2-4)
    by (simp add: reads_def told_to_read_def slot_reads_def read_of_def accept_callbacks_def numeral_2_eq_2 numeral_3_eq_3)
qed (simp add: reads_def told_to_read_def)

text \<open>
  C32: test7.cpp serves, provided that the two sockets are created, bound and put to listening (each failure is a LOG_SYSFATAL, which aborts), and that a connection
  waits whenever an acceptor is told to read (an \<open>accept\<close> that fails aborts too). Then the program never faults and never returns, whatever the
  order of the events; each time the poll reports a listening descriptor readable, exactly one connection is accepted by that acceptor, greeted with the text of that
  acceptor's callback and closed, before the next one is accepted, and no other: the log of the program is the one of the acceptors told to read, in the order of the
  reports, so that no accepted descriptor is left open.\<close>

theorem test7_serves:
  assumes "socks 1 = Sys_ok s1" and "socks 2 = Sys_ok s2" and "5 \<le> s1" and "5 \<le> s2" and "s1 \<noteq> s2"
    and "binds (InetAddress_any 9981) = Sys_ok n1" and "binds (InetAddress_any 9982) = Sys_ok n2" and "listens 1 = Sys_ok n3" and "listens 2 = Sys_ok n4"
    and "\<forall>k. \<exists>fd addr. answers k = (Sys_ok fd, addr) \<and> 0 \<le> fd" and "\<forall>inp\<in>set inps. event_input [3, 4, s1, s2] inp"
  shows "\<exists>l. test7_main tid socks binds listens answers ntop clk rnd inps = Inr (l, False) \<and>
    t7_log l = concat (map2 (served ntop) (concat (map told_to_read inps)) (map answers [0..<length (concat (map told_to_read inps))]))"
proof -
  obtain l where l: "test7_main tid socks binds listens answers ntop clk rnd inps = loop (test7_env answers clk rnd) tid inps l"
      "own_loop accept_callbacks 1 2 [3, 4, s1, s2] l" "test7_inv tid ntop answers [] (l\<lparr>looping := True, quit := False\<rparr>)" "\<not> looping l"
      "map_of (channels (el_poller l)) = [3 \<mapsto> 1, 4 \<mapsto> 2, s1 \<mapsto> 5, s2 \<mapsto> 6]"
    using test7_start [OF assms(1-10)] by blast
  have "own_loop accept_callbacks 1 2 [3, 4, s1, s2] (l\<lparr>looping := True, quit := False\<rparr>)" using l(2) by (simp add: own_loop_def)
  from test7_loop.runs [OF this l(3) assms(11), of clk rnd] obtain m seen
    where m: "test7_inv tid ntop answers (concat (map (reads (map_of (channels (el_poller l))) accept_callbacks [3, 4, s1, s2]) seen)) m"
      "loop_while (test7_env answers clk rnd) inps (l\<lparr>looping := True, quit := False\<rparr>) = Inr (if quit m then m\<lparr>looping := False\<rparr> else m, quit m)"
      "\<not> quit m \<longrightarrow> seen = inps"
    by auto
  have q: "tq_thread l = tid" "\<not> quit m" using l(3) m(1) by (simp_all add: test7_inv_def)
  then have main: "test7_main tid socks binds listens answers ntop clk rnd inps = Inr (m, False)"
    using l(1,4) m(2) by (simp add: loop_def)
  have "map (reads (map_of (channels (el_poller l))) accept_callbacks [3, 4, s1, s2]) seen = map told_to_read inps"
    using m(3) q(2) told_to_read_eq [OF _ assms(3-5)] assms(11) by (simp add: l(5))
  then show ?thesis using main m(1) unfolding test7_inv_def by auto
qed

theorem test7_serves_witness:
  "\<exists>l. test7_main 7 (\<lambda>i. Sys_ok (4 + int i)) (\<lambda>a. Sys_ok 0) (\<lambda>i. Sys_ok 0) (\<lambda>k. (Sys_ok 9, InetAddress_any 80)) (\<lambda>a. Some ''10.0.0.1'') (\<lambda>a. 1) id
      [\<lparr>in_poll = Poll_ok 2 [0, 0, 1, 1], in_time = 5, in_timer_now = 2001000, in_timer_read = 8, in_timer_clock = 0\<rparr>] = Inr (l, False) \<and>
    t7_log l = served (\<lambda>a. Some ''10.0.0.1'') 1 (Sys_ok 9, InetAddress_any 80) @ served (\<lambda>a. Some ''10.0.0.1'') 2 (Sys_ok 9, InetAddress_any 80)"
proof -
  let ?inp = "\<lparr>in_poll = Poll_ok 2 [0, 0, 1, 1], in_time = 5, in_timer_now = 2001000, in_timer_read = 8, in_timer_clock = 0\<rparr>"
  have told: "concat (map told_to_read [?inp]) = [1, 2]"
    by (simp add: told_to_read_def has_flag_def event_flags numeral_2_eq_2 numeral_3_eq_3)
  have "event_input [3, 4, 5, 6] ?inp" by (simp add: event_input_def)
  then show ?thesis
    using test7_serves [of "\<lambda>i. Sys_ok (4 + int i)" 5 6 "\<lambda>a. Sys_ok 0" 0 0 "\<lambda>i. Sys_ok 0" 0 0 "\<lambda>k. (Sys_ok 9, InetAddress_any 80)" "[?inp]" 7
        "\<lambda>a. Some ''10.0.0.1''" "\<lambda>a. 1" id] unfolding told by simp
qed

end
