(* ===== verification/RN_Interest.thy ===== *)
theory RN_Interest
  imports RN_Poller
begin

text \<open>
  The types of the event flags in a loop's poller (RN_Poller): which sets of flags the \<open>events_\<close> of a channel (net/Channel.h) can hold, and what
  the \<open>events\<close> of its \<open>pollfd\<close>, a short, then asks of the kernel.
\<close>

definition interest_typed :: "'c channel \<Rightarrow> bool" where
  "interest_typed ch \<longleftrightarrow> events ch \<in> {kNoneEvent, kReadEvent, kWriteEvent, kReadEvent OR kWriteEvent}"

definition slot_typed :: "'c poller \<Rightarrow> pollfd \<Rightarrow> bool" where
  "slot_typed s p \<longleftrightarrow> (\<forall>c. map_of (channels s) (slot_fd p) = Some c \<longrightarrow> pfd_events p = ucast (events (heap s c)))"

definition poller_typed :: "'c poller \<Rightarrow> bool" where
  "poller_typed s \<longleftrightarrow> (\<forall>c. interest_typed (heap s c)) \<and> (\<forall>p\<in>set (pollfds s). slot_typed s p)"

lemma interest_change_typed: "interest_change f \<Longrightarrow> interest_typed ch \<Longrightarrow> interest_typed (f ch)"
  by (auto simp: interest_change_def interest_typed_def interest_defs event_flags)

lemma interest_typed_simps [simp]:
  "interest_typed (set_index i ch) = interest_typed ch" "interest_typed (set_revents r ch) = interest_typed ch"
  by (simp_all add: interest_typed_def set_index_def set_revents_def)

lemma typed_interest:
  assumes "interest_typed ch"
  shows "isNoneEvent ch \<longleftrightarrow> \<not> has_flag (events ch) kReadEvent \<and> \<not> has_flag (events ch) kWriteEvent"
    and "scast (ucast (events ch) :: 16 word) = events ch"
  using assms by (auto simp: interest_typed_def isNoneEvent_def has_flag_def event_flags)

subsection \<open>Preservation\<close>

text \<open>A changed channel: its own slot takes its flags, the slots of the others are as before.\<close>

lemma other_slot_typed:
  assumes inv: "poller_inv s" and p: "p \<in> set (pollfds s)" "slot_typed s p" "slot_fd p \<noteq> chfd (heap s c)"
    and t: "\<And>fd. fd \<noteq> chfd (heap s c) \<Longrightarrow> map_of (channels t) fd = map_of (channels s) fd" "\<And>d. d \<noteq> c \<Longrightarrow> heap t d = heap s d"
  shows "slot_typed t p"
proof -
  obtain i where "i < length (pollfds s)" "pollfds s ! i = p" using p(1) by (auto simp: in_set_conv_nth)
  then obtain d where "map_of (channels s) (slot_fd p) = Some d" "chfd (heap s d) = slot_fd p"
    using slot_channel [OF inv] by metis
  moreover have "d \<noteq> c" using calculation(2) p(3) by auto
  ultimately show ?thesis using p(2,3) t by (simp add: slot_typed_def)
qed

lemma register_typed:
  assumes "poller_typed s" and "poller_inv s" and "threadId s = tid" and "index (heap s c) < 0" and "0 \<le> chfd (heap s c)"
    and "map_of (channels s) (chfd (heap s c)) = None" and f: "interest_change f" and "channel_update f s tid c = Inr t"
  shows "poller_typed t"
proof -
  let ?s = "s\<lparr>heap := (heap s)(c := f (heap s c))\<rparr>"
  let ?p = "\<lparr>pfd_fd = chfd (heap s c), pfd_events = ucast (events (f (heap s c))), pfd_revents = 0\<rparr>"
  note same = interest_change_frame [OF f, of "heap s c"]
  have t: "pollfds t = pollfds s @ [?p]" "heap t = (heap s)(c := set_index (int (length (pollfds s))) (f (heap s c)))"
      "map_of (channels t) = (map_of (channels s))(chfd (heap s c) \<mapsto> c)"
    using updateChannel_fresh [OF changed_heap_inv [OF f assms(2), of c], of tid c] assms(3-6,8) same by (auto simp: channel_update_def)
  have "slot_typed t p" if p: "p \<in> set (pollfds s)" for p
  proof (rule other_slot_typed [OF assms(2) p])
    have "slot_fd p \<in> fst ` set (channels s)" using assms(2) p by (auto simp: poller_inv_def)
    moreover have "chfd (heap s c) \<notin> fst ` set (channels s)" using assms(6) by (simp add: map_of_eq_None_iff)
    ultimately show "slot_fd p \<noteq> chfd (heap s c)" by metis
  qed (use assms(1) p t in \<open>auto simp: poller_typed_def\<close>)
  moreover have "slot_typed t ?p" using assms(5) by (simp add: slot_typed_def slot_fd_def t set_index_def)
  moreover have "interest_typed (heap t d)" for d
    using assms(1) interest_change_typed [OF f] by (simp add: poller_typed_def t(2))
  ultimately show ?thesis using t(1) by (auto simp: poller_typed_def)
qed

lemma change_typed:
  assumes "poller_typed s" and "poller_inv s" and "threadId s = tid" and "registered s c" and f: "interest_change f" and "channel_update f s tid c = Inr t"
  shows "poller_typed t"
proof -
  let ?s = "s\<lparr>heap := (heap s)(c := f (heap s c))\<rparr>"
  note same = interest_change_frame [OF f, of "heap s c"]
  have "registered ?s c" using assms(4) same by (simp add: registered_def)
  then obtain i p where i: "i < length (pollfds s)" "index (heap s c) = int i" "slot_fd p = chfd (heap s c)" "pfd_events p = ucast (events (f (heap s c)))"
      "t = ?s\<lparr>pollfds := (pollfds s)[i := p]\<rparr>"
    using updateChannel_registered [OF changed_heap_inv [OF f assms(2), of c], of c tid] assms(3,6) same by (auto simp: channel_update_def)
  have own: "slot_fd (pollfds s ! i) = chfd (heap s c)"
    using registered_slot [OF assms(2,4)] i(2) by (metis of_nat_eq_iff)
  have "slot_typed t q" if q: "q \<in> set (pollfds t)" for q
  proof -
    obtain j where j: "j < length (pollfds s)" "q = (if j = i then p else pollfds s ! j)"
      using q i(1,5) by (auto simp: in_set_conv_nth nth_list_update)
    show ?thesis
    proof (cases "j = i")
      case True
      then show ?thesis using j(2) i(3-5) assms(4) by (simp add: slot_typed_def registered_def)
    next
      case False
      have D: "distinct (map slot_fd (pollfds s))" using assms(2) by (simp add: poller_inv_def)
      then have "slot_fd q \<noteq> chfd (heap s c)" using False i(1) j nth_eq_iff_index_eq [OF D, of j i] own by simp
      then show ?thesis using other_slot_typed [OF assms(2), of q c t] assms(1) False i(5) j by (simp add: poller_typed_def)
    qed
  qed
  moreover have "interest_typed (heap t d)" for d
    using assms(1) interest_change_typed [OF f] by (simp add: poller_typed_def i(5))
  ultimately show ?thesis by (simp add: poller_typed_def)
qed

lemma remove_typed:
  assumes "poller_typed s" and "poller_inv s" and "threadId s = tid" and "registered s c" and "isNoneEvent (heap s c)" and "removeChannel s tid c = Inr t"
  shows "poller_typed t"
proof -
  obtain i where i: "i < length (pollfds s)" "pollfds t = swap_pop (pollfds s) i"
    by (rule removeChannel_registered [OF assms(2,4,3,5)]) (use assms(6) in auto)
  have t: "map_of (channels t) = (map_of (channels s))(chfd (heap s c) := None)" "\<forall>d. events (heap t d) = events (heap s d)"
    using removeChannel_ok [OF assms(2,4,3,5)] assms(6) by auto
  have "set (pollfds t) \<subseteq> set (pollfds s)"
  proof
    fix x assume "x \<in> set (pollfds t)"
    then have "x \<in> set ((pollfds s)[i := last (pollfds s)]) \<or> x \<in> set (pollfds s)"
      using i(2) by (auto simp: swap_pop_def dest: in_set_butlastD split: if_splits)
    moreover have "last (pollfds s) \<in> set (pollfds s)" using i(1) by (intro last_in_set) auto
    ultimately show "x \<in> set (pollfds s)" using set_update_subset_insert [of "pollfds s" i "last (pollfds s)"] by blast
  qed
  then show ?thesis using assms(1) t by (auto simp: poller_typed_def slot_typed_def interest_typed_def split: if_splits)
qed

lemma poll_typed:
  assumes "poller_typed s" and "poller_inv s" and "poll_contract (pollfds s) n rs" and "Poller_poll s (Poll_ok n rs) [] = Inr (t, active)"
  shows "poller_typed t"
proof -
  let ?ps = "store_revents (pollfds s) rs"
  have len: "length rs = length (pollfds s)" using assms(3) by (simp add: poll_contract_def)
  have t: "t = store_events (s\<lparr>pollfds := ?ps\<rparr>) (filter ready ?ps)" using poll_ok [OF assms(2,3), of "[]"] assms(4) by simp
  have ev: "events (heap (store_events u qs) c) = events (heap u c)" for u :: "'a poller" and qs c
    by (induction qs arbitrary: u) (simp_all add: set_revents_def)
  have "\<exists>q\<in>set (pollfds s). slot_fd q = slot_fd p \<and> pfd_events q = pfd_events p" if "p \<in> set ?ps" for p
    using that len by (force simp: store_revents_zip slot_fd_def dest: set_zip_leftD)
  then show ?thesis using assms(1) by (fastforce simp: t poller_typed_def slot_typed_def interest_typed_def ev)
qed

lemma step_typed: "poller_step tid s t \<Longrightarrow> poller_typed s \<Longrightarrow> poller_inv s \<Longrightarrow> threadId s = tid \<Longrightarrow> poller_typed t"
  by (induction rule: poller_step.induct) (blast intro: register_typed change_typed remove_typed poll_typed)+

lemma run_typed:
  assumes "(poller_step tid)\<^sup>*\<^sup>* (Poller_new tid h) s" and "\<forall>c. events (h c) = kNoneEvent"
  shows "poller_typed s \<and> poller_inv s \<and> threadId s = tid"
  using assms
proof (induction rule: rtranclp_induct)
  case base
  then show ?case using poller_inv_new [of tid h] by (simp add: poller_typed_def Poller_new_def interest_typed_def)
next
  case (step s t)
  then show ?case using step_typed poller_step_inv by blast
qed

text \<open>What \<open>poll\<close> takes of a slot: a negative descriptor is ignored.\<close>

definition poll_request :: "pollfd \<Rightarrow> (int \<times> 16 word) option" where
  "poll_request p = (if pfd_fd p < 0 then None else Some (pfd_fd p, pfd_events p))"

text \<open>
  C30: Types of the event flags: starting from channels as their constructor leaves them, after any sequence of registrations, interest changes, removals and
  polls, the \<open>events_\<close> of every channel is one of the four sets of flags, so that having no interest means neither reading nor writing; and the
  slot of every registered channel holds exactly that set: the conversion from int to the short of the \<open>pollfd\<close> and back loses nothing. That is what the kernel is
  asked for the channel's descriptor, except while the slot is muted: then its descriptor is the negated one, and the kernel is asked nothing, even when the set
  is not empty (\<open>updateChannel\<close> mutes the slot of a channel without interest and does not restore it when interest comes back).\<close>

theorem interests_well_typed:
  assumes "(poller_step tid)\<^sup>*\<^sup>* (Poller_new tid h) s" and "\<forall>c. events (h c) = kNoneEvent"
  shows "(\<forall>c. interest_typed (heap s c) \<and>
      (isNoneEvent (heap s c) \<longleftrightarrow> \<not> has_flag (events (heap s c)) kReadEvent \<and> \<not> has_flag (events (heap s c)) kWriteEvent)) \<and>
    (\<forall>c. registered s c \<longrightarrow> (\<exists>p\<in>set (pollfds s). slot_fd p = chfd (heap s c) \<and> scast (pfd_events p) = events (heap s c) \<and>
      (if pfd_fd p = - chfd (heap s c) - 1 then poll_request p = None
       else poll_request p = Some (chfd (heap s c), ucast (events (heap s c))))))"
proof -
  have s: "poller_typed s" "poller_inv s" using run_typed [OF assms] by simp_all
  have "\<exists>p\<in>set (pollfds s). slot_fd p = chfd (heap s c) \<and> scast (pfd_events p) = events (heap s c) \<and>
      (if pfd_fd p = - chfd (heap s c) - 1 then poll_request p = None
       else poll_request p = Some (chfd (heap s c), ucast (events (heap s c))))" if c: "registered s c" for c
  proof -
    obtain i where i: "i < length (pollfds s)" "slot_fd (pollfds s ! i) = chfd (heap s c)" using registered_slot [OF s(2) c] .
    let ?p = "pollfds s ! i"
    have typed: "slot_typed s ?p" "interest_typed (heap s c)" using s(1) i(1) by (simp_all add: poller_typed_def)
    then have e: "pfd_events ?p = ucast (events (heap s c))" using c i(2) by (simp add: slot_typed_def registered_def)
    then have "scast (pfd_events ?p) = events (heap s c)" using typed_interest(2) [OF typed(2)] by simp
    moreover have "if pfd_fd ?p = - chfd (heap s c) - 1 then poll_request ?p = None
        else poll_request ?p = Some (chfd (heap s c), ucast (events (heap s c)))"
      using i(2) e by (auto simp: slot_fd_def channel_of_slot_def poll_request_def split: if_splits)
    ultimately show ?thesis using i nth_mem by blast
  qed
  then show ?thesis using s(1) typed_interest(1) by (auto simp: poller_typed_def)
qed

theorem interests_well_typed_witness:
  "\<exists>p\<in>set (pollfds demo_poller). slot_fd p = chfd (heap demo_poller 1) \<and> scast (pfd_events p) = events (heap demo_poller 1)"
proof -
  have "poller_step 1 (Poller_new 1 demo_heap) demo_poller1"
    by (rule poller_step.register [OF _ _ _ _ demo_register(1)]) (simp_all add: demo_poller_defs interest_change_def)
  moreover have "poller_step 1 demo_poller1 demo_poller"
    by (rule poller_step.register [OF _ _ _ _ demo_register(2)]) (simp_all add: demo_poller_defs interest_change_def)
  ultimately have "(poller_step 1)\<^sup>*\<^sup>* (Poller_new 1 demo_heap) demo_poller" by (meson converse_rtranclp_into_rtranclp r_into_rtranclp)
  moreover have "\<forall>c. events (demo_heap c) = kNoneEvent" by (simp add: demo_heap_def Channel_new_def kNoneEvent_def)
  ultimately show ?thesis using interests_well_typed [of 1 demo_heap demo_poller] demo_poller_facts(2) unfolding One_nat_def by blast
qed

end
