(* ===== verification/RN_PollerSpec.thy ===== *)
theory RN_PollerSpec
  imports RN_Interest
begin

text \<open>
  What a poller promises to its loop (RN_Poller), without slots, indices and the array: which channel stands for a descriptor, the flags each channel wants,
  and the descriptors that are muted. A descriptor is muted when its channel wants nothing, and stays so until the channel is removed, because
  \<open>updateChannel\<close> (net/Poller.cpp) never turns the sign of the slot back. The poller of the code refines this.
\<close>

subsection \<open>The abstract poller\<close>

record poller_spec =
  sp_channel :: "int \<rightharpoonup> nat"
  sp_wants :: "nat \<Rightarrow> int32"
  sp_muted :: "int set"

datatype change = Want_read | Want_write | Drop_write | Drop_all

fun apply_change :: "change \<Rightarrow> int32 \<Rightarrow> int32" where
  "apply_change Want_read w = w OR kReadEvent"
| "apply_change Want_write w = w OR kWriteEvent"
| "apply_change Drop_write w = w AND NOT kWriteEvent"
| "apply_change Drop_all w = kNoneEvent"

definition spec_register :: "int \<Rightarrow> nat \<Rightarrow> change \<Rightarrow> poller_spec \<Rightarrow> poller_spec" where
  "spec_register fd c x s = s\<lparr>sp_channel := (sp_channel s)(fd \<mapsto> c), sp_wants := (sp_wants s)(c := apply_change x (sp_wants s c))\<rparr>"

definition spec_change :: "int \<Rightarrow> nat \<Rightarrow> change \<Rightarrow> poller_spec \<Rightarrow> poller_spec" where
  "spec_change fd c x s =
     (let w = apply_change x (sp_wants s c)
      in s\<lparr>sp_wants := (sp_wants s)(c := w), sp_muted := (if w = kNoneEvent then insert fd (sp_muted s) else sp_muted s)\<rparr>)"

definition spec_remove :: "int \<Rightarrow> poller_spec \<Rightarrow> poller_spec" where
  "spec_remove fd s = s\<lparr>sp_channel := (sp_channel s)(fd := None), sp_muted := sp_muted s - {fd}\<rparr>"

inductive spec_step :: "poller_spec \<Rightarrow> poller_spec \<Rightarrow> bool" where
  spec_register: "sp_channel s fd = None \<Longrightarrow> spec_step s (spec_register fd c x s)"
| spec_change: "sp_channel s fd = Some c \<Longrightarrow> spec_step s (spec_change fd c x s)"
| spec_remove: "sp_channel s fd = Some c \<Longrightarrow> sp_wants s c = kNoneEvent \<Longrightarrow> spec_step s (spec_remove fd s)"
| spec_poll: "spec_step s s"

inductive_cases spec_stepE: "spec_step s t"

lemma muted_stays: "spec_step s t \<Longrightarrow> fd \<in> sp_muted s \<Longrightarrow> fd \<in> sp_muted t \<or> sp_channel t fd = None"
  by (elim spec_stepE) (auto simp: spec_register_def spec_change_def spec_remove_def Let_def)

text \<open>The abstraction.\<close>

definition muted_fds :: "pollfd list \<Rightarrow> int set" where
  "muted_fds ps = slot_fd ` {p \<in> set ps. pfd_fd p < 0}"

definition poller_abs :: "'c poller \<Rightarrow> poller_spec" where
  "poller_abs s = \<lparr>sp_channel = map_of (channels s), sp_wants = (\<lambda>c. events (heap s c)), sp_muted = muted_fds (pollfds s)\<rparr>"

lemma interest_change_word:
  assumes "interest_change f"
  obtains x where "\<And>ch. events (f ch) = apply_change x (events ch)"
proof -
  consider "f = enableReading" | "f = enableWriting" | "f = disableWriting" | "f = disableAll" using assms by (auto simp: interest_change_def)
  then show thesis
  proof cases
    case 1 then show thesis by (intro that [of Want_read]) (simp add: enableReading_def)
  next
    case 2 then show thesis by (intro that [of Want_write]) (simp add: enableWriting_def)
  next
    case 3 then show thesis by (intro that [of Drop_write]) (simp add: disableWriting_def)
  next
    case 4 then show thesis by (intro that [of Drop_all]) (simp add: disableAll_def)
  qed
qed

subsection \<open>Each operation refines its abstract one\<close>

lemma register_refines:
  assumes inv: "poller_inv s" and tid: "threadId s = tid" and fresh: "index (heap s c) < 0" "0 \<le> chfd (heap s c)" "map_of (channels s) (chfd (heap s c)) = None"
    and f: "interest_change f" "\<And>ch. events (f ch) = apply_change x (events ch)" and run: "channel_update f s tid c = Inr t"
  shows "poller_abs t = spec_register (chfd (heap s c)) c x (poller_abs s)"
proof -
  let ?p = "\<lparr>pfd_fd = chfd (heap s c), pfd_events = ucast (events (f (heap s c))), pfd_revents = 0\<rparr>"
  have t: "pollfds t = pollfds s @ [?p]" "heap t = (heap s)(c := set_index (int (length (pollfds s))) (f (heap s c)))"
      "map_of (channels t) = (map_of (channels s))(chfd (heap s c) \<mapsto> c)"
    using updateChannel_fresh [OF changed_heap_inv [OF f(1) inv, of c], of tid c] tid fresh run interest_change_frame [OF f(1), of "heap s c"]
    by (auto simp: channel_update_def)
  have "muted_fds (pollfds t) = muted_fds (pollfds s)" using fresh(2) by (auto simp: t(1) muted_fds_def)
  moreover have "(\<lambda>d. events (heap t d)) = (\<lambda>d. events (heap s d))(c := apply_change x (events (heap s c)))"
    by (rule ext) (simp add: t(2) f(2) set_index_def)
  ultimately show ?thesis by (simp add: poller_abs_def spec_register_def t(3))
qed

lemma muted_update:
  assumes "i < length ps" and "distinct (map slot_fd ps)" and "slot_fd p = slot_fd (ps ! i)"
  shows "muted_fds (ps[i := p]) = (if pfd_fd p < 0 then insert (slot_fd p) (muted_fds ps) else muted_fds ps - {slot_fd p})"
proof -
  have split: "set (ps[i := p]) = insert p (set ps - {ps ! i})"
    using assms(1,2) by (simp add: set_update_distinct distinct_map)
  have other: "slot_fd q \<noteq> slot_fd p" if "q \<in> set ps - {ps ! i}" for q
  proof
    assume "slot_fd q = slot_fd p"
    moreover have "inj_on slot_fd (set ps)" using assms(2) by (simp add: distinct_map)
    moreover have "q \<in> set ps" "ps ! i \<in> set ps" using that assms(1) by simp_all
    ultimately have "q = ps ! i" using assms(3) by (metis inj_onD)
    then show False using that by simp
  qed
  define M where "M = slot_fd ` {q \<in> set ps - {ps ! i}. pfd_fd q < 0}"
  have "slot_fd p \<notin> M"
  proof
    assume "slot_fd p \<in> M"
    then obtain q where "q \<in> set ps - {ps ! i}" "slot_fd p = slot_fd q" by (auto simp: M_def)
    then show False using other [of q] by simp
  qed
  moreover have "muted_fds (ps[i := p]) = (if pfd_fd p < 0 then insert (slot_fd p) M else M)"
    unfolding muted_fds_def split M_def by auto
  moreover have "muted_fds ps = (if pfd_fd (ps ! i) < 0 then insert (slot_fd p) M else M)"
  proof -
    have "set ps = insert (ps ! i) (set ps - {ps ! i})" using assms(1) by auto
    then have "{q \<in> set ps. pfd_fd q < 0} = (if pfd_fd (ps ! i) < 0 then {ps ! i} else {}) \<union> {q \<in> set ps - {ps ! i}. pfd_fd q < 0}" by auto
    then show ?thesis unfolding muted_fds_def M_def assms(3) by simp
  qed
  ultimately show ?thesis by auto
qed

lemma change_refines:
  assumes inv: "poller_inv s" and tid: "threadId s = tid" and reg: "registered s c"
    and f: "interest_change f" "\<And>ch. events (f ch) = apply_change x (events ch)" and run: "channel_update f s tid c = Inr t"
  shows "poller_abs t = spec_change (chfd (heap s c)) c x (poller_abs s)"
proof -
  let ?s = "s\<lparr>heap := (heap s)(c := f (heap s c))\<rparr>"
  note same = interest_change_frame [OF f(1), of "heap s c"]
  have "registered ?s c" using reg same by (simp add: registered_def)
  then obtain i p where i: "i < length (pollfds s)" "index (heap s c) = int i" "slot_fd p = chfd (heap s c)"
      "pfd_fd p = (if isNoneEvent (f (heap s c)) then - chfd (heap s c) - 1 else pfd_fd (pollfds s ! i))" "t = ?s\<lparr>pollfds := (pollfds s)[i := p]\<rparr>"
    using updateChannel_registered [OF changed_heap_inv [OF f(1) inv, of c], of c tid] tid run same by (auto simp: channel_update_def)
  have own: "slot_fd (pollfds s ! i) = chfd (heap s c)" using registered_slot [OF inv reg] i(2) by (metis of_nat_eq_iff)
  have D: "distinct (map slot_fd (pollfds s))" using inv by (simp add: poller_inv_def)
  have nonneg: "0 \<le> chfd (heap s c)" using registered_fd_nonneg [OF inv reg] .
  have "muted_fds (pollfds t) = (if isNoneEvent (f (heap s c)) then insert (chfd (heap s c)) (muted_fds (pollfds s)) else muted_fds (pollfds s))"
  proof (cases "isNoneEvent (f (heap s c))")
    case True
    then show ?thesis using muted_update [OF i(1) D, of p] i(3-5) own nonneg by simp
  next
    case False
    then have "pfd_fd p = pfd_fd (pollfds s ! i)" "slot_fd p = slot_fd (pollfds s ! i)" using i(3,4) own by simp_all
    then have "muted_fds ((pollfds s)[i := p]) = muted_fds ((pollfds s)[i := pollfds s ! i])"
      unfolding muted_update [OF i(1) D \<open>slot_fd p = slot_fd (pollfds s ! i)\<close>] muted_update [OF i(1) D refl] by simp
    then have "muted_fds (pollfds t) = muted_fds ((pollfds s)[i := pollfds s ! i])" by (simp add: i(5))
    then show ?thesis using False by simp
  qed
  moreover have "(\<lambda>d. events (heap t d)) = (\<lambda>d. events (heap s d))(c := apply_change x (events (heap s c)))"
    by (rule ext) (simp add: i(5) f(2))
  moreover have "channels t = channels s" by (simp add: i(5))
  ultimately show ?thesis by (simp add: poller_abs_def spec_change_def Let_def isNoneEvent_def f(2))
qed

lemma remove_refines:
  assumes inv: "poller_inv s" and tid: "threadId s = tid" and reg: "registered s c" and none: "isNoneEvent (heap s c)" and run: "removeChannel s tid c = Inr t"
  shows "poller_abs t = spec_remove (chfd (heap s c)) (poller_abs s)"
proof -
  obtain i where i: "i < length (pollfds s)" "slot_fd (pollfds s ! i) = chfd (heap s c)" "pollfds t = swap_pop (pollfds s) i"
    by (rule removeChannel_registered [OF inv reg tid none]) (use run in auto)
  have t: "map_of (channels t) = (map_of (channels s))(chfd (heap s c) := None)" "\<forall>d. events (heap t d) = events (heap s d)"
    using removeChannel_ok [OF inv reg tid none] run by auto
  have D: "distinct (map slot_fd (pollfds s))" using inv by (simp add: poller_inv_def)
  then have "set (pollfds t) = set (pollfds s) - {pollfds s ! i}"
    using swap_pop_distinct [of "pollfds s" i] i(1,3) by (simp add: distinct_map)
  moreover have "slot_fd q \<noteq> chfd (heap s c)" if "q \<in> set (pollfds s) - {pollfds s ! i}" for q
    using that D i(1,2) by (auto simp: distinct_map inj_on_def)
  ultimately have "muted_fds (pollfds t) = muted_fds (pollfds s) - {chfd (heap s c)}"
    using i(2) by (auto simp: muted_fds_def)
  then show ?thesis using t by (simp add: poller_abs_def spec_remove_def)
qed

lemma poll_refines:
  assumes inv: "poller_inv s" and contract: "poll_contract (pollfds s) n rs" and run: "Poller_poll s (Poll_ok n rs) [] = Inr (t, active)"
  shows "poller_abs t = poller_abs s" and "c \<in> set active \<Longrightarrow> \<exists>fd. sp_channel (poller_abs s) fd = Some c \<and> fd \<notin> sp_muted (poller_abs s)"
proof -
  let ?ps = "store_revents (pollfds s) rs"
  have len: "length rs = length (pollfds s)" using contract by (simp add: poll_contract_def)
  have t: "t = store_events (s\<lparr>pollfds := ?ps\<rparr>) (filter ready ?ps)" "active = map (owner s) (filter ready ?ps)"
    using poll_ok [OF inv contract, of "[]"] run by simp_all
  have ev: "events (heap (store_events u qs) c) = events (heap u c)" for u :: "'a poller" and qs c
    by (induction qs arbitrary: u) (simp_all add: set_revents_def)
  have fds: "map pfd_fd ?ps = map pfd_fd (pollfds s)" using map_fd_store_revents [OF len] by simp
  have muted: "muted_fds ps = channel_of_slot ` {f \<in> set (map pfd_fd ps). f < 0}" for ps
    by (auto simp: muted_fds_def slot_fd_def)
  show "poller_abs t = poller_abs s"
    by (simp add: poller_abs_def t(1) ev muted fds del: set_map)
  show "\<exists>fd. sp_channel (poller_abs s) fd = Some c \<and> fd \<notin> sp_muted (poller_abs s)" if c: "c \<in> set active"
  proof -
    obtain p where p: "p \<in> set ?ps" "ready p" "c = owner s p" using c t(2) by auto
    have pos: "0 \<le> pfd_fd p" using poll_contract_ready(2) [OF contract p(1,2)] .
    have own: "map_of (channels s) (pfd_fd p) = Some c" using slot_in_store [OF inv len p(1) pos] p(3) by (simp add: owned_by_channel_def)
    have "pfd_fd p \<notin> muted_fds (pollfds s)"
    proof
      assume "pfd_fd p \<in> muted_fds (pollfds s)"
      then obtain q where q: "q \<in> set (pollfds s)" "pfd_fd q < 0" "slot_fd q = pfd_fd p" by (auto simp: muted_fds_def)
      have "pfd_fd p \<in> set (map pfd_fd (pollfds s))" using p(1) by (simp flip: fds)
      then obtain r where r: "r \<in> set (pollfds s)" "pfd_fd r = pfd_fd p" by auto
      then have "slot_fd r = slot_fd q" using pos q(3) by (simp add: slot_fd_def)
      moreover have "inj_on slot_fd (set (pollfds s))" using inv by (simp add: poller_inv_def distinct_map)
      ultimately have "r = q" using r(1) q(1) by (simp add: inj_on_def)
      then show False using r(2) q(2) pos by simp
    qed
    then show ?thesis using own by (auto simp: poller_abs_def)
  qed
qed

subsection \<open>Properties\<close>

text \<open>
  C24: Refinement: every operation of the poller, whatever the kernel reports, is a step of the abstract poller, which knows only descriptors, wants and mutes;
  a poll changes nothing of it and gives the loop only channels whose descriptor is not muted. In particular a descriptor once muted is never reported
  again before its channel has been removed.\<close>

theorem poller_refines_spec:
  assumes "poller_reachable tid s" and "poller_step tid s t"
  shows "spec_step (poller_abs s) (poller_abs t) \<and>
    (\<forall>fd\<in>sp_muted (poller_abs s). fd \<in> sp_muted (poller_abs t) \<or> sp_channel (poller_abs t) fd = None) \<and>
    (\<forall>n rs u active c. poll_contract (pollfds s) n rs \<and> Poller_poll s (Poll_ok n rs) [] = Inr (u, active) \<and> c \<in> set active \<longrightarrow>
      (\<exists>fd. sp_channel (poller_abs s) fd = Some c \<and> fd \<notin> sp_muted (poller_abs s)))"
proof -
  have inv: "poller_inv s" "threadId s = tid" using poller_reachable_inv [OF assms(1)] by simp_all
  have step: "spec_step (poller_abs s) (poller_abs t)"
    using assms(2)
  proof (cases rule: poller_step.cases)
    case (register c f)
    obtain x where x: "\<And>ch. events (f ch) = apply_change x (events ch)" using interest_change_word [OF register(4)] by blast
    have "sp_channel (poller_abs s) (chfd (heap s c)) = None" using register(3) by (simp add: poller_abs_def)
    then show ?thesis unfolding register_refines [OF inv register(1-4) x register(5)] by (rule spec_step.spec_register)
  next
    case (change c f)
    obtain x where x: "\<And>ch. events (f ch) = apply_change x (events ch)" using interest_change_word [OF change(2)] by blast
    have "sp_channel (poller_abs s) (chfd (heap s c)) = Some c" using change(1) by (simp add: poller_abs_def registered_def)
    then show ?thesis unfolding change_refines [OF inv change(1,2) x change(3)] by (rule spec_step.spec_change)
  next
    case (remove c)
    have "sp_channel (poller_abs s) (chfd (heap s c)) = Some c" "sp_wants (poller_abs s) c = kNoneEvent"
      using remove(1,2) by (simp_all add: poller_abs_def registered_def isNoneEvent_def)
    then show ?thesis unfolding remove_refines [OF inv remove] by (rule spec_step.spec_remove)
  next
    case (poll n rs active)
    then show ?thesis using poll_refines(1) [OF inv(1) poll] by (simp add: spec_step.spec_poll)
  qed
  show ?thesis
  proof (intro conjI ballI allI impI)
    show "fd \<in> sp_muted (poller_abs t) \<or> sp_channel (poller_abs t) fd = None" if "fd \<in> sp_muted (poller_abs s)" for fd
      using muted_stays [OF step that] .
    show "\<exists>fd. sp_channel (poller_abs s) fd = Some c \<and> fd \<notin> sp_muted (poller_abs s)"
      if "poll_contract (pollfds s) n rs \<and> Poller_poll s (Poll_ok n rs) [] = Inr (u, active) \<and> c \<in> set active" for n rs u active c
      using poll_refines(2) [OF inv(1), of n rs u active c] that by simp
  qed (rule step)
qed

theorem poller_refines_spec_witness:
  "\<exists>t. channel_update disableAll demo_poller 1 0 = Inr t \<and> spec_step (poller_abs demo_poller) (poller_abs t)"
proof -
  obtain t where t: "channel_update disableAll demo_poller 1 0 = Inr t"
    using channel_update_registered [of disableAll demo_poller 0 1] by (auto simp: interest_change_def)
  have "poller_step 1 demo_poller t" by (rule poller_step.change [OF _ _ t]) (simp_all add: interest_change_def)
  then show ?thesis using poller_refines_spec [OF demo_reachable] t by blast
qed

end
