(* ===== verification/RN_Progress.thy ===== *)
theory RN_Progress
  imports RN_Prelude
begin

text \<open>
  The interface of a program of several threads that ends: in every good state that is not final some thread can work, and every piece of work lowers a
  natural number. The test programs of the queue and of the pool are instances; each proves the laws in its own theory and inherits that it can neither
  block nor run for ever. Before it, facts on the lists that hold the points the threads have reached.
\<close>

lemma count_replicate [simp]: "count_list (replicate k x) x = k"
  by (induction k) simp_all

lemma sum_list_map_update:
  fixes f :: "'a \<Rightarrow> nat"
  assumes "i < length xs"
  shows "sum_list (map f (xs[i := x])) + f (xs ! i) = sum_list (map f xs) + f x"
  using assms
proof (induction xs arbitrary: i)
  case (Cons a xs)
  then show ?case by (cases i) (auto simp: algebra_simps dest: less_SucE)
qed simp

lemma count_list_pos_nth: "0 < count_list xs y \<Longrightarrow> \<exists>i < length xs. xs ! i = y"
  by (metis count_list_0_iff in_set_conv_nth less_irrefl)

lemma count_two_le: "x \<noteq> y \<Longrightarrow> count_list xs x + count_list xs y \<le> length xs"
  by (induction xs) auto

locale progress =
  fixes good :: "'s \<Rightarrow> bool" and work :: "'s \<Rightarrow> 's \<Rightarrow> bool" and final :: "'s \<Rightarrow> bool" and effort :: "'s \<Rightarrow> nat"
  assumes work_good: "good s \<Longrightarrow> work s s' \<Longrightarrow> good s'"
    and work_effort: "good s \<Longrightarrow> work s s' \<Longrightarrow> effort s' < effort s"
    and work_goes_on: "good s \<Longrightarrow> \<not> final s \<Longrightarrow> \<exists>s'. work s s'"
begin

lemma work_bounded: "good s \<Longrightarrow> (work ^^ k) s t \<Longrightarrow> good t \<and> k + effort t \<le> effort s"
proof (induction k arbitrary: t)
  case (Suc k)
  then obtain u where u: "(work ^^ k) s u" "work u t" by auto
  then show ?case using Suc.IH [OF Suc.prems(1) u(1)] work_good [of u t] work_effort [of u t] by fastforce
qed simp

lemma runs_good: "good s \<Longrightarrow> work\<^sup>*\<^sup>* s t \<Longrightarrow> good t"
  using work_bounded by (metis rtranclp_imp_relpowp)

lemma stuck_is_final: "good s \<Longrightarrow> work\<^sup>*\<^sup>* s t \<Longrightarrow> \<nexists>u. work t u \<Longrightarrow> final t"
  using runs_good work_goes_on by blast

lemma can_finish: "good s \<Longrightarrow> \<exists>t. work\<^sup>*\<^sup>* s t \<and> final t"
proof (induction "effort s" arbitrary: s rule: less_induct)
  case less
  show ?case
  proof (cases "final s")
    case False
    then obtain s' where s': "work s s'" using work_goes_on less.prems by blast
    then obtain t where "work\<^sup>*\<^sup>* s' t" "final t" using less work_good work_effort by blast
    then show ?thesis using s' by (meson converse_rtranclp_into_rtranclp)
  qed blast
qed

end

end
