(* ===== verification/RN_TestQueue.thy ===== *)
theory RN_TestQueue
  imports RN_BlockingQueue RN_Thread RN_Progress
begin

text \<open>
  RN/base/tests/BlockQueueTest.cpp: worker threads that count a latch down and take strings from a blocking queue until one says \<open>stop\<close>, and the
  main thread that starts them, waits for the latch, puts the strings and joins. The state has the thread objects, the latch, the queue and the point each
  thread has reached; \<open>bt_taken\<close> holds the strings the workers print. Every critical section is one step. The ids the kernel
  gives to the threads are arguments; of the printed lines only the strings taken are kept.
\<close>

datatype bt_point = Mb_start nat | Mb_latch | Mb_put nat | Mb_stop nat | Mb_join nat | Mb_done

datatype bt_worker = Wb_unborn | Wb_begin | Wb_loop | Wb_waiting | Wb_ended

record bq_test =
  bt_times :: nat
  bt_main :: bt_point
  bt_threads :: "thread list"
  bt_workers :: "bt_worker list"
  bt_latch :: latch
  bt_queue :: "string bqueue"
  bt_taken :: "(nat \<times> string) list"

definition work_thread_name :: "nat \<Rightarrow> string" where
  "work_thread_name i = snprintf_text 32 (''work thread '' @ fmt_d (int i))"

text \<open>The constructor, up to the loop that starts the threads; \<open>m\<close> is the argument \<open>times\<close> of the later \<open>run\<close>.\<close>

definition Test_new :: "nat \<Rightarrow> nat \<Rightarrow> 32 word \<Rightarrow> bq_test" where
  "Test_new numThreads m created =
     \<lparr>bt_times = m, bt_main = Mb_start 0, bt_threads = make_threads (map work_thread_name [0 ..< numThreads]) created,
      bt_workers = replicate numThreads Wb_unborn, bt_latch = CountDownLatch_new (int numThreads),
      bt_queue = BlockingQueue_new, bt_taken = []\<rparr>"

definition hello :: "nat \<Rightarrow> string" where
  "hello i = snprintf_text 32 (''hello '' @ fmt_d (int i))"

text \<open>The main thread, one step; None: it is blocked.\<close>

definition bt_starts :: "int \<Rightarrow> nat \<Rightarrow> bq_test \<Rightarrow> bq_test result option" where
  "bt_starts gettid i s =
     (if i < length (bt_threads s) then
        map_option (\<lambda>r. rbind r (\<lambda>(th, _).
            Inr (s\<lparr>bt_threads := (bt_threads s)[i := th], bt_workers := (bt_workers s)[i := Wb_begin], bt_main := Mb_start (Suc i)\<rparr>)))
          (Thread_start (Some gettid) (bt_threads s ! i))
      else Some (Inr (s\<lparr>bt_main := Mb_latch\<rparr>)))"

definition bt_waits :: "bq_test \<Rightarrow> bq_test result option" where
  "bt_waits s =
     (if 0 \<in> la_asleep (bt_latch s) then None
      else (let l = latch_wait 0 (bt_latch s)
            in Some (Inr (s\<lparr>bt_latch := l, bt_main := (if 0 \<in> la_returned l then Mb_put 0 else Mb_latch)\<rparr>))))"

definition bt_puts :: "nat \<Rightarrow> bq_test \<Rightarrow> bq_test result option" where
  "bt_puts i s =
     Some (Inr (if i < bt_times s then s\<lparr>bt_queue := bq_put (hello i) (bt_queue s), bt_main := Mb_put (Suc i)\<rparr>
                else s\<lparr>bt_main := Mb_stop 0\<rparr>))"

definition bt_stops :: "nat \<Rightarrow> bq_test \<Rightarrow> bq_test result option" where
  "bt_stops i s =
     Some (Inr (if i < length (bt_threads s) then s\<lparr>bt_queue := bq_put ''stop'' (bt_queue s), bt_main := Mb_stop (Suc i)\<rparr>
                else s\<lparr>bt_main := Mb_join 0\<rparr>))"

definition bt_joins :: "nat \<Rightarrow> bq_test \<Rightarrow> bq_test result option" where
  "bt_joins i s =
     (if i < length (bt_threads s) then
        (if bt_workers s ! i = Wb_ended then
           Some (rbind (Thread_join 0 (bt_threads s ! i)) (\<lambda>(_, th). Inr (s\<lparr>bt_threads := (bt_threads s)[i := th], bt_main := Mb_join (Suc i)\<rparr>)))
         else None)
      else Some (Inr (s\<lparr>bt_main := Mb_done\<rparr>)))"

definition bt_main_step :: "int \<Rightarrow> bq_test \<Rightarrow> bq_test result option" where
  "bt_main_step gettid s =
     (case bt_main s of
        Mb_start i \<Rightarrow> bt_starts gettid i s
      | Mb_latch \<Rightarrow> bt_waits s
      | Mb_put i \<Rightarrow> bt_puts i s
      | Mb_stop i \<Rightarrow> bt_stops i s
      | Mb_join i \<Rightarrow> bt_joins i s
      | Mb_done \<Rightarrow> None)"

text \<open>A worker, one step of \<open>threadFunc\<close>.\<close>

definition bt_got :: "nat \<Rightarrow> string option \<times> string bqueue \<Rightarrow> bq_test \<Rightarrow> bq_test" where
  "bt_got i p s =
     (case p of
        (None, q) \<Rightarrow> s\<lparr>bt_queue := q, bt_workers := (bt_workers s)[i := Wb_waiting]\<rparr>
      | (Some d, q) \<Rightarrow> s\<lparr>bt_queue := q, bt_workers := (bt_workers s)[i := (if d \<noteq> ''stop'' then Wb_loop else Wb_ended)],
                        bt_taken := bt_taken s @ [(i, d)]\<rparr>)"

definition bt_worker_step :: "nat \<Rightarrow> bq_test \<Rightarrow> bq_test option" where
  "bt_worker_step i s =
     (if length (bt_workers s) \<le> i then None
      else case bt_workers s ! i of
        Wb_begin \<Rightarrow> Some (s\<lparr>bt_latch := countDown (bt_latch s), bt_workers := (bt_workers s)[i := Wb_loop]\<rparr>)
      | Wb_loop \<Rightarrow> Some (bt_got i (bq_take (bt_queue s)) s)
      | Wb_waiting \<Rightarrow> (if 0 < bq_woken (bt_queue s) then Some (bt_got i (bq_resume (bt_queue s)) s) else None)
      | _ \<Rightarrow> None)"

text \<open>The work of the threads, and the steps with the spurious wake-ups of both conditions.\<close>

inductive bt_work :: "bq_test \<Rightarrow> bq_test \<Rightarrow> bool" where
  bt_main_works: "0 < gettid \<Longrightarrow> bt_main_step gettid s = Some (Inr s') \<Longrightarrow> bt_work s s'"
| bt_worker_works: "bt_worker_step i s = Some s' \<Longrightarrow> bt_work s s'"

inductive bt_step :: "bq_test \<Rightarrow> bq_test \<Rightarrow> bool" where
  bt_works: "bt_work s s' \<Longrightarrow> bt_step s s'"
| bt_spurious_queue: "bt_step s (s\<lparr>bt_queue := bq_notify (bt_queue s)\<rparr>)"
| bt_spurious_latch: "bt_step s (s\<lparr>bt_latch := latch_exec (Spurious 0) (bt_latch s)\<rparr>)"

inductive_cases bt_workE: "bt_work s s'"

text \<open>\<open>testMove\<close>: the queue moves a pointer; the store maps addresses to integers. The lines printed, None if a \<open>take\<close> blocked.\<close>

definition testMove :: "nat \<Rightarrow> (nat \<Rightarrow> int) \<Rightarrow> int list option" where
  "testMove p store =
     (let store = store(p := 42); queue = bq_put p BlockingQueue_new in
      case bq_take queue of
        (None, _) \<Rightarrow> None
      | (Some x, queue) \<Rightarrow>
          (let first = store x; store = store(x := 123); queue = bq_put x queue in
           case bq_take queue of (None, _) \<Rightarrow> None | (Some y, queue) \<Rightarrow> Some [first, store y]))"

lemma testMove_prints: "testMove p store = Some [42, 123]"
  by (simp add: testMove_def BlockingQueue_new_def bq_put_def bq_notify_def bq_take_def Let_def)

subsection \<open>Invariant\<close>

fun started_to :: "nat \<Rightarrow> bt_point \<Rightarrow> nat" where
  "started_to n (Mb_start i) = i"
| "started_to n _ = n"

fun joined_to :: "nat \<Rightarrow> bt_point \<Rightarrow> nat" where
  "joined_to n (Mb_join i) = i"
| "joined_to n Mb_done = n"
| "joined_to n _ = 0"

text \<open>The strings put so far.\<close>

fun bt_sent :: "nat \<Rightarrow> nat \<Rightarrow> bt_point \<Rightarrow> string list" where
  "bt_sent n m (Mb_start i) = []"
| "bt_sent n m Mb_latch = []"
| "bt_sent n m (Mb_put i) = map hello [0 ..< i]"
| "bt_sent n m (Mb_stop i) = map hello [0 ..< m] @ replicate i ''stop''"
| "bt_sent n m _ = map hello [0 ..< m] @ replicate n ''stop''"

fun point_ok :: "nat \<Rightarrow> nat \<Rightarrow> bt_point \<Rightarrow> bool" where
  "point_ok n m (Mb_start i) \<longleftrightarrow> i \<le> n"
| "point_ok n m (Mb_put i) \<longleftrightarrow> i \<le> m"
| "point_ok n m (Mb_stop i) \<longleftrightarrow> i \<le> n"
| "point_ok n m (Mb_join i) \<longleftrightarrow> i \<le> n"
| "point_ok n m _ \<longleftrightarrow> True"

definition before_latch :: "bt_point \<Rightarrow> bool" where
  "before_latch p \<longleftrightarrow> (case p of Mb_start _ \<Rightarrow> True | Mb_latch \<Rightarrow> True | _ \<Rightarrow> False)"

text \<open>A thread object and its worker, at a point of the main thread.\<close>

definition thread_ok :: "nat \<Rightarrow> bt_point \<Rightarrow> nat \<Rightarrow> thread \<Rightarrow> bt_worker \<Rightarrow> bool" where
  "thread_ok n p j th w \<longleftrightarrow>
     (w = Wb_unborn \<longleftrightarrow> started_to n p \<le> j) \<and> (th_started th \<longleftrightarrow> j < started_to n p) \<and> (th_joined th \<longleftrightarrow> j < joined_to n p) \<and>
     (j < joined_to n p \<longrightarrow> w = Wb_ended) \<and> (\<not> th_started th \<longrightarrow> th_latch th = CountDownLatch_new 1)"

definition bt_threads_inv :: "nat \<Rightarrow> nat \<Rightarrow> bq_test \<Rightarrow> bool" where
  "bt_threads_inv n m s \<longleftrightarrow>
     bt_times s = m \<and> length (bt_threads s) = n \<and> length (bt_workers s) = n \<and> point_ok n m (bt_main s) \<and>
     (\<forall>j < n. thread_ok n (bt_main s) j (bt_threads s ! j) (bt_workers s ! j))"

definition bt_latch_inv :: "bq_test \<Rightarrow> bool" where
  "bt_latch_inv s \<longleftrightarrow>
     la_inv (bt_latch s) \<and> la_count (bt_latch s) = int (count_list (bt_workers s) Wb_unborn + count_list (bt_workers s) Wb_begin) \<and>
     la_asleep (bt_latch s) \<subseteq> (if bt_main s = Mb_latch then {0} else {}) \<and>
     la_returned (bt_latch s) = (if before_latch (bt_main s) then {} else {0})"

definition bt_queue_inv :: "nat \<Rightarrow> nat \<Rightarrow> bq_test \<Rightarrow> bool" where
  "bt_queue_inv n m s \<longleftrightarrow>
     bq_inv (bt_queue s) \<and> count_list (bt_workers s) Wb_waiting = bq_asleep (bt_queue s) + bq_woken (bt_queue s) \<and>
     map snd (bt_taken s) @ bq_queue (bt_queue s) = bt_sent n m (bt_main s) \<and>
     count_list (map snd (bt_taken s)) ''stop'' = count_list (bt_workers s) Wb_ended"

definition bt_inv :: "nat \<Rightarrow> nat \<Rightarrow> bq_test \<Rightarrow> bool" where
  "bt_inv n m s \<longleftrightarrow> bt_threads_inv n m s \<and> bt_latch_inv s \<and> bt_queue_inv n m s"

text \<open>What is left to do.\<close>

fun worker_effort :: "bt_worker \<Rightarrow> nat" where
  "worker_effort Wb_unborn = 4"
| "worker_effort Wb_begin = 4"
| "worker_effort Wb_loop = 2"
| "worker_effort Wb_waiting = 1"
| "worker_effort Wb_ended = 0"

fun main_effort :: "nat \<Rightarrow> nat \<Rightarrow> bt_point \<Rightarrow> nat" where
  "main_effort n m Mb_done = 0"
| "main_effort n m (Mb_join i) = 1 + (n - i)"
| "main_effort n m (Mb_stop i) = 2 + n + 6 * (n - i)"
| "main_effort n m (Mb_put i) = 3 + 7 * n + 6 * (m - i)"
| "main_effort n m Mb_latch = 4 + 7 * n + 6 * m"
| "main_effort n m (Mb_start i) = 6 + 7 * n + 6 * m + (n - i)"

definition bt_effort :: "bq_test \<Rightarrow> nat" where
  "bt_effort s =
     main_effort (length (bt_threads s)) (bt_times s) (bt_main s) + (if bt_main s = Mb_latch \<and> 0 \<notin> la_asleep (bt_latch s) then 1 else 0) +
     sum_list (map worker_effort (bt_workers s)) + 3 * length (bq_queue (bt_queue s)) + 2 * bq_woken (bt_queue s)"

text \<open>What one step owes: no fault, the invariant, and less left to do.\<close>

definition bt_pays :: "nat \<Rightarrow> nat \<Rightarrow> bq_test \<Rightarrow> bq_test \<Rightarrow> bool" where
  "bt_pays n m s s' \<longleftrightarrow> bt_inv n m s' \<and> bt_effort s' < bt_effort s"

lemmas bt_inv_defs = bt_inv_def bt_threads_inv_def bt_latch_inv_def bt_queue_inv_def

subsection \<open>Helpers\<close>

lemma hello_not_stop [simp]: "hello i \<noteq> ''stop''" "''stop'' \<noteq> hello i"
  by (simp_all add: hello_def snprintf_text_def)

lemma count_hellos [simp]: "count_list (map hello xs) ''stop'' = 0"
  by (induction xs) simp_all

lemma Thread_start_fresh:
  assumes "\<not> th_started th" and "th_latch th = CountDownLatch_new 1" and "0 < g"
  obtains th' t where "Thread_start (Some g) th = Some (Inr (th', Some t))" and "th_started th'" and "th_joined th' = th_joined th"
  using assms
  by (auto simp: Thread_start_def runInThread_begin_def tid_def cacheTid_def CurrentThread_fresh_def countDown_def CountDownLatch_new_def
      la_notifyAll_def getCount_def Let_def)

text \<open>The queue's counters.\<close>

lemma bq_put_counts:
  "bq_asleep (bq_put x q) + bq_woken (bq_put x q) = bq_asleep q + bq_woken q" "bq_woken (bq_put x q) \<le> Suc (bq_woken q)"
  by (simp_all add: bq_put_def bq_notify_def)

lemma bq_notify_counts: "bq_asleep (bq_notify q) + bq_woken (bq_notify q) = bq_asleep q + bq_woken q"
  by (simp add: bq_notify_def)

lemma bq_put_inv: "bq_inv q \<Longrightarrow> bq_inv (bq_put x q)"
  using bq_exec_inv [of q "Bq_put x"] by simp

subsection \<open>The steps of the main thread\<close>

lemma bt_starts_pays:
  assumes inv: "bt_inv n m s" and pc: "bt_main s = Mb_start i" and "0 < g" and r: "bt_starts g i s = Some r"
  shows "\<exists>s'. r = Inr s' \<and> bt_pays n m s s'"
proof (cases "i < n")
  case True
  have t: "thread_ok n (Mb_start i) i (bt_threads s ! i) (bt_workers s ! i)" using inv pc True by (simp add: bt_inv_defs)
  then obtain th u where th: "Thread_start (Some g) (bt_threads s ! i) = Some (Inr (th, Some u))" "th_started th"
      "th_joined th = th_joined (bt_threads s ! i)"
    using Thread_start_fresh [of "bt_threads s ! i" g] \<open>0 < g\<close> by (auto simp: thread_ok_def)
  define s' where "s' = s\<lparr>bt_threads := (bt_threads s)[i := th], bt_workers := (bt_workers s)[i := Wb_begin], bt_main := Mb_start (Suc i)\<rparr>"
  have len: "length (bt_threads s) = n" "length (bt_workers s) = n" using inv by (simp_all add: bt_inv_defs)
  have w: "bt_workers s ! i = Wb_unborn" using t by (simp add: thread_ok_def)
  have "thread_ok n (Mb_start (Suc i)) j ((bt_threads s)[i := th] ! j) ((bt_workers s)[i := Wb_begin] ! j)" if "j < n" for j
    using inv that pc th t len by (cases "j = i") (auto simp: bt_inv_defs thread_ok_def)
  then have a: "bt_threads_inv n m s'" using inv True len by (simp add: s'_def bt_inv_defs)
  note cnt = count_list_update [of i "bt_workers s" Wb_begin]
  have "bt_latch_inv s'" using inv pc len True w cnt [of Wb_unborn] cnt [of Wb_begin] by (simp add: s'_def bt_inv_defs before_latch_def)
  moreover have "bt_queue_inv n m s'"
    using inv pc len True w cnt [of Wb_waiting] cnt [of Wb_ended] by (auto simp: s'_def bt_inv_defs)
  moreover have "bt_effort s' < bt_effort s"
    using pc len True w sum_list_map_update [of i "bt_workers s" worker_effort Wb_begin] by (simp add: s'_def bt_effort_def)
  ultimately show ?thesis using a r True len th(1) by (auto simp: bt_starts_def bt_pays_def bt_inv_def s'_def)
next
  case False
  then have i: "i = n" using inv pc by (simp add: bt_inv_defs)
  then have "bt_threads_inv n m (s\<lparr>bt_main := Mb_latch\<rparr>)" using inv pc by (simp add: bt_inv_defs thread_ok_def)
  moreover have "bt_latch_inv (s\<lparr>bt_main := Mb_latch\<rparr>)" "bt_queue_inv n m (s\<lparr>bt_main := Mb_latch\<rparr>)"
    using inv pc by (auto simp: bt_inv_defs before_latch_def)
  moreover have "bt_effort (s\<lparr>bt_main := Mb_latch\<rparr>) < bt_effort s" using inv pc i by (simp add: bt_effort_def bt_inv_defs)
  ultimately have "bt_pays n m s (s\<lparr>bt_main := Mb_latch\<rparr>)" by (simp add: bt_pays_def bt_inv_def)
  then show ?thesis using r False inv by (auto simp: bt_starts_def bt_inv_def bt_threads_inv_def)
qed

lemma bt_waits_pays:
  assumes inv: "bt_inv n m s" and pc: "bt_main s = Mb_latch" and r: "bt_waits s = Some r"
  shows "\<exists>s'. r = Inr s' \<and> bt_pays n m s s'"
proof -
  have a: "0 \<notin> la_asleep (bt_latch s)" using r by (simp add: bt_waits_def split: if_splits)
  define s' where "s' = s\<lparr>bt_latch := latch_wait 0 (bt_latch s),
    bt_main := (if 0 \<in> la_returned (latch_wait 0 (bt_latch s)) then Mb_put 0 else Mb_latch)\<rparr>"
  have "bt_threads_inv n m s'" "bt_queue_inv n m s'" using inv pc by (auto simp: s'_def bt_inv_defs thread_ok_def)
  moreover have "bt_latch_inv s'"
    using inv pc a by (auto simp: s'_def bt_inv_defs latch_wait_def la_inv_def before_latch_def)
  moreover have "bt_effort s' < bt_effort s"
    using inv pc a by (auto simp: s'_def bt_effort_def latch_wait_def bt_inv_defs before_latch_def)
  ultimately show ?thesis using r a by (auto simp: bt_waits_def bt_pays_def bt_inv_def s'_def Let_def)
qed

lemma bt_put_pays:
  assumes inv: "bt_inv n m s" and pc: "bt_main s = p" "\<not> before_latch p" "\<not> before_latch p'" and ok: "point_ok n m p'"
    and th: "\<And>j th w. thread_ok n p j th w \<Longrightarrow> thread_ok n p' j th w" and sent: "bt_sent n m p' = bt_sent n m p @ [x]"
    and eff: "main_effort n m p' + 6 \<le> main_effort n m p"
  shows "bt_pays n m s (s\<lparr>bt_queue := bq_put x (bt_queue s), bt_main := p'\<rparr>)"
proof -
  define s' where "s' = s\<lparr>bt_queue := bq_put x (bt_queue s), bt_main := p'\<rparr>"
  have ne: "p \<noteq> Mb_latch" "p' \<noteq> Mb_latch" using pc by (auto simp: before_latch_def)
  have "bt_threads_inv n m s'" using inv pc ok th by (auto simp: s'_def bt_inv_defs)
  moreover have "bt_latch_inv s'" using inv pc ne by (auto simp: s'_def bt_inv_defs)
  moreover have "bt_queue_inv n m s'"
    using inv pc sent bq_put_inv [of "bt_queue s" x] bq_put_counts(1) [of x "bt_queue s"]
    by (simp add: s'_def bt_inv_defs bq_put_queue flip: append_assoc)
  moreover have "bt_effort s' < bt_effort s"
    using inv pc ne eff bq_put_counts(2) [of x "bt_queue s"] by (simp add: s'_def bt_effort_def bt_inv_defs bq_put_queue)
  ultimately show ?thesis by (simp add: bt_pays_def bt_inv_def s'_def)
qed

text \<open>The main thread goes to another point and does nothing else.\<close>

lemma bt_moves_pays:
  assumes inv: "bt_inv n m s" and pc: "bt_main s = p" "\<not> before_latch p" "\<not> before_latch p'" and ok: "point_ok n m p'"
    and th: "\<And>j th w. j < n \<Longrightarrow> thread_ok n p j th w \<Longrightarrow> thread_ok n p' j th w" and sent: "bt_sent n m p' = bt_sent n m p"
    and eff: "main_effort n m p' < main_effort n m p"
  shows "bt_pays n m s (s\<lparr>bt_main := p'\<rparr>)"
proof -
  have ne: "p \<noteq> Mb_latch" "p' \<noteq> Mb_latch" using pc by (auto simp: before_latch_def)
  then show ?thesis using assms by (auto simp: bt_pays_def bt_inv_defs bt_effort_def)
qed

lemma bt_puts_pays:
  assumes inv: "bt_inv n m s" and pc: "bt_main s = Mb_put i" and r: "bt_puts i s = Some r"
  shows "\<exists>s'. r = Inr s' \<and> bt_pays n m s s'"
proof (cases "i < m")
  case True
  have "bt_pays n m s (s\<lparr>bt_queue := bq_put (hello i) (bt_queue s), bt_main := Mb_put (Suc i)\<rparr>)"
    by (rule bt_put_pays [OF inv pc]) (use True in \<open>auto simp: before_latch_def thread_ok_def\<close>)
  then show ?thesis using r True inv by (auto simp: bt_puts_def bt_inv_defs)
next
  case False
  then have "i = m" using inv pc by (simp add: bt_inv_defs)
  then have "bt_pays n m s (s\<lparr>bt_main := Mb_stop 0\<rparr>)"
    by (intro bt_moves_pays [OF inv pc]) (auto simp: before_latch_def thread_ok_def)
  then show ?thesis using r False inv by (auto simp: bt_puts_def bt_inv_defs)
qed

lemma bt_stops_pays:
  assumes inv: "bt_inv n m s" and pc: "bt_main s = Mb_stop i" and r: "bt_stops i s = Some r"
  shows "\<exists>s'. r = Inr s' \<and> bt_pays n m s s'"
proof (cases "i < n")
  case True
  have "bt_pays n m s (s\<lparr>bt_queue := bq_put ''stop'' (bt_queue s), bt_main := Mb_stop (Suc i)\<rparr>)"
    by (rule bt_put_pays [OF inv pc]) (use True in \<open>auto simp: before_latch_def thread_ok_def replicate_append_same\<close>)
  then show ?thesis using r True inv by (auto simp: bt_stops_def bt_inv_defs)
next
  case False
  then have "i = n" using inv pc by (simp add: bt_inv_defs)
  then have "bt_pays n m s (s\<lparr>bt_main := Mb_join 0\<rparr>)"
    by (intro bt_moves_pays [OF inv pc]) (auto simp: before_latch_def thread_ok_def)
  then show ?thesis using r False inv by (auto simp: bt_stops_def bt_inv_defs)
qed

lemma bt_joins_pays:
  assumes inv: "bt_inv n m s" and pc: "bt_main s = Mb_join i" and r: "bt_joins i s = Some r"
  shows "\<exists>s'. r = Inr s' \<and> bt_pays n m s s'"
proof (cases "i < n")
  case True
  have len: "length (bt_threads s) = n" "length (bt_workers s) = n" using inv by (simp_all add: bt_inv_defs)
  have w: "bt_workers s ! i = Wb_ended" using r True len by (simp add: bt_joins_def split: if_splits)
  have t: "th_started (bt_threads s ! i)" "\<not> th_joined (bt_threads s ! i)" using inv pc True by (auto simp: bt_inv_defs thread_ok_def)
  define s' where "s' = s\<lparr>bt_threads := (bt_threads s)[i := (bt_threads s ! i)\<lparr>th_joined := True\<rparr>], bt_main := Mb_join (Suc i)\<rparr>"
  have "thread_ok n (Mb_join (Suc i)) j ((bt_threads s)[i := (bt_threads s ! i)\<lparr>th_joined := True\<rparr>] ! j) (bt_workers s ! j)" if "j < n" for j
    using inv pc that w t len by (cases "j = i") (auto simp: bt_inv_defs thread_ok_def)
  then have "bt_threads_inv n m s'" using inv True len by (simp add: s'_def bt_inv_defs)
  moreover have "bt_latch_inv s'" "bt_queue_inv n m s'" using inv pc by (simp_all add: s'_def bt_inv_defs before_latch_def)
  moreover have "bt_effort s' < bt_effort s" using pc True len by (simp add: s'_def bt_effort_def)
  ultimately show ?thesis using r True len w t by (auto simp: bt_joins_def bt_pays_def bt_inv_def s'_def Thread_join_def)
next
  case False
  then have "i = n" using inv pc by (simp add: bt_inv_defs)
  then have "bt_pays n m s (s\<lparr>bt_main := Mb_done\<rparr>)"
    by (intro bt_moves_pays [OF inv pc]) (auto simp: before_latch_def thread_ok_def)
  then show ?thesis using r False inv by (auto simp: bt_joins_def bt_inv_defs)
qed

lemma bt_main_pays:
  assumes "bt_inv n m s" and "0 < g" and "bt_main_step g s = Some r"
  shows "\<exists>s'. r = Inr s' \<and> bt_pays n m s s'"
  using assms bt_starts_pays bt_waits_pays bt_puts_pays bt_stops_pays bt_joins_pays
  by (auto simp: bt_main_step_def split: bt_point.splits)

subsection \<open>The steps of the workers\<close>

text \<open>What one round of \<open>take\<close> does to the queue.\<close>

lemma bq_take_counts:
  assumes "bq_take q = (d, q')"
  shows "bq_asleep q' + bq_woken q' = bq_asleep q + bq_woken q + (if d = None then 1 else 0)" "bq_woken q' = bq_woken q"
    and "bq_queue q = (case d of None \<Rightarrow> [] | Some x \<Rightarrow> [x]) @ bq_queue q'" and "d = None \<Longrightarrow> bq_queue q' = []"
  using assms by (auto simp: bq_take_def split: list.splits)

lemma bq_take_inv: "bq_inv q \<Longrightarrow> bq_inv (snd (bq_take q))"
  using bq_exec_inv [of q Bq_take] by (simp add: collected_def)

lemma bq_resume_inv: "bq_inv q \<Longrightarrow> bq_inv (snd (bq_resume q))"
  using bq_exec_inv [of q Bq_resume] by (simp add: collected_def)

lemma thread_ok_moves:
  "thread_ok n p j th w \<Longrightarrow> w \<noteq> Wb_unborn \<Longrightarrow> w \<noteq> Wb_ended \<Longrightarrow> w' \<noteq> Wb_unborn \<Longrightarrow> thread_ok n p j th w'"
  by (auto simp: thread_ok_def)

lemma bt_threads_inv_moves:
  assumes "bt_threads_inv n m s" and "i < n" and "bt_workers s ! i \<noteq> Wb_unborn" and "bt_workers s ! i \<noteq> Wb_ended" and "w \<noteq> Wb_unborn"
    and "bt_times s' = bt_times s" "bt_main s' = bt_main s" "bt_threads s' = bt_threads s" "bt_workers s' = (bt_workers s)[i := w]"
  shows "bt_threads_inv n m s'"
  using assms by (auto simp: bt_threads_inv_def nth_list_update intro: thread_ok_moves)

lemma bt_begin_pays:
  assumes inv: "bt_inv n m s" and i: "i < n" and w: "bt_workers s ! i = Wb_begin"
  shows "bt_pays n m s (s\<lparr>bt_latch := countDown (bt_latch s), bt_workers := (bt_workers s)[i := Wb_loop]\<rparr>)"
    (is "bt_pays n m s ?s'")
proof -
  have len: "i < length (bt_workers s)" using inv i by (simp add: bt_inv_defs)
  note cnt = count_list_update [OF len, of Wb_loop]
  have "bt_threads_inv n m ?s'"
    by (rule bt_threads_inv_moves [of n m s i Wb_loop]) (use inv i w in \<open>simp_all add: bt_inv_def\<close>)
  moreover have "bt_latch_inv ?s'"
    using inv w cnt [of Wb_begin] cnt [of Wb_unborn] latch_exec_inv [of "bt_latch s" Count_down]
    by (auto simp: bt_inv_defs countDown_def la_notifyAll_def Let_def split: if_splits)
  moreover have "bt_queue_inv n m ?s'" using inv w cnt [of Wb_waiting] cnt [of Wb_ended] by (simp add: bt_inv_defs)
  moreover have "bt_effort ?s' < bt_effort s"
    using w sum_list_map_update [OF len, of worker_effort Wb_loop] by (simp add: bt_effort_def)
  ultimately show ?thesis by (simp add: bt_pays_def bt_inv_def)
qed

lemma bt_got_pays:
  assumes inv: "bt_inv n m s" and i: "i < n" and w: "bt_workers s ! i = w" "w = Wb_loop \<or> w = Wb_waiting"
    and q: "bq_inv q" "bq_queue (bt_queue s) = (case d of None \<Rightarrow> [] | Some x \<Rightarrow> [x]) @ bq_queue q"
    and cnt: "bq_asleep q + bq_woken q + (if w = Wb_waiting then 1 else 0) =
        bq_asleep (bt_queue s) + bq_woken (bt_queue s) + (if d = None then 1 else 0)"
    and wk: "bq_woken q + (if w = Wb_waiting then 1 else 0) = bq_woken (bt_queue s)"
  shows "bt_pays n m s (bt_got i (d, q) s)"
proof -
  define w' where "w' = (case d of None \<Rightarrow> Wb_waiting | Some x \<Rightarrow> if x \<noteq> ''stop'' then Wb_loop else Wb_ended)"
  define s' where "s' = bt_got i (d, q) s"
  have f: "bt_times s' = bt_times s" "bt_main s' = bt_main s" "bt_threads s' = bt_threads s" "bt_latch s' = bt_latch s"
      "bt_workers s' = (bt_workers s)[i := w']" "bt_queue s' = q" "bt_taken s' = bt_taken s @ (case d of None \<Rightarrow> [] | Some x \<Rightarrow> [(i, x)])"
    by (simp_all add: s'_def bt_got_def w'_def split: option.split)
  have w': "w' \<noteq> Wb_unborn" "w' \<noteq> Wb_begin" by (simp_all add: w'_def split: option.split)
  have len: "i < length (bt_workers s)" using inv i by (simp add: bt_inv_defs)
  note upd = count_list_update [OF len, of w']
  have "bt_threads_inv n m s'"
    by (rule bt_threads_inv_moves [of n m s i w']) (use inv i w w' f in \<open>auto simp: bt_inv_def\<close>)
  moreover have "bt_latch_inv s'" using inv w w' f upd [of Wb_unborn] upd [of Wb_begin] by (auto simp: bt_inv_defs)
  moreover have "bt_queue_inv n m s'"
    using inv w f q cnt upd [of Wb_waiting] upd [of Wb_ended] by (auto simp: bt_inv_defs w'_def split: option.splits if_splits)
  moreover have "bt_effort s' < bt_effort s"
    using w f q(2) wk sum_list_map_update [OF len, of worker_effort w']
    by (auto simp: bt_effort_def w'_def split: option.splits if_splits)
  ultimately show ?thesis by (simp add: bt_pays_def bt_inv_def s'_def)
qed

lemma bt_take_pays:
  assumes inv: "bt_inv n m s" and i: "i < n" and w: "bt_workers s ! i = Wb_loop"
  shows "bt_pays n m s (bt_got i (bq_take (bt_queue s)) s)"
proof -
  obtain d q where dq: "bq_take (bt_queue s) = (d, q)" by fastforce
  have "bq_inv q" using bq_take_inv [of "bt_queue s"] inv dq by (simp add: bt_inv_defs)
  then have "bt_pays n m s (bt_got i (d, q) s)"
    using bq_take_counts [OF dq] by (intro bt_got_pays [OF inv i w]) auto
  then show ?thesis using dq by simp
qed

lemma bt_resume_pays:
  assumes inv: "bt_inv n m s" and i: "i < n" and w: "bt_workers s ! i = Wb_waiting" and wk: "0 < bq_woken (bt_queue s)"
  shows "bt_pays n m s (bt_got i (bq_resume (bt_queue s)) s)"
proof -
  obtain d q where dq: "bq_take ((bt_queue s)\<lparr>bq_woken := bq_woken (bt_queue s) - 1\<rparr>) = (d, q)" by fastforce
  have r: "bq_resume (bt_queue s) = (d, q)" using wk dq by (simp add: bq_resume_def)
  have "bq_inv q" using bq_resume_inv [of "bt_queue s"] inv r by (simp add: bt_inv_defs)
  then have "bt_pays n m s (bt_got i (d, q) s)"
    using bq_take_counts [OF dq] wk by (intro bt_got_pays [OF inv i w]) auto
  then show ?thesis using r by simp
qed

lemma bt_worker_pays:
  assumes "bt_inv n m s" and "bt_worker_step i s = Some s'"
  shows "bt_pays n m s s'"
proof -
  have "i < n" using assms by (auto simp: bt_worker_step_def bt_inv_defs split: if_splits)
  then show ?thesis
    using assms bt_begin_pays [OF assms(1)] bt_take_pays [OF assms(1)] bt_resume_pays [OF assms(1)]
    by (auto simp: bt_worker_step_def split: if_splits bt_worker.splits)
qed

lemma bt_work_pays: "bt_inv n m s \<Longrightarrow> bt_work s s' \<Longrightarrow> bt_pays n m s s'"
  by (erule bt_workE) (use bt_main_pays bt_worker_pays in \<open>force+\<close>)

lemma bt_step_inv:
  assumes "bt_inv n m s" and "bt_step s s'"
  shows "bt_inv n m s'"
  using assms(2,1)
proof (induction rule: bt_step.induct)
  case (bt_works s s')
  then show ?case using bt_work_pays by (simp add: bt_pays_def)
next
  case (bt_spurious_queue s)
  then show ?case using bq_exec_inv [of "bt_queue s" Bq_spurious] by (simp add: bt_inv_defs bq_notify_counts)
next
  case (bt_spurious_latch s)
  then show ?case using latch_exec_inv [of "bt_latch s" "Spurious 0"] by (auto simp: bt_inv_defs split: if_splits)
qed

lemma make_threads_fresh:
  "length (make_threads ns v) = length ns \<and>
     (\<forall>th \<in> set (make_threads ns v). \<not> th_started th \<and> \<not> th_joined th \<and> th_latch th = CountDownLatch_new 1)"
  by (induction ns arbitrary: v) (auto simp: Thread_new_def setDefaultName_def Let_def split: prod.splits)

lemma Test_new_inv: "bt_inv n m (Test_new n m v)"
proof -
  have "\<forall>th \<in> set (make_threads (map work_thread_name [0 ..< n]) v). \<not> th_started th \<and> \<not> th_joined th \<and> th_latch th = CountDownLatch_new 1"
    and "length (make_threads (map work_thread_name [0 ..< n]) v) = n"
    using make_threads_fresh [of "map work_thread_name [0 ..< n]" v] by simp_all
  then show ?thesis
    by (simp add: bt_inv_defs Test_new_def thread_ok_def la_inv_def CountDownLatch_new_def before_latch_def BlockingQueue_new_def bq_inv_def
        count_list_0_iff)
qed

lemma bt_reach_inv: "bt_step\<^sup>*\<^sup>* (Test_new n m v) s \<Longrightarrow> bt_inv n m s"
  by (induction rule: rtranclp_induct) (auto intro: Test_new_inv bt_step_inv)

subsection \<open>Nobody waits for ever\<close>

lemma bt_begin_works: "i < length (bt_workers s) \<Longrightarrow> bt_workers s ! i = Wb_begin \<Longrightarrow> \<exists>s'. bt_work s s'"
  using bt_worker_works [of i s] by (fastforce simp: bt_worker_step_def)

text \<open>While a worker has not ended there is a \<open>stop\<close> in the queue for it, and, if all are waiting, a woken thread.\<close>

lemma bt_worker_goes_on:
  assumes inv: "bt_inv n m s" and pc: "bt_main s = Mb_join i" and i: "i < n" and w: "bt_workers s ! i \<noteq> Wb_ended"
  shows "\<exists>s'. bt_work s s'"
proof (cases "bt_workers s ! i = Wb_waiting")
  case True
  have len: "length (bt_workers s) = n" using inv by (simp add: bt_inv_defs)
  have waiting: "0 < count_list (bt_workers s) Wb_waiting" using count_list_pos True i len by (metis nth_mem)
  then have "count_list (bt_workers s) Wb_ended < n"
    using count_two_le [of Wb_ended Wb_waiting "bt_workers s"] len by simp
  moreover have "count_list (map snd (bt_taken s) @ bq_queue (bt_queue s)) ''stop'' = n" using inv pc by (simp add: bt_inv_defs)
  ultimately have "bq_queue (bt_queue s) \<noteq> []" using inv by (auto simp: bt_inv_def bt_queue_inv_def)
  then have "0 < bq_woken (bt_queue s)" using inv waiting by (cases "bq_woken (bt_queue s)") (auto simp: bt_inv_def bt_queue_inv_def bq_inv_def)
  then show ?thesis using True i len bt_worker_works [of i s] by (fastforce simp: bt_worker_step_def)
next
  case False
  have len: "length (bt_workers s) = n" using inv by (simp add: bt_inv_defs)
  have "bt_workers s ! i \<noteq> Wb_unborn" using inv pc i by (auto simp: bt_inv_defs thread_ok_def)
  then have "\<exists>s'. bt_worker_step i s = Some s'" using False w i len by (cases "bt_workers s ! i") (simp_all add: bt_worker_step_def)
  then show ?thesis using bt_worker_works by blast
qed

lemma bt_main_goes_on:
  assumes inv: "bt_inv n m s" and "bt_main_step 1 s \<noteq> None"
  shows "\<exists>s'. bt_work s s'"
  using bt_main_pays [OF inv, of 1] assms(2) bt_main_works [of 1 s] by fastforce

lemma bt_goes_on:
  assumes inv: "bt_inv n m s" and "bt_main s \<noteq> Mb_done"
  shows "\<exists>s'. bt_work s s'"
proof (cases "bt_main_step 1 s")
  case None
  consider (start) i where "bt_main s = Mb_start i" "i < n" | (latch) "bt_main s = Mb_latch" "0 \<in> la_asleep (bt_latch s)"
    | (join) i where "bt_main s = Mb_join i" "i < n" "bt_workers s ! i \<noteq> Wb_ended"
    using None assms by (auto simp: bt_main_step_def bt_starts_def bt_waits_def bt_puts_def bt_stops_def bt_joins_def bt_inv_defs Let_def
        split: bt_point.splits if_splits)
  then show ?thesis
  proof cases
    case start
    then have "\<not> th_started (bt_threads s ! i)" "th_latch (bt_threads s ! i) = CountDownLatch_new 1"
      using inv by (auto simp: bt_inv_defs thread_ok_def)
    then have "bt_main_step 1 s \<noteq> None"
      using Thread_start_fresh [of "bt_threads s ! i" 1] start inv by (fastforce simp: bt_main_step_def bt_starts_def bt_inv_defs)
    then show ?thesis using None by simp
  next
    case latch
    then have "0 < la_count (bt_latch s)" using inv by (auto simp: bt_inv_defs la_inv_def)
    moreover have "\<forall>j < length (bt_workers s). bt_workers s ! j \<noteq> Wb_unborn"
      using inv latch by (simp add: bt_inv_def bt_threads_inv_def thread_ok_def)
    then have "count_list (bt_workers s) Wb_unborn = 0" unfolding count_list_0_iff in_set_conv_nth by blast
    ultimately have "0 < count_list (bt_workers s) Wb_begin" using inv by (simp add: bt_inv_defs)
    then obtain j where "j < length (bt_workers s)" "bt_workers s ! j = Wb_begin" using count_list_pos_nth by metis
    then show ?thesis by (rule bt_begin_works)
  next
    case join
    then show ?thesis using bt_worker_goes_on [OF inv] by blast
  qed
qed (use bt_main_goes_on [OF inv] in simp)

interpretation queue_test: progress "bt_inv n m" bt_work "\<lambda>s. bt_main s = Mb_done" bt_effort
  using bt_work_pays bt_goes_on by unfold_locales (auto simp: bt_pays_def)

lemma bt_work_steps: "bt_work\<^sup>*\<^sup>* s t \<Longrightarrow> bt_step\<^sup>*\<^sup>* s t"
  by (erule rtranclp_mono [THEN predicate2D, rotated]) (blast intro: bt_works)

subsection \<open>Properties\<close>

text \<open>The strings put so far are the first of all the strings.\<close>

lemma bt_sent_prefix: "point_ok n m p \<Longrightarrow> \<exists>rest. bt_sent n m p @ rest = map hello [0 ..< m] @ replicate n ''stop''"
proof (cases p)
  case (Mb_put i)
  assume "point_ok n m p"
  then have "[0 ..< m] = [0 ..< i] @ [i ..< m]" using Mb_put by (metis le0 le_add_diff_inverse point_ok.simps(2) upt_add_eq_append)
  then show ?thesis using Mb_put by simp
next
  case (Mb_stop i)
  assume "point_ok n m p"
  then have "replicate i ''stop'' @ replicate (n - i) ''stop'' = replicate n ''stop''" using Mb_stop by (simp flip: replicate_add)
  then show ?thesis using Mb_stop by auto
qed simp_all

text \<open>At the end every worker has ended, so every \<open>stop\<close>, and all that was put before it, has been taken.\<close>

lemma bt_done_taken:
  assumes inv: "bt_inv n m s" and "bt_main s = Mb_done" and "0 < n"
  shows "bt_workers s = replicate n Wb_ended" and "bq_queue (bt_queue s) = []"
    and "map snd (bt_taken s) = map hello [0 ..< m] @ replicate n ''stop''"
proof -
  have all: "map snd (bt_taken s) @ bq_queue (bt_queue s) = map hello [0 ..< m] @ replicate n ''stop''"
    using inv assms(2) by (simp add: bt_inv_def bt_queue_inv_def)
  show w: "bt_workers s = replicate n Wb_ended"
    using inv assms(2) by (auto simp: bt_inv_def bt_threads_inv_def thread_ok_def intro!: nth_equalityI)
  then have stops: "count_list (map snd (bt_taken s)) ''stop'' = n" using inv by (simp add: bt_inv_def bt_queue_inv_def)
  moreover have "count_list (map snd (bt_taken s) @ bq_queue (bt_queue s)) ''stop'' = n" unfolding all by simp
  ultimately have "''stop'' \<notin> set (bq_queue (bt_queue s))" by (simp add: count_list_0_iff)
  moreover have "last (map snd (bt_taken s) @ bq_queue (bt_queue s)) = ''stop''" unfolding all using assms(3) by simp
  ultimately show q: "bq_queue (bt_queue s) = []" by (metis last_appendR last_in_set)
  show "map snd (bt_taken s) = map hello [0 ..< m] @ replicate n ''stop''" using all q by simp
qed

text \<open>
  C20: The queue test completes. For any positive number of workers and any number of strings, in every interleaving of the main thread, the workers, the
  wake-ups and the spurious wake-ups: no assertion of \<open>Thread\<close> fails; the strings taken are always the first of \<open>hello 0\<close>, \<open>hello 1\<close>,
  \dots followed by a \<open>stop\<close> per worker, in this order, each once; the threads can always go on to the end of the main thread, and can do
  only a bounded number of steps in all; and when the main thread has joined, every string has been taken, the queue is empty and every worker
  has ended.
\<close>

theorem block_queue_test_completes:
  assumes "0 < n" and "bt_step\<^sup>*\<^sup>* (Test_new n m v) s"
  shows "(\<forall>gettid e. 0 < gettid \<longrightarrow> bt_main_step gettid s \<noteq> Some (Inl e)) \<and>
    (\<exists>rest. map snd (bt_taken s) @ rest = map hello [0 ..< m] @ replicate n ''stop'') \<and>
    (\<exists>t. bt_work\<^sup>*\<^sup>* s t \<and> bt_main t = Mb_done) \<and> (\<forall>k t. (bt_work ^^ k) s t \<longrightarrow> k \<le> bt_effort s) \<and>
    (bt_main s = Mb_done \<longrightarrow> map snd (bt_taken s) = map hello [0 ..< m] @ replicate n ''stop'' \<and>
       bq_empty (bt_queue s) \<and> bt_workers s = replicate n Wb_ended)"
proof (intro conjI allI impI)
  have inv: "bt_inv n m s" using assms(2) by (rule bt_reach_inv)
  show "bt_main_step g s \<noteq> Some (Inl e)" if "0 < g" for g e using bt_main_pays [OF inv that] by blast
  obtain rest where "bt_sent n m (bt_main s) @ rest = map hello [0 ..< m] @ replicate n ''stop''"
    using bt_sent_prefix inv by (metis bt_inv_def bt_threads_inv_def)
  then show "\<exists>rest. map snd (bt_taken s) @ rest = map hello [0 ..< m] @ replicate n ''stop''"
    using inv by (metis append.assoc bt_inv_def bt_queue_inv_def)
  show "\<exists>t. bt_work\<^sup>*\<^sup>* s t \<and> bt_main t = Mb_done" by (rule queue_test.can_finish [OF inv])
  show "k \<le> bt_effort s" if "(bt_work ^^ k) s t" for k t using queue_test.work_bounded [OF inv that] by simp
  assume "bt_main s = Mb_done"
  from bt_done_taken [OF inv this assms(1)]
  show "map snd (bt_taken s) = map hello [0 ..< m] @ replicate n ''stop''" "bq_empty (bt_queue s)" "bt_workers s = replicate n Wb_ended"
    by (simp_all add: bq_empty_def)
qed

text \<open>The numbers of \<open>main\<close>: five workers and a hundred strings.\<close>

lemma block_queue_test_completes_witness:
  "\<exists>t. bt_work\<^sup>*\<^sup>* (Test_new 5 100 0) t \<and> bt_main t = Mb_done \<and>
     map snd (bt_taken t) = map hello [0 ..< 100] @ replicate 5 ''stop'' \<and> bt_workers t = replicate 5 Wb_ended"
proof -
  have five: "0 < (5 :: nat)" by simp
  obtain t where t: "bt_work\<^sup>*\<^sup>* (Test_new 5 100 0) t" "bt_main t = Mb_done"
    using block_queue_test_completes [OF five rtranclp.rtrancl_refl] by blast
  then show ?thesis using block_queue_test_completes [OF five bt_work_steps [OF t(1)]] by blast
qed

end
