(* ===== verification/RN_TestPool.thy ===== *)
theory RN_TestPool
  imports RN_ThreadPool RN_Sync RN_Progress
begin

text \<open>
  RN/base/tests/ThreadPoolTest.cpp: the main thread starts a pool with a bound on its queue, posts tasks that print and one that counts a latch
  down, waits for the latch and stops the pool. The state has the pool, the latch and the point the main thread has reached; \<open>pt_ran\<close> (not
  in the code) are the tasks that have returned, each with the worker that ran it. Every critical section is one step. The numbers of \<open>main\<close>
  (three workers, four tasks, a bound of five) are arguments, so that the calls of \<open>test\<close> that are commented out are covered too.
\<close>

datatype pool_task = Print_task | CountDown_task

datatype pt_point = Mp_post nat | Mp_full nat | Mp_latch | Mp_stop | Mp_join | Mp_done

record pool_test =
  pt_posts :: "pool_task list"
  pt_main :: pt_point
  pt_pool :: "pool_task tpool"
  pt_latch :: latch
  pt_ran :: "(nat \<times> pool_task) list"

text \<open>\<open>test\<close> up to the first \<open>post\<close>.\<close>

definition pt_tasks :: "nat \<Rightarrow> pool_task list" where
  "pt_tasks prints = replicate prints Print_task @ [CountDown_task]"

definition pool_test_start :: "nat \<Rightarrow> nat \<Rightarrow> int \<Rightarrow> pool_test result" where
  "pool_test_start workers prints maxSize =
     (let pool = setMaxQueueSize maxSize (ThreadPool_new ''MainThreadPool'' 0)
      in rbind (tp_start workers pool) (\<lambda>pool.
           Inr \<lparr>pt_posts = pt_tasks prints, pt_main = Mp_post 0, pt_pool = pool, pt_latch = CountDownLatch_new 1, pt_ran = []\<rparr>))"

text \<open>The main thread, one step; None: it is blocked. \<open>k\<close> selects the worker a notification wakes.\<close>

definition pt_posted :: "nat \<Rightarrow> pool_task tpool \<Rightarrow> pool_test \<Rightarrow> pool_test" where
  "pt_posted i pool s = s\<lparr>pt_pool := pool, pt_main := (if tp_waitingPosts pool = [] then Mp_post (Suc i) else Mp_full i)\<rparr>"

definition pt_main_step :: "nat \<Rightarrow> pool_test \<Rightarrow> pool_test result option" where
  "pt_main_step k s =
     (case pt_main s of
        Mp_post i \<Rightarrow>
          Some (if i < length (pt_posts s) then rbind (tp_post k (pt_posts s ! i) (pt_pool s)) (\<lambda>pool. Inr (pt_posted i pool s))
                else Inr (s\<lparr>pt_main := Mp_latch\<rparr>))
      | Mp_full i \<Rightarrow>
          (if tp_wokenPosts (pt_pool s) = [] then None
           else Some (rbind (tp_resumePost k (pt_pool s)) (\<lambda>pool. Inr (pt_posted i pool s))))
      | Mp_latch \<Rightarrow>
          (if 0 \<in> la_asleep (pt_latch s) then None
           else (let l = latch_wait 0 (pt_latch s)
                 in Some (Inr (s\<lparr>pt_latch := l, pt_main := (if 0 \<in> la_returned l then Mp_stop else Mp_latch)\<rparr>))))
      | Mp_stop \<Rightarrow> Some (Inr (s\<lparr>pt_pool := tp_stop (pt_pool s), pt_main := Mp_join\<rparr>))
      | Mp_join \<Rightarrow>
          (if tp_joined (pt_pool s) then Some (Inr (s\<lparr>pt_pool := ThreadPool_destroy (pt_pool s), pt_main := Mp_done\<rparr>)) else None)
      | Mp_done \<Rightarrow> None)"

text \<open>A worker, one step: the task it runs, if it runs one, returns at the end of the step.\<close>

definition run_task :: "nat \<Rightarrow> pool_test \<Rightarrow> pool_test" where
  "run_task i s =
     (case tp_threads (pt_pool s) ! i of
        W_running t \<Rightarrow> s\<lparr>pt_latch := (if t = CountDown_task then countDown (pt_latch s) else pt_latch s), pt_ran := pt_ran s @ [(i, t)]\<rparr>
      | _ \<Rightarrow> s)"

definition pt_worker_step :: "nat \<Rightarrow> nat \<Rightarrow> pool_test \<Rightarrow> pool_test result option" where
  "pt_worker_step k i s =
     (if length (tp_threads (pt_pool s)) \<le> i \<or> tp_threads (pt_pool s) ! i \<in> {W_asleep, W_exit, W_crashed} then None
      else Some (rbind (worker_step k Returns i (pt_pool s)) (\<lambda>pool. Inr ((run_task i s)\<lparr>pt_pool := pool\<rparr>))))"

inductive pt_work :: "pool_test \<Rightarrow> pool_test \<Rightarrow> bool" where
  pt_main_works: "pt_main_step k s = Some (Inr s') \<Longrightarrow> pt_work s s'"
| pt_worker_works: "pt_worker_step k i s = Some (Inr s') \<Longrightarrow> pt_work s s'"

inductive pt_step :: "pool_test \<Rightarrow> pool_test \<Rightarrow> bool" where
  pt_works: "pt_work s s' \<Longrightarrow> pt_step s s'"
| pt_spurious_worker: "pt_step s (s\<lparr>pt_pool := notifyNotEmpty k (pt_pool s)\<rparr>)"
| pt_spurious_post: "pt_step s (s\<lparr>pt_pool := notifyNotFull k (pt_pool s)\<rparr>)"
| pt_spurious_latch: "pt_step s (s\<lparr>pt_latch := latch_exec (Spurious 0) (pt_latch s)\<rparr>)"

inductive_cases pt_workE: "pt_work s s'"

subsection \<open>Invariant\<close>

text \<open>How many tasks have been accepted by the pool at a point of the main thread, and the task that waits to be.\<close>

fun posted_to :: "nat \<Rightarrow> pt_point \<Rightarrow> nat" where
  "posted_to n (Mp_post i) = i"
| "posted_to n (Mp_full i) = i"
| "posted_to n _ = n"

fun waits_with :: "pool_task list \<Rightarrow> pt_point \<Rightarrow> pool_task list" where
  "waits_with ts (Mp_full i) = [ts ! i]"
| "waits_with ts _ = []"

fun pt_point_ok :: "nat \<Rightarrow> pt_point \<Rightarrow> bool" where
  "pt_point_ok n (Mp_post i) \<longleftrightarrow> i \<le> n"
| "pt_point_ok n (Mp_full i) \<longleftrightarrow> i < n"
| "pt_point_ok n _ \<longleftrightarrow> True"

definition pt_pool_inv :: "nat \<Rightarrow> pool_task list \<Rightarrow> pool_test \<Rightarrow> bool" where
  "pt_pool_inv n ts s \<longleftrightarrow>
     tp_inv (pt_pool s) \<and> length (tp_threads (pt_pool s)) = n \<and> pt_posts s = ts \<and> pt_point_ok (length ts) (pt_main s) \<and>
     tp_accepted (pt_pool s) = take (posted_to (length ts) (pt_main s)) ts \<and>
     tp_waitingPosts (pt_pool s) @ tp_wokenPosts (pt_pool s) = waits_with ts (pt_main s) \<and>
     (tp_running (pt_pool s) \<longleftrightarrow> pt_main s \<notin> {Mp_join, Mp_done}) \<and>
     W_crashed \<notin> set (tp_threads (pt_pool s)) \<and> (tp_running (pt_pool s) \<longrightarrow> W_exit \<notin> set (tp_threads (pt_pool s))) \<and>
     (pt_main s = Mp_done \<longrightarrow> tp_joined (pt_pool s))"

definition pt_ran_inv :: "pool_test \<Rightarrow> bool" where
  "pt_ran_inv s \<longleftrightarrow>
     (\<forall>t. count_list (tp_begun (pt_pool s)) t = count_list (map snd (pt_ran s)) t + count_list (tp_threads (pt_pool s)) (W_running t))"

definition pt_latch_inv :: "pool_test \<Rightarrow> bool" where
  "pt_latch_inv s \<longleftrightarrow>
     la_inv (pt_latch s) \<and> la_count (pt_latch s) = 1 - int (count_list (map snd (pt_ran s)) CountDown_task) \<and>
     la_asleep (pt_latch s) \<subseteq> (if pt_main s = Mp_latch then {0} else {}) \<and>
     la_returned (pt_latch s) = (if pt_main s \<in> {Mp_stop, Mp_join, Mp_done} then {0} else {})"

definition pt_inv :: "nat \<Rightarrow> pool_task list \<Rightarrow> pool_test \<Rightarrow> bool" where
  "pt_inv n ts s \<longleftrightarrow> pt_pool_inv n ts s \<and> pt_ran_inv s \<and> pt_latch_inv s"

lemmas pt_inv_defs = pt_inv_def pt_pool_inv_def pt_ran_inv_def pt_latch_inv_def

text \<open>What is left to do; after the stop a worker that waits goes through the loop once more.\<close>

fun pool_worker_effort :: "bool \<Rightarrow> 't worker \<Rightarrow> nat" where
  "pool_worker_effort r W_init = 4"
| "pool_worker_effort r W_check = 3"
| "pool_worker_effort r W_take = (if r then 2 else 4)"
| "pool_worker_effort r W_woken = (if r then 2 else 4)"
| "pool_worker_effort r W_asleep = 1"
| "pool_worker_effort r (W_running t) = 5"
| "pool_worker_effort r W_exit = 0"
| "pool_worker_effort r W_crashed = 0"

definition pool_effort :: "'t tpool \<Rightarrow> nat" where
  "pool_effort p = sum_list (map (pool_worker_effort (tp_running p)) (tp_threads p)) + 5 * length (tp_queue p) + length (tp_wokenPosts p)"

fun pool_main_effort :: "nat \<Rightarrow> nat \<Rightarrow> pt_point \<Rightarrow> nat" where
  "pool_main_effort n l (Mp_post i) = 3 * n + 6 + 8 * (l - i)"
| "pool_main_effort n l (Mp_full i) = 3 * n + 5 + 8 * (l - i)"
| "pool_main_effort n l Mp_latch = 3 * n + 3"
| "pool_main_effort n l Mp_stop = 3 * n + 2"
| "pool_main_effort n l Mp_join = 1"
| "pool_main_effort n l Mp_done = 0"

definition pt_effort :: "pool_test \<Rightarrow> nat" where
  "pt_effort s =
     pool_main_effort (length (tp_threads (pt_pool s))) (length (pt_posts s)) (pt_main s) +
     (if pt_main s = Mp_latch \<and> 0 \<notin> la_asleep (pt_latch s) then 1 else 0) + pool_effort (pt_pool s)"

definition pt_pays :: "nat \<Rightarrow> pool_task list \<Rightarrow> pool_test \<Rightarrow> pool_test \<Rightarrow> bool" where
  "pt_pays n ts s s' \<longleftrightarrow> pt_inv n ts s' \<and> pt_effort s' < pt_effort s"

subsection \<open>The pool\<close>

lemma set_worker_effort:
  assumes "i < length (tp_threads p)"
  shows "pool_effort (set_worker i w p) + pool_worker_effort (tp_running p) (tp_threads p ! i) =
    pool_effort p + pool_worker_effort (tp_running p) w"
  using sum_list_map_update [OF assms, of "pool_worker_effort (tp_running p)" w] by (simp add: pool_effort_def)

text \<open>Waking a worker costs one step and changes neither the tasks nor the ends of the workers.\<close>

lemma notifyNotEmpty_wakes:
  "count_list (tp_threads (notifyNotEmpty k p)) (W_running t) = count_list (tp_threads p) (W_running t)"
  "w \<in> {W_exit, W_crashed} \<Longrightarrow> w \<in> set (tp_threads (notifyNotEmpty k p)) \<longleftrightarrow> w \<in> set (tp_threads p)"
  "tp_running p \<Longrightarrow> pool_effort (notifyNotEmpty k p) \<le> pool_effort p + 1"
proof -
  consider "notifyNotEmpty k p = p" | i where "i < length (tp_threads p)" "tp_threads p ! i = W_asleep" "notifyNotEmpty k p = set_worker i W_woken p"
    by (rule notifyNotEmpty_cases [of p k]) auto
  then have "(\<forall>w. w \<notin> {W_asleep, W_woken} \<longrightarrow> count_list (tp_threads (notifyNotEmpty k p)) w = count_list (tp_threads p) w) \<and>
      (tp_running p \<longrightarrow> pool_effort (notifyNotEmpty k p) \<le> pool_effort p + 1)"
  proof cases
    case 2
    have "count_list ((tp_threads p)[i := W_woken]) w = count_list (tp_threads p) w" if "w \<notin> {W_asleep, W_woken}" for w
      using count_list_update [OF 2(1), of W_woken w] 2(2) that by auto
    then show ?thesis using 2 set_worker_effort [OF 2(1), of W_woken] by auto
  qed simp
  note c = this
  from c show "count_list (tp_threads (notifyNotEmpty k p)) (W_running t) = count_list (tp_threads p) (W_running t)" by simp
  from c show "tp_running p \<Longrightarrow> pool_effort (notifyNotEmpty k p) \<le> pool_effort p + 1" by simp
  show "w \<in> set (tp_threads (notifyNotEmpty k p)) \<longleftrightarrow> w \<in> set (tp_threads p)" if "w \<in> {W_exit, W_crashed}"
  proof -
    have "count_list (tp_threads (notifyNotEmpty k p)) w = count_list (tp_threads p) w" using c that by auto
    then show ?thesis by (metis count_list_0_iff)
  qed
qed

text \<open>Waking the only poster.\<close>

lemma notifyNotFull_one:
  assumes "tp_waitingPosts p @ tp_wokenPosts p = xs" and "length xs \<le> 1"
  shows "tp_waitingPosts (notifyNotFull k p) @ tp_wokenPosts (notifyNotFull k p) = xs"
    and "length (tp_wokenPosts (notifyNotFull k p)) \<le> Suc (length (tp_wokenPosts p))"
  using assms by (cases "tp_waitingPosts p"; auto simp: notifyNotFull_def Let_def)+

text \<open>What a working worker does to the pool.\<close>

definition worker_moves :: "nat \<Rightarrow> 't tpool \<Rightarrow> 't tpool \<Rightarrow> bool" where
  "worker_moves i p p' \<longleftrightarrow>
     length (tp_threads p') = length (tp_threads p) \<and> tp_accepted p' = tp_accepted p \<and> tp_running p' = tp_running p \<and>
     (length (tp_waitingPosts p @ tp_wokenPosts p) \<le> 1 \<longrightarrow> tp_waitingPosts p' @ tp_wokenPosts p' = tp_waitingPosts p @ tp_wokenPosts p) \<and>
     (W_crashed \<notin> set (tp_threads p) \<longrightarrow> W_crashed \<notin> set (tp_threads p')) \<and>
     (tp_running p \<and> W_exit \<notin> set (tp_threads p) \<longrightarrow> W_exit \<notin> set (tp_threads p')) \<and>
     (\<forall>t. count_list (tp_begun p') t + count_list (tp_threads p) (W_running t) =
        count_list (tp_begun p) t + count_list (tp_threads p') (W_running t) + (if tp_threads p ! i = W_running t then 1 else 0)) \<and>
     (length (tp_waitingPosts p @ tp_wokenPosts p) \<le> 1 \<longrightarrow>
        pool_effort p' + (case tp_threads p ! i of W_running _ \<Rightarrow> 2 | _ \<Rightarrow> 1) \<le> pool_effort p)"

lemma set_worker_keeps: "x \<noteq> w \<Longrightarrow> x \<notin> set (tp_threads p) \<Longrightarrow> x \<notin> set ((tp_threads p)[i := w])"
  using set_update_subset_insert [of "tp_threads p" i w] by auto

lemma set_worker_moves:
  assumes i: "i < length (tp_threads p)" and w: "w \<noteq> W_crashed" "tp_running p \<Longrightarrow> w \<noteq> W_exit" "\<And>t. w \<noteq> W_running t"
    and eff: "pool_worker_effort (tp_running p) w + (case tp_threads p ! i of W_running _ \<Rightarrow> 2 | _ \<Rightarrow> 1) \<le>
      pool_worker_effort (tp_running p) (tp_threads p ! i)"
  shows "worker_moves i p (set_worker i w p)"
proof -
  have "count_list (tp_threads p) (W_running t) =
      count_list ((tp_threads p)[i := w]) (W_running t) + (if tp_threads p ! i = W_running t then 1 else 0)" for t
    using count_list_update [OF i, of w "W_running t"] w(3) [of t] by auto
  then show ?thesis
    using assms set_worker_effort [OF i, of w] set_worker_keeps [of W_crashed w p i] set_worker_keeps [of W_exit w p i]
    by (auto simp: worker_moves_def)
qed

lemma worker_take_moves:
  assumes inv: "tp_inv p" and i: "i < length (tp_threads p)" and w: "tp_threads p ! i \<in> {W_take, W_woken}"
  shows "worker_moves i p (worker_take k i p)"
proof (cases "tp_queue p")
  case Nil
  then show ?thesis
    using w by (auto simp: worker_take_def tp_take_def intro!: set_worker_moves [OF i])
next
  case (Cons t ts)
  define p1 where "p1 = p\<lparr>tp_queue := ts\<rparr>"
  define p2 where "p2 = (if 0 < tp_maxQueueSize p then notifyNotFull k p1 else p1)"
  have f: "tp_begun p2 = tp_begun p" "tp_queue p2 = ts" "tp_accepted p2 = tp_accepted p" "tp_running p2 = tp_running p" "tp_threads p2 = tp_threads p"
    by (simp_all add: p2_def p1_def)
  have posts: "tp_waitingPosts p2 @ tp_wokenPosts p2 = tp_waitingPosts p @ tp_wokenPosts p \<and> length (tp_wokenPosts p2) \<le> Suc (length (tp_wokenPosts p))"
    if "length (tp_waitingPosts p @ tp_wokenPosts p) \<le> 1"
    using notifyNotFull_one [of p1 "tp_waitingPosts p @ tp_wokenPosts p" k] that by (auto simp: p2_def p1_def)
  define p3 where "p3 = p2\<lparr>tp_begun := tp_begun p2 @ [t]\<rparr>"
  have r: "worker_take k i p = set_worker i (W_running t) p3"
    using Cons by (simp add: worker_take_def tp_take_def p3_def p2_def p1_def Let_def)
  have g: "tp_threads p3 = tp_threads p" "tp_begun p3 = tp_begun p @ [t]" "tp_accepted p3 = tp_accepted p" "tp_running p3 = tp_running p"
      "tp_waitingPosts p3 = tp_waitingPosts p2" "tp_wokenPosts p3 = tp_wokenPosts p2" "tp_queue p3 = ts"
    using f by (simp_all add: p3_def)
  have e3: "pool_effort p3 + 5 \<le> pool_effort p + 1" if "length (tp_waitingPosts p @ tp_wokenPosts p) \<le> 1"
    using posts [OF that] g Cons by (simp add: pool_effort_def)
  have e: "pool_effort (set_worker i (W_running t) p3) + 1 \<le> pool_effort p" if "length (tp_waitingPosts p @ tp_wokenPosts p) \<le> 1"
    using e3 [OF that] set_worker_effort [of i p3 "W_running t"] i g w by (auto split: if_splits)
  have "count_list ((tp_threads p)[i := W_running t]) (W_running u) = count_list (tp_threads p) (W_running u) + (if t = u then 1 else 0)" for u
    using count_list_update [OF i, of "W_running t" "W_running u"] w by auto
  then have cnt: "\<forall>u. count_list ((tp_threads p)[i := W_running t]) (W_running u) = count_list (tp_threads p) (W_running u) + (if t = u then 1 else 0)"
    by blast
  show ?thesis
    unfolding r worker_moves_def
    using g posts e w set_worker_keeps [of _ "W_running t" p i] by (auto simp: cnt)
qed

lemma worker_step_moves:
  assumes inv: "tp_inv p" and i: "i < length (tp_threads p)" and w: "tp_threads p ! i \<notin> {W_asleep, W_exit, W_crashed}"
  obtains p' where "worker_step k Returns i p = Inr p'" and "tp_inv p'" and "worker_moves i p p'"
proof -
  have init: "worker_moves i p (set_worker i W_check (run_init p))" if "tp_threads p ! i = W_init"
  proof -
    have "worker_moves i (run_init p) (set_worker i W_check (run_init p))"
      by (rule set_worker_moves) (use i that in \<open>simp_all add: run_init_def\<close>)
    then show ?thesis by (simp add: worker_moves_def run_init_def pool_effort_def split: if_splits)
  qed
  have "\<exists>p'. worker_step k Returns i p = Inr p' \<and> worker_moves i p p'"
  proof (cases "tp_threads p ! i")
    case W_init
    then show ?thesis using i init by (simp add: worker_step_def)
  next
    case W_check
    then have "worker_moves i p (set_worker i (if tp_running p then W_take else W_exit) p)" by (intro set_worker_moves [OF i]) auto
    then show ?thesis using i W_check by (simp add: worker_step_def)
  next
    case (W_running t)
    then have "worker_moves i p (set_worker i W_check p)" by (intro set_worker_moves [OF i]) auto
    then show ?thesis using i W_running by (simp add: worker_step_def)
  qed (use w i worker_take_moves [OF inv i, of k] in \<open>simp_all add: worker_step_def\<close>)
  then show ?thesis using that worker_step_inv [OF inv] by blast
qed

text \<open>What a \<open>post\<close> does: the task is accepted, or the thread waits with it.\<close>

lemma post_loop_result:
  assumes "tp_waitingPosts p = []" and "tp_wokenPosts p = []" and "tp_running p" and "post_loop k t p = Inr p'"
  shows "length (tp_threads p') = length (tp_threads p)" "tp_running p'" "tp_begun p' = tp_begun p" "tp_wokenPosts p' = []"
    "w \<in> {W_exit, W_crashed} \<Longrightarrow> w \<in> set (tp_threads p') \<longleftrightarrow> w \<in> set (tp_threads p)"
    "count_list (tp_threads p') (W_running u) = count_list (tp_threads p) (W_running u)"
    "tp_waitingPosts p' = [t] \<and> tp_accepted p' = tp_accepted p \<and> pool_effort p' \<le> pool_effort p \<or>
     tp_waitingPosts p' = [] \<and> tp_accepted p' = tp_accepted p @ [t] \<and> pool_effort p' \<le> pool_effort p + 6"
proof -
  define p1 where "p1 = p\<lparr>tp_queue := tp_queue p @ [t], tp_accepted := tp_accepted p @ [t]\<rparr>"
  have c: "p' = p\<lparr>tp_waitingPosts := [t]\<rparr> \<or> p' = notifyNotEmpty k p1"
    using assms(1,4) by (auto simp: post_loop_def push_task_def p1_def result_iffs split: if_splits)
  have e: "pool_effort (notifyNotEmpty k p1) \<le> pool_effort p + 6"
    using notifyNotEmpty_wakes(3) [of p1 k] assms(3) by (simp add: p1_def pool_effort_def)
  have f: "tp_threads p1 = tp_threads p" by (simp add: p1_def)
  show "length (tp_threads p') = length (tp_threads p)" "tp_running p'" "tp_begun p' = tp_begun p" "tp_wokenPosts p' = []"
    using c assms(2,3) by (auto simp: p1_def)
  show "w \<in> {W_exit, W_crashed} \<Longrightarrow> w \<in> set (tp_threads p') \<longleftrightarrow> w \<in> set (tp_threads p)"
    using c notifyNotEmpty_wakes(2) [of w k p1] f by auto
  show "count_list (tp_threads p') (W_running u) = count_list (tp_threads p) (W_running u)"
    using c notifyNotEmpty_wakes(1) [of k p1 u] f by auto
  show "tp_waitingPosts p' = [t] \<and> tp_accepted p' = tp_accepted p \<and> pool_effort p' \<le> pool_effort p \<or>
     tp_waitingPosts p' = [] \<and> tp_accepted p' = tp_accepted p @ [t] \<and> pool_effort p' \<le> pool_effort p + 6"
    using c e assms(1) by (auto simp: p1_def pool_effort_def)
qed

subsection \<open>The steps of the test\<close>

lemma pt_post_pays:
  assumes inv: "pt_inv n ts s" and n: "0 < n" and i: "i < length ts" and pc: "pt_main s = Mp_post i \<or> pt_main s = Mp_full i"
    and q: "q = (pt_pool s)\<lparr>tp_wokenPosts := []\<rparr>" "tp_inv (q\<lparr>tp_wokenPosts := u # tp_wokenPosts q\<rparr>)"
    and w: "tp_waitingPosts (pt_pool s) = []" "pt_main s = Mp_full i \<longrightarrow> tp_wokenPosts (pt_pool s) \<noteq> []"
  shows "\<exists>p'. post_loop k (ts ! i) q = Inr p' \<and> pt_pays n ts s (pt_posted i p' s)"
proof -
  have f: "tp_threads q = tp_threads (pt_pool s)" "tp_begun q = tp_begun (pt_pool s)" "tp_accepted q = take i ts" "tp_running q"
      "tp_waitingPosts q = []" "tp_wokenPosts q = []" "tp_threads q \<noteq> []"
    using q(1) w(1) inv n pc by (auto simp: pt_inv_def pt_pool_inv_def)
  obtain p' where p': "post_loop k (ts ! i) q = Inr p'" "tp_inv p'" using post_loop_inv [OF q(2) f(7)] by blast
  note r = post_loop_result [OF f(5,6,4) p'(1)]
  define s' where "s' = pt_posted i p' s"
  have e: "pool_effort q + length (tp_wokenPosts (pt_pool s)) = pool_effort (pt_pool s)" using q(1) by (simp add: pool_effort_def)
  have t: "take (Suc i) ts = take i ts @ [ts ! i]" using i by (simp add: take_Suc_conv_app_nth)
  have g: "length (tp_threads (pt_pool s)) = n" "pt_posts s = ts" "W_crashed \<notin> set (tp_threads p')" "W_exit \<notin> set (tp_threads p')"
    using inv pc f r(5) by (auto simp: pt_inv_def pt_pool_inv_def)
  have h: "length (tp_threads p') = n" "tp_running p'" "tp_wokenPosts p' = []" using r(1,2,4) f(1) g(1) by simp_all
  have "pt_pool_inv n ts s' \<and> pt_effort s' < pt_effort s"
    using r(7)
  proof
    assume c: "tp_waitingPosts p' = [ts ! i] \<and> tp_accepted p' = tp_accepted q \<and> pool_effort p' \<le> pool_effort q"
    then have m: "s' = s\<lparr>pt_pool := p', pt_main := Mp_full i\<rparr>" by (simp add: s'_def pt_posted_def)
    have "pool_effort p' + (if pt_main s = Mp_full i then 1 else 0) \<le> pool_effort (pt_pool s)"
      using c e w(2) by (cases "tp_wokenPosts (pt_pool s)") auto
    then have "pt_effort s' < pt_effort s" using pc g h by (auto simp: m pt_effort_def)
    then show ?thesis using c f(3) g h i p'(2) by (simp add: m pt_pool_inv_def)
  next
    assume c: "tp_waitingPosts p' = [] \<and> tp_accepted p' = tp_accepted q @ [ts ! i] \<and> pool_effort p' \<le> pool_effort q + 6"
    then have m: "s' = s\<lparr>pt_pool := p', pt_main := Mp_post (Suc i)\<rparr>" by (simp add: s'_def pt_posted_def)
    have "pool_effort p' + (if pt_main s = Mp_full i then 1 else 0) \<le> pool_effort (pt_pool s) + 6"
      using c e w(2) by (cases "tp_wokenPosts (pt_pool s)") auto
    then have "pt_effort s' < pt_effort s" using pc g h i by (auto simp: m pt_effort_def)
    then show ?thesis using c f(3) g h i t p'(2) by (simp add: m pt_pool_inv_def)
  qed
  moreover have "pt_ran_inv s'" using inv f r(3,6) by (simp add: pt_inv_def pt_ran_inv_def s'_def pt_posted_def)
  moreover have "pt_latch_inv s'" using inv pc by (auto simp: pt_inv_def pt_latch_inv_def s'_def pt_posted_def)
  ultimately show ?thesis using p' by (auto simp: pt_pays_def pt_inv_def s'_def)
qed

lemma pt_main_post_pays:
  assumes inv: "pt_inv n ts s" and n: "0 < n" and pc: "pt_main s = Mp_post i" and r: "pt_main_step k s = Some r"
  shows "\<exists>s'. r = Inr s' \<and> pt_pays n ts s s'"
proof (cases "i < length ts")
  case True
  have w: "tp_waitingPosts (pt_pool s) = []" "tp_wokenPosts (pt_pool s) = []" "tp_threads (pt_pool s) \<noteq> []" "pt_posts s = ts"
    using inv pc n by (auto simp: pt_inv_def pt_pool_inv_def)
  have q: "pt_pool s = (pt_pool s)\<lparr>tp_wokenPosts := []\<rparr>" using w(2) by simp
  have "tp_inv (pt_pool s)" using inv by (simp add: pt_inv_def pt_pool_inv_def)
  then have "tp_inv ((pt_pool s)\<lparr>tp_wokenPosts := undefined # tp_wokenPosts (pt_pool s)\<rparr>)" by (rule tp_inv_woken_more)
  then obtain p' where "post_loop k (ts ! i) (pt_pool s) = Inr p'" "pt_pays n ts s (pt_posted i p' s)"
    using pt_post_pays [OF inv n True _ q, of undefined k] pc w(1) by auto
  then show ?thesis using r pc w True by (auto simp: pt_main_step_def tp_post_def)
next
  case False
  then have "i = length ts" using inv pc by (simp add: pt_inv_def pt_pool_inv_def)
  then have "pt_pays n ts s (s\<lparr>pt_main := Mp_latch\<rparr>)" using inv pc by (auto simp: pt_pays_def pt_inv_defs pt_effort_def)
  then show ?thesis using r pc False inv by (auto simp: pt_main_step_def pt_inv_def pt_pool_inv_def)
qed

lemma pt_main_full_pays:
  assumes inv: "pt_inv n ts s" and n: "0 < n" and pc: "pt_main s = Mp_full i" and r: "pt_main_step k s = Some r"
  shows "\<exists>s'. r = Inr s' \<and> pt_pays n ts s s'"
proof -
  have i: "i < length ts" using inv pc by (simp add: pt_inv_def pt_pool_inv_def)
  have "tp_wokenPosts (pt_pool s) \<noteq> []" using r pc by (simp add: pt_main_step_def split: if_splits)
  moreover have "tp_waitingPosts (pt_pool s) @ tp_wokenPosts (pt_pool s) = [ts ! i]" using inv pc by (simp add: pt_inv_def pt_pool_inv_def)
  ultimately have w: "tp_waitingPosts (pt_pool s) = []" "tp_wokenPosts (pt_pool s) = [ts ! i]" by (auto simp: append_eq_Cons_conv)
  define q where "q = (pt_pool s)\<lparr>tp_wokenPosts := []\<rparr>"
  have "q\<lparr>tp_wokenPosts := (ts ! i) # tp_wokenPosts q\<rparr> = pt_pool s" using w(2) by (simp add: q_def)
  then have "tp_inv (q\<lparr>tp_wokenPosts := (ts ! i) # tp_wokenPosts q\<rparr>)" using inv by (simp add: pt_inv_def pt_pool_inv_def)
  then obtain p' where "post_loop k (ts ! i) q = Inr p'" "pt_pays n ts s (pt_posted i p' s)"
    using pt_post_pays [OF inv n i _ q_def, of "ts ! i" k] pc w by auto
  then show ?thesis using r pc w by (auto simp: pt_main_step_def tp_resumePost_def q_def)
qed

lemma pt_main_latch_pays:
  assumes inv: "pt_inv n ts s" and pc: "pt_main s = Mp_latch" and r: "pt_main_step k s = Some r"
  shows "\<exists>s'. r = Inr s' \<and> pt_pays n ts s s'"
proof -
  have a: "0 \<notin> la_asleep (pt_latch s)" using r pc by (simp add: pt_main_step_def split: if_splits)
  define s' where "s' = s\<lparr>pt_latch := latch_wait 0 (pt_latch s),
    pt_main := (if 0 \<in> la_returned (latch_wait 0 (pt_latch s)) then Mp_stop else Mp_latch)\<rparr>"
  have "pt_pool_inv n ts s'" "pt_ran_inv s'" using inv pc by (auto simp: s'_def pt_inv_defs)
  moreover have "pt_latch_inv s'" using inv pc a by (auto simp: s'_def pt_inv_def pt_latch_inv_def latch_wait_def la_inv_def)
  moreover have "pt_effort s' < pt_effort s"
    using inv pc a by (auto simp: s'_def pt_effort_def latch_wait_def pt_inv_def pt_latch_inv_def)
  ultimately show ?thesis using r pc a by (auto simp: pt_main_step_def pt_pays_def pt_inv_def s'_def Let_def)
qed

text \<open>The stop wakes the sleeping workers.\<close>

lemma tp_stop_effort: "pool_effort (tp_stop p) \<le> pool_effort p + 3 * length (tp_threads p)"
proof -
  define wake where "wake w = (if w = W_asleep then W_woken else w)" for w :: "'a worker"
  have one: "pool_worker_effort False (wake w) \<le> pool_worker_effort r w + 3" for w :: "'a worker" and r
    by (cases w) (simp_all add: wake_def)
  have "sum_list (map (pool_worker_effort False \<circ> wake) ws) \<le> sum_list (map (pool_worker_effort r) ws) + 3 * length ws" for r and ws :: "'a worker list"
  proof (induction ws)
    case (Cons w ws)
    then show ?case using one [of w r] by simp
  qed simp
  then show ?thesis by (simp add: pool_effort_def tp_stop_def wake_def comp_def)
qed

lemma count_woken: "w \<noteq> W_asleep \<Longrightarrow> w \<noteq> W_woken \<Longrightarrow> count_list (map (\<lambda>w. if w = W_asleep then W_woken else w) ws) w = count_list ws w"
  by (induction ws) auto

lemma tp_stop_counts: "w \<noteq> W_asleep \<Longrightarrow> w \<noteq> W_woken \<Longrightarrow> count_list (tp_threads (tp_stop p)) w = count_list (tp_threads p) w"
  by (simp add: tp_stop_def count_woken)

lemma pt_main_stop_pays:
  assumes inv: "pt_inv n ts s" and pc: "pt_main s = Mp_stop" and r: "pt_main_step k s = Some r"
  shows "\<exists>s'. r = Inr s' \<and> pt_pays n ts s s'"
proof -
  define s' where "s' = s\<lparr>pt_pool := tp_stop (pt_pool s), pt_main := Mp_join\<rparr>"
  have f: "tp_accepted (tp_stop p) = tp_accepted p" "tp_begun (tp_stop p) = tp_begun p" "tp_waitingPosts (tp_stop p) = tp_waitingPosts p"
      "tp_wokenPosts (tp_stop p) = tp_wokenPosts p" "length (tp_threads (tp_stop p)) = length (tp_threads p)" "\<not> tp_running (tp_stop p)" for p :: "pool_task tpool"
    by (simp_all add: tp_stop_def)
  have "W_crashed \<notin> set (tp_threads (tp_stop (pt_pool s)))"
    using inv by (auto simp: pt_inv_def pt_pool_inv_def tp_stop_def)
  then have "pt_pool_inv n ts s'" using inv pc f by (simp add: pt_inv_def pt_pool_inv_def s'_def tp_stop_inv)
  moreover have "pt_ran_inv s'" "pt_latch_inv s'"
    using inv pc f by (simp_all add: pt_inv_def pt_ran_inv_def pt_latch_inv_def s'_def tp_stop_counts)
  moreover have "pt_effort s' < pt_effort s" using pc f tp_stop_effort [of "pt_pool s"] by (simp add: pt_effort_def s'_def)
  ultimately show ?thesis using r pc by (auto simp: pt_main_step_def pt_pays_def pt_inv_def s'_def)
qed

lemma pt_main_join_pays:
  assumes inv: "pt_inv n ts s" and pc: "pt_main s = Mp_join" and r: "pt_main_step k s = Some r"
  shows "\<exists>s'. r = Inr s' \<and> pt_pays n ts s s'"
proof -
  have j: "tp_joined (pt_pool s)" using r pc by (simp add: pt_main_step_def split: if_splits)
  have "\<not> tp_running (pt_pool s)" using inv pc by (simp add: pt_inv_def pt_pool_inv_def)
  then have d: "ThreadPool_destroy (pt_pool s) = pt_pool s" by (simp add: ThreadPool_destroy_def)
  have "pt_pays n ts s (s\<lparr>pt_main := Mp_done\<rparr>)"
    using inv pc j by (simp add: pt_pays_def pt_inv_def pt_pool_inv_def pt_ran_inv_def pt_latch_inv_def pt_effort_def)
  then show ?thesis using r pc j d by (auto simp: pt_main_step_def)
qed

lemma pt_main_pays:
  assumes "pt_inv n ts s" and "0 < n" and "pt_main_step k s = Some r"
  shows "\<exists>s'. r = Inr s' \<and> pt_pays n ts s s'"
proof (cases "pt_main s")
  case Mp_done
  then show ?thesis using assms(3) by (simp add: pt_main_step_def)
qed (use assms(3) pt_main_post_pays [OF assms(1,2)] pt_main_full_pays [OF assms(1,2)] pt_main_latch_pays [OF assms(1)]
    pt_main_stop_pays [OF assms(1)] pt_main_join_pays [OF assms(1)] in simp_all)

lemma run_task_frame [simp]:
  "pt_posts (run_task i s) = pt_posts s" "pt_main (run_task i s) = pt_main s" "pt_pool (run_task i s) = pt_pool s"
  by (simp_all add: run_task_def split: worker.split)

lemma run_task_ran:
  "count_list (map snd (pt_ran (run_task i s))) t =
     count_list (map snd (pt_ran s)) t + (if tp_threads (pt_pool s) ! i = W_running t then 1 else 0)"
  by (simp add: run_task_def split: worker.split)

text \<open>The task that counts down may wake the main thread.\<close>

lemma run_task_latch:
  assumes "pt_latch_inv s"
  shows "pt_latch_inv (run_task i s)"
    and "(if pt_main s = Mp_latch \<and> 0 \<notin> la_asleep (pt_latch (run_task i s)) then 1 else 0) + 1 \<le>
      (if pt_main s = Mp_latch \<and> 0 \<notin> la_asleep (pt_latch s) then 1 else (0 :: nat)) +
      (case tp_threads (pt_pool s) ! i of W_running _ \<Rightarrow> 2 | _ \<Rightarrow> 1)"
proof -
  have "la_inv (countDown (pt_latch s))" using assms latch_exec_inv [of "pt_latch s" Count_down] by (simp add: pt_latch_inv_def)
  moreover have "la_asleep (countDown (pt_latch s)) \<subseteq> la_asleep (pt_latch s)" "la_returned (countDown (pt_latch s)) = la_returned (pt_latch s)"
      "la_count (countDown (pt_latch s)) = la_count (pt_latch s) - 1"
    by (simp_all add: countDown_def la_notifyAll_def Let_def)
  ultimately show "pt_latch_inv (run_task i s)"
    using assms by (auto simp: pt_latch_inv_def run_task_def split: worker.split)
  show "(if pt_main s = Mp_latch \<and> 0 \<notin> la_asleep (pt_latch (run_task i s)) then 1 else 0) + 1 \<le>
      (if pt_main s = Mp_latch \<and> 0 \<notin> la_asleep (pt_latch s) then 1 else (0 :: nat)) +
      (case tp_threads (pt_pool s) ! i of W_running _ \<Rightarrow> 2 | _ \<Rightarrow> 1)"
    by (simp add: run_task_def split: worker.split)
qed

lemma pt_worker_pays:
  assumes inv: "pt_inv n ts s" and r: "pt_worker_step k i s = Some r"
  shows "\<exists>s'. r = Inr s' \<and> pt_pays n ts s s'"
proof -
  have i: "i < length (tp_threads (pt_pool s))" and w: "tp_threads (pt_pool s) ! i \<notin> {W_asleep, W_exit, W_crashed}"
    using r by (auto simp: pt_worker_step_def split: if_splits)
  have "tp_inv (pt_pool s)" using inv by (simp add: pt_inv_def pt_pool_inv_def)
  then obtain p' where p': "worker_step k Returns i (pt_pool s) = Inr p'" "tp_inv p'" "worker_moves i (pt_pool s) p'"
    by (rule worker_step_moves [OF _ i w])
  define s' where "s' = (run_task i s)\<lparr>pt_pool := p'\<rparr>"
  have one: "length (tp_waitingPosts (pt_pool s) @ tp_wokenPosts (pt_pool s)) \<le> 1"
    using inv by (cases "pt_main s") (simp_all add: pt_inv_def pt_pool_inv_def flip: length_append)
  have nd: "pt_main s \<noteq> Mp_done"
    using inv i w by (auto simp: pt_inv_def pt_pool_inv_def tp_joined_def list_all_length)
  have "pt_pool_inv n ts s'"
    using inv one nd p'(2,3) by (simp add: pt_inv_def pt_pool_inv_def s'_def worker_moves_def)
  moreover have "pt_ran_inv s'"
    unfolding pt_ran_inv_def
  proof
    fix t
    have "count_list (tp_begun (pt_pool s)) t = count_list (map snd (pt_ran s)) t + count_list (tp_threads (pt_pool s)) (W_running t)"
      using inv by (simp add: pt_inv_def pt_ran_inv_def)
    moreover have "count_list (tp_begun p') t + count_list (tp_threads (pt_pool s)) (W_running t) =
        count_list (tp_begun (pt_pool s)) t + count_list (tp_threads p') (W_running t) + (if tp_threads (pt_pool s) ! i = W_running t then 1 else 0)"
      using p'(3) unfolding worker_moves_def by blast
    moreover have "count_list (map snd (pt_ran s')) t = count_list (map snd (pt_ran s)) t + (if tp_threads (pt_pool s) ! i = W_running t then 1 else 0)"
      using run_task_ran [of i s t] by (simp add: s'_def)
    ultimately show "count_list (tp_begun (pt_pool s')) t = count_list (map snd (pt_ran s')) t + count_list (tp_threads (pt_pool s')) (W_running t)"
      by (simp add: s'_def)
  qed
  moreover have "pt_latch_inv s'"
    using inv run_task_latch(1) [of s i] by (simp add: pt_inv_def pt_latch_inv_def s'_def)
  moreover have "pt_effort s' < pt_effort s"
  proof -
    have "pt_latch_inv s" using inv by (simp add: pt_inv_def)
    from run_task_latch(2) [OF this, of i] show ?thesis
      using p'(3) one by (simp add: pt_effort_def s'_def worker_moves_def)
  qed
  ultimately show ?thesis using r p'(1) i w by (auto simp: pt_worker_step_def pt_pays_def pt_inv_def s'_def)
qed

lemma pt_work_pays: "pt_inv n ts s \<Longrightarrow> 0 < n \<Longrightarrow> pt_work s s' \<Longrightarrow> pt_pays n ts s s'"
  by (erule pt_workE) (use pt_main_pays pt_worker_pays in \<open>force+\<close>)

lemma joined_notify: "tp_joined p \<Longrightarrow> notifyNotEmpty k p = p"
  by (auto simp: notifyNotEmpty_def asleep_workers_iff tp_joined_def list_all_iff)

lemma pt_step_inv:
  assumes "pt_step s s'" and "pt_inv n ts s" and "0 < n"
  shows "pt_inv n ts s'"
  using assms
proof (induction rule: pt_step.induct)
  case (pt_works s s')
  then show ?case using pt_work_pays by (simp add: pt_pays_def)
next
  case (pt_spurious_worker s k)
  then show ?case
    using notifyNotEmpty_wakes(2) [of _ k "pt_pool s"] notifyNotEmpty_wakes(1) [of k "pt_pool s"] joined_notify [of "pt_pool s" k]
    by (auto simp: pt_inv_defs notify_inv(1))
next
  case (pt_spurious_post s k)
  have "length (waits_with ts (pt_main s)) \<le> 1" by (cases "pt_main s") simp_all
  then show ?case
    using pt_spurious_post notifyNotFull_one(1) [of "pt_pool s" "waits_with ts (pt_main s)" k] by (simp add: pt_inv_defs tp_joined_def notify_inv(2))
next
  case (pt_spurious_latch s)
  then show ?case using latch_exec_inv [of "pt_latch s" "Spurious 0"] by (auto simp: pt_inv_defs split: if_splits)
qed

subsection \<open>Nobody waits for ever\<close>

lemma pt_worker_goes_on:
  assumes inv: "pt_inv n ts s" and "w \<in> set (tp_threads (pt_pool s))" and "w \<notin> {W_asleep, W_exit, W_crashed}"
  shows "\<exists>s'. pt_work s s'"
proof -
  obtain i where i: "i < length (tp_threads (pt_pool s))" "tp_threads (pt_pool s) ! i \<notin> {W_asleep, W_exit, W_crashed}"
    using assms(2,3) by (metis in_set_conv_nth)
  then obtain r where r: "pt_worker_step 0 i s = Some r" by (auto simp: pt_worker_step_def)
  then obtain s' where "r = Inr s'" using pt_worker_pays [OF inv r] by blast
  then show ?thesis using pt_worker_works r by blast
qed

text \<open>In a running pool that has a task queued, some worker is not asleep.\<close>

lemma pt_queued_goes_on:
  assumes inv: "pt_inv n ts s" and n: "0 < n" and run: "tp_running (pt_pool s)"
    and q: "tp_queue (pt_pool s) \<noteq> []"
  shows "\<exists>s'. pt_work s s'"
proof (cases "W_asleep \<in> set (tp_threads (pt_pool s))")
  case True
  then have "0 < woken_workers (pt_pool s)" using inv q by (auto simp: pt_inv_def pt_pool_inv_def tp_inv_def simp flip: length_greater_0_conv)
  then have "W_woken \<in> set (tp_threads (pt_pool s))" unfolding woken_workers_def by (metis count_list_0_iff less_irrefl)
  then show ?thesis using pt_worker_goes_on [OF inv, of W_woken] by simp
next
  case False
  obtain w where w: "w \<in> set (tp_threads (pt_pool s))" using inv n by (cases "tp_threads (pt_pool s)") (auto simp: pt_inv_def pt_pool_inv_def)
  then have "w \<notin> {W_asleep, W_exit, W_crashed}" using False inv run by (auto simp: pt_inv_def pt_pool_inv_def)
  then show ?thesis using pt_worker_goes_on [OF inv w] by blast
qed

text \<open>Before the latch opens, the task that opens it is queued or runs.\<close>

lemma pt_latch_goes_on:
  assumes inv: "pt_inv n ts s" and n: "0 < n" and pc: "pt_main s = Mp_latch" and "0 < la_count (pt_latch s)" and "CountDown_task \<in> set ts"
  shows "\<exists>s'. pt_work s s'"
proof (cases "tp_queue (pt_pool s)")
  case Nil
  then have "tp_begun (pt_pool s) = ts" using inv pc by (simp add: pt_inv_def pt_pool_inv_def tp_inv_def)
  then have "0 < count_list (tp_begun (pt_pool s)) CountDown_task" using assms(5) by (simp add: count_list_pos)
  moreover have "count_list (map snd (pt_ran s)) CountDown_task = 0" using inv assms(4) by (simp add: pt_inv_def pt_latch_inv_def)
  ultimately have "0 < count_list (tp_threads (pt_pool s)) (W_running CountDown_task)" using inv by (simp add: pt_inv_def pt_ran_inv_def)
  then have "W_running CountDown_task \<in> set (tp_threads (pt_pool s))" by (metis count_list_0_iff less_irrefl)
  then show ?thesis using pt_worker_goes_on [OF inv, of "W_running CountDown_task"] by simp
next
  case (Cons t q)
  then show ?thesis using pt_queued_goes_on [OF inv n] inv pc by (simp add: pt_inv_def pt_pool_inv_def)
qed

lemma pt_goes_on:
  assumes inv: "pt_inv n ts s" and n: "0 < n" and "CountDown_task \<in> set ts" and "pt_main s \<noteq> Mp_done"
  shows "\<exists>s'. pt_work s s'"
proof (cases "pt_main_step 0 s")
  case (Some r)
  then obtain s' where "r = Inr s'" using pt_main_pays [OF inv n] by blast
  then show ?thesis using Some pt_main_works by blast
next
  case None
  then consider (full) i where "pt_main s = Mp_full i" "tp_wokenPosts (pt_pool s) = []"
    | (latch) "pt_main s = Mp_latch" "0 \<in> la_asleep (pt_latch s)" | (join) "pt_main s = Mp_join" "\<not> tp_joined (pt_pool s)"
    using assms(4) by (auto simp: pt_main_step_def Let_def split: pt_point.splits if_splits)
  then show ?thesis
  proof cases
    case full
    then have "tp_waitingPosts (pt_pool s) \<noteq> []" "tp_running (pt_pool s)" using inv by (auto simp: pt_inv_def pt_pool_inv_def)
    then have "tp_queue (pt_pool s) \<noteq> []" using inv full(2) by (auto simp: pt_inv_def pt_pool_inv_def tp_inv_def)
    then show ?thesis using pt_queued_goes_on [OF inv n] \<open>tp_running (pt_pool s)\<close> by blast
  next
    case latch
    then have "0 < la_count (pt_latch s)" using inv by (auto simp: pt_inv_def pt_latch_inv_def la_inv_def)
    then show ?thesis using pt_latch_goes_on [OF inv n latch(1)] assms(3) by blast
  next
    case join
    then obtain w where w: "w \<in> set (tp_threads (pt_pool s))" "w \<noteq> W_exit" "w \<noteq> W_crashed" by (auto simp: tp_joined_def list_all_iff)
    moreover have "w \<noteq> W_asleep" using inv join w(1) by (auto simp: pt_inv_def pt_pool_inv_def tp_inv_def)
    ultimately show ?thesis using pt_worker_goes_on [OF inv w(1)] by blast
  qed
qed

text \<open>The test is a program that ends.\<close>

interpretation pool_program: progress "\<lambda>s. 0 < n \<and> CountDown_task \<in> set ts \<and> pt_inv n ts s" pt_work "\<lambda>s. pt_main s = Mp_done" pt_effort
  using pt_work_pays pt_goes_on by unfold_locales (auto simp: pt_pays_def)

lemma pool_test_start_inv:
  assumes "0 < n" and "pool_test_start n prints maxSize = Inr s"
  shows "pt_inv n (pt_tasks prints) s"
proof -
  obtain p where p: "tp_start n (setMaxQueueSize maxSize (ThreadPool_new ''MainThreadPool'' 0)) = Inr p"
    and s: "s = \<lparr>pt_posts = pt_tasks prints, pt_main = Mp_post 0, pt_pool = p, pt_latch = CountDownLatch_new 1, pt_ran = []\<rparr>"
    using assms(2) by (auto simp: pool_test_start_def Let_def rbind_eq_Inr_iff)
  have "tp_inv p" "tp_threads p = replicate n W_init" "tp_running p" "tp_accepted p = []" "tp_begun p = []" "tp_waitingPosts p = []" "tp_wokenPosts p = []"
    using p assms(1) by (auto simp: tp_start_def setMaxQueueSize_def ThreadPool_new_def tp_inv_def Let_def)
  then show ?thesis
    by (auto simp: s pt_inv_defs CountDownLatch_new_def la_inv_def count_list_0_iff)
qed

lemma pt_reach_inv: "pt_step\<^sup>*\<^sup>* s s' \<Longrightarrow> 0 < n \<Longrightarrow> pt_inv n ts s \<Longrightarrow> pt_inv n ts s'"
  by (induction rule: rtranclp_induct) (auto intro: pt_step_inv)

lemma pt_work_steps: "pt_work\<^sup>*\<^sup>* s t \<Longrightarrow> pt_step\<^sup>*\<^sup>* s t"
  by (erule rtranclp_mono [THEN predicate2D, rotated]) (blast intro: pt_works)

subsection \<open>Properties\<close>

text \<open>When the latch has let the main thread through, every task has begun.\<close>

lemma pt_all_begun:
  assumes inv: "pt_inv n (pt_tasks prints) s" and pc: "pt_main s \<in> {Mp_stop, Mp_join, Mp_done}"
  shows "tp_begun (pt_pool s) = pt_tasks prints \<and> tp_queue (pt_pool s) = []"
proof -
  have all: "tp_begun (pt_pool s) @ tp_queue (pt_pool s) = pt_tasks prints"
    using inv pc by (auto simp: pt_inv_def pt_pool_inv_def tp_inv_def)
  have "la_count (pt_latch s) \<le> 0" using inv pc by (auto simp: pt_inv_def pt_latch_inv_def la_inv_def)
  then have "1 \<le> count_list (tp_begun (pt_pool s)) CountDown_task" using inv by (simp add: pt_inv_def pt_latch_inv_def pt_ran_inv_def)
  moreover have "count_list (tp_begun (pt_pool s) @ tp_queue (pt_pool s)) CountDown_task = 1"
    unfolding all by (simp add: pt_tasks_def count_list_0_iff)
  ultimately have "count_list (tp_queue (pt_pool s)) CountDown_task = 0" by simp
  then have "CountDown_task \<notin> set (tp_queue (pt_pool s))" by (simp add: count_list_0_iff)
  moreover have "last (tp_begun (pt_pool s) @ tp_queue (pt_pool s)) = CountDown_task" unfolding all by (simp add: pt_tasks_def)
  ultimately have "tp_queue (pt_pool s) = []" by (metis last_appendR last_in_set)
  then show ?thesis using all by simp
qed

lemma pt_all_ran:
  assumes inv: "pt_inv n (pt_tasks prints) s" and pc: "pt_main s = Mp_done"
  shows "count_list (map snd (pt_ran s)) t = count_list (pt_tasks prints) t"
proof -
  have "W_running t \<notin> set (tp_threads (pt_pool s))" using inv pc by (auto simp: pt_inv_def pt_pool_inv_def tp_joined_def list_all_iff)
  then have "count_list (tp_threads (pt_pool s)) (W_running t) = 0" by (simp add: count_list_0_iff)
  then show ?thesis using inv pt_all_begun [OF inv] pc by (simp add: pt_inv_def pt_ran_inv_def)
qed

text \<open>
  C21: The pool test completes. For any positive number of workers, any number of printing tasks and any bound of the queue (one smaller than the number of
  tasks included, where \<open>post\<close> waits), in every interleaving of the main thread, the workers, the wake-ups and the spurious wake-ups: no
  assertion fails; when \<open>latch.wait\<close> has returned every task has been begun and none is queued, so that the stop drops nothing; the threads can always
  go on to the end of \<open>test\<close>, and can do only a bounded number of steps in all; and at the end every worker has ended and every task has
  returned, each once.
\<close>

theorem pool_test_completes:
  assumes "0 < n" and "pool_test_start n prints maxSize = Inr s0" and "pt_step\<^sup>*\<^sup>* s0 s"
  shows "(\<forall>k i e. pt_main_step k s \<noteq> Some (Inl e) \<and> pt_worker_step k i s \<noteq> Some (Inl e)) \<and>
    (pt_main s \<in> {Mp_stop, Mp_join, Mp_done} \<longrightarrow> tp_begun (pt_pool s) = pt_tasks prints \<and> tp_queue (pt_pool s) = []) \<and>
    (\<exists>t. pt_work\<^sup>*\<^sup>* s t \<and> pt_main t = Mp_done) \<and> (\<forall>k t. (pt_work ^^ k) s t \<longrightarrow> k \<le> pt_effort s) \<and>
    (pt_main s = Mp_done \<longrightarrow> tp_joined (pt_pool s) \<and> (\<forall>t. count_list (map snd (pt_ran s)) t = count_list (pt_tasks prints) t))"
proof (intro conjI allI impI)
  have inv: "pt_inv n (pt_tasks prints) s" using pt_reach_inv [OF assms(3,1)] pool_test_start_inv [OF assms(1,2)] by blast
  then have good: "0 < n \<and> CountDown_task \<in> set (pt_tasks prints) \<and> pt_inv n (pt_tasks prints) s" using assms(1) by (simp add: pt_tasks_def)
  show "pt_main_step k s \<noteq> Some (Inl e)" for k e using pt_main_pays [OF inv assms(1)] by blast
  show "pt_worker_step k i s \<noteq> Some (Inl e)" for k i e using pt_worker_pays [OF inv] by blast
  show "tp_begun (pt_pool s) = pt_tasks prints" "tp_queue (pt_pool s) = []" if "pt_main s \<in> {Mp_stop, Mp_join, Mp_done}"
    using pt_all_begun [OF inv that] by simp_all
  show "\<exists>t. pt_work\<^sup>*\<^sup>* s t \<and> pt_main t = Mp_done" by (rule pool_program.can_finish [OF good])
  show "k \<le> pt_effort s" if "(pt_work ^^ k) s t" for k t using pool_program.work_bounded [OF good that] by simp
  assume pc: "pt_main s = Mp_done"
  then show "tp_joined (pt_pool s)" using inv by (simp add: pt_inv_def pt_pool_inv_def)
  show "count_list (map snd (pt_ran s)) t = count_list (pt_tasks prints) t" for t by (rule pt_all_ran [OF inv pc])
qed

text \<open>The numbers of \<open>main\<close>: three workers, four printing tasks and a bound of five.\<close>

lemma pool_test_completes_witness:
  "\<exists>s0 t. pool_test_start 3 4 5 = Inr s0 \<and> pt_work\<^sup>*\<^sup>* s0 t \<and> pt_main t = Mp_done \<and> count_list (map snd (pt_ran t)) Print_task = 4"
proof -
  have three: "0 < (3 :: nat)" by simp
  obtain s0 where s0: "pool_test_start 3 4 5 = Inr s0"
    by (simp add: pool_test_start_def tp_start_def setMaxQueueSize_def ThreadPool_new_def Let_def)
  obtain t where t: "pt_work\<^sup>*\<^sup>* s0 t" "pt_main t = Mp_done"
    using pool_test_completes [OF three s0 rtranclp.rtrancl_refl] by blast
  then have "\<forall>u. count_list (map snd (pt_ran t)) u = count_list (pt_tasks 4) u"
    using pool_test_completes [OF three s0 pt_work_steps [OF t(1)]] by blast
  then show ?thesis using s0 t by (auto simp: pt_tasks_def)
qed

end
