(* ===== verification/RN_TestMutex.thy ===== *)
theory RN_TestMutex
  imports RN_Sync RN_Progress
begin

text \<open>
  RN/base/tests/MutexTest.cpp: threads that push to one vector under one mutex. \<open>push_back\<close> is not atomic: it is a step that reads the vector and a
  step that writes it back with the element added, so that without the mutex a push could be lost. The operations of the mutex are those of RN_Sync; the
  ids the kernel gives to the threads are an argument. A round is the body of the loop of \<open>main\<close> from the clearing of the vector to the joins.
\<close>

subsection \<open>The check of \<open>MCHECK\<close>\<close>

text \<open>\<open>foo\<close> over the mutex and \<open>g_count\<close>; None: blocked.\<close>

definition foo :: "int \<Rightarrow> mutex \<times> int \<Rightarrow> (int \<times> (mutex \<times> int)) option" where
  "foo tid g =
     (let (m, g_count) = g in
      map_option (\<lambda>m.
          if \<not> isLockedByThisThread tid m then (- 1, (MutexLock_unlock m, g_count))
          else (0, (MutexLock_unlock m, g_count + 1)))
        (MutexLock_lock tid m))"

text \<open>\<open>main\<close> up to the loops: \<open>MCHECK\<close> evaluates its argument and asserts that the result is zero.\<close>

definition mcheck_foo :: "int \<Rightarrow> mutex result option" where
  "mcheck_foo tid =
     map_option (\<lambda>(errnum, (m, g_count)). rassert (errnum = 0) (if g_count \<noteq> 1 then Inl Aborted else Inr m)) (foo tid (MutexLock_new, 0))"

lemma mcheck_foo_passes: "mcheck_foo tid = Some (Inr MutexLock_new)"
  by (simp add: mcheck_foo_def foo_def MutexLock_lock_def MutexLock_unlock_def pthread_lock_def pthread_unlock_def MutexLock_new_def assignHolder_def
      unAssignHolder_def isLockedByThisThread_def)

subsection \<open>A round\<close>

datatype mt_point = Mt_test nat | Mt_lock nat | Mt_load nat | Mt_store nat "int list" | Mt_unlock nat | Mt_end

record mx_test =
  mt_mutex :: mutex
  mt_vec :: "int list"
  mt_threads :: "mt_point list"

definition mt_round :: "nat \<Rightarrow> mx_test" where
  "mt_round nthreads = \<lparr>mt_mutex = MutexLock_new, mt_vec = [], mt_threads = replicate nthreads (Mt_test 0)\<rparr>"

text \<open>\<open>threadFunc\<close> by thread \<open>i\<close>, one step.\<close>

definition mt_at :: "nat \<Rightarrow> mt_point \<Rightarrow> mx_test \<Rightarrow> mx_test" where
  "mt_at i p s = s\<lparr>mt_threads := (mt_threads s)[i := p]\<rparr>"

definition mt_thread_step :: "nat \<Rightarrow> int \<Rightarrow> nat \<Rightarrow> mx_test \<Rightarrow> mx_test option" where
  "mt_thread_step kCount tid i s =
     (if length (mt_threads s) \<le> i then None
      else case mt_threads s ! i of
        Mt_test j \<Rightarrow> Some (mt_at i (if j < kCount then Mt_lock j else Mt_end) s)
      | Mt_lock j \<Rightarrow> map_option (\<lambda>m. mt_at i (Mt_load j) (s\<lparr>mt_mutex := m\<rparr>)) (MutexLock_lock tid (mt_mutex s))
      | Mt_load j \<Rightarrow> Some (mt_at i (Mt_store j (mt_vec s)) s)
      | Mt_store j v \<Rightarrow> Some (mt_at i (Mt_unlock j) (s\<lparr>mt_vec := v @ [1]\<rparr>))
      | Mt_unlock j \<Rightarrow> Some (mt_at i (Mt_test (Suc j)) (s\<lparr>mt_mutex := MutexLock_unlock (mt_mutex s)\<rparr>))
      | Mt_end \<Rightarrow> None)"

inductive mt_step :: "nat \<Rightarrow> (nat \<Rightarrow> int) \<Rightarrow> mx_test \<Rightarrow> mx_test \<Rightarrow> bool" for kCount gettid where
  mt_thread: "mt_thread_step kCount (gettid i) i s = Some s' \<Longrightarrow> mt_step kCount gettid s s'"

inductive_cases mt_stepE: "mt_step kCount gettid s s'"

text \<open>The joins of \<open>main\<close> return.\<close>

definition mt_all_ended :: "mx_test \<Rightarrow> bool" where
  "mt_all_ended s \<longleftrightarrow> list_all (\<lambda>p. p = Mt_end) (mt_threads s)"

subsection \<open>Invariant\<close>

definition in_section :: "mt_point \<Rightarrow> bool" where
  "in_section p \<longleftrightarrow> (case p of Mt_load _ \<Rightarrow> True | Mt_store _ _ \<Rightarrow> True | Mt_unlock _ \<Rightarrow> True | _ \<Rightarrow> False)"

text \<open>What the mutex sees of the threads.\<close>

definition mt_phase :: "(nat \<Rightarrow> int) \<Rightarrow> mx_test \<Rightarrow> int \<Rightarrow> mx_phase" where
  "mt_phase gettid s t = (if \<exists>i < length (mt_threads s). gettid i = t \<and> in_section (mt_threads s ! i) then Inside else Outside)"

text \<open>The pushes a thread has done.\<close>

fun pushes :: "nat \<Rightarrow> mt_point \<Rightarrow> nat" where
  "pushes k (Mt_test i) = i"
| "pushes k (Mt_lock i) = i"
| "pushes k (Mt_load i) = i"
| "pushes k (Mt_store i v) = i"
| "pushes k (Mt_unlock i) = Suc i"
| "pushes k Mt_end = k"

fun mt_point_ok :: "nat \<Rightarrow> mt_point \<Rightarrow> bool" where
  "mt_point_ok k (Mt_test i) \<longleftrightarrow> i \<le> k"
| "mt_point_ok k (Mt_lock i) \<longleftrightarrow> i < k"
| "mt_point_ok k (Mt_load i) \<longleftrightarrow> i < k"
| "mt_point_ok k (Mt_store i v) \<longleftrightarrow> i < k"
| "mt_point_ok k (Mt_unlock i) \<longleftrightarrow> i < k"
| "mt_point_ok k Mt_end \<longleftrightarrow> True"

fun mt_point_effort :: "nat \<Rightarrow> mt_point \<Rightarrow> nat" where
  "mt_point_effort k (Mt_test i) = 5 * (k - i) + 1"
| "mt_point_effort k (Mt_lock i) = 5 * (k - i)"
| "mt_point_effort k (Mt_load i) = 5 * (k - i) - 1"
| "mt_point_effort k (Mt_store i v) = 5 * (k - i) - 2"
| "mt_point_effort k (Mt_unlock i) = 5 * (k - i) - 3"
| "mt_point_effort k Mt_end = 0"

definition mt_effort :: "nat \<Rightarrow> mx_test \<Rightarrow> nat" where
  "mt_effort k s = sum_list (map (mt_point_effort k) (mt_threads s))"

text \<open>
  The mutex is in a state that threads using it through the guard can reach; it is locked only for a thread inside; the vector read by a thread about to write
  is still the present one; and the size is the number of the pushes done.
\<close>

definition mt_inv :: "nat \<Rightarrow> nat \<Rightarrow> (nat \<Rightarrow> int) \<Rightarrow> mx_test \<Rightarrow> bool" where
  "mt_inv n k gettid s \<longleftrightarrow>
     length (mt_threads s) = n \<and> mx_reachable (mt_mutex s, mt_phase gettid s) \<and>
     (mx_locked (mt_mutex s) \<longrightarrow> (\<exists>i < n. in_section (mt_threads s ! i))) \<and>
     (\<forall>i < n. mt_point_ok k (mt_threads s ! i) \<and> (\<forall>j v. mt_threads s ! i = Mt_store j v \<longrightarrow> v = mt_vec s)) \<and>
     mt_vec s = replicate (sum_list (map (pushes k) (mt_threads s))) 1"

definition ids_ok :: "(nat \<Rightarrow> int) \<Rightarrow> bool" where
  "ids_ok gettid \<longleftrightarrow> inj gettid \<and> (\<forall>i. 0 < gettid i)"

lemma mt_at_simps [simp]:
  "mt_threads (mt_at i p s) = (mt_threads s)[i := p]" "mt_mutex (mt_at i p s) = mt_mutex s" "mt_vec (mt_at i p s) = mt_vec s"
  by (simp_all add: mt_at_def)

lemma mt_phase_at:
  assumes "ids_ok gettid" and "i < length (mt_threads s)" and "mt_threads s' = (mt_threads s)[i := p]"
  shows "mt_phase gettid s' = (mt_phase gettid s)(gettid i := (if in_section p then Inside else Outside))"
proof
  fix t
  have "gettid j = gettid i \<longleftrightarrow> j = i" for j using assms(1) by (auto simp: ids_ok_def inj_def)
  then show "mt_phase gettid s' t = ((mt_phase gettid s)(gettid i := (if in_section p then Inside else Outside))) t"
    using assms(2,3) by (auto simp: mt_phase_def nth_list_update)
qed

lemma mt_phase_own:
  assumes "ids_ok gettid" and "i < length (mt_threads s)"
  shows "mt_phase gettid s (gettid i) = (if in_section (mt_threads s ! i) then Inside else Outside)"
  using assms by (auto simp: mt_phase_def ids_ok_def inj_def)

text \<open>Two threads are never inside together.\<close>

lemma mt_exclusion:
  assumes inv: "mt_inv n k gettid s" and ids: "ids_ok gettid" and "i < n" "j < n" "in_section (mt_threads s ! i)" "in_section (mt_threads s ! j)"
  shows "i = j"
proof -
  have "mx_inv (mt_mutex s, mt_phase gettid s)" using inv by (simp add: mt_inv_def mx_reachable_inv)
  moreover have "owns (mt_phase gettid s (gettid i))" "owns (mt_phase gettid s (gettid j))"
    using assms mt_phase_own [OF ids] by (simp_all add: mt_inv_def owns_def)
  ultimately have "gettid i = gettid j" by (auto simp: mx_inv_def)
  then show ?thesis using ids by (simp add: ids_ok_def inj_eq)
qed

text \<open>A step between two points that leaves the mutex alone.\<close>

lemma mt_inv_at:
  assumes inv: "mt_inv n k gettid s" and ids: "ids_ok gettid" and i: "i < n" and th: "mt_threads s' = (mt_threads s)[i := p]"
    and mutex: "mt_mutex s' = mt_mutex s" "in_section p \<longleftrightarrow> in_section (mt_threads s ! i)" and ok: "mt_point_ok k p"
    and vec: "mt_vec s' = mt_vec s @ replicate d 1" "pushes k p = pushes k (mt_threads s ! i) + d"
    and store: "\<And>j v. p = Mt_store j v \<Longrightarrow> v = mt_vec s'" and d: "d = 0 \<or> in_section p"
  shows "mt_inv n k gettid s'"
proof -
  have len: "i < length (mt_threads s)" using inv i by (simp add: mt_inv_def)
  have ph: "mt_phase gettid s' = mt_phase gettid s"
    using mt_phase_at [OF ids len th] mt_phase_own [OF ids len] mutex(2) by auto
  have "sum_list (map (pushes k) (mt_threads s')) = sum_list (map (pushes k) (mt_threads s)) + d"
    using sum_list_map_update [OF len, of "pushes k" p] vec(2) th by simp
  moreover have "v = mt_vec s'" if "j < n" "mt_threads s' ! j = Mt_store l v" for j l v
  proof (cases "j = i")
    case False
    then have st: "mt_threads s ! j = Mt_store l v" using that th len inv by (simp add: mt_inv_def)
    then have "v = mt_vec s" using inv that(1) unfolding mt_inv_def by blast
    moreover have "\<not> in_section p" using mt_exclusion [OF inv ids i that(1)] False st mutex(2) by (auto simp: in_section_def)
    ultimately show ?thesis using d vec(1) by simp
  qed (use that th len store in simp)
  moreover have "mx_locked (mt_mutex s') \<longrightarrow> (\<exists>j < n. in_section (mt_threads s' ! j))"
    using inv mutex th len by (auto simp: mt_inv_def nth_list_update)
  ultimately show ?thesis
    using inv ok ph th mutex(1) vec(1) len by (auto simp: mt_inv_def nth_list_update replicate_add)
qed

text \<open>Taking and giving back the mutex are steps of the mutex's own step relation.\<close>

lemma mt_lock_inv:
  assumes inv: "mt_inv n k gettid s" and ids: "ids_ok gettid" and i: "i < n" and pc: "mt_threads s ! i = Mt_lock j"
    and m: "MutexLock_lock (gettid i) (mt_mutex s) = Some m"
  shows "mt_inv n k gettid (mt_at i (Mt_load j) (s\<lparr>mt_mutex := m\<rparr>))" (is "mt_inv n k gettid ?s'")
proof -
  have len: "i < length (mt_threads s)" using inv i by (simp add: mt_inv_def)
  have out: "mt_phase gettid s (gettid i) \<in> {Outside, Sleeping}" using mt_phase_own [OF ids len] pc by (simp add: in_section_def)
  have "mt_phase gettid ?s' = (mt_phase gettid s)(gettid i := Inside)"
    using mt_phase_at [OF ids len, of ?s' "Mt_load j"] by (simp add: in_section_def)
  moreover have "mx_step\<^sup>*\<^sup>* (mt_mutex s, mt_phase gettid s) (m, (mt_phase gettid s)(gettid i := Inside))"
    by (rule lock_steps) (use out m ids in \<open>simp_all add: ids_ok_def\<close>)
  ultimately have "mx_reachable (mt_mutex ?s', mt_phase gettid ?s')"
    using inv mx_reachable_steps by (simp add: mt_inv_def)
  moreover have "\<exists>l < n. in_section (mt_threads ?s' ! l)" using i len by (auto simp: in_section_def intro!: exI [of _ i])
  moreover have "sum_list (map (pushes k) (mt_threads ?s')) = sum_list (map (pushes k) (mt_threads s))"
    using sum_list_map_update [OF len, of "pushes k" "Mt_load j"] pc by simp
  moreover have "mt_point_ok k (mt_threads ?s' ! l) \<and> (\<forall>x v. mt_threads ?s' ! l = Mt_store x v \<longrightarrow> v = mt_vec s)" if "l < n" for l
    using inv pc i that len unfolding mt_inv_def by (cases "l = i") force+
  ultimately show ?thesis using inv by (simp add: mt_inv_def)
qed

lemma mt_unlock_inv:
  assumes inv: "mt_inv n k gettid s" and ids: "ids_ok gettid" and i: "i < n" and pc: "mt_threads s ! i = Mt_unlock j"
  shows "mt_inv n k gettid (mt_at i (Mt_test (Suc j)) (s\<lparr>mt_mutex := MutexLock_unlock (mt_mutex s)\<rparr>))" (is "mt_inv n k gettid ?s'")
proof -
  have len: "i < length (mt_threads s)" using inv i by (simp add: mt_inv_def)
  have ins: "mt_phase gettid s (gettid i) = Inside" using mt_phase_own [OF ids len] pc by (simp add: in_section_def)
  have "mt_phase gettid ?s' = (mt_phase gettid s)(gettid i := Outside)"
    using mt_phase_at [OF ids len, of ?s' "Mt_test (Suc j)"] by (simp add: in_section_def)
  moreover have "mx_step\<^sup>*\<^sup>* (mt_mutex s, mt_phase gettid s) (MutexLock_unlock (mt_mutex s), (mt_phase gettid s)(gettid i := Outside))"
    by (rule unlock_steps(1)) (rule ins)
  ultimately have "mx_reachable (mt_mutex ?s', mt_phase gettid ?s')"
    using inv mx_reachable_steps by (simp add: mt_inv_def)
  moreover have "\<not> mx_locked (mt_mutex ?s')" by (simp add: MutexLock_unlock_def pthread_unlock_def)
  moreover have "sum_list (map (pushes k) (mt_threads ?s')) = sum_list (map (pushes k) (mt_threads s))"
    using sum_list_map_update [OF len, of "pushes k" "Mt_test (Suc j)"] pc by simp
  moreover have "mt_point_ok k (mt_threads ?s' ! l) \<and> (\<forall>x v. mt_threads ?s' ! l = Mt_store x v \<longrightarrow> v = mt_vec s)" if "l < n" for l
    using inv pc i that len unfolding mt_inv_def by (cases "l = i") force+
  ultimately show ?thesis using inv by (simp add: mt_inv_def)
qed

lemma mt_thread_inv:
  assumes inv: "mt_inv n k gettid s" and ids: "ids_ok gettid" and r: "mt_thread_step k (gettid i) i s = Some s'"
  shows "mt_inv n k gettid s'"
proof -
  have i: "i < n" using r inv by (simp add: mt_thread_step_def mt_inv_def split: if_splits)
  note at = mt_inv_at [OF inv ids i]
  have ok: "mt_point_ok k (mt_threads s ! i)" using inv i by (simp add: mt_inv_def)
  show ?thesis
  proof (cases "mt_threads s ! i")
    case (Mt_test j)
    then have s': "s' = mt_at i (if j < k then Mt_lock j else Mt_end) s" using r i inv by (simp add: mt_thread_step_def mt_inv_def)
    show ?thesis unfolding s' by (rule at [where d = 0]) (use Mt_test ok in \<open>auto simp: in_section_def split: if_splits\<close>)
  next
    case (Mt_lock j)
    then obtain m where "MutexLock_lock (gettid i) (mt_mutex s) = Some m" "s' = mt_at i (Mt_load j) (s\<lparr>mt_mutex := m\<rparr>)"
      using r i inv by (auto simp: mt_thread_step_def mt_inv_def)
    then show ?thesis using mt_lock_inv [OF inv ids i Mt_lock] by simp
  next
    case (Mt_load j)
    then have s': "s' = mt_at i (Mt_store j (mt_vec s)) s" using r i inv by (simp add: mt_thread_step_def mt_inv_def)
    show ?thesis unfolding s' by (rule at [where d = 0]) (use Mt_load ok in \<open>auto simp: in_section_def\<close>)
  next
    case (Mt_store j v)
    then have s': "s' = mt_at i (Mt_unlock j) (s\<lparr>mt_vec := v @ [1]\<rparr>)" using r i inv by (simp add: mt_thread_step_def mt_inv_def)
    have "v = mt_vec s" using inv i Mt_store unfolding mt_inv_def by blast
    then show ?thesis unfolding s' by (intro at [where d = 1]) (use Mt_store ok in \<open>auto simp: in_section_def\<close>)
  next
    case (Mt_unlock j)
    then have "s' = mt_at i (Mt_test (Suc j)) (s\<lparr>mt_mutex := MutexLock_unlock (mt_mutex s)\<rparr>)"
      using r i inv by (simp add: mt_thread_step_def mt_inv_def)
    then show ?thesis using mt_unlock_inv [OF inv ids i Mt_unlock] by simp
  next
    case Mt_end
    then show ?thesis using r by (simp add: mt_thread_step_def split: if_splits)
  qed
qed

lemma mt_thread_effort:
  assumes inv: "mt_inv n k gettid s" and r: "mt_thread_step k t i s = Some s'"
  shows "mt_effort k s' < mt_effort k s"
proof -
  have len: "i < length (mt_threads s)" using r by (simp add: mt_thread_step_def split: if_splits)
  then have ok: "mt_point_ok k (mt_threads s ! i)" using inv by (simp add: mt_inv_def)
  obtain p where "mt_threads s' = (mt_threads s)[i := p]" "mt_point_effort k p < mt_point_effort k (mt_threads s ! i)"
    using r len ok by (auto simp: mt_thread_step_def split: mt_point.splits if_splits)
  then show ?thesis using sum_list_map_update [OF len, of "mt_point_effort k" p] by (simp add: mt_effort_def)
qed

subsection \<open>Nobody waits for ever\<close>

lemma mt_goes_on:
  assumes inv: "mt_inv n k gettid s" and "\<not> mt_all_ended s"
  shows "\<exists>s'. mt_step k gettid s s'"
proof -
  have step: "\<exists>s'. mt_step k gettid s s'" if "mt_thread_step k (gettid i) i s \<noteq> None" for i
    using that mt_thread [of k gettid i s] by blast
  obtain i where i: "i < n" "mt_threads s ! i \<noteq> Mt_end" using assms by (auto simp: mt_all_ended_def list_all_length mt_inv_def)
  show ?thesis
  proof (cases "mx_locked (mt_mutex s)")
    case True
    then obtain l where "l < n" "in_section (mt_threads s ! l)" using inv by (auto simp: mt_inv_def)
    then have "mt_thread_step k (gettid l) l s \<noteq> None"
      using inv by (auto simp: mt_thread_step_def mt_inv_def in_section_def split: mt_point.splits)
    then show ?thesis by (rule step)
  next
    case False
    then have "mt_thread_step k (gettid i) i s \<noteq> None"
      using i inv by (auto simp: mt_thread_step_def mt_inv_def MutexLock_lock_def pthread_lock_def split: mt_point.splits)
    then show ?thesis by (rule step)
  qed
qed

interpretation mutex_program: progress "\<lambda>s. ids_ok gettid \<and> mt_inv n k gettid s" "mt_step k gettid" mt_all_ended "mt_effort k"
proof unfold_locales
  fix s s'
  assume good: "ids_ok gettid \<and> mt_inv n k gettid s" and "mt_step k gettid s s'"
  then obtain i where r: "mt_thread_step k (gettid i) i s = Some s'" by (blast elim: mt_stepE)
  show "ids_ok gettid \<and> mt_inv n k gettid s'" using good mt_thread_inv r by blast
  show "mt_effort k s' < mt_effort k s" using good mt_thread_effort r by blast
next
  fix s
  assume "ids_ok gettid \<and> mt_inv n k gettid s" "\<not> mt_all_ended s"
  then show "\<exists>s'. mt_step k gettid s s'" using mt_goes_on by blast
qed

lemma mt_round_inv: "mt_inv n k gettid (mt_round n)"
proof -
  have "mt_phase gettid (mt_round n) = (\<lambda>_. Outside)" by (auto simp: mt_phase_def mt_round_def in_section_def fun_eq_iff)
  then show ?thesis using mx_start by (simp add: mt_inv_def mt_round_def MutexLock_new_def sum_list_replicate)
qed

lemma pushes_le: "mt_point_ok k p \<Longrightarrow> pushes k p \<le> k"
  by (cases p) simp_all

lemma sum_list_le: "(\<And>x. x \<in> set xs \<Longrightarrow> f x \<le> (k :: nat)) \<Longrightarrow> sum_list (map f xs) \<le> length xs * k"
  by (induction xs) (auto intro: add_mono)

subsection \<open>Properties\<close>

text \<open>
  C22: No push is lost. For any number of threads and of pushes by each, with different ids, in every interleaving of the reads and writes of the
  vector and of the mutex's operations: the vector never grows beyond the room that was reserved for it; the threads can always go on until all
  have ended, and can do only a bounded number of steps in all; and then the vector has exactly one element for every push and the mutex is free.
\<close>

theorem no_push_lost:
  assumes "inj gettid" and "\<forall>i. 0 < gettid i" and "(mt_step kCount gettid)\<^sup>*\<^sup>* (mt_round n) s"
  shows "length (mt_vec s) \<le> n * kCount \<and> (\<exists>t. (mt_step kCount gettid)\<^sup>*\<^sup>* s t \<and> mt_all_ended t) \<and>
    (\<forall>j t. (mt_step kCount gettid ^^ j) s t \<longrightarrow> j \<le> mt_effort kCount s) \<and>
    (mt_all_ended s \<longrightarrow> mt_vec s = replicate (n * kCount) 1 \<and> \<not> mx_locked (mt_mutex s))"
proof (intro conjI allI impI)
  have start: "ids_ok gettid \<and> mt_inv n kCount gettid (mt_round n)" using assms(1,2) mt_round_inv by (simp add: ids_ok_def)
  have good: "ids_ok gettid \<and> mt_inv n kCount gettid s" by (rule mutex_program.runs_good [OF start assms(3)])
  then have len: "length (mt_threads s) = n" and vec: "mt_vec s = replicate (sum_list (map (pushes kCount) (mt_threads s))) 1"
    by (simp_all add: mt_inv_def)
  have "pushes kCount p \<le> kCount" if "p \<in> set (mt_threads s)" for p
    using that good len pushes_le by (auto simp: in_set_conv_nth mt_inv_def)
  then show "length (mt_vec s) \<le> n * kCount" using sum_list_le [of "mt_threads s" "pushes kCount" kCount] len vec by simp
  show "\<exists>t. (mt_step kCount gettid)\<^sup>*\<^sup>* s t \<and> mt_all_ended t" by (rule mutex_program.can_finish [OF good])
  show "j \<le> mt_effort kCount s" if "(mt_step kCount gettid ^^ j) s t" for j t using mutex_program.work_bounded [OF good that] by simp
  assume "mt_all_ended s"
  then have all: "mt_threads s = replicate n Mt_end" using len by (auto simp: mt_all_ended_def list_all_length intro: nth_equalityI)
  then show "mt_vec s = replicate (n * kCount) 1" using vec by (simp add: sum_list_replicate)
  show "\<not> mx_locked (mt_mutex s)" using good all by (auto simp: mt_inv_def in_section_def)
qed

text \<open>The last round of \<open>main\<close>: six threads and a million pushes by each.\<close>

lemma no_push_lost_witness:
  "\<exists>t. (mt_step 1000000 (\<lambda>i. int i + 1))\<^sup>*\<^sup>* (mt_round 6) t \<and> mt_vec t = replicate 6000000 1"
proof -
  have ids: "inj (\<lambda>i. int i + 1)" "\<forall>i. 0 < int i + 1" by (simp_all add: inj_def)
  obtain t where t: "(mt_step 1000000 (\<lambda>i. int i + 1))\<^sup>*\<^sup>* (mt_round 6) t" "mt_all_ended t"
    using no_push_lost [OF ids rtranclp.rtrancl_refl] by blast
  then have "mt_vec t = replicate (6 * 1000000) 1" using no_push_lost [OF ids t(1)] by blast
  then show ?thesis using t(1) by auto
qed

end
