(* ===== verification/RN_TestThreads.thy ===== *)
theory RN_TestThreads
  imports RN_Thread RN_ThreadLocal RN_Progress
begin

text \<open>
  RN/base/tests/ThreadTest.cpp and ThreadSingletonTest.cpp: threads that are started, joined or left to the destructor, and threads that keep a string each in
  a thread-local object. The ids the kernel gives are arguments; the sleeps, which only make some interleavings likely, are left out.
\<close>

subsection \<open>ThreadTest.cpp\<close>

text \<open>The lines printed by the main thread and by the threads; their order between the two is not fixed. \<open>tt_detached\<close> counts the threads detached by the destructor.\<close>

record thread_test =
  tt_created :: "32 word"
  tt_main :: "string list"
  tt_lines :: "string list"
  tt_detached :: nat

definition tid_line :: "int \<Rightarrow> string" where
  "tid_line i = ''tid='' @ fmt_d i"

definition tt_threadFunc2 :: "int \<Rightarrow> int \<Rightarrow> string" where
  "tt_threadFunc2 x i = tid_line i @ '', x='' @ fmt_d x"

text \<open>\<open>memberFunc\<close> and \<open>memberFunc2\<close>; the text of \<open>Foo::x_\<close> as \<open>%f\<close> prints it is an argument.\<close>

definition memberFunc :: "string \<Rightarrow> int \<Rightarrow> string" where
  "memberFunc x i = tid_line i @ '', Foo::x_='' @ x"

definition memberFunc2 :: "string \<Rightarrow> string \<Rightarrow> int \<Rightarrow> string" where
  "memberFunc2 x text i = memberFunc x i @ '', text='' @ text"

text \<open>
  A thread object of \<open>main\<close>: it is made and started, the thread prints its line, \<open>main\<close> prints the id if it does, joins if it does, and the object is destroyed.
  None: \<open>start\<close> would wait for ever.
\<close>

definition tt_thread :: "int \<Rightarrow> string \<Rightarrow> (int \<Rightarrow> string) \<Rightarrow> string option \<Rightarrow> bool \<Rightarrow> thread_test \<Rightarrow> thread_test result option" where
  "tt_thread gettid name func tid_label joins s =
     (let (created, th) = Thread_new name (tt_created s) in
      map_option (\<lambda>r. rbind r (\<lambda>(th, t).
          case t of
            None \<Rightarrow> Inr (s\<lparr>tt_created := created\<rparr>)
          | Some ct \<Rightarrow>
              (let s = s\<lparr>tt_created := created, tt_lines := tt_lines s @ [func (fst (tid gettid ct))],
                         tt_main := tt_main s @ (case tid_label of None \<Rightarrow> [] | Some l \<Rightarrow> [l @ fmt_d (th_tid th)])\<rparr>
               in rbind (if joins then rbind (Thread_join 0 th) (\<lambda>(r, th). Inr th) else Inr th) (\<lambda>th.
                    Inr (if Thread_destroy th then s\<lparr>tt_detached := tt_detached s + 1\<rparr> else s)))))
        (Thread_start (Some gettid) th))"

definition rthen :: "'a result option \<Rightarrow> ('a \<Rightarrow> 'b result option) \<Rightarrow> 'b result option" where
  "rthen r f = (case r of None \<Rightarrow> None | Some (Inl e) \<Rightarrow> Some (Inl e) | Some (Inr x) \<Rightarrow> f x)"

lemma rthen_simps [simp]: "rthen None f = None" "rthen (Some (Inl e)) f = Some (Inl e)" "rthen (Some (Inr x)) f = f x"
  by (simp_all add: rthen_def)

definition thread_test_main :: "int \<Rightarrow> int \<Rightarrow> (nat \<Rightarrow> int) \<Rightarrow> string \<Rightarrow> thread_test result option" where
  "thread_test_main pid main_tid ids x =
     rthen (tt_thread (ids 1) [] tid_line (Some ''t1.tid='') True
         \<lparr>tt_created = 0, tt_main = [''pid='' @ fmt_d pid @ '', '' @ tid_line main_tid], tt_lines = [], tt_detached = 0\<rparr>) (\<lambda>s.
     rthen (tt_thread (ids 2) ''thread for free function with argument'' (tt_threadFunc2 42) (Some ''t2.tid='') True s) (\<lambda>s.
     rthen (tt_thread (ids 3) ''thread for member function without argument'' (memberFunc x) None True s) (\<lambda>s.
     rthen (tt_thread (ids 4) [] (memberFunc2 x ''SuperString'') None True s) (\<lambda>s.
     rthen (tt_thread (ids 5) [] tid_line None False s) (\<lambda>s.
     rthen (tt_thread (ids 6) [] tid_line None False s) (\<lambda>s.
       Some (Inr (s\<lparr>tt_main := tt_main s @ [''number of created threads '' @ fmt_d (numCreated (tt_created s))]\<rparr>))))))))"

text \<open>One thread object with a positive id.\<close>

lemma tt_thread_runs:
  assumes "0 < g"
  shows "tt_thread g name func l joins s =
    Some (Inr (s\<lparr>tt_created := tt_created s + 1, tt_lines := tt_lines s @ [func g],
      tt_main := tt_main s @ (case l of None \<Rightarrow> [] | Some l \<Rightarrow> [l @ fmt_d g]), tt_detached := tt_detached s + (if joins then 0 else 1)\<rparr>))"
proof -
  obtain th where n: "Thread_new name (tt_created s) = (tt_created s + 1, th)"
    and th: "\<not> th_started th" "\<not> th_joined th" "th_latch th = CountDownLatch_new 1"
    by (simp add: Thread_new_def setDefaultName_def)
  obtain th' t where st: "Thread_start (Some g) th = Some (Inr (th', Some t))" "th_tid th' = g" "th_started th'" "\<not> th_joined th'" "t_cachedTid t = g"
    using th assms
    by (auto simp: Thread_start_def runInThread_begin_def tid_def cacheTid_def CurrentThread_fresh_def countDown_def CountDownLatch_new_def
        la_notifyAll_def getCount_def Let_def)
  then have "fst (tid g t) = g" using assms by (simp add: tid_def)
  then show ?thesis using n st by (simp add: tt_thread_def Thread_join_def Thread_destroy_def Let_def split: option.split)
qed

text \<open>
  The thread test: whatever positive ids the kernel gives, no assertion fails and no \<open>start\<close> waits for ever; each thread prints its own id with its
  arguments, \<open>main\<close> prints the ids it stored, the last two threads are detached by the destructor, and six threads are counted.
\<close>

theorem thread_test_prints:
  assumes "\<And>i. 0 < ids i"
  shows "\<exists>s. thread_test_main pid main_tid ids x = Some (Inr s) \<and>
    tt_lines s = [tid_line (ids 1), tid_line (ids 2) @ '', x=42'', tid_line (ids 3) @ '', Foo::x_='' @ x,
      tid_line (ids 4) @ '', Foo::x_='' @ x @ '', text=SuperString'', tid_line (ids 5), tid_line (ids 6)] \<and>
    tt_main s = [''pid='' @ fmt_d pid @ '', '' @ tid_line main_tid, ''t1.tid='' @ fmt_d (ids 1), ''t2.tid='' @ fmt_d (ids 2),
      ''number of created threads 6''] \<and>
    tt_detached s = 2"
proof -
  have "fmt_d 42 = ''42''" "fmt_d 6 = ''6''" by code_simp+
  then show ?thesis
    using assms
    by (simp add: thread_test_main_def tt_thread_runs tt_threadFunc2_def memberFunc_def memberFunc2_def numCreated_def atomic_get_def)
qed

lemma thread_test_prints_witness:
  "\<exists>s. thread_test_main 100 100 (\<lambda>i. 100 + int i) ''87.530000'' = Some (Inr s) \<and> tt_detached s = 2"
  using thread_test_prints [of "\<lambda>i. 100 + int i" 100 100 "''87.530000''"] by auto

subsection \<open>ThreadSingletonTest.cpp\<close>

text \<open>
  The macro \<open>STL\<close>: the singleton's \<open>ThreadLocal\<close> and its object for thread \<open>t\<close>. \<open>st_names\<close> are the strings of the objects. What a
  thread still has to do is a list of operations, of \<open>main\<close> (thread 0) or of \<open>thread_func\<close>; the lines of \<open>print\<close> keep the name.
\<close>

datatype st_op = St_print | St_set string | St_start nat | St_join nat

record st_test =
  st_singleton :: singleton
  st_local :: thread_local
  st_names :: "nat \<Rightarrow> string"
  st_todo :: "nat \<Rightarrow> st_op list"
  st_done :: "nat \<Rightarrow> st_op list"
  st_ended :: "nat set"
  st_printed :: "nat \<Rightarrow> string list"

definition STL :: "nat \<Rightarrow> st_test \<Rightarrow> (nat \<times> st_test) result" where
  "STL t s =
     rbind (Singleton_instance False (st_singleton s)) (\<lambda>(_, g).
       let (v, l) = tl_value t (st_local s) in Inr (v, s\<lparr>st_singleton := g, st_local := l\<rparr>))"

definition st_print :: "nat \<Rightarrow> st_test \<Rightarrow> st_test result" where
  "st_print t s = rbind (STL t s) (\<lambda>(v, s). Inr (s\<lparr>st_printed := (st_printed s)(t := st_printed s t @ [st_names s v])\<rparr>))"

definition st_set :: "nat \<Rightarrow> string \<Rightarrow> st_test \<Rightarrow> st_test result" where
  "st_set t change_to s = rbind (STL t s) (\<lambda>(v, s). Inr (s\<lparr>st_names := (st_names s)(v := change_to)\<rparr>))"

definition thread_func :: "string \<Rightarrow> st_op list" where
  "thread_func change_to = [St_print, St_set change_to, St_print]"

definition singleton_test_main :: "st_op list" where
  "singleton_test_main = [St_set ''main one'', St_start 1, St_start 2, St_print, St_join 1, St_join 2]"

text \<open>The functions the two threads are made with.\<close>

definition bound_func :: "nat \<Rightarrow> st_op list" where
  "bound_func t = thread_func (if t = 1 then ''thread_1'' else ''thread_2'')"

definition singleton_test_start :: st_test where
  "singleton_test_start = \<lparr>st_singleton = Singleton_start, st_local = ThreadLocal_new, st_names = (\<lambda>_. []),
     st_todo = (\<lambda>_. [])(0 := singleton_test_main), st_done = (\<lambda>_. []), st_ended = {}, st_printed = (\<lambda>_. [])\<rparr>"

text \<open>The next operation of a thread; None: it cannot go on. The end of a thread deletes its object.\<close>

definition st_effect :: "nat \<Rightarrow> st_op \<Rightarrow> st_test \<Rightarrow> st_test result option" where
  "st_effect t p s =
     (case p of
        St_print \<Rightarrow> Some (st_print t s)
      | St_set x \<Rightarrow> Some (st_set t x s)
      | St_start u \<Rightarrow> Some (Inr (s\<lparr>st_todo := (st_todo s)(u := bound_func u)\<rparr>))
      | St_join u \<Rightarrow> (if u \<in> st_ended s then Some (Inr s) else None))"

definition st_thread_step :: "nat \<Rightarrow> st_test \<Rightarrow> st_test result option" where
  "st_thread_step t s =
     (case st_todo s t of
        [] \<Rightarrow> (if st_done s t = [] \<or> t \<in> st_ended s then None
               else Some (Inr (s\<lparr>st_local := tl_thread_exit t (st_local s), st_ended := insert t (st_ended s)\<rparr>)))
      | p # ps \<Rightarrow> st_effect t p (s\<lparr>st_todo := (st_todo s)(t := ps), st_done := (st_done s)(t := st_done s t @ [p])\<rparr>))"

inductive st_step :: "st_test \<Rightarrow> st_test \<Rightarrow> bool" where
  st_thread: "st_thread_step t s = Some (Inr s') \<Longrightarrow> st_step s s'"

text \<open>A thread alone: the string it keeps and the lines it prints.\<close>

fun name_after :: "st_op list \<Rightarrow> string \<Rightarrow> string" where
  "name_after [] x = x"
| "name_after (St_set y # ps) x = name_after ps y"
| "name_after (_ # ps) x = name_after ps x"

fun lines_alone :: "st_op list \<Rightarrow> string \<Rightarrow> string list" where
  "lines_alone [] x = []"
| "lines_alone (St_print # ps) x = x # lines_alone ps x"
| "lines_alone (St_set y # ps) x = lines_alone ps y"
| "lines_alone (_ # ps) x = lines_alone ps x"

lemma name_after_append [simp]: "name_after (ps @ qs) x = name_after qs (name_after ps x)"
  by (induction ps x rule: name_after.induct) simp_all

lemma lines_alone_append [simp]: "lines_alone (ps @ qs) x = lines_alone ps x @ lines_alone qs (name_after ps x)"
  by (induction ps x rule: lines_alone.induct) simp_all

text \<open>
  Objects of different threads differ and have been made, what has not been made is empty, and a thread that has not ended has in its object what it put
  there itself; its lines are those it prints alone.
\<close>

definition own_string :: "(nat \<Rightarrow> string) \<Rightarrow> nat option \<Rightarrow> string" where
  "own_string names v = (case v of None \<Rightarrow> [] | Some v \<Rightarrow> names v)"

lemma own_string_simps [simp]: "own_string names None = []" "own_string names (Some v) = names v"
  by (simp_all add: own_string_def)

lemma own_string_other: "w \<noteq> Some v \<Longrightarrow> own_string (names(v := x)) w = own_string names w"
  by (cases w) simp_all

definition st_local_inv :: "st_test \<Rightarrow> bool" where
  "st_local_inv s \<longleftrightarrow>
     (\<forall>t u v. tl_values (st_local s) t = Some v \<and> tl_values (st_local s) u = Some v \<longrightarrow> t = u) \<and>
     (\<forall>t v. tl_values (st_local s) t = Some v \<longrightarrow> v < tl_made (st_local s)) \<and> (\<forall>v \<ge> tl_made (st_local s). st_names s v = []) \<and>
     (sg_once (st_singleton s) \<longrightarrow> sg_value (st_singleton s) \<noteq> None)"

definition st_own_inv :: "st_test \<Rightarrow> bool" where
  "st_own_inv s \<longleftrightarrow>
     (\<forall>t. t \<notin> st_ended s \<longrightarrow>
        own_string (st_names s) (tl_values (st_local s) t) = name_after (st_done s t) []) \<and>
     (\<forall>t. st_printed s t = lines_alone (st_done s t) [])"

definition st_inv :: "st_test \<Rightarrow> bool" where
  "st_inv s \<longleftrightarrow> st_local_inv s \<and> st_own_inv s"

text \<open>What the macro does: the thread has its object, and no other object or string changes.\<close>

lemma STL_spec:
  assumes "st_local_inv s"
  obtains v s' where "STL t s = Inr (v, s')" "st_local_inv s'" "tl_values (st_local s') t = Some v"
    "\<And>u. u \<noteq> t \<Longrightarrow> tl_values (st_local s') u = tl_values (st_local s) u"
    "own_string (st_names s) (tl_values (st_local s) t) = st_names s' v"
    "st_names s' = st_names s" "st_todo s' = st_todo s" "st_done s' = st_done s" "st_ended s' = st_ended s" "st_printed s' = st_printed s"
proof -
  obtain w g where g: "Singleton_instance False (st_singleton s) = Inr (w, g)" "sg_once g" "sg_value g \<noteq> None"
    using assms by (cases "sg_once (st_singleton s)") (auto simp: st_local_inv_def Singleton_instance_def Singleton_init_def Let_def)
  obtain v l where l: "tl_value t (st_local s) = (v, l)" by fastforce
  have "st_local_inv (s\<lparr>st_singleton := g, st_local := l\<rparr>) \<and> tl_values l t = Some v \<and> (\<forall>u. u \<noteq> t \<longrightarrow> tl_values l u = tl_values (st_local s) u) \<and>
      own_string (st_names s) (tl_values (st_local s) t) = st_names s v"
  proof (cases "tl_values (st_local s) t")
    case None
    then have "l = (st_local s)\<lparr>tl_values := (tl_values (st_local s))(t \<mapsto> v), tl_made := Suc v\<rparr>" "v = tl_made (st_local s)"
      using l by (auto simp: tl_value_def)
    then show ?thesis using None assms g by (fastforce simp: st_local_inv_def)
  next
    case (Some u)
    then show ?thesis using l assms g by (auto simp: tl_value_def st_local_inv_def)
  qed
  then show ?thesis using that [of v "s\<lparr>st_singleton := g, st_local := l\<rparr>"] g(1) l by (simp add: STL_def)
qed

text \<open>The two operations of thread \<open>t\<close> on its object, once the operation has been taken off its list.\<close>

lemma st_effect_inv:
  assumes inv: "st_inv s" and t: "t \<notin> st_ended s" and p: "p = St_print \<or> (\<exists>x. p = St_set x)"
  shows "\<exists>s'. st_effect t p (s\<lparr>st_todo := td, st_done := (st_done s)(t := st_done s t @ [p])\<rparr>) = Some (Inr s') \<and> st_inv s' \<and>
    st_todo s' = td \<and> st_done s' = (st_done s)(t := st_done s t @ [p]) \<and> st_ended s' = st_ended s"
proof -
  define s1 where "s1 = s\<lparr>st_todo := td, st_done := (st_done s)(t := st_done s t @ [p])\<rparr>"
  have l1: "st_local_inv s1" using inv by (simp add: s1_def st_inv_def st_local_inv_def)
  obtain v s2 where s2: "STL t s1 = Inr (v, s2)" "st_local_inv s2" "tl_values (st_local s2) t = Some v"
    "\<And>u. u \<noteq> t \<Longrightarrow> tl_values (st_local s2) u = tl_values (st_local s1) u"
    "own_string (st_names s1) (tl_values (st_local s1) t) = st_names s2 v"
    "st_names s2 = st_names s1" "st_todo s2 = st_todo s1" "st_done s2 = st_done s1" "st_ended s2 = st_ended s1" "st_printed s2 = st_printed s1"
    using STL_spec [OF l1, of t] by metis
  have other: "tl_values (st_local s2) u \<noteq> Some v" if "u \<noteq> t" for u
    using s2(2,3) that unfolding st_local_inv_def by metis
  have made: "v < tl_made (st_local s2)" using s2(2,3) by (simp add: st_local_inv_def)
  have "own_string (st_names s) (tl_values (st_local s) t) = st_names s2 v" using s2(5) by (simp add: s1_def)
  moreover have "own_string (st_names s) (tl_values (st_local s) t) = name_after (st_done s t) []"
    using inv t unfolding st_inv_def st_own_inv_def by blast
  ultimately have own: "st_names s2 v = name_after (st_done s t) []" by simp
  have old: "own_string (st_names s2) (tl_values (st_local s2) u) = name_after (st_done s u) []"
    if "u \<noteq> t" "u \<notin> st_ended s" for u
    using inv that s2(4) [OF that(1)] s2(6) by (simp add: s1_def st_inv_def st_own_inv_def)
  have lines: "\<forall>u. st_printed s2 u = lines_alone (st_done s u) []" using inv s2(10) by (simp add: s1_def st_inv_def st_own_inv_def)
  show ?thesis
    using p
  proof
    assume p: "p = St_print"
    define s' where "s' = s2\<lparr>st_printed := (st_printed s2)(t := st_printed s2 t @ [st_names s2 v])\<rparr>"
    have "st_local_inv s'" using s2(2) by (simp add: s'_def st_local_inv_def)
    moreover have "st_own_inv s'"
      using own old lines s2(3,8,9) p unfolding st_own_inv_def by (auto simp: s'_def s1_def)
    ultimately show ?thesis using s2 p by (simp add: st_effect_def st_print_def s'_def s1_def st_inv_def)
  next
    assume "\<exists>x. p = St_set x"
    then obtain x where p: "p = St_set x" by blast
    define s' where "s' = s2\<lparr>st_names := (st_names s2)(v := x)\<rparr>"
    have "st_local_inv s'" using s2(2) made by (auto simp: s'_def st_local_inv_def)
    moreover have "st_own_inv s'"
      using own old lines s2(3,8,9) p other unfolding st_own_inv_def by (auto simp: s'_def s1_def own_string_other)
    ultimately show ?thesis using s2 p by (simp add: st_effect_def st_set_def s'_def s1_def st_inv_def)
  qed
qed

text \<open>
  How far the threads are: \<open>main\<close> is on its list, the other two are on theirs once they have been started, and a thread that has ended has done
  everything.
\<close>

definition st_plan_inv :: "st_test \<Rightarrow> bool" where
  "st_plan_inv s \<longleftrightarrow>
     st_done s 0 @ st_todo s 0 = singleton_test_main \<and>
     (\<forall>u. u \<noteq> 0 \<longrightarrow> st_done s u @ st_todo s u = (if St_start u \<in> set (st_done s 0) then bound_func u else [])) \<and>
     (\<forall>t \<in> st_ended s. st_todo s t = [] \<and> st_done s t \<noteq> []) \<and> (\<forall>u. St_join u \<in> set (st_done s 0) \<longrightarrow> u \<in> st_ended s)"

lemma st_plan_of:
  assumes "st_plan_inv s" and "u \<noteq> 0"
  shows "St_start u \<in> set (st_done s 0) \<Longrightarrow> st_done s u @ st_todo s u = bound_func u"
    and "St_start u \<notin> set (st_done s 0) \<Longrightarrow> st_done s u = [] \<and> st_todo s u = []"
  using assms by (metis append_is_Nil_conv st_plan_inv_def)+

lemma st_plan_started: "st_plan_inv s \<Longrightarrow> u \<noteq> 0 \<Longrightarrow> st_done s u \<noteq> [] \<or> st_todo s u \<noteq> [] \<Longrightarrow> u \<in> {1, 2}"
proof -
  assume plan: "st_plan_inv s" and u: "u \<noteq> 0" "st_done s u \<noteq> [] \<or> st_todo s u \<noteq> []"
  then have "St_start u \<in> set (st_done s 0)" unfolding st_plan_inv_def by (metis append_is_Nil_conv)
  then have "St_start u \<in> set singleton_test_main" using plan unfolding st_plan_inv_def by (metis UnI1 set_append)
  then show "u \<in> {1, 2}" by (auto simp: singleton_test_main_def)
qed

text \<open>Only \<open>main\<close> starts and joins, and it starts a thread once.\<close>

lemma st_head:
  assumes "st_plan_inv s" and "st_todo s t = p # ps"
  shows "t = 0 \<or> p = St_print \<or> (\<exists>x. p = St_set x)" and "t = 0 \<Longrightarrow> p = St_start u \<Longrightarrow> u \<noteq> 0 \<and> St_start u \<notin> set (st_done s 0)"
    and "t \<notin> st_ended s"
proof -
  show "t \<notin> st_ended s" using assms by (auto simp: st_plan_inv_def)
  show "t = 0 \<or> p = St_print \<or> (\<exists>x. p = St_set x)"
  proof (rule ccontr)
    assume n: "\<not> (t = 0 \<or> p = St_print \<or> (\<exists>x. p = St_set x))"
    then have "p \<in> set (st_done s t @ st_todo s t)" "t \<noteq> 0" using assms(2) by simp_all
    then have "p \<in> set (bound_func t)" using assms(1) unfolding st_plan_inv_def by (metis empty_iff empty_set)
    then show False using n by (auto simp: bound_func_def thread_func_def)
  qed
  show "u \<noteq> 0 \<and> St_start u \<notin> set (st_done s 0)" if "t = 0" "p = St_start u"
  proof -
    have m: "st_done s 0 @ St_start u # ps = singleton_test_main" using assms that by (auto simp: st_plan_inv_def)
    then have "St_start u \<in> set singleton_test_main" by (metis in_set_conv_decomp)
    moreover have "distinct (st_done s 0 @ St_start u # ps)" unfolding m by (simp add: singleton_test_main_def)
    ultimately show ?thesis by (auto simp: singleton_test_main_def)
  qed
qed

lemma st_plan_own:
  assumes plan: "st_plan_inv s" and hd: "st_todo s t = p # ps" and p: "p = St_print \<or> (\<exists>x. p = St_set x)"
    and s': "st_todo s' = (st_todo s)(t := ps)" "st_done s' = (st_done s)(t := st_done s t @ [p])" "st_ended s' = st_ended s"
  shows "st_plan_inv s'"
proof -
  have t: "t \<notin> st_ended s" by (rule st_head(3) [OF plan hd])
  have p': "p \<noteq> St_start u" "p \<noteq> St_join u" for u using p by auto
  have same: "St_start u \<in> set (st_done s' 0) \<longleftrightarrow> St_start u \<in> set (st_done s 0)"
    "St_join u \<in> set (st_done s' 0) \<longleftrightarrow> St_join u \<in> set (st_done s 0)" for u
    using s'(2) p' by auto
  have cat: "st_done s' u @ st_todo s' u = st_done s u @ st_todo s u" for u using s' hd by simp
  show ?thesis
    using plan t s' unfolding st_plan_inv_def cat same by auto
qed

text \<open>A step: no fault, and the invariants.\<close>

lemma st_own_inv_others:
  assumes "st_inv s" and "p = St_start u \<or> p = St_join u"
  shows "st_inv (s\<lparr>st_todo := td, st_done := (st_done s)(t := st_done s t @ [p])\<rparr>)"
  using assms by (auto simp: st_inv_def st_local_inv_def st_own_inv_def)

lemma st_thread_ok:
  assumes inv: "st_inv s" and plan: "st_plan_inv s" and r: "st_thread_step t s = Some r"
  shows "\<exists>s'. r = Inr s' \<and> st_inv s' \<and> st_plan_inv s'"
proof (cases "st_todo s t")
  case Nil
  then have t: "t \<notin> st_ended s" "st_done s t \<noteq> []" and
    s': "r = Inr (s\<lparr>st_local := tl_thread_exit t (st_local s), st_ended := insert t (st_ended s)\<rparr>)"
    using r by (auto simp: st_thread_step_def split: if_splits)
  have "tl_values (tl_thread_exit t (st_local s)) u = (if u = t \<and> tl_key (st_local s) then None else tl_values (st_local s) u)"
    "tl_made (tl_thread_exit t (st_local s)) = tl_made (st_local s)" for u
    by (auto simp: tl_thread_exit_def tl_destructor_def split: option.split)
  then have "st_inv (s\<lparr>st_local := tl_thread_exit t (st_local s), st_ended := insert t (st_ended s)\<rparr>)"
    using inv by (auto simp: st_inv_def st_local_inv_def st_own_inv_def split: if_splits)
  moreover have "st_plan_inv (s\<lparr>st_local := tl_thread_exit t (st_local s), st_ended := insert t (st_ended s)\<rparr>)"
    using plan Nil t by (auto simp: st_plan_inv_def)
  ultimately show ?thesis using s' by simp
next
  case (Cons p ps)
  note h = st_head [OF plan Cons]
  define s1 where "s1 = s\<lparr>st_todo := (st_todo s)(t := ps), st_done := (st_done s)(t := st_done s t @ [p])\<rparr>"
  have r1: "st_effect t p s1 = Some r" using r Cons by (simp add: st_thread_step_def s1_def)
  consider (own) "p = St_print \<or> (\<exists>x. p = St_set x)" | (start) u where "p = St_start u" "t = 0" | (join) u where "p = St_join u" "t = 0"
    using h(1) by (cases p) auto
  then show ?thesis
  proof cases
    case own
    obtain s' where s': "st_effect t p s1 = Some (Inr s')" "st_inv s'" "st_todo s' = (st_todo s)(t := ps)"
      "st_done s' = (st_done s)(t := st_done s t @ [p])" "st_ended s' = st_ended s"
      using st_effect_inv [OF inv h(3) own, of "(st_todo s)(t := ps)"] unfolding s1_def by blast
    then show ?thesis using r1 st_plan_own [OF plan Cons own s'(3-5)] by simp
  next
    case start
    have u: "u \<noteq> 0" "St_start u \<notin> set (st_done s 0)" using h(2) [OF start(2,1)] by simp_all
    then have un: "st_done s u = []" "st_todo s u = []" using st_plan_of(2) [OF plan] by simp_all
    then have "st_plan_inv (s1\<lparr>st_todo := (st_todo s1)(u := bound_func u)\<rparr>)"
      using plan start u Cons by (auto simp: st_plan_inv_def s1_def)
    moreover have "s1\<lparr>st_todo := (st_todo s1)(u := bound_func u)\<rparr> =
        s\<lparr>st_todo := (st_todo s1)(u := bound_func u), st_done := (st_done s)(t := st_done s t @ [p])\<rparr>"
      by (simp add: s1_def)
    moreover have "st_inv (s\<lparr>st_todo := (st_todo s1)(u := bound_func u), st_done := (st_done s)(t := st_done s t @ [p])\<rparr>)"
      using st_own_inv_others [OF inv] start by blast
    ultimately show ?thesis using r1 start by (auto simp: st_effect_def)
  next
    case join
    then have "u \<in> st_ended s" "r = Inr s1" using r1 by (auto simp: st_effect_def s1_def split: if_splits)
    moreover have "st_plan_inv s1" using plan join Cons \<open>u \<in> st_ended s\<close> h(3) by (auto simp: st_plan_inv_def s1_def)
    moreover have "st_inv s1" using st_own_inv_others [OF inv, of p u t] join by (simp add: s1_def)
    ultimately show ?thesis by simp
  qed
qed

lemma st_reach_ok: "st_step\<^sup>*\<^sup>* singleton_test_start s \<Longrightarrow> st_inv s \<and> st_plan_inv s"
proof (induction rule: rtranclp_induct)
  case base
  show ?case
    by (auto simp: singleton_test_start_def st_inv_def st_local_inv_def st_own_inv_def st_plan_inv_def ThreadLocal_new_def Singleton_start_def)
next
  case (step s s')
  then show ?case using st_thread_ok by (auto elim!: st_step.cases)
qed

subsection \<open>The test ends\<close>

definition st_alive :: "nat \<Rightarrow> st_test \<Rightarrow> bool" where
  "st_alive t s \<longleftrightarrow> (st_done s t \<noteq> [] \<or> st_todo s t \<noteq> []) \<and> t \<notin> st_ended s"

definition st_effort :: "st_test \<Rightarrow> nat" where
  "st_effort s =
     6 * length (st_todo s 0) + (if st_alive 0 s then 1 else 0) +
     (\<Sum>u \<leftarrow> [1, 2]. length (st_todo s u) + (if st_alive u s then 1 else 0))"

lemma st_thread_effort:
  assumes inv: "st_inv s" and plan: "st_plan_inv s" and r: "st_thread_step t s = Some (Inr s')"
  shows "st_effort s' < st_effort s"
proof (cases "st_todo s t")
  case Nil
  then have t: "st_alive t s" and s': "s' = s\<lparr>st_local := tl_thread_exit t (st_local s), st_ended := insert t (st_ended s)\<rparr>"
    using r by (auto simp: st_thread_step_def st_alive_def split: if_splits)
  have "t = 0 \<or> t = 1 \<or> t = 2" using st_plan_started [OF plan, of t] t by (auto simp: st_alive_def)
  then show ?thesis using t by (elim disjE) (simp_all add: s' st_effort_def st_alive_def)
next
  case (Cons p ps)
  note h = st_head [OF plan Cons]
  define s1 where "s1 = s\<lparr>st_todo := (st_todo s)(t := ps), st_done := (st_done s)(t := st_done s t @ [p])\<rparr>"
  have r1: "st_effect t p s1 = Some (Inr s')" using r Cons by (simp add: st_thread_step_def s1_def)
  have t: "t = 0 \<or> t = 1 \<or> t = 2" using st_plan_started [OF plan, of t] Cons by auto
  have less: "st_effort s1 < st_effort s" "t = 0 \<Longrightarrow> st_effort s1 + 6 \<le> st_effort s"
    using t h(3) Cons by (auto simp: s1_def st_effort_def st_alive_def)
  consider (own) "p = St_print \<or> (\<exists>x. p = St_set x)" | (start) u where "p = St_start u" "t = 0" | (join) u where "p = St_join u" "t = 0"
    using h(1) by (cases p) auto
  then show ?thesis
  proof cases
    case own
    have "st_todo s' = st_todo s1 \<and> st_done s' = st_done s1 \<and> st_ended s' = st_ended s1"
      using st_effect_inv [OF inv h(3) own, of "(st_todo s)(t := ps)"] r1 by (auto simp: s1_def)
    then have "st_effort s' = st_effort s1" by (simp add: st_effort_def st_alive_def)
    then show ?thesis using less by simp
  next
    case start
    then have s': "s' = s1\<lparr>st_todo := (st_todo s1)(u := bound_func u)\<rparr>" using r1 by (simp add: st_effect_def)
    have u: "u \<noteq> 0" "St_start u \<notin> set (st_done s 0)" using h(2) [OF start(2,1)] by simp_all
    then have "st_todo s u = []" "st_done s u = []" using st_plan_of(2) [OF plan] by simp_all
    then have "st_effort s' \<le> st_effort s1 + 4"
      using u(1) start by (auto simp: s' s1_def st_effort_def st_alive_def bound_func_def thread_func_def)
    then show ?thesis using less(2) start(2) by simp
  next
    case join
    then have "s' = s1" using r1 by (simp add: st_effect_def split: if_splits)
    then show ?thesis using less by simp
  qed
qed

lemma main_joins_started:
  assumes "xs @ St_join u # ps = singleton_test_main"
  shows "u \<noteq> 0 \<and> St_start u \<in> set xs"
  using assms by (auto simp: singleton_test_main_def append_eq_Cons_conv)

lemma st_own_goes_on:
  assumes inv: "st_inv s" and plan: "st_plan_inv s" and t: "st_alive t s" "t \<noteq> 0"
  shows "\<exists>s'. st_step s s'"
proof -
  have "st_thread_step t s \<noteq> None"
  proof (cases "st_todo s t")
    case (Cons p ps)
    then have "p = St_print \<or> (\<exists>x. p = St_set x)" using st_head(1) [OF plan Cons] t(2) by simp
    then show ?thesis using Cons by (auto simp: st_thread_step_def st_effect_def)
  qed (use t in \<open>simp add: st_thread_step_def st_alive_def\<close>)
  then show ?thesis using st_thread_ok [OF inv plan, of t] st_thread [of t s] by fastforce
qed

lemma st_goes_on:
  assumes inv: "st_inv s" and plan: "st_plan_inv s" and "0 \<notin> st_ended s"
  shows "\<exists>s'. st_step s s'"
proof (cases "st_thread_step 0 s")
  case (Some r)
  then show ?thesis using st_thread_ok [OF inv plan Some] st_thread [of 0 s] by auto
next
  case None
  have all: "st_done s 0 @ st_todo s 0 = singleton_test_main" using plan by (simp add: st_plan_inv_def)
  then have "st_done s 0 \<noteq> [] \<or> st_todo s 0 \<noteq> []" by (auto simp: singleton_test_main_def)
  then obtain u ps where u: "st_todo s 0 = St_join u # ps" "u \<notin> st_ended s"
    using None assms(3) by (auto simp: st_thread_step_def st_effect_def split: list.splits st_op.splits if_splits)
  then have "u \<noteq> 0" "St_start u \<in> set (st_done s 0)" using main_joins_started [of "st_done s 0" u ps] all by simp_all
  then have "st_done s u @ st_todo s u \<noteq> []" using st_plan_of(1) [OF plan] by (simp add: bound_func_def thread_func_def)
  then have "st_alive u s" using u(2) by (simp add: st_alive_def)
  then show ?thesis using st_own_goes_on [OF inv plan] \<open>u \<noteq> 0\<close> by blast
qed

interpretation singleton_program: progress "\<lambda>s. st_inv s \<and> st_plan_inv s" st_step "\<lambda>s. 0 \<in> st_ended s" st_effort
proof unfold_locales
  fix s s'
  assume good: "st_inv s \<and> st_plan_inv s" and "st_step s s'"
  then obtain t where "st_thread_step t s = Some (Inr s')" by (auto elim: st_step.cases)
  then show "st_inv s' \<and> st_plan_inv s'" "st_effort s' < st_effort s" using good st_thread_ok st_thread_effort by fastforce+
next
  fix s
  assume "st_inv s \<and> st_plan_inv s" "0 \<notin> st_ended s"
  then show "\<exists>s'. st_step s s'" using st_goes_on by blast
qed

text \<open>
  Every thread has its own object: in every interleaving of the main thread and the two threads no fault occurs, and each thread has printed exactly what
  it prints when it runs alone, whatever the others put into theirs; the threads can always go on until the main thread has ended; and then
  it has printed its own name and each of the two first an empty string and then its own name.
\<close>

theorem singleton_test_prints:
  assumes "st_step\<^sup>*\<^sup>* singleton_test_start s"
  shows "(\<forall>t e. st_thread_step t s \<noteq> Some (Inl e)) \<and> (\<forall>t. st_printed s t = lines_alone (st_done s t) []) \<and>
    (\<exists>t. st_step\<^sup>*\<^sup>* s t \<and> 0 \<in> st_ended t) \<and>
    (0 \<in> st_ended s \<longrightarrow> st_printed s 0 = [''main one''] \<and> st_printed s 1 = [[], ''thread_1''] \<and> st_printed s 2 = [[], ''thread_2''])"
proof (intro conjI allI impI)
  have good: "st_inv s \<and> st_plan_inv s" using assms by (rule st_reach_ok)
  show "st_thread_step t s \<noteq> Some (Inl e)" for t e using good st_thread_ok by fastforce
  have lines: "st_printed s t = lines_alone (st_done s t) []" for t using good by (simp add: st_inv_def st_own_inv_def)
  then show "st_printed s t = lines_alone (st_done s t) []" for t .
  show "\<exists>t. st_step\<^sup>*\<^sup>* s t \<and> 0 \<in> st_ended t" using singleton_program.can_finish good by blast
  assume "0 \<in> st_ended s"
  then have d0: "st_done s 0 = singleton_test_main" using good by (auto simp: st_plan_inv_def)
  then have "u \<in> st_ended s" if "u \<in> {1, 2}" for u using good that by (auto simp: st_plan_inv_def singleton_test_main_def)
  then have d: "st_done s u = bound_func u" if "u \<in> {1, 2}" for u
    using good that d0 st_plan_of(1) [of s u] by (auto simp: st_plan_inv_def singleton_test_main_def)
  show "st_printed s 0 = [''main one'']" by (simp add: lines d0 singleton_test_main_def)
  show "st_printed s 1 = [[], ''thread_1'']" "st_printed s 2 = [[], ''thread_2'']"
    using d [of 1] d [of 2] by (simp_all add: lines bound_func_def thread_func_def)
qed

lemma singleton_test_prints_witness:
  "\<exists>s. st_step\<^sup>*\<^sup>* singleton_test_start s \<and> st_printed s 1 = [[], ''thread_1'']"
proof -
  obtain s where s: "st_step\<^sup>*\<^sup>* singleton_test_start s" "0 \<in> st_ended s"
    using singleton_test_prints [OF rtranclp.rtrancl_refl] by blast
  then show ?thesis using singleton_test_prints [OF s(1)] by blast
qed

end
