(* ===== verification/RN_TestTimestamp.thy ===== *)
theory RN_TestTimestamp
  imports RN_Timestamp
begin

text \<open>
  RN/base/tests/TimestampTest.cpp: the benchmark tallies the differences of successive readings of the clock. The readings and the text \<open>printf\<close> makes of a
  \<open>double\<close> are arguments; the stamps are those \<open>push_back\<close> collects, at least one.
\<close>

definition passByConstReference :: "timestamp \<Rightarrow> string" where
  "passByConstReference x = Timestamp_toString x"

definition passByValue :: "timestamp \<Rightarrow> string" where
  "passByValue x = Timestamp_toString x"

text \<open>The loop: \<open>start\<close>, the lines printed and \<open>increments\<close>; an index outside of the array is a fault.\<close>

record ts_tally =
  ta_start :: int
  ta_lines :: "string list"
  ta_increments :: "int list"

definition static_cast_int :: "int \<Rightarrow> int" where
  "static_cast_int x = (x + 2 ^ 31) mod 2 ^ 32 - 2 ^ 31"

definition tally_step :: "int \<Rightarrow> ts_tally \<Rightarrow> ts_tally result" where
  "tally_step next s =
     (let inc = next - ta_start s; s = s\<lparr>ta_start := next\<rparr> in
      if inc < 0 then Inr (s\<lparr>ta_lines := ta_lines s @ [''reverse!'']\<rparr>)
      else if inc < 100 then
        (if nat inc < length (ta_increments s)
         then Inr (s\<lparr>ta_increments := (ta_increments s)[nat inc := ta_increments s ! nat inc + 1]\<rparr>) else Inl OutOfRange)
      else Inr (s\<lparr>ta_lines := ta_lines s @ [''big gap '' @ fmt_d (static_cast_int inc)]\<rparr>))"

definition tally :: "timestamp list \<Rightarrow> ts_tally result" where
  "tally stamps = rfold tally_step (tl stamps) \<lparr>ta_start = hd stamps, ta_lines = [], ta_increments = replicate 100 0\<rparr>"

definition benchmark :: "(rat \<Rightarrow> rat) \<Rightarrow> (rat \<Rightarrow> string) \<Rightarrow> timestamp list \<Rightarrow> string list result" where
  "benchmark rnd fmt_f stamps =
     rbind (tally stamps) (\<lambda>s.
       Inr ([Timestamp_toString (hd stamps), Timestamp_toString (last stamps), fmt_f (timeDifference rnd (last stamps) (hd stamps))] @
            ta_lines s @ map (\<lambda>i. fmt_wd 2 (int i) @ '': '' @ fmt_d (ta_increments s ! i)) [0 ..< 100]))"

definition timestamp_test_main :: "(rat \<Rightarrow> rat) \<Rightarrow> (rat \<Rightarrow> string) \<Rightarrow> timestamp \<Rightarrow> timestamp list \<Rightarrow> string list result" where
  "timestamp_test_main rnd fmt_f now stamps =
     rbind (benchmark rnd fmt_f stamps) (\<lambda>lines. Inr ([Timestamp_toString now, passByValue now, passByConstReference now] @ lines))"

text \<open>What the tally is: the differences, counted.\<close>

fun differences :: "int list \<Rightarrow> int list" where
  "differences (x # y # ys) = (y - x) # differences (y # ys)"
| "differences _ = []"

definition gap_line :: "int \<Rightarrow> string list" where
  "gap_line d = (if d < 0 then [''reverse!''] else if d < 100 then [] else [''big gap '' @ fmt_d (static_cast_int d)])"

lemma static_cast_int_id: "- (2 ^ 31) \<le> x \<Longrightarrow> x < 2 ^ 31 \<Longrightarrow> static_cast_int x = x"
  by (simp add: static_cast_int_def)

lemma static_cast_int_signed: "static_cast_int x = signed_take_bit 31 x"
  by (simp add: static_cast_int_def signed_take_bit_eq_take_bit_shift take_bit_eq_mod)

lemma tally_loop:
  assumes "length incs = 100"
  shows "rfold tally_step xs \<lparr>ta_start = x, ta_lines = ls, ta_increments = incs\<rparr> =
    Inr \<lparr>ta_start = last (x # xs), ta_lines = ls @ concat (map gap_line (differences (x # xs))),
         ta_increments = map (\<lambda>i. incs ! i + int (count_list (differences (x # xs)) (int i))) [0 ..< 100]\<rparr>"
  using assms
proof (induction xs arbitrary: x ls incs)
  case Nil
  have "map (\<lambda>i. incs ! i) [0 ..< 100] = incs" using Nil by (metis map_nth)
  then show ?case by simp
next
  case (Cons y ys)
  define incs' where "incs' = (if 0 \<le> y - x \<and> y - x < 100 then incs[nat (y - x) := incs ! nat (y - x) + 1] else incs)"
  have len: "length incs' = 100" using Cons.prems by (simp add: incs'_def)
  have step: "tally_step y \<lparr>ta_start = x, ta_lines = ls, ta_increments = incs\<rparr> =
      Inr \<lparr>ta_start = y, ta_lines = ls @ gap_line (y - x), ta_increments = incs'\<rparr>"
    using Cons.prems by (auto simp: tally_step_def Let_def gap_line_def incs'_def)
  have "incs' ! i + int (count_list (differences (y # ys)) (int i)) = incs ! i + int (count_list (differences (x # y # ys)) (int i))"
    if "i < 100" for i
    using that Cons.prems by (auto simp: incs'_def nth_list_update)
  then show ?case using Cons.IH [OF len] step by simp
qed

text \<open>
  The tally is exact: whatever the clock reads, backwards included, no index is out of the array; each of the hundred counters is the number of
  differences equal to its index, each other difference has its line in order, and no reading is counted twice or lost.
\<close>

theorem tally_exact:
  "\<exists>s. tally stamps = Inr s \<and> ta_increments s = map (\<lambda>i. int (count_list (differences stamps) (int i))) [0 ..< 100] \<and>
     ta_lines s = concat (map gap_line (differences stamps)) \<and>
     sum_list (ta_increments s) + int (length (ta_lines s)) = int (length stamps) - (if stamps = [] then 0 else 1)"
proof -
  have total: "(\<Sum>i \<leftarrow> [0 ..< 100]. int (count_list ds (int i))) + int (length (concat (map gap_line ds))) = int (length ds)" for ds
  proof (induction ds)
    case (Cons d ds)
    have "(\<Sum>i \<leftarrow> [0 ..< 100]. int (count_list (d # ds) (int i))) =
        (\<Sum>i \<leftarrow> [0 ..< 100]. int (count_list ds (int i))) + (\<Sum>i \<leftarrow> [0 ..< 100]. if d = int i then 1 else 0)"
      by (simp only: sum_list_addf [symmetric] count_list.simps) (rule arg_cong [where f = sum_list], auto)
    moreover have "(\<Sum>i \<leftarrow> [0 ..< 100]. if d = int i then 1 else 0) = (if 0 \<le> d \<and> d < 100 then 1 else (0 :: int))"
    proof (cases "0 \<le> d \<and> d < 100")
      case True
      then have "(\<Sum>i \<leftarrow> [0 ..< 100]. if d = int i then 1 else (0 :: int)) = (\<Sum>i \<in> {0 ..< 100}. if i = nat d then 1 else 0)"
        unfolding sum_list_distinct_conv_sum_set [OF distinct_upt] set_upt by (intro sum.cong) auto
      then show ?thesis using True by (simp add: nat_less_iff)
    qed (auto simp: sum_list_distinct_conv_sum_set intro!: sum.neutral)
    ultimately show ?case using Cons.IH by (auto simp: gap_line_def)
  qed simp
  have len: "length (differences xs) = length xs - 1" for xs by (induction xs rule: differences.induct) simp_all
  show ?thesis
  proof (cases stamps)
    case Nil
    then show ?thesis using tally_loop [of "replicate 100 0" "[]"] total [of "[]"] by (simp add: tally_def map_replicate_const)
  next
    case (Cons x xs)
    have "map (\<lambda>i. replicate 100 0 ! i + int (count_list (differences stamps) (int i))) [0 ..< 100] =
        map (\<lambda>i. int (count_list (differences stamps) (int i))) [0 ..< 100]"
      by (rule map_cong) simp_all
    then have "tally stamps = Inr \<lparr>ta_start = last stamps, ta_lines = concat (map gap_line (differences stamps)),
        ta_increments = map (\<lambda>i. int (count_list (differences stamps) (int i))) [0 ..< 100]\<rparr>"
      using tally_loop [of "replicate 100 0" xs x "[]"] Cons unfolding tally_def by simp
    then show ?thesis using total [of "differences stamps"] len [of stamps] Cons by simp
  qed
qed

lemma tally_exact_witness: "\<exists>s. tally [5, 7, 7, 300, 299] = Inr s \<and> ta_lines s = [''big gap 293'', ''reverse!'']"
proof -
  have "concat (map gap_line (differences [5, 7, 7, 300, 299])) = [''big gap 293'', ''reverse!'']" by code_simp
  then show ?thesis using tally_exact [of "[5, 7, 7, 300, 299]"] by metis
qed

end
