(* ===== verification/RN_TestLogging.thy ===== *)
theory RN_TestLogging
  imports RN_Logging RN_LogFile RN_AsyncLogging
begin

text \<open>
  RN/base/tests/LoggingTest.cpp and Async.cpp: a benchmark logs numbered lines to nowhere, to a \<open>FILE\<close>, to a \<open>LogFile\<close> or to the
  asynchronous log. The clock's readings, the calendar and the answers to the writes are arguments; the numbers printed of the elapsed time are
  left out.
\<close>

subsection \<open>A log statement\<close>

text \<open>
  \<open>LOG_INFO\<close> in a place of the source (file, line, function) by a thread: the constructor that inserts the name of the function, the insertions
  \<open>ins\<close> and the destructor.
\<close>

record log_place =
  lp_gmtime :: "int \<Rightarrow> tm"
  lp_strerror :: "int \<Rightarrow> string"
  lp_tid :: string
  lp_file :: string
  lp_line :: int
  lp_func :: string

definition log_info ::
  "log_place \<Rightarrow> 'w log_globals \<Rightarrow> timestamp \<Rightarrow> (fixed_buffer \<Rightarrow> fixed_buffer) \<Rightarrow> time_cache \<times> 'w \<Rightarrow> (time_cache \<times> 'w) result" where
  "log_info p g time ins s =
     (let (tc, w) = s in
      if log_enabled (logLevel g) INFO then
        rbind (Logger_func (lp_gmtime p) (lp_strerror p) (lp_tid p) (length (lp_tid p)) time INFO (lp_file p) (lp_line p) (lp_func p) tc) (\<lambda>(tc, l).
        rbind (Logger_output g (l\<lparr>lg_stream := ins (lg_stream l)\<rparr>) w) (\<lambda>w. Inr (tc, w)))
      else Inr (tc, w))"

subsection \<open>The benchmarks\<close>

text \<open>The insertions of LoggingTest.cpp; \<open>longStr\<close> is chosen by the constant \<open>kLongLog\<close>, which is false.\<close>

definition longStr :: string where
  "longStr = replicate 3000 (CHR ''X'') @ '' ''"

definition bench_insertions :: "nat \<Rightarrow> fixed_buffer \<Rightarrow> fixed_buffer" where
  "bench_insertions i b =
     formatInteger (int i) (log_string '' '' (log_cstr (Some '' abcdefghijklmnopqrstuvwxyz'') (log_cstr (Some ''Hello 0123456789'') b)))"

definition bench ::
  "log_place \<Rightarrow> 'w log_globals \<Rightarrow> (nat \<Rightarrow> timestamp) \<Rightarrow> nat \<Rightarrow> time_cache \<times> 'w \<Rightarrow> (time_cache \<times> 'w) result" where
  "bench p g now n s = rfold (\<lambda>i. log_info p g (now i) (bench_insertions i)) [0 ..< n] s"

text \<open>The insertions of Async.cpp, where an argument of the program chooses.\<close>

definition async_insertions :: "bool \<Rightarrow> nat \<Rightarrow> fixed_buffer \<Rightarrow> fixed_buffer" where
  "async_insertions longLog cnt b =
     formatInteger (int cnt) (log_string (if longLog then longStr else '' '')
       (log_cstr (Some '' abcdefghijklmnopqrstuvwxyz '') (log_cstr (Some ''Hello 0123456789'') b)))"

definition async_bench ::
  "bool \<Rightarrow> log_place \<Rightarrow> 'w log_globals \<Rightarrow> (nat \<Rightarrow> timestamp) \<Rightarrow> time_cache \<times> 'w \<Rightarrow> (time_cache \<times> 'w) result" where
  "async_bench longLog p g now s =
     (let kBatch = 1000 in
      rfold (\<lambda>t. rfold (\<lambda>i. log_info p g (now (t * kBatch + i)) (async_insertions longLog (t * kBatch + i))) [0 ..< kBatch]) [0 ..< 30] s)"

definition asyncOutput :: "string \<Rightarrow> async_log \<Rightarrow> async_log result" where
  "asyncOutput msg g_asyncLog = al_append msg g_asyncLog"

text \<open>
  The output function of LoggingTest.cpp over \<open>g_total\<close>, the text written to \<open>g_file\<close> (if it is not null; \<open>fwrite\<close> takes all of it) and the
  \<open>LogFile\<close> of \<open>g_logFile\<close>. Its n-th append gets the n-th of the answers; None: an append did not return.
\<close>

record bench_world =
  g_total :: int
  g_file :: "string option"
  g_logFile :: "logfile option"
  dm_appends :: nat

definition dummyOutput :: "log_env \<Rightarrow> (nat \<Rightarrow> nat list \<times> bool \<times> flush_answer \<times> int \<times> int) \<Rightarrow> string \<Rightarrow> bench_world option \<Rightarrow> bench_world option result" where
  "dummyOutput env answers msg world =
     (case world of
        None \<Rightarrow> Inr None
      | Some w \<Rightarrow>
          (let w = w\<lparr>g_total := g_total w + int (length msg)\<rparr> in
           case (g_file w, g_logFile w) of
             (Some written, _) \<Rightarrow> Inr (Some (w\<lparr>g_file := Some (written @ msg)\<rparr>))
           | (None, None) \<Rightarrow> Inr (Some w)
           | (None, Some lf) \<Rightarrow>
               (let (ns, opened, out, t, now) = answers (dm_appends w) in
                case LogFile_append env ns opened out t now msg lf of
                  None \<Rightarrow> Inr None
                | Some r \<Rightarrow> rbind r (\<lambda>lf. Inr (Some (w\<lparr>g_logFile := Some lf, dm_appends := dm_appends w + 1\<rparr>))))))"

text \<open>What \<open>bench\<close> does before its loop: the output function is set and the total cleared.\<close>

definition bench_start ::
  "log_env \<Rightarrow> (nat \<Rightarrow> nat list \<times> bool \<times> flush_answer \<times> int \<times> int) \<Rightarrow> bench_world option log_globals \<Rightarrow> bench_world \<Rightarrow>
     bench_world option log_globals \<times> bench_world" where
  "bench_start env answers g w = (setOutputFunc (dummyOutput env answers) g, w\<lparr>g_total := 0\<rparr>)"

subsection \<open>The lines\<close>

definition place_ok :: "log_place \<Rightarrow> bool" where
  "place_ok p \<longleftrightarrow> (\<forall>s. tm_ok (lp_gmtime p s)) \<and> length (lp_tid p) < 100 \<and> length (SourceFile_data (lp_file p)) < 500 \<and>
     length (lp_func p) < 50 \<and> 0 \<le> lp_line p \<and> lp_line p < 2 ^ 31"

definition line_of :: "log_place \<Rightarrow> timestamp \<Rightarrow> string \<Rightarrow> string" where
  "line_of p time msg =
     log_prefix (lp_gmtime p) (lp_tid p) time INFO @ (lp_func p @ '' '' @ msg) @ '' - '' @ SourceFile_data (lp_file p) @ '':'' @ fmt_d (lp_line p) @ [CHR 0x0A]"

definition bench_message :: "nat \<Rightarrow> string" where
  "bench_message i = ''Hello 0123456789 abcdefghijklmnopqrstuvwxyz '' @ fmt_d (int i)"

definition async_message :: "bool \<Rightarrow> nat \<Rightarrow> string" where
  "async_message longLog i = ''Hello 0123456789 abcdefghijklmnopqrstuvwxyz '' @ (if longLog then longStr else '' '') @ fmt_d (int i)"

text \<open>Insertions that amount to one string.\<close>

definition inserts :: "(fixed_buffer \<Rightarrow> fixed_buffer) \<Rightarrow> string \<Rightarrow> bool" where
  "inserts ins msg \<longleftrightarrow> (\<forall>b. length msg + 40 < fb_avail b \<longrightarrow> ins b = log_string msg b)"

lemma length_fmt_nat: "i < 10 ^ 9 \<Longrightarrow> length (fmt_d (int i)) \<le> 10"
  using length_fmt_d [of 9 "int i"] by simp

lemma insert_fits: "length s < fb_avail b \<Longrightarrow> log_string s b = b\<lparr>fb_data := fb_data b @ s\<rparr>" "length s < fb_avail b \<Longrightarrow> log_cstr (Some s) b = b\<lparr>fb_data := fb_data b @ s\<rparr>"
  by (simp_all add: log_string_def log_cstr_def fb_append_def)

lemma avail_data [simp]: "fb_avail (b\<lparr>fb_data := fb_data b @ s\<rparr>) = fb_avail b - length s"
  by (simp add: fb_avail_def fb_length_def)

lemma insert_number: "kMaxNumericSize \<le> fb_avail b \<Longrightarrow> formatInteger i b = b\<lparr>fb_data := fb_data b @ fmt_d i\<rparr>"
  by (simp add: formatInteger_def fb_add_def convert_eq)

lemma length_longStr: "length longStr = 3001"
  by (simp add: longStr_def)

lemma inserts_bench: "i < 10 ^ 9 \<Longrightarrow> inserts (bench_insertions i) (bench_message i)"
  unfolding inserts_def bench_insertions_def bench_message_def
  by (auto simp: insert_fits insert_number kMaxNumericSize_def)

lemma inserts_async: "i < 10 ^ 9 \<Longrightarrow> inserts (async_insertions longLog i) (async_message longLog i)"
  unfolding inserts_def async_insertions_def async_message_def
  by (auto simp: insert_fits insert_number kMaxNumericSize_def length_longStr)

lemma length_messages:
  assumes "i < 10 ^ 9"
  shows "length (bench_message i) < 3100" and "length (async_message longLog i) < 3100"
  using length_fmt_nat [OF assms] by (simp_all add: bench_message_def async_message_def length_longStr)

text \<open>A statement hands its line to the output function.\<close>

lemma log_info_line:
  assumes p: "place_ok p" and tc: "cache_ok (lp_gmtime p) tc" and "1000000 \<le> time" and ins: "inserts ins msg" "length msg < 3100"
    and g: "g_logLevel g \<le> INFO"
  obtains tc' where "cache_ok (lp_gmtime p) tc'"
    and "\<And>w. log_info p g time ins (tc, w) = rbind (g_outputFunc g (line_of p time msg) w) (\<lambda>w. Inr (tc', w))"
proof -
  have tm: "\<And>s. tm_ok (lp_gmtime p s)" and tid: "length (lp_tid p) < 100" using p by (simp_all add: place_ok_def)
  obtain tc' where impl: "Logger_Impl (lp_gmtime p) (lp_strerror p) (lp_tid p) (length (lp_tid p)) time INFO 0 (lp_file p) (lp_line p) tc =
      Inr (tc', \<lparr>lg_stream = \<lparr>fb_size = 4000, fb_data = log_prefix (lp_gmtime p) (lp_tid p) time INFO\<rparr>, lg_level = INFO, lg_line = lp_line p,
                 lg_basename = SourceFile_data (lp_file p)\<rparr>)" "cache_ok (lp_gmtime p) tc'"
    using Logger_Impl_ok [OF tc assms(3) tm tid] by blast
  define l where "l = \<lparr>lg_stream = \<lparr>fb_size = 4000, fb_data = log_prefix (lp_gmtime p) (lp_tid p) time INFO\<rparr>, lg_level = INFO, lg_line = lp_line p,
    lg_basename = SourceFile_data (lp_file p)\<rparr>"
  define words where "words = lp_func p @ '' '' @ msg"
  have plain: "Logger_plain (lp_gmtime p) (lp_strerror p) (lp_tid p) (length (lp_tid p)) time INFO (lp_file p) (lp_line p) tc = Inr (tc', l)"
    using impl(1) by (simp add: Logger_plain_def l_def)
  have "length words + length (SourceFile_data (lp_file p)) < 3700" using p ins(2) by (simp add: place_ok_def words_def)
  then have d: "Logger_destroy (l\<lparr>lg_stream := log_string words (lg_stream l)\<rparr>) = (line_of p time msg, False, False)"
    using log_line_text [OF tc assms(3) tm tid, of words "lp_file p" "lp_line p" "lp_strerror p" INFO] p plain
    by (auto simp: line_of_def place_ok_def words_def)
  define b where "b = lg_stream l"
  have avail: "3868 < fb_avail b"
    using tid length_time_text [OF tm] length_LogLevelName by (simp add: log_prefix_def b_def l_def fb_avail_def fb_length_def)
  have fl: "length (lp_func p) < 50" using p by (simp add: place_ok_def)
  have func: "log_char (CHR '' '') (log_cstr (Some (lp_func p)) b) = b\<lparr>fb_data := fb_data b @ lp_func p @ '' ''\<rparr>"
    using p avail by (auto simp: insert_fits place_ok_def log_char_def fb_append_def)
  have "log_string words b = b\<lparr>fb_data := fb_data b @ words\<rparr>"
    by (rule insert_fits(1)) (use p ins(2) avail in \<open>simp add: words_def place_ok_def\<close>)
  moreover have room: "length msg + 40 < fb_avail (b\<lparr>fb_data := fb_data b @ lp_func p @ '' ''\<rparr>)" using ins(2) fl avail by (auto simp: less_diff_conv)
  then have "ins (b\<lparr>fb_data := fb_data b @ lp_func p @ '' ''\<rparr>) = log_string msg (b\<lparr>fb_data := fb_data b @ lp_func p @ '' ''\<rparr>)"
    using ins(1) by (simp add: inserts_def)
  moreover have "log_string msg (b\<lparr>fb_data := fb_data b @ lp_func p @ '' ''\<rparr>) = b\<lparr>fb_data := (fb_data b @ lp_func p @ '' '') @ msg\<rparr>"
    using insert_fits(1) [of msg "b\<lparr>fb_data := fb_data b @ lp_func p @ '' ''\<rparr>"] room by simp
  ultimately have "ins (log_char (CHR '' '') (log_cstr (Some (lp_func p)) (lg_stream l))) = log_string words (lg_stream l)"
    unfolding b_def [symmetric] func by (simp add: words_def)
  then have "log_info p g time ins (tc, w) = rbind (g_outputFunc g (line_of p time msg) w) (\<lambda>w. Inr (tc', w))" for w
    using plain d g by (simp add: log_info_def log_enabled_def logLevel_def Logger_func_def Logger_plain_def Logger_output_def rbind_assoc)
  then show ?thesis using that impl(2) by blast
qed

text \<open>A run of statements hands their lines to the output function, in order.\<close>

lemma log_infos_lines:
  assumes p: "place_ok p" and g: "g_logLevel g \<le> INFO"
    and ms: "\<forall>i \<in> set js. 1000000 \<le> now i \<and> inserts (ins i) (msg i) \<and> length (msg i) < 3100"
  shows "cache_ok (lp_gmtime p) tc \<Longrightarrow> \<exists>tc'. cache_ok (lp_gmtime p) tc' \<and>
    (\<forall>w. rfold (\<lambda>i. log_info p g (now i) (ins i)) js (tc, w) =
      rbind (rfold (g_outputFunc g) (map (\<lambda>i. line_of p (now i) (msg i)) js) w) (\<lambda>w. Inr (tc', w)))"
  using ms
proof (induction js arbitrary: tc)
  case (Cons i js)
  obtain tc1 where tc1: "cache_ok (lp_gmtime p) tc1"
    "\<And>w. log_info p g (now i) (ins i) (tc, w) = rbind (g_outputFunc g (line_of p (now i) (msg i)) w) (\<lambda>w. Inr (tc1, w))"
    using log_info_line [OF p Cons.prems(1) _ _ _ g, of "now i" "ins i" "msg i"] Cons.prems(2) by auto
  obtain tc' where tc': "cache_ok (lp_gmtime p) tc'"
    "\<And>w. rfold (\<lambda>i. log_info p g (now i) (ins i)) js (tc1, w) =
      rbind (rfold (g_outputFunc g) (map (\<lambda>i. line_of p (now i) (msg i)) js) w) (\<lambda>w. Inr (tc', w))"
    using Cons.IH [OF tc1(1)] Cons.prems(2) by auto
  then show ?case using tc1(2) by (auto simp: rbind_assoc intro!: exI [of _ tc'])
qed auto

lemma bench_lines:
  assumes "place_ok p" and "cache_ok (lp_gmtime p) tc" and "g_logLevel g \<le> INFO" and "\<forall>i. 1000000 \<le> now i" and "n \<le> 10 ^ 9"
  obtains tc' where "\<And>w. bench p g now n (tc, w) =
    rbind (rfold (g_outputFunc g) (map (\<lambda>i. line_of p (now i) (bench_message i)) [0 ..< n]) w) (\<lambda>w. Inr (tc', w))"
proof -
  have "\<forall>i \<in> set [0 ..< n]. 1000000 \<le> now i \<and> inserts (bench_insertions i) (bench_message i) \<and> length (bench_message i) < 3100"
    using assms(4,5) inserts_bench length_messages(1) by simp
  from log_infos_lines [OF assms(1,3) this assms(2)] show ?thesis using that unfolding bench_def by blast
qed

text \<open>The nested loops of Async.cpp are one loop.\<close>

lemma rfold_map_at: "rfold (\<lambda>i. f (g i)) xs s = rfold f (map g xs) s"
  by (induction xs arbitrary: s) (auto intro!: rbind_cong)

lemma rfold_map: "rfold (\<lambda>i. f (g i)) xs = rfold f (map g xs)"
  by (rule ext) (rule rfold_map_at)

lemma rfold_single: "rfold f [x] = f x"
proof
  show "rfold f [x] s = f x s" for s by (cases "f x s") simp_all
qed

lemma rfold_batches:
  "rfold (\<lambda>t. rfold (\<lambda>i. f (t * k + i)) [0 ..< k]) [0 ..< n] = rfold f [0 ..< n * k]"
proof (induction n)
  case (Suc n)
  define F where "F t = rfold (\<lambda>i. f (t * k + i)) [0 ..< k]" for t
  have "map (\<lambda>i. n * k + i) [0 ..< k] = [n * k ..< n * k + k]" using map_add_upt [of "n * k" k] by (simp add: add.commute)
  then have F: "F n = rfold f [n * k ..< n * k + k]" using rfold_map [of f "\<lambda>i. n * k + i" "[0 ..< k]"] by (simp only: F_def)
  have FF: "F = (\<lambda>t. rfold (\<lambda>i. f (t * k + i)) [0 ..< k])" by (rule ext) (rule F_def)
  then have IH: "rfold F [0 ..< n] = rfold f [0 ..< n * k]" using Suc.IH by (simp only:)
  have "rfold F [0 ..< Suc n] s = rfold f [0 ..< Suc n * k] s" for s
  proof -
    have "rfold F [0 ..< Suc n] s = rbind (rfold F [0 ..< n] s) (rfold F [n])" using rfold_append [of F "[0 ..< n]" "[n]"] by simp
    also have "\<dots> = rbind (rfold f [0 ..< n * k] s) (rfold f [n * k ..< n * k + k])"
      by (simp only: rfold_single F IH)
    also have "\<dots> = rfold f ([0 ..< n * k] @ [n * k ..< n * k + k]) s" by (rule rfold_append [symmetric])
    also have "[0 ..< n * k] @ [n * k ..< n * k + k] = [0 ..< Suc n * k]" using upt_add_eq_append [of 0 "n * k" k] by (simp add: add.commute)
    finally show ?thesis .
  qed
  then show ?case unfolding FF [symmetric] by (rule ext)
qed (simp add: fun_eq_iff)

subsection \<open>Where the lines go\<close>

definition bench_texts :: "log_place \<Rightarrow> (nat \<Rightarrow> timestamp) \<Rightarrow> nat \<Rightarrow> string list" where
  "bench_texts p now n = map (\<lambda>i. line_of p (now i) (bench_message i)) [0 ..< n]"

lemma dummy_to_file:
  "g_file w = Some t \<Longrightarrow> rfold (dummyOutput env answers) ls (Some w) =
     Inr (Some (w\<lparr>g_total := g_total w + int (length (concat ls)), g_file := Some (t @ concat ls)\<rparr>))"
  by (induction ls arbitrary: w t) (simp_all add: dummyOutput_def Let_def add.assoc)

lemma dummy_to_nowhere:
  "g_file w = None \<Longrightarrow> g_logFile w = None \<Longrightarrow> rfold (dummyOutput env answers) ls (Some w) =
     Inr (Some (w\<lparr>g_total := g_total w + int (length (concat ls))\<rparr>))"
  by (induction ls arbitrary: w) (simp_all add: dummyOutput_def Let_def add.assoc)

lemma dummy_stuck: "rfold (dummyOutput env answers) ls None = Inr None"
  by (induction ls) (simp_all add: dummyOutput_def)

lemma dummy_logFile_step:
  assumes "g_file w = None" and "g_logFile w = Some lf" and "answers (dm_appends w) = (ns, opened, out, t, now)"
  shows "dummyOutput env answers l (Some w) =
    (case LogFile_append env ns opened out t now l lf of
       None \<Rightarrow> Inr None
     | Some r \<Rightarrow> rbind r (\<lambda>lf. Inr (Some (w\<lparr>g_total := g_total w + int (length l), g_logFile := Some lf, dm_appends := dm_appends w + 1\<rparr>))))"
  using assms by (cases "LogFile_append env ns opened out t now l lf") (simp_all add: dummyOutput_def Let_def)

lemma dummy_to_logFile:
  assumes "\<And>k. snd (snd (snd (snd (answers k)))) < horizon"
  shows "g_file w = None \<Longrightarrow> g_logFile w = Some lf \<Longrightarrow> lf_inv env horizon lf \<Longrightarrow> rfold (dummyOutput env answers) ls (Some w) = Inr (Some w') \<Longrightarrow>
    g_total w' = g_total w + int (length (concat ls)) \<and> (\<exists>lf'. g_logFile w' = Some lf' \<and> lf_inv env horizon lf' \<and> lf_text lf' = lf_text lf @ concat ls)"
proof (induction ls arbitrary: w lf)
  case (Cons l ls)
  obtain ns opened out t now where a: "answers (dm_appends w) = (ns, opened, out, t, now)" by (metis prod_cases5)
  have now: "now < horizon" using assms [of "dm_appends w"] a by simp
  obtain lf1 where lf1: "LogFile_append env ns opened out t now l lf = Some (Inr lf1)"
    and rest: "rfold (dummyOutput env answers) ls
      (Some (w\<lparr>g_total := g_total w + int (length l), g_logFile := Some lf1, dm_appends := dm_appends w + 1\<rparr>)) = Inr (Some w')"
    using Cons.prems(4) dummy_logFile_step [where w = w and answers = answers and env = env and l = l, OF Cons.prems(1,2) a]
    by (auto simp: dummy_stuck rbind_eq_Inr_iff split: option.splits)
  have "lf_inv env horizon lf1 \<and> lf_text lf1 = lf_text lf @ l"
    using append_unlocked_keeps [of env ns opened out t now l lf lf1 horizon] lf1 Cons.prems(3) now by (simp add: LogFile_append_unlocked)
  then show ?case using Cons.IH [OF _ _ _ rest] Cons.prems(1) by fastforce
qed simp

text \<open>
  The benchmark of LoggingTest.cpp: with the level at INFO or below, any sane clock and any number of statements up to a thousand million, no assertion of the
  logger fails, and every statement's whole line arrives, in order: written to the file if there is one, otherwise, when the appends return, in the log
  file across its rolls; the total is the number of bytes of the lines in every case.
\<close>

theorem bench_delivers:
  assumes p: "place_ok p" and tc: "cache_ok (lp_gmtime p) tc" and g: "g_logLevel g0 \<le> INFO" and now: "\<forall>i. 1000000 \<le> now i" and n: "n \<le> 10 ^ 9"
    and start: "bench_start env answers g0 w0 = (g, w)"
  shows "g_file w0 = Some t \<longrightarrow>
      (\<exists>tc'. bench p g now n (tc, Some w) = Inr (tc', Some (w\<lparr>g_total := int (length (concat (bench_texts p now n))), g_file := Some (t @ concat (bench_texts p now n))\<rparr>)))"
    and "g_file w0 = None \<and> g_logFile w0 = None \<longrightarrow>
      (\<exists>tc'. bench p g now n (tc, Some w) = Inr (tc', Some (w\<lparr>g_total := int (length (concat (bench_texts p now n)))\<rparr>)))"
    and "g_file w0 = None \<and> g_logFile w0 = Some lf \<and> lf_inv env horizon lf \<and> (\<forall>k. snd (snd (snd (snd (answers k)))) < horizon) \<and>
        bench p g now n (tc, Some w) = Inr (tc1, Some w') \<longrightarrow>
      g_total w' = int (length (concat (bench_texts p now n))) \<and>
      (\<exists>lf'. g_logFile w' = Some lf' \<and> lf_text lf' = lf_text lf @ concat (bench_texts p now n))"
proof -
  have s: "g_outputFunc g = dummyOutput env answers" "g_logLevel g \<le> INFO" "w = w0\<lparr>g_total := 0\<rparr>"
    using start g by (auto simp: bench_start_def setOutputFunc_def)
  obtain tc' where b: "\<And>w. bench p g now n (tc, w) = rbind (rfold (dummyOutput env answers) (bench_texts p now n) w) (\<lambda>w. Inr (tc', w))"
    using bench_lines [OF p tc s(2) now n] unfolding s(1) bench_texts_def by blast
  show "g_file w0 = Some t \<longrightarrow>
      (\<exists>tc'. bench p g now n (tc, Some w) = Inr (tc', Some (w\<lparr>g_total := int (length (concat (bench_texts p now n))), g_file := Some (t @ concat (bench_texts p now n))\<rparr>)))"
    using dummy_to_file [of w t env answers "bench_texts p now n"] by (simp add: b s(3))
  show "g_file w0 = None \<and> g_logFile w0 = None \<longrightarrow>
      (\<exists>tc'. bench p g now n (tc, Some w) = Inr (tc', Some (w\<lparr>g_total := int (length (concat (bench_texts p now n)))\<rparr>)))"
    using dummy_to_nowhere [of w env answers "bench_texts p now n"] by (simp add: b s(3))
  show "g_file w0 = None \<and> g_logFile w0 = Some lf \<and> lf_inv env horizon lf \<and> (\<forall>k. snd (snd (snd (snd (answers k)))) < horizon) \<and>
        bench p g now n (tc, Some w) = Inr (tc1, Some w') \<longrightarrow>
      g_total w' = int (length (concat (bench_texts p now n))) \<and>
      (\<exists>lf'. g_logFile w' = Some lf' \<and> lf_text lf' = lf_text lf @ concat (bench_texts p now n))"
    using dummy_to_logFile [of answers horizon w lf env "bench_texts p now n" w'] by (auto simp: b s(3) rbind_eq_Inr_iff)
qed

definition noon_place :: log_place where
  "noon_place = \<lparr>lp_gmtime = noon, lp_strerror = (\<lambda>_. []), lp_tid = ''  123 '', lp_file = ''src/RN/base/tests/LoggingTest.cpp'', lp_line = 29, lp_func = ''bench''\<rparr>"

definition info_globals :: "bench_world option log_globals" where
  "info_globals = \<lparr>g_outputFunc = \<lambda>_. Inr, g_flushFunc = Inr, g_logLevel = INFO\<rparr>"

definition empty_file :: bench_world where
  "empty_file = \<lparr>g_total = 7, g_file = Some [], g_logFile = None, dm_appends = 0\<rparr>"

lemma bench_delivers_witness:
  "\<exists>g w tc' w'. bench_start january_env (\<lambda>_. ([], True, Written_out, 0, 0)) info_globals empty_file = (g, w) \<and>
     bench noon_place g (\<lambda>_. 5000007) 2 (\<lparr>t_time = [], t_lastSecond = 0\<rparr>, Some w) = Inr (tc', Some w') \<and>
     g_file w' = Some (line_of noon_place 5000007 (bench_message 0) @ line_of noon_place 5000007 (bench_message 1))"
proof -
  obtain g w where gw: "bench_start january_env (\<lambda>_. ([], True, Written_out, 0, 0)) info_globals empty_file = (g, w)" by fastforce
  have p: "place_ok noon_place" using noon_ok by (simp add: place_ok_def noon_place_def SourceFile_data_def)
  have c: "cache_ok (lp_gmtime noon_place) \<lparr>t_time = [], t_lastSecond = 0\<rparr>" by (simp add: cache_ok_def)
  have g: "g_logLevel info_globals \<le> INFO" by (simp add: info_globals_def)
  have n: "\<forall>i :: nat. 1000000 \<le> (5000007 :: int)" "(2 :: nat) \<le> 10 ^ 9" by simp_all
  have "g_file empty_file = Some []" by (simp add: empty_file_def)
  then have "\<exists>tc'. bench noon_place g (\<lambda>_. 5000007) 2 (\<lparr>t_time = [], t_lastSecond = 0\<rparr>, Some w) =
      Inr (tc', Some (w\<lparr>g_total := int (length (concat (bench_texts noon_place (\<lambda>_. 5000007) 2))),
        g_file := Some ([] @ concat (bench_texts noon_place (\<lambda>_. 5000007) 2))\<rparr>))"
    using bench_delivers(1) [OF p c g n gw] by blast
  then show ?thesis using gw by (auto simp: bench_texts_def numeral_2_eq_2)
qed

text \<open>
  Async.cpp: the thirty batches hand thirty thousand lines to the asynchronous log, and in every interleaving of these appends with its thread in which no
  round is overloaded, what the thread has written followed by what its buffers hold is those lines, in order, each once and whole.
\<close>

definition async_texts :: "bool \<Rightarrow> log_place \<Rightarrow> (nat \<Rightarrow> timestamp) \<Rightarrow> string list" where
  "async_texts longLog p now = map (\<lambda>i. line_of p (now i) (async_message longLog i)) [0 ..< 30000]"

definition appended :: "al_action list \<Rightarrow> string list" where
  "appended as = concat (map (\<lambda>a. case a of Al_append m \<Rightarrow> [m] | _ \<Rightarrow> []) as)"

lemma appends_whole: "\<forall>m \<in> set (appended as). length m < kLargeBuffer \<Longrightarrow> concat (map al_appends as) = concat (appended as)"
  by (induction as) (auto simp: appended_def al_appends_def kept_def split: al_action.splits)

lemma async_bench_lines:
  assumes "place_ok p" and "cache_ok (lp_gmtime p) tc" and "g_logLevel g \<le> INFO" and "\<forall>i. 1000000 \<le> now i"
  shows "\<exists>tc'. \<forall>w. async_bench longLog p g now (tc, w) = rbind (rfold (g_outputFunc g) (async_texts longLog p now) w) (\<lambda>w. Inr (tc', w))"
proof -
  have "\<forall>i \<in> set [0 ..< 30000]. 1000000 \<le> now i \<and> inserts (async_insertions longLog i) (async_message longLog i) \<and> length (async_message longLog i) < 3100"
    using assms(4) inserts_async length_messages(2) by simp
  from log_infos_lines [OF assms(1,3) this assms(2)] show ?thesis
    using rfold_batches [of "\<lambda>i. log_info p g (now i) (async_insertions longLog i)" 1000 30] by (auto simp: async_bench_def async_texts_def Let_def)
qed

lemma length_line: "place_ok p \<Longrightarrow> length msg < 3100 \<Longrightarrow> length (line_of p time msg) < 3850"
proof -
  assume p: "place_ok p" and "length msg < 3100"
  moreover have "length (fmt_d (lp_line p)) \<le> 20" using p length_convert [of "lp_line p"] by (simp add: convert_eq place_ok_def)
  moreover have "length (time_text (lp_gmtime p) time) = 26" using p by (intro length_time_text) (simp add: place_ok_def)
  ultimately show ?thesis using length_LogLevelName [of INFO] by (simp add: line_of_def log_prefix_def place_ok_def)
qed

theorem async_bench_logged:
  assumes "place_ok p" and "cache_ok (lp_gmtime p) tc" and "g_logLevel g \<le> INFO" and "\<forall>i. 1000000 \<le> now i"
    and "g_outputFunc g = asyncOutput"
  shows "(\<exists>tc'. \<forall>w. async_bench longLog p g now (tc, w) = rbind (rfold asyncOutput (async_texts longLog p now) w) (\<lambda>w. Inr (tc', w))) \<and>
    (appended as = async_texts longLog p now \<and> al_no_drop as (AsyncLogging_new secs) \<longrightarrow>
      (\<exists>s. al_run as (AsyncLogging_new secs) = Inr s \<and> concat (al_written s) @ al_pending s = concat (async_texts longLog p now)))"
proof
  show "\<exists>tc'. \<forall>w. async_bench longLog p g now (tc, w) = rbind (rfold asyncOutput (async_texts longLog p now) w) (\<lambda>w. Inr (tc', w))"
    using async_bench_lines [OF assms(1-4)] assms(5) by simp
  have "length m < kLargeBuffer" if m: "m \<in> set (async_texts longLog p now)" for m
  proof -
    obtain i where i: "i < 30000" "m = line_of p (now i) (async_message longLog i)" using m unfolding async_texts_def set_map set_upt by fastforce
    then have "length (async_message longLog i) < 3100" by (intro length_messages(2)) simp
    from length_line [OF assms(1) this, of "now i"] show ?thesis by (simp add: i(2) kLargeBuffer_def)
  qed
  then show "appended as = async_texts longLog p now \<and> al_no_drop as (AsyncLogging_new secs) \<longrightarrow>
      (\<exists>s. al_run as (AsyncLogging_new secs) = Inr s \<and> concat (al_written s) @ al_pending s = concat (async_texts longLog p now))"
    using al_run_spec [OF AsyncLogging_new_inv(1), of as secs] AsyncLogging_new_inv(2) [of secs] appends_whole [of as]
    by (auto simp: AsyncLogging_new_def)
qed

end
