(* ===== verification/Spec2Isabelle.thy ===== *)
theory Spec2Isabelle
  imports RN_LoopSteps RN_TcpConnection RN_CrossThread RN_ConnectionLoop RN_TestServers RN_LogStreamTest RN_TcpServer RN_Logging RN_LogDurable RN_AsyncLogging RN_StringPiece RN_Thread RN_BlockingQueue RN_ThreadPool
    RN_EventLoopThread RN_ThreadLocal RN_TestLoops RN_TestFunctors RN_TestCrossThread RN_TestAcceptors
    RN_PollerSpec RN_TestQueue RN_TestPool RN_TestMutex RN_TestThreads RN_TestTimestamp RN_TestLogging
begin

text \<open>
  ReviveNetwork (src/RN): a network library in the reactor style, with the thread, logging and file utilities it stands on. This development
  models both directories of the library, src/RN/net and src/RN/base, operation by operation, and proves what makes each component correct, and,
  where the code departs from what it means to do, what it does instead.

  \<^bold>\<open>The program.\<close> A server runs event loops, one per thread. A loop (net/EventLoop) owns a poller (net/Poller) over the \<open>pollfd\<close> array, a
  timer queue (net/TimerQueue) over a timer descriptor, a wake-up descriptor (net/IOWakeupTrigger) and a queue of functors, the only part other threads
  touch. A channel (net/Channel) ties a descriptor to its interest bits and callbacks; \<open>poll\<close> stores the events in the channels and the loop lets
  each of them dispatch. The acceptor and the server (net/Acceptor, net/TcpServer) take connections and deal them out to the loops of a pool
  (net/EventLoopThreadPool, net/EventLoopThread); a connection (net/TcpConnection) reads into and writes from two buffers (net/Buffer). Below are
  mutexes, conditions, latches, atomics, threads, queues and pools (base/Mutex, Condition, CountDownLatch, Atomic, Thread, BlockingQueue, ThreadPool,
  Singleton, ThreadLocal, ThreadLocalSingleton). A log statement (base/Logging) composes a line in a fixed buffer (base/LogStream) and hands it to an output
  function, typically the asynchronous log (base/AsyncLogging), whose thread writes rolling files (base/LogFile over base/FileUtil).

  \<^bold>\<open>Theories.\<close> Each theory follows its sources: the state as a record with the fields of the class, the operations in the order of the file, then the
  invariant, the lemmas and the properties.
    \<^item> RN_Prelude: faults (a failed assertion, an abort, an access out of bounds, the call of an empty function) as the left side of \<open>result\<close>, and
      their sequencing \<open>rbind\<close>, \<open>rassert\<close>, \<open>rfold\<close>; C++ division; block copies. RN_Printf: the conversions of \<open>snprintf\<close>.
    \<^item> RN_Mailbox: the locale \<open>mailbox\<close>, a hand-over in order between threads, instantiated by the functor queue and both entries of the blocking
      queue. RN_Buffer declares the locale \<open>byte_store\<close>, what a connection relies on in its output buffer, and instantiates it.
    \<^item> RN_Buffer, RN_Channel, RN_Poller, RN_TimerQueue, RN_EventLoop, RN_Sockets (SocketsOps, Socket, InetAddress), RN_TcpConnection, RN_CrossThread
      (a connection used from another thread), RN_TcpServer (TcpServer, Acceptor, EventLoopThreadPool), RN_EventLoopThread: the directory net.
    \<^item> RN_Timestamp, RN_StringPiece, RN_LogStream, RN_Logging, RN_FileUtil, RN_ProcessInfo, RN_LogFile, RN_LogDurable, RN_AsyncLogging, RN_Sync (Mutex, Condition,
      CountDownLatch, Atomic), RN_BlockingQueue, RN_ThreadPool, RN_Thread (Thread, CurrentThread), RN_ThreadLocal (Singleton, ThreadLocal,
      ThreadLocalSingleton): the directory base.
    \<^item> RN_LoopSteps: the functions of RN_EventLoop as runs of its step relation, whatever user code does to the loop through its own thread, and what follows: every
      functor handed over gets run.
    \<^item> RN_ConnectionLoop: a connection driven by the iterations of its loop, from the poll through its channel to its handlers.
    \<^item> RN_TestServers: how output drains, and the servers of net/testConnection.cpp and net/testCharGen.cpp as clients of a connection.
      RN_LoopProgram: the locale \<open>loop_program\<close>, what the callbacks of a program keep and the whole of \<open>loop\<close> therefore keeps, and the more general
      \<open>loop_reads\<close>, where it may depend on the read callbacks made, which are those the polls report; instantiated by RN_TestLoops, RN_TestFunctors, RN_TestCrossThread and RN_TestAcceptors, the programs net/test.cpp, test2.cpp, test3.cpp and test7.cpp. RN_Interest: the types of the event
      flags. RN_PollerSpec: the poller without its array, which the one of the code refines. RN_LogStreamTest: the unit tests base/tests/LogStreamTest.cpp, executed on the model.
    \<^item> RN_Progress: the locale \<open>progress\<close>, a program of several threads that can neither block nor run for ever, instantiated by RN_TestQueue, RN_TestPool,
      RN_TestMutex and RN_TestThreads: BlockQueueTest, ThreadPoolTest, MutexTest, ThreadSingletonTest (and ThreadTest, which is sequential) of base/tests. What is left
      to do is a number that every step of a thread lowers; it bounds the runs. RN_TestTimestamp, RN_TestLogging: the benchmarks TimestampTest, LoggingTest and Async.
    \<^item> This theory: what spans logging, the asynchronous log and the log files.

  \<^bold>\<open>How the code is read.\<close>
    \<^item> What is not under src/ is an argument: the clock, the calendar (\<open>gmtime_r\<close>), the answers of system calls and of the C library (\<open>poll\<close>,
      \<open>write\<close>, \<open>readv\<close>, \<open>accept\<close>, \<open>fwrite\<close>, \<open>fflush\<close>, \<open>fclose\<close>, \<open>pthread_create\<close>, ...), the rounding of doubles, the text of a double, and the
      callbacks of the user, which are functions on the component's state. A theorem that depends on what they do says so by a predicate: \<open>keeping\<close> (a close callback
      that leaves the connection alone), \<open>discreet_complete\<close> (such a completion callback, or none), \<open>behaving\<close> (a connection callback that may send and shut down while
      the connection is up), \<open>own_env\<close> (functors and handlers that touch their loop through its own operations only).
    \<^item> Objects that are shared through pointers live in heaps: channels and timers at addresses; a null pointer is address 0 or an option.
    \<^item> Assertions are those of the Debug build, the default of the root CMakeLists.txt. Where an assertion has an effect (the assignment in
      \<open>TcpConnection::handleClose\<close>) the build is an argument.
    \<^item> Concurrency is the interleaving of atomic steps: critical sections under a mutex, or, where the code forgets the lock or a wait is in the
      middle, the parts between them. Such components have a step relation or an executable list of actions, and their theorems speak of every
      reachable state or of every list. A condition is the set or the number of its sleeping threads; spurious wake-ups are steps.
    \<^item> Integers keep their width where that matters: event flags, ports, byte order, the atomics and the integer overloads of the stream are words;
      the conversion loops, sizes and times are integers or naturals with the ranges as hypotheses where the result depends on them.
    \<^item> Loops: structural recursion over what drives them (the inputs of the kernel, the answers, the active channels); \<open>loop_while\<close> consumes one
      input per iteration and tells returning from still waiting, so that no fuel is chosen; retry loops that may never end return an option,
      and when they return is a theorem (\<open>append_whole_or_never\<close>); digit loops have termination proofs. The one bound is \<open>depth\<close> in
      \<open>chargen_cbs\<close>, the size of the stack in nested calls, and \<open>chargen_recursion\<close> says for which depth the result is an overflow.

  \<^bold>\<open>What is shown.\<close>
    \<^item> Loop: functors run in the order of submission, each once, in every interleaving; no submission, and no \<open>quit\<close> since the loop was entered, is slept
      over, and every functor is run; \<open>loop()\<close> and \<open>doPendingFunctors\<close> are runs of the step relation. As the code is wired (the wake-up handler is a write callback) the
      descriptor is never drained. An own functor, or a \<open>quit\<close>, from before \<open>loop\<close> is slept over.
    \<^item> Poller: slots, map and channel indices agree after any sequence of updates and removals; a removal moves only the last slot; every channel has one of four sets of
      flags and its slot, unless muted, asks for that set; the whole refines a map with wants and mutes, and what is muted stays so until removed; a poll marks and reports exactly the channels the kernel marked. Channel: the dispatch in the code's order.
    \<^item> Timers: the set is ordered, a timer event runs exactly the due timers in order, puts the repeating ones back and rearms; the armed
      time has its microseconds in the place of nanoseconds.
    \<^item> Connection: with one message in flight at a time the wire and the output buffer are the messages in order, whatever the partial writes and
      errors; half-close follows all output; the life from connecting to destroyed; a send from another thread is the send in the loop; pending
      output drains through the iterations of the loop; an event that ends the connection closes it once and writes nothing (a hang-up with POLLPRI or POLLRDHUP closes it twice); what a read delivers; what overlapping sends and shutdowns destroy; a completion callback that sends again recurses. Buffer: no operation faults within its precondition; what \<open>append\<close> does to unread bytes.
    \<^item> Server: a connection is created, established, registered, removed and destroyed each in the thread the code means it to be; names; a close
      callback of the user's takes the place of the server's own, and its connections stay registered.
    \<^item> Programs: test.cpp counts its twenty messages and returns; test2.cpp prints its flags in the order the two ways of handing over a functor give;
      in test3.cpp what another thread hands over runs in the loop's thread, and the destructor at the end of \<open>main\<close> calls \<open>quit\<close> on the loop that is gone; test7.cpp accepts,
      greets and closes one connection for every report on a listening descriptor. The tests of base: the
      queue test takes all its strings in order and stops every worker, the pool test runs every task before the stop, no push under the mutex is lost, each thread
      prints what it put into its own object, the clock's differences are tallied exactly, and every benchmark line arrives whole and in order; each of the
      threaded ones for any numbers of threads and elements, and with the proof that it ends.
    \<^item> Synchronisation: mutual exclusion and the holder, the latch, the queue and the pool lose no element and no wake-up; what a stopped pool drops;
      the hand-over of \<open>EventLoopThread\<close> can hang, and its destructor can meet a dead loop; per-thread singletons.
    \<^item> Logging: conversions against decimal and hexadecimal reference functions, the complete line of every kind of statement, the time cache, the asynchronous log's
      order and its stop, rolling files in the order of their names and what of them is durable, also when a flush or a close fails; and below, from the statement to the disk.

  \<^bold>\<open>Not modelled.\<close> \<open>TimerQueue::remove\<close> (unfinished in the source), Connector (every body is empty), BoundedBlockingQueue (cannot be instantiated: its
  condition is initialised from itself and is not copyable), the members of BlockingQueue a deque does not have, Types, copyable and noncopyable (names), the
  cookie of \<open>FixedBuffer\<close> (a function pointer nobody calls), the \<open>main\<close> functions of LoggingTest and Async, which only choose the outputs. Memory and exceptions are modelled only where the code reacts to them.
\<close>

subsection \<open>From a log statement to the disk\<close>

text \<open>
  A statement's \<open>Logger\<close> at any moment: a 4000 byte stream that is not full and a line number of type int.
\<close>

definition logger_ok :: "logger \<Rightarrow> bool" where
  "logger_ok l \<longleftrightarrow> fb_inv (lg_stream l) \<and> fb_size (lg_stream l) = kSmallBuffer \<and> - (2 ^ 31) \<le> lg_line l \<and> lg_line l < 2 ^ 31"

definition is_log_line :: "string \<Rightarrow> bool" where
  "is_log_line m \<longleftrightarrow> (\<exists>l. logger_ok l \<and> m = fst (Logger_destroy l))"

lemma is_log_line_small:
  assumes "is_log_line m"
  shows "length m < kLargeBuffer"
proof -
  obtain l where l: "logger_ok l" "m = fst (Logger_destroy l)" using assms by (auto simp: is_log_line_def)
  have "fb_inv (lg_stream (Logger_finish l)) \<and> fb_size (lg_stream (Logger_finish l)) = fb_size (lg_stream l)"
    unfolding Logger_finish_ops using l(1) by (intro conjI log_runs [THEN conjunct1] log_runs [THEN conjunct2, THEN conjunct1]) (auto simp: logger_ok_def)
  then show ?thesis
    using l by (simp add: Logger_destroy_def Let_def fb_toString_def fb_inv_def fb_length_def logger_ok_def kSmallBuffer_def kLargeBuffer_def)
qed

text \<open>The messages of an execution of the asynchronous log.\<close>

fun messages_of :: "al_action list \<Rightarrow> string list" where
  "messages_of [] = []"
| "messages_of (Al_append m # as) = m # messages_of as"
| "messages_of (_ # as) = messages_of as"

lemma appends_small: "\<forall>m\<in>set (messages_of as). length m < kLargeBuffer \<Longrightarrow> concat (map al_appends as) = concat (messages_of as)"
  by (induction as rule: messages_of.induct) (auto simp: al_appends_def kept_def)

text \<open>
  C12: From the statement to the disk: the lines that loggers give to the asynchronous log, in whatever interleaving with its thread, are durable on disk once
  its buffers are empty and its thread has flushed, in the order of the appends, each once and whole, spread over the files the thread's \<open>LogFile\<close> opened
  one after the other under different names, provided no round was overloaded and the thread gave the file what it wrote, with flushes in between. \<open>Has flushed\<close> is a flush that succeeded, and so are those
  before it and the closes of the files before (the code looks at neither result).
\<close>

theorem logged_lines_reach_disk:
  assumes "al_run as (AsyncLogging_new secs) = Inr s" and "al_no_drop as (AsyncLogging_new secs)" and "al_pending s = []"
    and "\<forall>m\<in>set (messages_of as). is_log_line m"
    and "LogFile_new env True start base rollSize False flushInterval n = Inr lf" and "0 < start" and "start < horizon"
    and "log_ops env (ops @ [Op_flush Written_out]) lf = Some (Inr lf')" and "\<forall>op\<in>set ops. op_answer op = Written_out" and "\<forall>c\<in>set (op_calls ops). call_time c < horizon"
    and "map call_text (op_calls ops) = al_written s"
    and "inj_on (gmtime_r env) {0<..<horizon}" and "\<forall>x\<in>{0<..<horizon}. tm_ok (gmtime_r env x)"
  shows "lf_durable lf' = concat (messages_of as) \<and> distinct (lf_names lf')"
proof -
  have "al_written (AsyncLogging_new secs) = []" by (simp add: AsyncLogging_new_def)
  then have "concat (al_written s) = concat (messages_of as)"
    using al_run_spec [OF AsyncLogging_new_inv(1) [of secs], of as] assms(1-4) AsyncLogging_new_inv(2) [of secs]
      appends_small is_log_line_small by auto
  moreover have "durable_inv lf" "lf_whole lf" "lf_text lf = []" using LogFile_new_durable [OF assms(5,6)] by simp_all
  then have "lf_durable lf' = concat (map call_text (op_calls ops))" using assms(9) by (rule ops_end_in_flush [OF assms(8)])
  moreover have "lf_inv env horizon lf" using LogFile_new_inv [OF assms(5-7)] by blast
  then have "lf_inv env horizon lf'" by (rule ops_inv [OF assms(8)]) (use assms(10) in \<open>simp add: op_calls_snoc\<close>)
  ultimately show ?thesis using lf_inv_names_distinct [OF _ assms(12,13)] assms(11) by simp
qed

lemma logged_lines_reach_disk_witness:
  defines "l \<equiv> \<lparr>lg_stream = \<lparr>fb_size = 4000, fb_data = ''up''\<rparr>, lg_level = INFO, lg_line = 3, lg_basename = ''a.cpp''\<rparr>"
  shows "\<exists>s lf lf'. al_run [Al_start, Al_thread [], Al_append (fst (Logger_destroy l)), Al_thread [], Al_thread []] (AsyncLogging_new 3) = Inr s
     \<and> LogFile_new january_env True 5 ''log'' 4 False 3 1024 = Inr lf
     \<and> log_ops january_env [Op_append ([15], True, Written_out, 6, 6, fst (Logger_destroy l)), Op_flush Written_out] lf = Some (Inr lf')
     \<and> lf_durable lf' = ''up - a.cpp:3'' @ [CHR 0x0A] \<and> distinct (lf_names lf')"
proof -
  let ?m = "fst (Logger_destroy l)"
  let ?as = "[Al_start, Al_thread [], Al_append ?m, Al_thread [], Al_thread []]"
  have m: "?m = ''up - a.cpp:3'' @ [CHR 0x0A]"
    by (simp add: l_def Logger_destroy_def Let_def Logger_finish_def log_append_def log_cstr_def log_char_def fb_append_def fb_avail_def fb_length_def
        formatInteger_def kMaxNumericSize_def fb_add_def fb_toString_def convert_eq fmt_d_def dec_numeral digit_numerals)
  have line: "is_log_line ?m"
    unfolding is_log_line_def by (rule exI [of _ l]) (simp add: l_def logger_ok_def fb_inv_def fb_length_def kSmallBuffer_def)
  obtain s where s: "al_run ?as (AsyncLogging_new 3) = Inr s" "al_no_drop ?as (AsyncLogging_new 3)" "al_pending s = []" "al_written s = [?m]"
    unfolding m
    by (simp add: al_start_def al_append_def AsyncLogging_new_def fb_avail_def large_buffer_def FixedBuffer_new_def fb_length_def al_drops_def
        kLargeBuffer_def fb_append_def al_thread_begin_def al_enter_def spare_def al_wake_def al_swap_def al_write_def take_back_def al_pending_def)
  obtain lf where lf: "LogFile_new january_env True 5 ''log'' 4 False 3 1024 = Inr lf"
    by (simp add: LogFile_new_def rollFile_def AppendFile_new_def)
  obtain lf' where run: "log_ops january_env ([Op_append ([15], True, Written_out, 6, 6, ?m)] @ [Op_flush Written_out]) lf = Some (Inr lf')"
    using lf unfolding m
    by (auto simp: LogFile_new_def rollFile_def AppendFile_new_def file_reset_def LogFile_append_unlocked append_unlocked_def lf_names_def lf_files_def closed_file_def
        AppendFile_append_def file_write_def maybe_roll_def writtenBytes_def Let_def LogFile_flush_def file_flush_def)
  have "lf_durable lf' = concat (messages_of ?as) \<and> distinct (lf_names lf')"
    by (rule logged_lines_reach_disk [OF s(1-3) _ lf _ _ run, of 2678400])
      (use s(4) line january_inj january_ok in \<open>simp_all add: call_time_def call_text_def january_env_def\<close>)
  then show ?thesis using s(1) lf run m by auto
qed

end
